(* ===== verification/Prelude.thy ===== *)
theory Prelude
  imports Main "HOL-Library.Word" "HOL-Library.Monad_Syntax"
begin

text \<open>
  Shared vocabulary of the development: the named collections of rules that the component
  theories feed, the type abbreviations for the machine integers and pointers of the C++
  sources, and the generic facts on lists, options and words that several components use.
\<close>

named_theorems b3_simps \<open>unfolding rules for the one-line accessors of the IR\<close>
named_theorems b3_eval \<open>equations that evaluate a B3 operation on concrete operands\<close>
named_theorems wf_intros \<open>introduction rules for the well-formedness invariants\<close>

unbundle bit_operations_syntax

subsection \<open>Machine types\<close>

text \<open>
  \<open>int32_t\<close> and \<open>int64_t\<close> are words read with \<^const>\<open>sint\<close>; \<open>unsigned\<close>, \<open>uint32_t\<close> and
  \<open>uint64_t\<close> are the same words read with \<^const>\<open>uint\<close>. A \<open>Value*\<close> is the index of the value in
  the procedure that owns it and a \<open>BasicBlock*\<close> the identity of the block it points to.
\<close>

type_synonym int32 = "32 word"
type_synonym int64 = "64 word"
type_synonym value_ptr = nat
type_synonym block_ptr = nat

subsection \<open>Reading a list by index\<close>

definition at :: "'a list \<Rightarrow> nat \<Rightarrow> 'a option" where
  "at xs i = (if i < length xs then Some (xs ! i) else None)"

lemma at_Some_iff: "at xs i = Some x \<longleftrightarrow> i < length xs \<and> xs ! i = x"
  by (auto simp: at_def)

lemma at_None_iff: "at xs i = None \<longleftrightarrow> length xs \<le> i"
  by (auto simp: at_def)

lemma at_update: "at (xs[i := x]) j = (if j = i \<and> i < length xs then Some x else at xs j)"
  by (auto simp: at_def nth_list_update)

lemma at_Cons_0 [simp]: "at (x # xs) 0 = Some x"
  by (simp add: at_def)

lemma at_Cons_Suc [simp]: "at (x # xs) (Suc i) = at xs i"
  by (simp add: at_def)

lemma at_Cons_1 [simp]: "at (x # xs) 1 = at xs 0"
  by (simp add: at_def)

lemma at_Nil [simp]: "at [] i = None"
  by (simp add: at_def)

lemma at_append: "at (xs @ ys) i = (if i < length xs then at xs i else at ys (i - length xs))"
  by (auto simp: at_def nth_append)

lemma at_in_set: "at xs i = Some x \<Longrightarrow> x \<in> set xs"
  by (auto simp: at_Some_iff)

lemma at_map: "at (map f xs) i = map_option f (at xs i)"
  by (simp add: at_def)

subsection \<open>Signed readings of words\<close>

lemma sint_range32: "- (2 ^ 31) \<le> sint (w :: int32)" "sint (w :: int32) < 2 ^ 31"
  using sint_ge [of w] sint_lt [of w] by simp_all

lemma sint_range64: "- (2 ^ 63) \<le> sint (w :: int64)" "sint (w :: int64) < 2 ^ 63"
  using sint_ge [of w] sint_lt [of w] by simp_all

lemma sint_inject: "sint (a :: 'a::len word) = sint b \<longleftrightarrow> a = b"
  by (auto intro: signed_word_eqI)

subsection \<open>Loops that may crash\<close>

text \<open>A loop over the elements of a list whose body returns \<^term>\<open>None\<close> where the source crashes.\<close>

fun foldM :: "('a \<Rightarrow> 's \<Rightarrow> 's option) \<Rightarrow> 'a list \<Rightarrow> 's \<Rightarrow> 's option" where
  "foldM f [] s = Some s"
| "foldM f (x # xs) s = (case f x s of None \<Rightarrow> None | Some s' \<Rightarrow> foldM f xs s')"

lemma foldM_append: "foldM f (xs @ ys) s = Option.bind (foldM f xs s) (foldM f ys)"
  by (induction xs arbitrary: s) (auto split: option.splits)

text \<open>An invariant that every iteration keeps, with the iteration not crashing, holds at the end.\<close>

lemma foldM_invariant:
  assumes "I [] s"
    and "\<And>ys x zs s. xs = ys @ x # zs \<Longrightarrow> I ys s \<Longrightarrow> \<exists>s'. f x s = Some s' \<and> I (ys @ [x]) s'"
  shows "\<exists>s'. foldM f xs s = Some s' \<and> I xs s'"
  using assms
proof (induction xs rule: rev_induct)
  case (snoc x xs)
  have "\<exists>s'. foldM f xs s = Some s' \<and> I xs s'"
    using snoc.prems(1) by (intro snoc.IH) (use snoc.prems(2) in fastforce)+
  then obtain s1 where s1: "foldM f xs s = Some s1" "I xs s1" by blast
  then show ?case using snoc.prems(2) [of xs x "[]" s1] by (auto simp: foldM_append)
qed simp

end
