(* ===== verification/WtfSort.thy ===== *)
theory WtfSort
  imports Prelude "HOL-Library.Multiset"
begin

text \<open>
  The two WTF algorithms behind every B3 insertion set: \<open>bubbleSort\<close> (wtf/BubbleSort.h), which
  orders the pending insertions, and \<open>executeInsertions\<close> (wtf/Insertion.h), which splices them
  into the target vector in place. Both are modelled on arrays with explicit indices, and both
  are proved equal to a reference definition: the library's stable sort, and the target with
  every element preceded by the elements inserted at its index.
\<close>

subsection \<open>Bubble sort\<close>

definition compareAndSwap :: "('a \<Rightarrow> 'a \<Rightarrow> bool) \<Rightarrow> nat \<Rightarrow> 'a list \<times> bool \<Rightarrow> 'a list \<times> bool" where
  "compareAndSwap lt k = (\<lambda>(xs, changed).
     if lt (xs ! k) (xs ! (k - 1))
     then (xs[k := xs ! (k - 1), k - 1 := xs ! k], True)
     else (xs, changed))"

text \<open>The loop \<open>for (size_t i = limit; i-- > 1;)\<close> over the slice that starts at \<open>begin\<close>.\<close>

fun bubbleDown :: "('a \<Rightarrow> 'a \<Rightarrow> bool) \<Rightarrow> nat \<Rightarrow> nat \<Rightarrow> 'a list \<times> bool \<Rightarrow> 'a list \<times> bool" where
  "bubbleDown lt begin 0 s = s"
| "bubbleDown lt begin (Suc i) s =
     (if Suc i > 1 then bubbleDown lt begin i (compareAndSwap lt (begin + i) s) else s)"

text \<open>The loop \<open>for (size_t i = 1; i < limit; ++i)\<close>.\<close>

function bubbleUp ::
    "('a \<Rightarrow> 'a \<Rightarrow> bool) \<Rightarrow> nat \<Rightarrow> nat \<Rightarrow> nat \<Rightarrow> 'a list \<times> bool \<Rightarrow> 'a list \<times> bool" where
  "bubbleUp lt begin limit i s =
     (if i < limit
      then bubbleUp lt begin limit (i + 1) (compareAndSwap lt (begin + i) s)
      else s)"
  by pat_completeness auto
termination
  by (relation "measure (\<lambda>(_, _, limit, i, _). limit - i)") auto

declare bubbleUp.simps [simp del]

lemma bubbleDown_None: "snd (bubbleDown lt b 0 (xs, False)) = False"
  by simp

function bubbleSortLoop :: "('a \<Rightarrow> 'a \<Rightarrow> bool) \<Rightarrow> nat \<Rightarrow> nat \<Rightarrow> 'a list \<Rightarrow> 'a list" where
  "bubbleSortLoop lt begin end0 xs =
     (case bubbleDown lt begin (end0 - begin) (xs, False) of (xs1, changed1) \<Rightarrow>
        if \<not> changed1 then xs1
        else (case bubbleUp lt (begin + 1) (end0 - (begin + 1)) 1 (xs1, False) of
                (xs2, changed2) \<Rightarrow>
                  if \<not> changed2 then xs2
                  else bubbleSortLoop lt (begin + 1) (end0 - 1) xs2))"
  by pat_completeness auto
termination
proof (relation "measure (\<lambda>(_, begin, end0, _). end0 - begin)", goal_cases)
  case (2 lt b e xs)
  then have "e - b \<noteq> 0" by (cases "e - b") auto
  then show ?case by simp
qed simp

declare bubbleSortLoop.simps [simp del]

definition bubbleSort :: "('a \<Rightarrow> 'a \<Rightarrow> bool) \<Rightarrow> 'a list \<Rightarrow> 'a list" where
  "bubbleSort lt xs = bubbleSortLoop lt 0 (length xs) xs"

text \<open>
  One comparison keeps the length, moves nothing outside the two slots, orders those two slots
  and never reorders elements of equal keys.
\<close>

lemma swap_decomp:
  assumes "Suc j < length xs"
  shows "xs = take j xs @ xs ! j # xs ! Suc j # drop (Suc (Suc j)) xs"
    and "xs[Suc j := xs ! j, j := xs ! Suc j]
           = take j xs @ xs ! Suc j # xs ! j # drop (Suc (Suc j)) xs"
proof -
  show d: "xs = take j xs @ xs ! j # xs ! Suc j # drop (Suc (Suc j)) xs"
    using assms by (metis Cons_nth_drop_Suc Suc_lessD append_take_drop_id)
  show "xs[Suc j := xs ! j, j := xs ! Suc j]
           = take j xs @ xs ! Suc j # xs ! j # drop (Suc (Suc j)) xs"
  proof (intro nth_equalityI)
    fix i assume "i < length (xs[Suc j := xs ! j, j := xs ! Suc j])"
    moreover have "i = Suc (Suc (j + m))" if "i - j = Suc (Suc m)" for m using that by simp
    ultimately show "xs[Suc j := xs ! j, j := xs ! Suc j] ! i
        = (take j xs @ xs ! Suc j # xs ! j # drop (Suc (Suc j)) xs) ! i"
      using assms by (auto simp: nth_append nth_Cons nth_list_update split: nat.splits)
  qed (use assms in simp)
qed

lemma cas_length [simp]: "length (fst (compareAndSwap lt k s)) = length (fst s)"
  by (cases s) (simp add: compareAndSwap_def)

lemma cas_filter:
  fixes key :: "'a \<Rightarrow> 'k::linorder"
  assumes "0 < k" "k < length (fst s)"
  shows "filter (\<lambda>x. key x = c) (fst (compareAndSwap (\<lambda>a b. key a < key b) k s))
           = filter (\<lambda>x. key x = c) (fst s)"
proof -
  obtain xs b where s: "s = (xs, b)" by (cases s)
  obtain j where k: "k = Suc j" using assms by (cases k) auto
  have j: "Suc j < length xs" using assms s k by simp
  show ?thesis
  proof (cases "key (xs ! Suc j) < key (xs ! j)")
    case True
    have "filter (\<lambda>x. key x = c) (xs[Suc j := xs ! j, j := xs ! Suc j])
        = filter (\<lambda>x. key x = c) (take j xs @ xs ! j # xs ! Suc j # drop (Suc (Suc j)) xs)"
      using True by (auto simp: swap_decomp(2) [OF j])
    also have "\<dots> = filter (\<lambda>x. key x = c) xs"
      using swap_decomp(1) [OF j] by simp
    finally show ?thesis using True by (simp add: compareAndSwap_def s k)
  qed (simp add: compareAndSwap_def s k)
qed

lemma cas_nth:
  "0 < k \<Longrightarrow> k < length xs \<Longrightarrow>
     fst (compareAndSwap lt k (xs, c)) ! i =
       (if lt (xs ! k) (xs ! (k - 1))
        then (if i = k then xs ! (k - 1) else if i = k - 1 then xs ! k else xs ! i)
        else xs ! i)"
  by (auto simp: compareAndSwap_def nth_list_update)

text \<open>A rearrangement of the slice \<open>[b, e)\<close> that leaves equal keys in order.\<close>

definition rearranged ::
    "('a \<Rightarrow> 'k::linorder) \<Rightarrow> nat \<Rightarrow> nat \<Rightarrow> 'a list \<Rightarrow> 'a list \<Rightarrow> bool" where
  "rearranged key b e xs ys \<longleftrightarrow>
     length ys = length xs \<and> (\<forall>i. i < b \<or> e \<le> i \<longrightarrow> ys ! i = xs ! i) \<and>
     (\<forall>c. filter (\<lambda>x. key x = c) ys = filter (\<lambda>x. key x = c) xs) \<and>
     (\<forall>i. b \<le> i \<and> i < e \<longrightarrow> (\<exists>j. b \<le> j \<and> j < e \<and> ys ! i = xs ! j))"

lemma rearranged_refl [simp]: "rearranged key b e xs xs"
  by (auto simp: rearranged_def)

lemma rearranged_trans:
  "rearranged key b e xs ys \<Longrightarrow> rearranged key b e ys zs \<Longrightarrow> rearranged key b e xs zs"
  unfolding rearranged_def by (elim conjE, intro conjI; metis)

lemma rearranged_mono:
  assumes "rearranged key b e xs ys" "b' \<le> b" "e \<le> e'"
  shows "rearranged key b' e' xs ys"
proof -
  have "\<exists>j. b' \<le> j \<and> j < e' \<and> ys ! i = xs ! j" if "b' \<le> i" "i < e'" for i
  proof (cases "b \<le> i \<and> i < e")
    case True
    then obtain j where "b \<le> j" "j < e" "ys ! i = xs ! j" using assms(1) by (auto simp: rearranged_def)
    then show ?thesis using assms(2,3) by (intro exI [of _ j]) simp
  next
    case False
    then have "ys ! i = xs ! i" using assms(1) by (auto simp: rearranged_def not_less)
    then show ?thesis using that by blast
  qed
  then show ?thesis using assms unfolding rearranged_def by auto
qed

lemma rearranged_cas:
  assumes "b < k" "k < e" "e \<le> length (fst s)"
  shows "rearranged key b e (fst s) (fst (compareAndSwap (\<lambda>x y. key x < key y) k s))"
proof -
  obtain xs c where s: "s = (xs, c)" by (cases s)
  have "\<exists>j. b \<le> j \<and> j < e \<and> fst (compareAndSwap (\<lambda>x y. key x < key y) k s) ! i = xs ! j"
    if "b \<le> i" "i < e" for i
    using assms that
    by (cases "i = k \<or> i = k - 1") (auto simp: s cas_nth intro: exI [of _ k] exI [of _ "k - 1"])
  then show ?thesis
    using assms by (auto simp: rearranged_def s cas_filter cas_nth)
qed

lemma bubbleDown_rearranged:
  "b + i \<le> e \<Longrightarrow> e \<le> length (fst s) \<Longrightarrow>
     rearranged key b e (fst s) (fst (bubbleDown (\<lambda>x y. key x < key y) b i s))"
proof (induction i arbitrary: s)
  case (Suc i)
  show ?case
  proof (cases "Suc i > 1")
    case True
    let ?s = "compareAndSwap (\<lambda>x y. key x < key y) (b + i) s"
    have "rearranged key b e (fst s) (fst ?s)"
      using Suc.prems True by (intro rearranged_cas) auto
    moreover have "rearranged key b e (fst ?s) (fst (bubbleDown (\<lambda>x y. key x < key y) b i ?s))"
      using Suc.prems by (intro Suc.IH) auto
    ultimately show ?thesis using True by (auto intro: rearranged_trans)
  qed simp
qed simp

lemma bubbleUp_rearranged:
  "0 < i \<Longrightarrow> b + limit \<le> e \<Longrightarrow> e \<le> length (fst s) \<Longrightarrow>
     rearranged key b e (fst s) (fst (bubbleUp (\<lambda>x y. key x < key y) b limit i s))"
proof (induction "(\<lambda>x y. key x < key y)" b limit i s rule: bubbleUp.induct)
  case (1 b limit i s)
  show ?case
  proof (cases "i < limit")
    case True
    let ?s = "compareAndSwap (\<lambda>x y. key x < key y) (b + i) s"
    have "rearranged key b e (fst s) (fst ?s)"
      using "1.prems" True by (intro rearranged_cas) auto
    moreover have
      "rearranged key b e (fst ?s) (fst (bubbleUp (\<lambda>x y. key x < key y) b limit (i + 1) ?s))"
      using "1.prems" True by (intro "1.hyps") auto
    ultimately show ?thesis
      using True by (subst bubbleUp.simps) (auto intro: rearranged_trans)
  next
    case False
    then show ?thesis by (subst bubbleUp.simps) simp
  qed
qed

lemma bubbleDown_length [simp]: "length (fst (bubbleDown lt b i s)) = length (fst s)"
  by (induction i arbitrary: s) auto

lemma bubbleDown_min:
  fixes key :: "'a \<Rightarrow> 'k::linorder"
  assumes "0 < i" "b + i \<le> e" "e \<le> length (fst s)"
    and "\<forall>j. b + i - 1 \<le> j \<and> j < e \<longrightarrow> key (fst s ! (b + i - 1)) \<le> key (fst s ! j)"
    and "b \<le> j" "j < e"
  shows "key (fst (bubbleDown (\<lambda>x y. key x < key y) b i s) ! b)
           \<le> key (fst (bubbleDown (\<lambda>x y. key x < key y) b i s) ! j)"
  using assms
proof (induction i arbitrary: s)
  case (Suc i)
  show ?case
  proof (cases i)
    case (Suc m)
    let ?s = "compareAndSwap (\<lambda>x y. key x < key y) (b + i) s"
    obtain xs c where s: "s = (xs, c)" by (cases s)
    have "\<forall>j. b + i - 1 \<le> j \<and> j < e \<longrightarrow> key (fst ?s ! (b + i - 1)) \<le> key (fst ?s ! j)"
    proof (intro allI impI)
      fix j assume j: "b + i - 1 \<le> j \<and> j < e"
      have m: "\<forall>j. b + i \<le> j \<and> j < e \<longrightarrow> key (xs ! (b + i)) \<le> key (xs ! j)"
        using Suc.prems(4) s by simp
      have "j = b + i - 1 \<or> j = b + i \<or> b + i < j" using j by arith
      then show "key (fst ?s ! (b + i - 1)) \<le> key (fst ?s ! j)"
        using m Suc Suc.prems(2,3) j by (auto simp: s cas_nth not_less intro: order_trans)
    qed
    then show ?thesis using Suc.IH [of ?s] Suc.prems Suc by simp
  qed (use Suc.prems in auto)
qed simp

lemma bubbleUp_max:
  fixes key :: "'a \<Rightarrow> 'k::linorder"
  assumes "0 < i" "i \<le> limit" "b + limit = e" "e \<le> length (fst s)"
    and "\<forall>j. b \<le> j \<and> j < b + i \<longrightarrow> key (fst s ! j) \<le> key (fst s ! (b + i - 1))"
    and "b \<le> j" "j < e"
  shows "key (fst (bubbleUp (\<lambda>x y. key x < key y) b limit i s) ! j)
           \<le> key (fst (bubbleUp (\<lambda>x y. key x < key y) b limit i s) ! (e - 1))"
  using assms
proof (induction "(\<lambda>x y. key x < key y)" b limit i s rule: bubbleUp.induct)
  case (1 b limit i s)
  show ?case
  proof (cases "i < limit")
    case True
    let ?s = "compareAndSwap (\<lambda>x y. key x < key y) (b + i) s"
    obtain xs c where s: "s = (xs, c)" by (cases s)
    have "\<forall>j. b \<le> j \<and> j < b + (i + 1) \<longrightarrow> key (fst ?s ! j) \<le> key (fst ?s ! (b + (i + 1) - 1))"
    proof (intro allI impI)
      fix j assume j: "b \<le> j \<and> j < b + (i + 1)"
      have m: "\<forall>j. b \<le> j \<and> j < b + i \<longrightarrow> key (xs ! j) \<le> key (xs ! (b + i - 1))"
        using "1.prems"(5) s by simp
      have "j = b + i - 1 \<or> j = b + i \<or> j < b + i - 1" using j by arith
      then show "key (fst ?s ! j) \<le> key (fst ?s ! (b + (i + 1) - 1))"
        using m True "1.prems"(1,3,4) j by (auto simp: s cas_nth not_less intro: order_trans)
    qed
    then show ?thesis
      using "1.hyps" [OF True] "1.prems" True by (subst (1 2) bubbleUp.simps) simp
  next
    case False
    then show ?thesis using "1.prems" by (subst (1 2) bubbleUp.simps) auto
  qed
qed

text \<open>A pass that changed nothing has seen every adjacent pair of the slice in order.\<close>

lemma bubbleDown_unchanged:
  assumes "\<not> snd (bubbleDown lt b i s)"
  shows "bubbleDown lt b i s = s \<and> \<not> snd s \<and>
         (\<forall>k. b < k \<and> k < b + i \<longrightarrow> \<not> lt (fst s ! k) (fst s ! (k - 1)))"
  using assms
proof (induction i arbitrary: s)
  case (Suc i)
  show ?case
  proof (cases "Suc i > 1")
    case True
    let ?s = "compareAndSwap lt (b + i) s"
    obtain xs c where s: "s = (xs, c)" by (cases s)
    have IH: "bubbleDown lt b i ?s = ?s \<and> \<not> snd ?s \<and>
         (\<forall>k. b < k \<and> k < b + i \<longrightarrow> \<not> lt (fst ?s ! k) (fst ?s ! (k - 1)))"
      using Suc.IH [of ?s] Suc.prems True by simp
    then have "?s = s" and "\<not> lt (xs ! (b + i)) (xs ! (b + i - 1))"
      by (auto simp: compareAndSwap_def s split: if_splits)
    then show ?thesis using IH True by (auto simp: s less_Suc_eq)
  qed (use Suc.prems in auto)
qed auto

lemma bubbleUp_unchanged:
  assumes "\<not> snd (bubbleUp lt b limit i s)"
  shows "bubbleUp lt b limit i s = s \<and> \<not> snd s \<and>
         (\<forall>k. b + i \<le> k \<and> k < b + limit \<longrightarrow> \<not> lt (fst s ! k) (fst s ! (k - 1)))"
  using assms
proof (induction lt b limit i s rule: bubbleUp.induct)
  case (1 lt b limit i s)
  show ?case
  proof (cases "i < limit")
    case True
    let ?s = "compareAndSwap lt (b + i) s"
    obtain xs c where s: "s = (xs, c)" by (cases s)
    have u: "bubbleUp lt b limit i s = bubbleUp lt b limit (i + 1) ?s"
      using True by (subst bubbleUp.simps) simp
    have IH: "bubbleUp lt b limit (i + 1) ?s = ?s \<and> \<not> snd ?s \<and>
         (\<forall>k. b + (i + 1) \<le> k \<and> k < b + limit \<longrightarrow> \<not> lt (fst ?s ! k) (fst ?s ! (k - 1)))"
      using "1.IH" [OF True] "1.prems" u by simp
    then have e: "?s = s" and n: "\<not> lt (xs ! (b + i)) (xs ! (b + i - 1))"
      by (auto simp: compareAndSwap_def s split: if_splits)
    have "\<not> lt (fst s ! k) (fst s ! (k - 1))" if "b + i \<le> k" "k < b + limit" for k
      using that IH n e by (cases "k = b + i") (auto simp: s)
    then show ?thesis using IH e by (simp add: u)
  next
    case False
    then show ?thesis using "1.prems" by (auto simp: bubbleUp.simps [of lt b limit i s])
  qed
qed

text \<open>
  The invariant of the outer loop: everything before the slice is already in its final place,
  and so is everything after it.
\<close>

definition sliceInv :: "('a \<Rightarrow> 'k::linorder) \<Rightarrow> nat \<Rightarrow> nat \<Rightarrow> 'a list \<Rightarrow> bool" where
  "sliceInv key b e xs \<longleftrightarrow>
     e \<le> length xs \<and>
     (\<forall>i j. i < b \<and> i < j \<and> j < length xs \<longrightarrow> key (xs ! i) \<le> key (xs ! j)) \<and>
     (\<forall>i j. e \<le> j \<and> i < j \<and> j < length xs \<longrightarrow> key (xs ! i) \<le> key (xs ! j))"

lemma sliceInv_rearranged:
  assumes "sliceInv key b e xs" "rearranged key b e xs ys"
  shows "sliceInv key b e ys"
proof -
  have ex: "\<exists>j. ys ! i = xs ! j \<and> (if b \<le> i \<and> i < e then b \<le> j \<and> j < e else j = i)" for i
  proof (cases "b \<le> i \<and> i < e")
    case False
    then have "i < b \<or> e \<le> i" by linarith
    then show ?thesis using assms(2) False by (auto simp: rearranged_def)
  qed (use assms(2) in \<open>auto simp: rearranged_def\<close>)
  have len: "length ys = length xs" and e: "e \<le> length xs"
    using assms by (auto simp: rearranged_def sliceInv_def)
  have "key (ys ! i) \<le> key (ys ! j)"
    if ij: "i < b \<or> e \<le> j" "i < j" "j < length ys" for i j
  proof -
    obtain i' j' where i': "ys ! i = xs ! i'" "if b \<le> i \<and> i < e then b \<le> i' \<and> i' < e else i' = i"
      and j': "ys ! j = xs ! j'" "if b \<le> j \<and> j < e then b \<le> j' \<and> j' < e else j' = j"
      using ex by metis
    have "i' < b \<or> e \<le> j'" "i' < j'" "j' < length xs"
      using i'(2) j'(2) ij len e by (auto split: if_splits)
    then show ?thesis using assms(1) i'(1) j'(1) by (auto simp: sliceInv_def)
  qed
  then show ?thesis using len e by (auto simp: sliceInv_def)
qed

lemma sliceInv_sorted:
  assumes "sliceInv key b e xs" "\<forall>k. b < k \<and> k < e \<longrightarrow> \<not> key (xs ! k) < key (xs ! (k - 1))"
  shows "sorted (map key xs)"
proof -
  have "key (xs ! i) \<le> key (xs ! Suc i)" if "Suc i < length xs" for i
  proof (cases "b \<le> i \<and> Suc i < e")
    case True
    then show ?thesis using assms(2) [rule_format, of "Suc i"] by simp
  qed (use assms(1) that in \<open>auto simp: sliceInv_def\<close>)
  then show ?thesis by (simp add: sorted_iff_nth_Suc)
qed

text \<open>A pass that changed something: the minimum is in front after the one down, the maximum at the end after the one up.\<close>

lemma bubbleDown_pass:
  fixes key :: "'a \<Rightarrow> 'k::linorder"
  assumes inv: "sliceInv key b e xs" and d: "bubbleDown (\<lambda>x y. key x < key y) b (e - b) (xs, False) = (xs1, True)"
  shows "b < e" "rearranged key b e xs xs1" "sliceInv key (b + 1) e xs1"
proof -
  show be: "b < e" using d by (cases "e - b") auto
  have el: "e \<le> length xs" using inv by (simp add: sliceInv_def)
  show r1: "rearranged key b e xs xs1"
    using bubbleDown_rearranged [of b "e - b" e "(xs, False)" key] be el d by simp
  have "\<forall>j. b \<le> j \<and> j < e \<longrightarrow> key (xs1 ! b) \<le> key (xs1 ! j)"
  proof (intro allI impI)
    fix j assume "b \<le> j \<and> j < e"
    moreover have "\<forall>j. b + (e - b) - 1 \<le> j \<and> j < e \<longrightarrow>
        key (fst (xs, False) ! (b + (e - b) - 1)) \<le> key (fst (xs, False) ! j)"
      using be by (auto dest!: le_antisym [rotated])
    ultimately show "key (xs1 ! b) \<le> key (xs1 ! j)"
      using bubbleDown_min [of "e - b" b e "(xs, False)" key j] be el d by simp
  qed
  then show "sliceInv key (b + 1) e xs1"
    using sliceInv_rearranged [OF inv r1] be
    unfolding sliceInv_def by (metis Suc_eq_plus1 leI less_Suc_eq less_or_eq_imp_le)
qed

lemma bubbleUp_pass:
  fixes key :: "'a \<Rightarrow> 'k::linorder"
  assumes inv: "sliceInv key b e xs" and be: "b \<le> e" and u: "bubbleUp (\<lambda>x y. key x < key y) b (e - b) 1 (xs, False) = (xs1, c)"
  shows "rearranged key b e xs xs1" "sliceInv key b e xs1" "c \<Longrightarrow> sliceInv key b (e - 1) xs1"
proof -
  have el: "e \<le> length xs" using inv by (simp add: sliceInv_def)
  show r: "rearranged key b e xs xs1"
    using bubbleUp_rearranged [of 1 b "e - b" e "(xs, False)" key] be el u by simp
  show inv1: "sliceInv key b e xs1" by (rule sliceInv_rearranged [OF inv r])
  assume c
  then have lim: "1 < e - b"
    using u bubbleUp.simps [of "\<lambda>x y. key x < key y" b "e - b" 1 "(xs, False)"] by (auto split: if_splits)
  have mx: "\<forall>j. b \<le> j \<and> j < e \<longrightarrow> key (xs1 ! j) \<le> key (xs1 ! (e - 1))"
  proof (intro allI impI)
    fix j assume "b \<le> j \<and> j < e"
    moreover have "\<forall>j. b \<le> j \<and> j < b + 1 \<longrightarrow> key (fst (xs, False) ! j) \<le> key (fst (xs, False) ! (b + 1 - 1))"
      by (auto simp: le_less_Suc_eq)
    ultimately show "key (xs1 ! j) \<le> key (xs1 ! (e - 1))"
      using bubbleUp_max [of 1 "e - b" b e "(xs, False)" key j] lim el u by simp
  qed
  have "key (xs1 ! i) \<le> key (xs1 ! j)" if ij: "e - 1 \<le> j" "i < j" "j < length xs1" for i j
  proof (cases "e \<le> j")
    case False
    then have "j = e - 1" using ij(1) by simp
    then show ?thesis using inv1 mx ij by (cases "i < b") (auto simp: sliceInv_def)
  qed (use inv1 ij in \<open>auto simp: sliceInv_def\<close>)
  then show "sliceInv key b (e - 1) xs1" using inv1 by (auto simp: sliceInv_def)
qed

lemma bubbleSortLoop_sorts:
  fixes key :: "'a \<Rightarrow> 'k::linorder"
  assumes "sliceInv key b e xs"
  shows "sorted (map key (bubbleSortLoop (\<lambda>x y. key x < key y) b e xs)) \<and>
         rearranged key 0 (length xs) xs (bubbleSortLoop (\<lambda>x y. key x < key y) b e xs)"
  using assms
proof (induction "(\<lambda>x y. key x < key y)" b e xs rule: bubbleSortLoop.induct)
  case (1 b e xs)
  let ?lt = "\<lambda>x y. key x < key y"
  obtain xs1 c1 where d: "bubbleDown ?lt b (e - b) (xs, False) = (xs1, c1)" by fastforce
  show ?case
  proof (cases c1)
    case False
    then have "xs1 = xs" "\<forall>k. b < k \<and> k < b + (e - b) \<longrightarrow> \<not> key (xs ! k) < key (xs ! (k - 1))"
      using bubbleDown_unchanged [of ?lt b "e - b" "(xs, False)"] d by auto
    then show ?thesis
      using False "1.prems" d by (subst (1 2) bubbleSortLoop.simps) (auto intro: sliceInv_sorted)
  next
    case True
    then have "bubbleDown ?lt b (e - b) (xs, False) = (xs1, True)" using d by simp
    note D = bubbleDown_pass [OF "1.prems" this]
    obtain xs2 c2 where u: "bubbleUp ?lt (b + 1) (e - (b + 1)) 1 (xs1, False) = (xs2, c2)" by fastforce
    have be: "b + 1 \<le> e" "e \<le> length xs" using D(1) "1.prems" by (simp_all add: sliceInv_def)
    note U = bubbleUp_pass [OF D(3) be(1) u]
    have len1: "length xs1 = length xs" using D(2) by (simp add: rearranged_def)
    have r: "rearranged key 0 (length xs) xs xs2"
      using rearranged_trans [OF rearranged_mono [OF D(2), of 0 "length xs"] rearranged_mono [OF U(1), of 0 "length xs"]] be(2) by simp
    show ?thesis
    proof (cases c2)
      case False
      then have "xs2 = xs1" and "\<forall>k. b + 1 < k \<and> k < e \<longrightarrow> \<not> key (xs1 ! k) < key (xs1 ! (k - 1))"
        using bubbleUp_unchanged [of ?lt "b + 1" "e - (b + 1)" 1 "(xs1, False)"] u by auto
      then have "sorted (map key xs2)" using U(2) by (auto intro: sliceInv_sorted)
      then show ?thesis using True False d u r by (subst (1 2) bubbleSortLoop.simps) simp
    next
      case c2: True
      have "sorted (map key (bubbleSortLoop ?lt (b + 1) (e - 1) xs2)) \<and>
          rearranged key 0 (length xs2) xs2 (bubbleSortLoop ?lt (b + 1) (e - 1) xs2)"
        using "1.hyps" d u True c2 U(3) [OF c2] by simp
      moreover have "length xs2 = length xs" using r by (simp add: rearranged_def)
      ultimately show ?thesis
        using True c2 d u r by (subst (1 2) bubbleSortLoop.simps) (auto intro: rearranged_trans)
    qed
  qed
qed

theorem bubbleSort_sort_key:
  "bubbleSort (\<lambda>x y. key x < key y) xs = sort_key key xs"
proof -
  let ?ys = "bubbleSort (\<lambda>x y. key x < key y) xs"
  have "sliceInv key 0 (length xs) xs" by (auto simp: sliceInv_def)
  then have s: "sorted (map key ?ys)" and r: "rearranged key 0 (length xs) xs ?ys"
    using bubbleSortLoop_sorts by (auto simp: bubbleSort_def)
  have f: "filter (\<lambda>x. key x = c) ?ys = filter (\<lambda>x. key x = c) xs" for c
    using r by (simp add: rearranged_def)
  have "count (mset ?ys) x = count (mset xs) x" for x
    using arg_cong [OF f [of "key x"], of "\<lambda>l. count (mset l) x"] by simp
  then have "mset ?ys = mset xs" by (rule multiset_eqI)
  then show ?thesis
    using s f by (intro properties_for_sort_key [symmetric]) (auto simp: eq_commute)
qed

subsection \<open>Executing insertions\<close>

text \<open>
  The vector grows by the number of insertions; a slot that holds no element yet is
  \<^term>\<open>None\<close>. The inner loop \<open>for (size_t i = lastIndex; --i > firstIndex;)\<close> shifts the
  elements after the insertion point.
\<close>

fun moveUp :: "'a option list \<Rightarrow> nat \<Rightarrow> nat \<Rightarrow> nat \<Rightarrow> 'a option list" where
  "moveUp target 0 firstIndex indexOffset = target"
| "moveUp target (Suc i) firstIndex indexOffset =
     (if i > firstIndex
      then moveUp (target[i := target ! (i - indexOffset)]) i firstIndex indexOffset
      else target)"

text \<open>One turn of the outer loop, for the insertion number \<open>indexInInsertions\<close>.\<close>

definition insertOne ::
    "(nat \<times> 'a) list \<Rightarrow> nat \<Rightarrow> 'a option list \<times> nat \<Rightarrow> 'a option list \<times> nat" where
  "insertOne insertions indexInInsertions = (\<lambda>(target, lastIndex).
     let firstIndex = fst (insertions ! indexInInsertions) + indexInInsertions;
         indexOffset = indexInInsertions + 1;
         target' = moveUp target lastIndex firstIndex indexOffset
     in (target'[firstIndex := Some (snd (insertions ! indexInInsertions))], firstIndex))"

fun insertLoop ::
    "(nat \<times> 'a) list \<Rightarrow> nat \<Rightarrow> 'a option list \<times> nat \<Rightarrow> 'a option list \<times> nat" where
  "insertLoop insertions 0 s = s"
| "insertLoop insertions (Suc k) s = insertLoop insertions k (insertOne insertions k s)"

definition executeInsertions :: "'a list \<Rightarrow> (nat \<times> 'a) list \<Rightarrow> 'a option list" where
  "executeInsertions target insertions =
     (if insertions = [] then map Some target
      else fst (insertLoop insertions (length insertions)
             (map Some target @ replicate (length insertions) None,
              length target + length insertions)))"

text \<open>
  The reference definition: every element of the target, and the end of it, preceded by the
  elements inserted at its index, in the order of the insertion list.
\<close>

definition spliced :: "'a list \<Rightarrow> (nat \<times> 'a) list \<Rightarrow> 'a list" where
  "spliced target insertions =
     concat (map (\<lambda>i. map snd (filter (\<lambda>p. fst p = i) insertions) @ take 1 (drop i target))
               [0..<length target + 1])"

lemma moveUp_length [simp]: "length (moveUp t i f d) = length t"
  by (induction t i f d rule: moveUp.induct) auto

lemma moveUp_nth:
  assumes "0 < d" "d \<le> f + 1" "i \<le> length t"
  shows "moveUp t i f d ! k = (if f < k \<and> k < i then t ! (k - d) else t ! k)"
  using assms
proof (induction t i f d rule: moveUp.induct)
  case (2 t i f d)
  show ?case
  proof (cases "i > f")
    case True
    have "moveUp (t[i := t ! (i - d)]) i f d ! k
        = (if f < k \<and> k < i then t[i := t ! (i - d)] ! (k - d) else t[i := t ! (i - d)] ! k)"
      using "2.IH" [OF True] "2.prems" by simp
    also have "\<dots> = (if f < k \<and> k < Suc i then t ! (k - d) else t ! k)"
      using True "2.prems" by (auto simp: nth_list_update)
    finally show ?thesis using True by simp
  qed auto
qed auto

lemma insertLoop_append:
  assumes "k \<le> length ins"
  shows "insertLoop (ins @ more) k s = insertLoop ins k s"
  using assms
proof (induction k arbitrary: s)
  case (Suc k)
  then show ?case by (simp add: insertOne_def nth_append)
qed simp

text \<open>
  One turn on an array whose region up to \<open>lastIndex\<close> still holds the first elements of the
  target and the free slots: it settles the tail and leaves a shorter region of the same shape.
\<close>

lemma insertOne_region:
  assumes j: "j \<le> length t" and k: "ins ! k = (j, x)" and l: "length junk = Suc k"
  shows "insertOne ins k (map Some t @ junk @ rest, length t + Suc k)
           = (map Some (take j t) @ take k (drop j (map Some t @ junk)) @
                Some x # map Some (drop j t) @ rest, j + k)"
proof -
  let ?a = "map Some t @ junk @ rest"
  have "(moveUp ?a (length t + Suc k) (j + k) (Suc k))[j + k := Some x]
      = map Some (take j t) @ take k (drop j (map Some t @ junk)) @ Some x # map Some (drop j t) @ rest"
    (is "?l = ?r")
  proof (rule nth_equalityI)
    have len: "length (take k (drop j (map Some t @ junk))) = k" using j l by (auto simp: min_def)
    show eq: "length ?l = length ?r" using j l len by simp
    fix p assume p: "p < length ?l"
    have m: "?l ! p = (if p = j + k then Some x
        else if j + k < p \<and> p < length t + Suc k then ?a ! (p - Suc k) else ?a ! p)"
      using j l p by (subst nth_list_update) (auto simp: moveUp_nth simp del: moveUp.simps)
    consider "p < j" | "j \<le> p" "p < j + k" | "p = j + k" | "j + k < p" "p < length t + Suc k"
      | "length t + Suc k \<le> p" by linarith
    moreover have "(ws @ ys @ zs) ! p = zs ! (p - (j + k))"
      if "length ws = j" "length ys = k" "j + k \<le> p" for ws ys zs :: "'a option list"
      using that nth_append_right [of "ws @ ys" p zs] by simp
    then have tail: "?r ! p = (Some x # map Some (drop j t) @ rest) ! (p - (j + k))" if "j + k \<le> p"
      using len j that by (metis length_map length_take min.absorb2)
    ultimately show "?l ! p = ?r ! p"
    proof cases
      case 2
      have "p - j < k" using 2 by linarith
      then have "(map Some (take j t) @ ys @ zs) ! p = ys ! (p - j)" if "length ys = k" for ys zs
        using 2 j that by (simp add: nth_append min_def)
      then have "?r ! p = take k (drop j (map Some t @ junk)) ! (p - j)"
        using len by blast
      also have "\<dots> = (map Some t @ junk) ! p"
      proof -
        have "take k (drop j zs) ! (p - j) = zs ! p" if "j \<le> length zs" for zs :: "'a option list"
          using \<open>p - j < k\<close> 2 that by simp
        then show ?thesis using j by (metis length_append length_map trans_le_add1)
      qed
      finally show ?thesis using 2 j l m by (auto simp: nth_append)
    next
      case 3
      then show ?thesis using m tail by simp
    next
      case 4
      then have "p - (j + k) = Suc (p - Suc (j + k))" "p - Suc (j + k) < length t - j"
        "j + (p - Suc (j + k)) = p - Suc k" "p - Suc k < length t" by simp_all
      then have "(Some x # map Some (drop j t) @ rest) ! (p - (j + k)) = Some (t ! (p - Suc k))"
        using j by (simp add: nth_append)
      then have "?r ! p = Some (t ! (p - Suc k))" using tail 4 by (metis less_imp_le_nat)
      moreover have "?l ! p = Some (t ! (p - Suc k))"
        using 4 m \<open>p - Suc k < length t\<close> by (simp add: nth_append del: moveUp.simps)
      ultimately show ?thesis by (simp only:)
    next
      case 5
      then have "p - (j + k) = Suc (p - Suc (j + k))" "\<not> p - Suc (j + k) < length t - j"
        "p - Suc (j + k) - (length t - j) = p - length t - Suc k" "\<not> p < length t" using j by simp_all
      then have "(Some x # map Some (drop j t) @ rest) ! (p - (j + k)) = rest ! (p - length t - Suc k)"
        by (simp add: nth_append add.commute)
      then have "?r ! p = rest ! (p - length t - Suc k)" using tail 5 j by (metis add_le_mono1 le_trans less_imp_le_nat less_add_Suc2 add_Suc_right lessI)
      moreover have "?a ! p = rest ! (p - length t - Suc k)"
        using 5 l nth_append_right [of "map Some t @ junk" p rest] by simp
      moreover have "?l ! p = ?a ! p" using 5 j m by (simp del: moveUp.simps)
      ultimately show ?thesis by (simp only:)
    next
      case 1
      then show ?thesis using j m by (simp add: nth_append)
    qed
  qed
  then show ?thesis by (simp add: insertOne_def k Let_def)
qed

lemma concat_take1_drop: "concat (map (\<lambda>i. take 1 (drop i t)) [m..<length t + 1]) = drop m t"
proof (induction "length t + 1 - m" arbitrary: m)
  case (Suc n)
  show ?case
  proof (cases "m = length t")
    case False
    with Suc have "m < length t" by linarith
    moreover from this have "drop m t = t ! m # drop (m + 1) t" by (simp add: Cons_nth_drop_Suc)
    moreover have "n = length t + 1 - (m + 1)" using Suc(2) by linarith
    ultimately show ?thesis using Suc(1) [of "m + 1"] by (subst upt_conv_Cons) simp_all
  qed simp
qed simp

lemma spliced_Nil [simp]: "spliced t [] = t"
  using concat_take1_drop [of t 0] by (simp add: spliced_def)

lemma spliced_snoc:
  assumes "j \<le> length t" "\<forall>p \<in> set ins. fst p \<le> j"
  shows "spliced t (ins @ [(j, x)]) = spliced (take j t) ins @ x # drop j t"
proof -
  let ?g = "\<lambda>t ins i. map snd (filter (\<lambda>p. fst p = i) ins) @ take 1 (drop i t)"
  have up: "[0..<length t + 1] = [0..<j] @ j # [Suc j..<length t + 1]"
    using upt_add_eq_append [of 0 j "length t + 1 - j"] assms(1) upt_conv_Cons [of j "length t + 1"]
    by simp
  have low: "map (?g t (ins @ [(j, x)])) [0..<j] = map (?g (take j t) ins) [0..<j]"
    by (auto simp: drop_take intro!: map_cong)
  have "filter (\<lambda>p. fst p = i) ins = []" if "i \<in> set [Suc j..<length t + 1]" for i
    using that assms(2) by (auto simp: filter_empty_conv)
  then have high: "map (?g t (ins @ [(j, x)])) [Suc j..<length t + 1]
      = map (\<lambda>i. take 1 (drop i t)) [Suc j..<length t + 1]"
    by (auto intro!: map_cong)
  have "spliced (take j t) ins
      = concat (map (?g (take j t) ins) [0..<j]) @ map snd (filter (\<lambda>p. fst p = j) ins)"
    using assms(1) by (simp add: spliced_def min_def)
  moreover have "take 1 (drop j t) @ drop (Suc j) t = drop j t"
    using append_take_drop_id [of 1 "drop j t"] by simp
  ultimately show ?thesis
    unfolding spliced_def up map_append list.map low high concat_append concat.simps
    using concat_take1_drop [of t "Suc j"] by simp
qed

lemma insertLoop_region:
  assumes "sorted (map fst ins)" "\<forall>p \<in> set ins. fst p \<le> length t" "length junk = length ins"
  shows "fst (insertLoop ins (length ins) (map Some t @ junk @ rest, length t + length ins))
           = map Some (spliced t ins) @ rest"
  using assms
proof (induction ins arbitrary: t junk rest rule: rev_induct)
  case (snoc p ins)
  obtain j x where p: "p = (j, x)" by (cases p)
  have j: "j \<le> length t" and le: "\<forall>q \<in> set ins. fst q \<le> j" and s: "sorted (map fst ins)"
    using snoc.prems p by (auto simp: sorted_append)
  let ?k = "length ins" and ?junk = "take (length ins) (drop j (map Some t @ junk))"
  have "insertOne (ins @ [p]) ?k (map Some t @ junk @ rest, length t + Suc ?k)
      = (map Some (take j t) @ ?junk @ Some x # map Some (drop j t) @ rest, j + ?k)"
    using j snoc.prems(3) p by (intro insertOne_region) auto
  then have "fst (insertLoop (ins @ [p]) (length (ins @ [p]))
        (map Some t @ junk @ rest, length t + length (ins @ [p])))
      = fst (insertLoop ins ?k
          (map Some (take j t) @ ?junk @ (Some x # map Some (drop j t) @ rest),
           length (take j t) + ?k))"
    using j by (simp add: insertLoop_append min_def)
  also have "\<dots> = map Some (spliced (take j t) ins) @ Some x # map Some (drop j t) @ rest"
    using s le j snoc.prems(3) by (intro snoc.IH) (auto simp: min_def)
  finally show ?case using spliced_snoc [OF j le] p by simp
qed simp

theorem executeInsertions_spliced:
  assumes "sorted (map fst ins)" "\<forall>p \<in> set ins. fst p \<le> length t"
  shows "executeInsertions t ins = map Some (spliced t ins)"
  using insertLoop_region [OF assms, of "replicate (length ins) None" "[]"]
  by (simp add: executeInsertions_def)

end
