(* ===== verification/WtfMath.thy ===== *)
theory WtfMath
  imports Prelude "HOL-Library.Signed_Division"
begin

text \<open>
  The arithmetic helpers of WTF that B3 calls: the three-valued truth of wtf/TriState.h, the bit
  tricks and range test of wtf/MathExtras.h, and the overflow-checked signed operations of
  wtf/CheckedArithmetic.h. The checked operations are compared with exact integer arithmetic.
\<close>

subsection \<open>Three-valued truth\<close>

datatype TriState = FalseTriState | TrueTriState | MixedTriState

definition triState :: "bool \<Rightarrow> TriState" where
  "triState boolean = (if boolean then TrueTriState else FalseTriState)"

lemma triState_simps [simp]:
  "triState b = TrueTriState \<longleftrightarrow> b"
  "triState b = FalseTriState \<longleftrightarrow> \<not> b"
  "triState b \<noteq> MixedTriState"
  by (simp_all add: triState_def)

subsection \<open>Bit tricks\<close>

definition hasOneBitSet :: "'a::len word \<Rightarrow> bool" where
  "hasOneBitSet value \<longleftrightarrow> (value - 1) AND value = 0 \<and> value \<noteq> 0"

definition fastLog2_32 :: "32 word \<Rightarrow> nat" where
  "fastLog2_32 i0 =
     (let log2 = (if i0 AND (i0 - 1) \<noteq> 0 then 1 else 0);
          (log2, i) = (if drop_bit 16 i0 \<noteq> 0 then (log2 + 16, drop_bit 16 i0) else (log2, i0));
          (log2, i) = (if drop_bit 8 i \<noteq> 0 then (log2 + 8, drop_bit 8 i) else (log2, i));
          (log2, i) = (if drop_bit 4 i \<noteq> 0 then (log2 + 4, drop_bit 4 i) else (log2, i));
          (log2, i) = (if drop_bit 2 i \<noteq> 0 then (log2 + 2, drop_bit 2 i) else (log2, i));
          log2 = (if drop_bit 1 i \<noteq> 0 then log2 + 1 else log2)
      in log2)"

definition fastLog2 :: "64 word \<Rightarrow> nat" where
  "fastLog2 value =
     (let high = (ucast (drop_bit 32 value) :: 32 word)
      in if high \<noteq> 0 then fastLog2_32 high + 32 else fastLog2_32 (ucast value))"

lemma nat_and_pred_power:
  assumes "0 < (n :: nat)" "(n - 1) AND n = 0"
  shows "\<exists>k. n = 2 ^ k"
  using assms
proof (induction n rule: less_induct)
  case (less n)
  show ?case
  proof (cases "even n")
    case True
    then obtain a where a: "n = 2 * a" by blast
    then have "0 < a" using less.prems by simp
    moreover have "(2 * a - 1) AND (2 * a) = 2 * ((a - 1) AND a)"
    proof -
      have "2 * a - 1 = Suc (2 * (a - 1))" using \<open>0 < a\<close> by simp
      moreover have "Suc (2 * b) AND (2 * a) = 2 * (b AND a)" for b
        by (subst and_rec) simp
      ultimately show ?thesis by (simp only:)
    qed
    ultimately have "\<exists>k. a = 2 ^ k" using less a by simp
    then show ?thesis using a by (metis power_Suc)
  next
    case False
    then obtain a where a: "n = 2 * a + 1" by (metis oddE)
    have "(2 * a) AND (2 * a + 1) = 2 * a"
      by (subst and_rec) simp
    then have "n = 2 ^ 0" using less.prems a by simp
    then show ?thesis by blast
  qed
qed

lemma unat_pred: "w \<noteq> 0 \<Longrightarrow> unat (w - 1) = unat (w :: 'a::len word) - 1"
  by (simp add: unat_minus_one)

lemma hasOneBitSet_power:
  fixes w :: "'a::len word"
  assumes "hasOneBitSet w"
  obtains k where "k < LENGTH('a)" "w = 2 ^ k"
proof -
  have w: "w \<noteq> 0" and z: "unat ((w - 1) AND w) = 0" using assms by (simp_all add: hasOneBitSet_def)
  have "(unat w - 1) AND unat w = 0"
    using z w by (simp add: unsigned_and_eq unat_pred)
  then obtain k where k: "unat w = 2 ^ k"
    using nat_and_pred_power [of "unat w"] w by (auto simp: unat_gt_0)
  then have "(2 :: nat) ^ k < 2 ^ LENGTH('a)" by (metis unsigned_less)
  then have "k < LENGTH('a)" by simp
  moreover have "w = of_nat (unat w)" by simp
  then have "w = 2 ^ k" using k by simp
  ultimately show ?thesis by (rule that)
qed

lemma fastLog2_power: "k < 64 \<Longrightarrow> fastLog2 (2 ^ k) = k"
proof -
  have "\<forall>k \<in> set [0..<64]. fastLog2 (2 ^ k) = k"
    by (simp add: upt_rec fastLog2_def fastLog2_32_def take_bit_eq_mod)
  then show "k < 64 \<Longrightarrow> fastLog2 (2 ^ k) = k" by simp
qed

subsection \<open>Overlapping ranges\<close>

definition rangesOverlap :: "'a::linorder \<Rightarrow> 'a \<Rightarrow> 'a \<Rightarrow> 'a \<Rightarrow> bool" where
  "rangesOverlap leftMin leftMax rightMin rightMax =
     (if leftMin = leftMax then False
      else if rightMin = rightMax then False
      else if leftMin \<le> rightMin \<and> leftMax > rightMin then True
      else if rightMin \<le> leftMin \<and> rightMax > leftMin then True
      else False)"

lemma rangesOverlap_iff:
  assumes "a \<le> b" "c \<le> d"
  shows "rangesOverlap a b c d \<longleftrightarrow> {a..<b} \<inter> {c..<d} \<noteq> {}"
proof -
  have "{a..<b} \<inter> {c..<d} \<noteq> {} \<longleftrightarrow> max a c < min b d"
    by (auto simp: ivl_disj_un ex_in_conv [symmetric] max_def min_def)
  then show ?thesis using assms by (auto simp: rangesOverlap_def max_def min_def)
qed

subsection \<open>Checked signed arithmetic\<close>

text \<open>
  \<open>ArithmeticOperations<LHS, RHS, ResultType, true, true>\<close> on one signed type: the operation
  returns \<^term>\<open>None\<close> where the source returns \<open>false\<close>. The operands are read with \<^const>\<open>sint\<close>;
  no subexpression of the tests leaves the range of the type, so the tests are written over
  \<^typ>\<open>int\<close>, with \<open>sdiv\<close> for the truncating division of C++.
\<close>

definition smax :: "'a::len itself \<Rightarrow> int" where
  "smax _ = 2 ^ (LENGTH('a) - 1) - 1"

definition smin :: "'a::len itself \<Rightarrow> int" where
  "smin _ = - (2 ^ (LENGTH('a) - 1))"

definition signsMatch :: "'a::len word \<Rightarrow> 'a word \<Rightarrow> bool" where
  "signsMatch lhs rhs \<longleftrightarrow> sint (lhs XOR rhs) \<ge> 0"

definition safeAdd :: "'a::len word \<Rightarrow> 'a word \<Rightarrow> 'a word option" where
  "safeAdd lhs rhs =
     (let l = sint lhs; r = sint rhs; mx = smax TYPE('a); mn = smin TYPE('a) in
      if signsMatch lhs rhs \<and> (if l \<ge> 0 then mx - r < l else r < - (l - mn))
      then None else Some (lhs + rhs))"

definition safeSub :: "'a::len word \<Rightarrow> 'a word \<Rightarrow> 'a word option" where
  "safeSub lhs rhs =
     (let l = sint lhs; r = sint rhs; mx = smax TYPE('a) in
      if \<not> signsMatch lhs rhs \<and> (if l \<ge> 0 then l > mx + r else r > mx + l)
      then None else Some (lhs - rhs))"

definition safeMultiply :: "'a::len word \<Rightarrow> 'a word \<Rightarrow> 'a word option" where
  "safeMultiply lhs rhs =
     (let l = sint lhs; r = sint rhs; mx = smax TYPE('a); mn = smin TYPE('a) in
      if (if signsMatch lhs rhs
          then (if l \<ge> 0 then l \<noteq> 0 \<and> mx sdiv l < r
                else l = mn \<or> r = mn \<or> mx sdiv (- l) < - r)
          else (if l < 0 then r \<noteq> 0 \<and> l < mn sdiv r
                else l \<noteq> 0 \<and> r < mn sdiv l))
      then None else Some (lhs * rhs))"

definition sumOverflows :: "'a::len word \<Rightarrow> 'a word \<Rightarrow> bool" where
  "sumOverflows a b \<longleftrightarrow> safeAdd a b = None"

definition inSigned :: "'a::len itself \<Rightarrow> int \<Rightarrow> bool" where
  "inSigned t x \<longleftrightarrow> smin t \<le> x \<and> x \<le> smax t"

lemma sint_inSigned: "smin TYPE('a) \<le> sint (w :: 'a::len word)" "sint w \<le> smax TYPE('a)"
  using sint_ge [of w] sint_lt [of w] by (simp_all add: smin_def smax_def)

lemma smax_smin: "smin TYPE('a) = - smax TYPE('a::len) - 1" "0 \<le> smax TYPE('a)"
  by (simp_all add: smin_def smax_def)

lemma signsMatch_iff: "signsMatch a b \<longleftrightarrow> (0 \<le> sint a \<longleftrightarrow> 0 \<le> sint (b :: 'a::len word))"
  by (simp add: signsMatch_def signed_xor_eq xor_nonnegative_int_iff)

lemma safeAdd_exact:
  "safeAdd (a :: 'a::len word) b =
     (if inSigned TYPE('a) (sint a + sint b) then Some (a + b) else None)"
  using sint_inSigned [of a] sint_inSigned [of b] smax_smin [where 'a = 'a]
  by (auto simp: safeAdd_def Let_def signsMatch_iff inSigned_def)

lemma safeSub_exact:
  "safeSub (a :: 'a::len word) b =
     (if inSigned TYPE('a) (sint a - sint b) \<and>
         \<not> (sint a - sint b = smin TYPE('a) \<and> sint a < 0 \<and> 0 \<le> sint b)
      then Some (a - b) else None)"
  using sint_inSigned [of a] sint_inSigned [of b] smax_smin [where 'a = 'a]
  by (auto simp: safeSub_def Let_def signsMatch_iff inSigned_def)

lemma le_div_iff_int: "0 < l \<Longrightarrow> r \<le> m div l \<longleftrightarrow> r * l \<le> (m :: int)"
proof
  assume l: "0 < l"
  { assume "r \<le> m div l"
    then have "r * l \<le> (m div l) * l" using l by (simp add: mult_right_mono)
    also have "\<dots> \<le> m" using l by (metis minus_mod_eq_div_mult diff_le_eq le_add_same_cancel1
          pos_mod_sign)
    finally show "r * l \<le> m" . }
  { assume "r * l \<le> m"
    then have "r * l div l \<le> m div l" using l by (rule zdiv_mono1)
    then show "r \<le> m div l" using l by simp }
qed

lemma div_less_iff_int: "0 < l \<Longrightarrow> m div l < r \<longleftrightarrow> m < r * (l :: int)"
  using le_div_iff_int [of l r m] by linarith

lemma sdiv_pos: "0 \<le> m \<Longrightarrow> 0 < l \<Longrightarrow> (m :: int) sdiv l = m div l"
  by (simp add: signed_divide_int_def sgn_if)

lemma less_sdiv_neg: "m < 0 \<Longrightarrow> 0 < l \<Longrightarrow> r < (m :: int) sdiv l \<longleftrightarrow> r * l < m"
  using div_less_iff_int [of l "- m" "- r"] by (auto simp: signed_divide_int_def sgn_if)

lemma safeMultiply_exact:
  "safeMultiply (a :: 'a::len word) b =
     (if inSigned TYPE('a) (sint a * sint b) then Some (a * b) else None)"
proof -
  let ?l = "sint a" and ?r = "sint b" and ?mx = "smax TYPE('a)" and ?mn = "smin TYPE('a)"
  have mx: "0 \<le> ?mx" "?mn < 0" "?mn = - ?mx - 1" using smax_smin [where 'a = 'a] by auto
  have rl: "?mn \<le> ?l" "?mn \<le> ?r" "?l \<le> ?mx" "?r \<le> ?mx"
    using sint_inSigned [of a] sint_inSigned [of b] by auto
  have "(if signsMatch a b
          then (if ?l \<ge> 0 then ?l \<noteq> 0 \<and> ?mx sdiv ?l < ?r
                else ?l = ?mn \<or> ?r = ?mn \<or> ?mx sdiv (- ?l) < - ?r)
          else (if ?l < 0 then ?r \<noteq> 0 \<and> ?l < ?mn sdiv ?r
                else ?l \<noteq> 0 \<and> ?r < ?mn sdiv ?l))
        \<longleftrightarrow> \<not> inSigned TYPE('a) (?l * ?r)" (is "?c \<longleftrightarrow> _")
  proof -
    consider "?l = 0 \<or> ?r = 0" | "0 < ?l" "0 < ?r" | "?l < 0" "?r < 0" | "?l < 0" "0 < ?r"
      | "0 < ?l" "?r < 0" by linarith
    then show ?thesis
    proof cases
      case 1
      then show ?thesis using mx rl
        by (auto simp: signsMatch_iff inSigned_def sdiv_pos div_less_iff_int signed_divide_int_def sgn_if)
    next
      case 2
      then have "0 < ?l * ?r" by (rule mult_pos_pos)
      then have "?mn \<le> ?l * ?r" using mx(2) by linarith
      then show ?thesis using 2 mx
        by (auto simp: signsMatch_iff inSigned_def sdiv_pos div_less_iff_int mult.commute)
    next
      case 3
      then have "0 < ?l * ?r" by (rule mult_neg_neg)
      then have pos: "?mn \<le> ?l * ?r" using mx(2) by linarith
      have "- ?mn \<le> ?l * ?r" if "?l = ?mn \<or> ?r = ?mn"
        using that 3 mult_left_mono_neg [of ?r "- 1" ?mn] mult_right_mono_neg [of ?l "- 1" ?mn] mx
        by auto
      moreover have "?mx sdiv (- ?l) < - ?r \<longleftrightarrow> ?mx < - ?r * - ?l"
        using 3 mx(1) by (subst sdiv_pos) (simp_all only: div_less_iff_int neg_0_less_iff_less)
      then have "?mx sdiv (- ?l) < - ?r \<longleftrightarrow> ?mx < ?l * ?r" by (simp add: mult.commute)
      moreover have "?c \<longleftrightarrow> ?l = ?mn \<or> ?r = ?mn \<or> ?mx sdiv (- ?l) < - ?r"
        using 3 by (simp only: signsMatch_iff not_le [symmetric] if_True if_False simp_thms)
      ultimately show ?thesis using mx pos unfolding inSigned_def by linarith
    next
      case 4
      then have "?l * ?r < 0" by (rule mult_neg_pos)
      then have "?l * ?r \<le> ?mx" using mx(1) by linarith
      then show ?thesis using 4 mx by (auto simp: signsMatch_iff inSigned_def less_sdiv_neg)
    next
      case 5
      then have "?l * ?r < 0" by (rule mult_pos_neg)
      then have "?l * ?r \<le> ?mx" using mx(1) by linarith
      then show ?thesis using 5 mx
        by (auto simp: signsMatch_iff inSigned_def less_sdiv_neg mult.commute)
    qed
  qed
  then show ?thesis by (simp add: safeMultiply_def Let_def)
qed

lemma sumOverflows_iff: "sumOverflows (a :: 'a::len word) b \<longleftrightarrow> \<not> inSigned TYPE('a) (sint a + sint b)"
  by (simp add: sumOverflows_def safeAdd_exact)

end
