(* ===== verification/WtfWorklist.thy ===== *)
theory WtfWorklist
  imports Prelude
begin

text \<open>
  The graph worklist of wtf/GraphNodeWorklist.h: a stack of nodes to visit and the set of nodes
  ever pushed. The locale \<open>finite_graph\<close> states what a client supplies (a successor function
  that stays inside a finite set of nodes); in it, draining the worklist is shown to terminate
  and to visit exactly the nodes reachable from what was pushed, each of them once.
\<close>

record 'n GraphNodeWorklist =
  m_seen :: "'n set"
  m_stack :: "'n list"

definition emptyWorklist :: "'n GraphNodeWorklist" where
  "emptyWorklist = \<lparr>m_seen = {}, m_stack = []\<rparr>"

definition push :: "'n \<Rightarrow> 'n GraphNodeWorklist \<Rightarrow> 'n GraphNodeWorklist" where
  "push node w =
     (if node \<in> m_seen w then w
      else w\<lparr>m_seen := insert node (m_seen w), m_stack := m_stack w @ [node]\<rparr>)"

definition pop :: "'n GraphNodeWorklist \<Rightarrow> 'n option \<times> 'n GraphNodeWorklist" where
  "pop w =
     (if m_stack w = [] then (None, w)
      else (Some (last (m_stack w)), w\<lparr>m_stack := butlast (m_stack w)\<rparr>))"

definition saw :: "'n GraphNodeWorklist \<Rightarrow> 'n \<Rightarrow> bool" where
  "saw w node \<longleftrightarrow> node \<in> m_seen w"

definition pushAll :: "'n list \<Rightarrow> 'n GraphNodeWorklist \<Rightarrow> 'n GraphNodeWorklist" where
  "pushAll nodes w = fold push nodes w"

text \<open>
  The client loop \<open>while (Node n = worklist.pop()) { result.append(n); for (s : succ(n)) push(s); }\<close>.
  The loop need not end on an infinite graph, so it returns an option.
\<close>

partial_function (option) drain ::
    "('n \<Rightarrow> 'n list) \<Rightarrow> 'n GraphNodeWorklist \<Rightarrow> 'n list \<Rightarrow> ('n GraphNodeWorklist \<times> 'n list) option"
where
  "drain succs w result =
     (case pop w of
        (None, w') \<Rightarrow> Some (w', result)
      | (Some n, w') \<Rightarrow> drain succs (pushAll (succs n) w') (result @ [n]))"

declare drain.simps [code]

definition edges :: "('n \<Rightarrow> 'n list) \<Rightarrow> ('n \<times> 'n) set" where
  "edges succs = {(a, b). b \<in> set (succs a)}"

lemma pushAll_spec:
  "\<exists>new. m_stack (pushAll xs w) = m_stack w @ new \<and> set new = set xs - m_seen w \<and> distinct new \<and>
         m_seen (pushAll xs w) = m_seen w \<union> set xs"
proof (induction xs arbitrary: w)
  case Nil
  show ?case by (auto simp: pushAll_def)
next
  case (Cons x xs)
  obtain new where n: "m_stack (pushAll xs (push x w)) = m_stack (push x w) @ new"
      "set new = set xs - m_seen (push x w)" "distinct new"
      "m_seen (pushAll xs (push x w)) = m_seen (push x w) \<union> set xs"
    using Cons.IH by blast
  have "pushAll (x # xs) w = pushAll xs (push x w)" by (simp add: pushAll_def)
  then show ?case
    using n by (cases "x \<in> m_seen w")
      (auto simp: push_def insert_Diff_if intro!: exI [of _ "if x \<in> m_seen w then new else x # new"])
qed

text \<open>What holds between two pops: everything that has left the stack has its successors seen.\<close>

definition workInv :: "('n \<Rightarrow> 'n list) \<Rightarrow> 'n GraphNodeWorklist \<Rightarrow> bool" where
  "workInv succs w \<longleftrightarrow>
     set (m_stack w) \<subseteq> m_seen w \<and> distinct (m_stack w) \<and>
     (\<forall>n \<in> m_seen w - set (m_stack w). set (succs n) \<subseteq> m_seen w)"

lemma workInv_empty [simp]: "workInv succs emptyWorklist"
  by (simp add: workInv_def emptyWorklist_def)

lemma workInv_push: "workInv succs w \<Longrightarrow> workInv succs (push x w)"
  by (auto simp: workInv_def push_def)

lemma workInv_pushAll: "workInv succs w \<Longrightarrow> workInv succs (pushAll xs w)"
  by (induction xs arbitrary: w) (auto simp: pushAll_def workInv_push)

lemma workInv_visit:
  assumes "workInv succs w" "pop w = (Some n, w')"
  shows "workInv succs (pushAll (succs n) w')" "n \<in> m_seen w" "m_seen w' = m_seen w"
    "set (m_stack w') = set (m_stack w) - {n}"
proof -
  have st: "m_stack w \<noteq> []" and n: "n = last (m_stack w)"
    and w': "w' = w\<lparr>m_stack := butlast (m_stack w)\<rparr>"
    using assms(2) by (auto simp: pop_def split: if_splits)
  have dec: "m_stack w = m_stack w' @ [n]" using st n w' by simp
  then have dist: "distinct (m_stack w')" "n \<notin> set (m_stack w')" "set (m_stack w) = insert n (set (m_stack w'))"
    using assms(1) by (auto simp: workInv_def)
  then show "set (m_stack w') = set (m_stack w) - {n}" by auto
  show "m_seen w' = m_seen w" using w' by simp
  show "n \<in> m_seen w" using assms(1) dist by (auto simp: workInv_def)
  obtain new where "m_stack (pushAll (succs n) w') = m_stack w' @ new"
      "set new = set (succs n) - m_seen w" "distinct new"
      "m_seen (pushAll (succs n) w') = m_seen w \<union> set (succs n)"
    using pushAll_spec [of "succs n" w'] w' by auto
  then show "workInv succs (pushAll (succs n) w')"
    using assms(1) dist unfolding workInv_def by (auto 0 3)
qed

text \<open>An invariant that every visit keeps holds when the loop is left.\<close>

lemma drain_invariant:
  assumes "drain succs w result = Some r" and "I w result"
    and step: "\<And>w result n w1. I w result \<Longrightarrow> pop w = (Some n, w1) \<Longrightarrow> I (pushAll (succs n) w1) (result @ [n])"
  shows "I (fst r) (snd r)"
proof -
  have "succs' = succs \<longrightarrow> I w result \<longrightarrow> I (fst r) (snd r)" if "drain succs' w result = Some r" for succs' w result r
  proof (rule drain.raw_induct [of "\<lambda>succs' w result r. succs' = succs \<longrightarrow> I w result \<longrightarrow> I (fst r) (snd r)", OF _ that], goal_cases)
    case (1 f succs' w result r)
    show ?case
    proof (intro impI)
      assume eq: "succs' = succs" and I: "I w result"
      show "I (fst r) (snd r)"
      proof (cases "pop w")
        case (Pair on w1)
        show ?thesis
        proof (cases on)
          case None
          then have "w1 = w" using Pair by (auto simp: pop_def split: if_splits)
          then show ?thesis using 1(2) Pair None I by auto
        next
          case (Some n)
          then show ?thesis using 1(1) [of succs' "pushAll (succs' n) w1" "result @ [n]" r] 1(2) Pair eq step [OF I] by auto
        qed
      qed
    qed
  qed
  then show ?thesis using assms(1,2) by blast
qed

locale finite_graph =
  fixes succs :: "'n \<Rightarrow> 'n list" and nodes :: "'n set"
  assumes finite_nodes: "finite nodes"
    and succs_closed: "n \<in> nodes \<Longrightarrow> set (succs n) \<subseteq> nodes"
begin

lemma reach_closed: "S \<subseteq> nodes \<Longrightarrow> (edges succs)\<^sup>* `` S \<subseteq> nodes"
proof
  fix y assume S: "S \<subseteq> nodes" and "y \<in> (edges succs)\<^sup>* `` S"
  then obtain x where "(x, y) \<in> (edges succs)\<^sup>*" "x \<in> nodes" by auto
  then show "y \<in> nodes"
    by (induction rule: rtrancl_induct) (use succs_closed in \<open>auto simp: edges_def\<close>)
qed

lemma drain_visits:
  assumes "workInv succs w" "m_seen w \<subseteq> nodes"
  shows "\<exists>w' new. drain succs w result = Some (w', result @ new) \<and> m_stack w' = [] \<and>
           m_seen w' = (edges succs)\<^sup>* `` m_seen w \<and> distinct new \<and>
           set new = m_seen w' - (m_seen w - set (m_stack w))"
  using assms
proof (induction "card (nodes - (m_seen w - set (m_stack w)))" arbitrary: w result rule: less_induct)
  case less
  show ?case
  proof (cases "m_stack w = []")
    case True
    have "(edges succs)\<^sup>* `` m_seen w = m_seen w"
      using less.prems True by (intro Image_closed_trancl) (auto simp: edges_def workInv_def)
    then show ?thesis
      using True by (intro exI [of _ w] exI [of _ "[]"]) (simp add: drain.simps [of succs w] pop_def)
  next
    case False
    then obtain n w1 where p: "pop w = (Some n, w1)" by (auto simp: pop_def)
    let ?w = "pushAll (succs n) w1"
    note v = workInv_visit [OF less.prems(1) p]
    obtain fresh where s: "m_stack ?w = m_stack w1 @ fresh" "set fresh = set (succs n) - m_seen w"
        "m_seen ?w = m_seen w \<union> set (succs n)"
      using pushAll_spec [of "succs n" w1] v(3) by auto
    have n: "n \<in> nodes" "n \<in> set (m_stack w)"
      using v(2) less.prems(2) p False by (auto simp: pop_def split: if_splits)
    have sub: "m_seen ?w \<subseteq> nodes" using s(3) less.prems(2) succs_closed [OF n(1)] by auto
    have settled: "m_seen ?w - set (m_stack ?w) = insert n (m_seen w - set (m_stack w))"
      using s v(2,4) n(2) less.prems(1) by (auto simp: workInv_def)
    have "nodes - (m_seen ?w - set (m_stack ?w)) \<subset> nodes - (m_seen w - set (m_stack w))"
      using settled n by auto
    then have "card (nodes - (m_seen ?w - set (m_stack ?w))) < card (nodes - (m_seen w - set (m_stack w)))"
      using finite_nodes by (simp add: psubset_card_mono)
    from less.hyps [OF this v(1) sub, of "result @ [n]"]
    obtain w' new where r: "drain succs ?w (result @ [n]) = Some (w', (result @ [n]) @ new)"
        "m_stack w' = []" "m_seen w' = (edges succs)\<^sup>* `` m_seen ?w" "distinct new"
        "set new = m_seen w' - (m_seen ?w - set (m_stack ?w))" by blast
    have "(edges succs)\<^sup>* `` m_seen ?w = (edges succs)\<^sup>* `` m_seen w"
      using s(3) v(2) by (auto simp: edges_def intro: converse_rtrancl_into_rtrancl)
    moreover have "n \<in> m_seen w'" using r(3) s(3) v(2) by auto
    ultimately show ?thesis
      using r settled n(2) p
      by (intro exI [of _ w'] exI [of _ "n # new"]) (auto simp: drain.simps [of succs w])
  qed
qed

end

end
