(* ===== verification/IeeeDouble.thy ===== *)
theory IeeeDouble
  imports Prelude
begin

text \<open>
  The C++ type \<open>double\<close> as B3 uses it: an IEEE-754 binary64 bit pattern with round-to-nearest-even
  arithmetic. The operations are computed exactly on integers and rounded once, so they can be
  evaluated. The facts B3's rewrites rest on are proved: addition and multiplication commute,
  negative zero is neutral for addition and one for multiplication.
\<close>

type_synonym double = "64 word"

subsection \<open>Fields of a bit pattern\<close>

definition dsign :: "double \<Rightarrow> bool" where
  "dsign x \<longleftrightarrow> 2 ^ 63 \<le> unat x"

definition dmag :: "double \<Rightarrow> nat" where
  "dmag x = unat x mod 2 ^ 63"

definition infMag :: nat where
  "infMag = 2047 * 2 ^ 52"

definition isNaN :: "double \<Rightarrow> bool" where
  "isNaN x \<longleftrightarrow> infMag < dmag x"

definition isInf :: "double \<Rightarrow> bool" where
  "isInf x \<longleftrightarrow> dmag x = infMag"

definition dpack :: "bool \<Rightarrow> nat \<Rightarrow> double" where
  "dpack s m = word_of_nat ((if s then 2 ^ 63 else 0) + m)"

text \<open>A finite pattern denotes \<open>(-1)^sign * mant * 2^expo\<close>.\<close>

definition dmant :: "double \<Rightarrow> nat" where
  "dmant x = (if dmag x < 2 ^ 52 then dmag x else dmag x mod 2 ^ 52 + 2 ^ 52)"

definition dexpo :: "double \<Rightarrow> int" where
  "dexpo x = (if dmag x < 2 ^ 52 then - 1074 else int (dmag x div 2 ^ 52) - 1075)"

definition posZero :: double where "posZero = 0"
definition negZero :: double where "negZero = 2 ^ 63"
definition defaultNaN :: double where "defaultNaN = 0x7FF8000000000000"
definition dinf :: "bool \<Rightarrow> double" where "dinf s = dpack s infMag"
definition done1 :: double where "done1 = 0x3FF0000000000000"

subsection \<open>Rounding\<close>

fun bitlen :: "nat \<Rightarrow> nat" where
  "bitlen n = (if n = 0 then 0 else Suc (bitlen (n div 2)))"

declare bitlen.simps [simp del]

definition roundEven :: "nat \<Rightarrow> nat \<Rightarrow> nat" where
  "roundEven m d =
     (let q = m div d; r = m mod d in if d < 2 * r \<or> (2 * r = d \<and> odd q) then q + 1 else q)"

text \<open>Round \<open>m * 2^e\<close> to at most \<open>p\<close> significant bits with no exponent below \<open>emin\<close>.\<close>

definition roundTo :: "nat \<Rightarrow> int \<Rightarrow> nat \<Rightarrow> int \<Rightarrow> nat \<times> int" where
  "roundTo p emin m e =
     (let e' = max (e + int (bitlen m) - int p) emin
      in if e' \<le> e then (m * 2 ^ nat (e - e'), e') else (roundEven m (2 ^ nat (e' - e)), e'))"

definition roundPack :: "bool \<Rightarrow> nat \<Rightarrow> int \<Rightarrow> double" where
  "roundPack s m e =
     (if m = 0 then dpack s 0
      else case roundTo 53 (- 1074) m e of (m', e') \<Rightarrow>
             dpack s (min (nat (e' + 1074) * 2 ^ 52 + m') infMag))"

subsection \<open>Arithmetic\<close>

definition dneg :: "double \<Rightarrow> double" where
  "dneg x = x XOR 2 ^ 63"

definition dsigned :: "double \<Rightarrow> int \<Rightarrow> int" where
  "dsigned x e = (if dsign x then - 1 else 1) * int (dmant x) * 2 ^ nat (dexpo x - e)"

definition dadd :: "double \<Rightarrow> double \<Rightarrow> double" where
  "dadd x y =
     (if isNaN x \<or> isNaN y then defaultNaN
      else if isInf x then (if isInf y \<and> dsign x \<noteq> dsign y then defaultNaN else dinf (dsign x))
      else if isInf y then dinf (dsign y)
      else let e = min (dexpo x) (dexpo y); s = dsigned x e + dsigned y e
           in if s = 0 then (if dsign x \<and> dsign y then negZero else posZero)
              else roundPack (s < 0) (nat \<bar>s\<bar>) e)"

definition dsub :: "double \<Rightarrow> double \<Rightarrow> double" where
  "dsub x y = (if isNaN x \<or> isNaN y then defaultNaN else dadd x (dneg y))"

definition dmul :: "double \<Rightarrow> double \<Rightarrow> double" where
  "dmul x y =
     (let s = (dsign x \<noteq> dsign y)
      in if isNaN x \<or> isNaN y then defaultNaN
         else if isInf x \<or> isInf y then (if dmag x = 0 \<or> dmag y = 0 then defaultNaN else dinf s)
         else roundPack s (dmant x * dmant y) (dexpo x + dexpo y))"

definition ddiv :: "double \<Rightarrow> double \<Rightarrow> double" where
  "ddiv x y =
     (let s = (dsign x \<noteq> dsign y)
      in if isNaN x \<or> isNaN y \<or> (isInf x \<and> isInf y) \<or> (dmag x = 0 \<and> dmag y = 0) then defaultNaN
         else if isInf x \<or> dmag y = 0 then dinf s
         else if isInf y \<or> dmag x = 0 then dpack s 0
         else let k = 55 + bitlen (dmant y); n = dmant x * 2 ^ k;
                  m = 2 * (n div dmant y) + of_bool (n mod dmant y \<noteq> 0)
              in roundPack s m (dexpo x - dexpo y - int k - 1))"

definition doubleOfInt :: "int \<Rightarrow> double" where
  "doubleOfInt i = roundPack (i < 0) (nat \<bar>i\<bar>) 0"

text \<open>\<open>(double)(float)x\<close>: the value rounded to binary32.\<close>

definition dfround :: "double \<Rightarrow> double" where
  "dfround x =
     (if isNaN x then defaultNaN
      else if isInf x then x
      else if dmant x = 0 then x
      else case roundTo 24 (- 149) (dmant x) (dexpo x) of (m, e) \<Rightarrow>
             if m * 2 ^ nat (e + 149) \<ge> 2 ^ (128 + 149) then dinf (dsign x) else roundPack (dsign x) m e)"

text \<open>Truncation towards zero of a finite pattern.\<close>

definition dtrunc :: "double \<Rightarrow> int" where
  "dtrunc x =
     (if dsign x then - 1 else 1) *
       int (if 0 \<le> dexpo x then dmant x * 2 ^ nat (dexpo x) else dmant x div 2 ^ nat (- dexpo x))"

subsection \<open>Comparisons\<close>

text \<open>On patterns that are not NaN the sign and magnitude order as the numbers do.\<close>

definition dkey :: "double \<Rightarrow> int" where
  "dkey x = (if dsign x then - int (dmag x) else int (dmag x))"

definition deq :: "double \<Rightarrow> double \<Rightarrow> bool" where
  "deq x y \<longleftrightarrow> \<not> isNaN x \<and> \<not> isNaN y \<and> dkey x = dkey y"

definition dlt :: "double \<Rightarrow> double \<Rightarrow> bool" where
  "dlt x y \<longleftrightarrow> \<not> isNaN x \<and> \<not> isNaN y \<and> dkey x < dkey y"

definition dle :: "double \<Rightarrow> double \<Rightarrow> bool" where
  "dle x y \<longleftrightarrow> \<not> isNaN x \<and> \<not> isNaN y \<and> dkey x \<le> dkey y"

subsection \<open>Laws\<close>

lemma unat_split: "unat (x :: double) = (if dsign x then 2 ^ 63 else 0) + dmag x"
proof -
  have "unat x < 2 ^ 64" using unsigned_less [of x] by simp
  then show ?thesis by (auto simp: dsign_def dmag_def mod_if)
qed

lemma dpack_fields: "dpack (dsign x) (dmag x) = x"
proof -
  have "word_of_nat (unat x) = x" by simp
  then show ?thesis unfolding dpack_def unat_split [of x] by (simp only:)
qed

lemma dinf_fields: "isInf x \<Longrightarrow> dinf (dsign x) = x"
  using dpack_fields [of x] by (simp add: dinf_def isInf_def)

lemma bitlen_double: "0 < m \<Longrightarrow> bitlen (m * 2) = Suc (bitlen m)"
  by (subst bitlen.simps) simp

lemma bitlen_shift: "0 < m \<Longrightarrow> bitlen (m * 2 ^ j) = bitlen m + j"
proof (induction j)
  case (Suc j)
  have "m * 2 ^ Suc j = (m * 2 ^ j) * 2" by simp
  then show ?case using Suc bitlen_double [of "m * 2 ^ j"] by (simp only:) simp
qed simp

lemma bitlen_le: "m < 2 ^ k \<Longrightarrow> bitlen m \<le> k"
proof (induction k arbitrary: m)
  case 0
  then show ?case by (subst bitlen.simps) simp
next
  case (Suc k)
  then have "bitlen (m div 2) \<le> k" by simp
  then show ?case by (subst bitlen.simps) simp
qed

lemma bitlen_ge: "2 ^ k \<le> m \<Longrightarrow> k < bitlen m"
proof (induction k arbitrary: m)
  case 0
  then show ?case by (subst bitlen.simps) simp
next
  case (Suc k)
  then have "k < bitlen (m div 2)" by simp
  moreover have "(0::nat) < 2 ^ Suc k" by simp
  then have "m \<noteq> 0" using Suc.prems by linarith
  ultimately show ?case by (subst bitlen.simps) simp
qed

lemma bitlen_dmant: "2 ^ 52 \<le> dmag x \<Longrightarrow> bitlen (dmant x) = 53"
  using bitlen_le [of "dmant x" 53] bitlen_ge [of 52 "dmant x"] mod_less_divisor [of "2 ^ 52" "dmag x"]
  by (auto simp: dmant_def simp del: mod_less_divisor)

lemma dexpo_ge: "- 1074 \<le> dexpo x"
  using div_greater_zero_iff [of "dmag x" "2 ^ 52"] by (auto simp: dexpo_def not_less)

lemma roundTo_dmant:
  assumes "0 < dmant x"
  shows "roundTo 53 (- 1074) (dmant x * 2 ^ j) (dexpo x - int j) = (dmant x, dexpo x)"
proof -
  have "max (dexpo x - int j + int (bitlen (dmant x * 2 ^ j)) - int 53) (- 1074) = dexpo x"
  proof (cases "dmag x < 2 ^ 52")
    case True
    then have "bitlen (dmant x) \<le> 52" and "dexpo x = - 1074"
      using bitlen_le [of "dmant x" 52] by (auto simp: dmant_def dexpo_def)
    then show ?thesis using assms by (simp add: bitlen_shift)
  next
    case False
    then show ?thesis using assms dexpo_ge [of x] by (simp add: bitlen_shift bitlen_dmant)
  qed
  then show ?thesis by (cases "j = 0") (auto simp: roundTo_def Let_def roundEven_def)
qed

lemma dmag_of_fields:
  assumes "\<not> isNaN x" "\<not> isInf x"
  shows "nat (dexpo x + 1074) * 2 ^ 52 + dmant x = dmag x" "dmag x < infMag"
proof -
  show "dmag x < infMag" using assms by (simp add: isNaN_def isInf_def)
  show "nat (dexpo x + 1074) * 2 ^ 52 + dmant x = dmag x"
  proof (cases "dmag x < 2 ^ 52")
    case False
    define q where "q = dmag x div 2 ^ 52"
    have "0 < q" using False by (simp add: q_def div_greater_zero_iff)
    moreover have "dmag x = q * 2 ^ 52 + dmag x mod 2 ^ 52" by (simp add: q_def)
    moreover have "nat (int q - 1) * 2 ^ 52 + 2 ^ 52 = q * 2 ^ 52"
      using \<open>0 < q\<close> by (cases q) auto
    moreover have "dexpo x + 1074 = int q - 1" "dmant x = dmag x mod 2 ^ 52 + 2 ^ 52"
      using False by (simp_all add: dexpo_def dmant_def q_def)
    ultimately show ?thesis by (simp only:)
  qed (simp add: dexpo_def dmant_def)
qed

lemma roundPack_fields:
  assumes "\<not> isNaN x" "\<not> isInf x"
  shows "roundPack (dsign x) (dmant x * 2 ^ j) (dexpo x - int j) = x"
proof (cases "dmant x = 0")
  case True
  then have "dmag x = 0" by (auto simp: dmant_def split: if_splits)
  then show ?thesis using True dpack_fields [of x] by (simp add: roundPack_def)
next
  case False
  then show ?thesis
    using dmag_of_fields [OF assms] dpack_fields [of x] by (simp add: roundPack_def roundTo_dmant)
qed

lemma dadd_commute: "dadd x y = dadd y x"
  by (auto simp: dadd_def Let_def add.commute min.commute)

lemma dmul_commute: "dmul x y = dmul y x"
  by (cases "dsign x"; cases "dsign y") (auto simp: dmul_def add.commute mult.commute)

lemma negZero_fields [simp]:
  "dsign negZero" "dmag negZero = 0" "dmant negZero = 0" "dexpo negZero = - 1074"
  "\<not> isNaN negZero" "\<not> isInf negZero"
  by (simp_all add: dsign_def dmag_def negZero_def dmant_def dexpo_def isNaN_def isInf_def infMag_def)

lemma done1_fields [simp]:
  "\<not> dsign done1" "dmag done1 = 1023 * 2 ^ 52" "dmant done1 = 2 ^ 52" "dexpo done1 = - 52"
  "\<not> isNaN done1" "\<not> isInf done1"
  by (simp_all add: dsign_def dmag_def done1_def dmant_def dexpo_def isNaN_def isInf_def infMag_def)

lemma dmant_0_iff: "dmant x = 0 \<longleftrightarrow> dmag x = 0"
  by (auto simp: dmant_def split: if_splits)

theorem dadd_negZero: "\<not> isNaN x \<Longrightarrow> dadd x negZero = x"
proof (cases "isInf x")
  case True
  assume "\<not> isNaN x"
  then show ?thesis using True dinf_fields [OF True] by (simp add: dadd_def)
next
  case False
  assume nan: "\<not> isNaN x"
  have e: "min (dexpo x) (- 1074) = - 1074" using dexpo_ge [of x] by simp
  let ?j = "nat (dexpo x + 1074)"
  have s: "dsigned x (- 1074) = (if dsign x then - 1 else 1) * int (dmant x * 2 ^ ?j)"
    by (simp add: dsigned_def)
  have j: "dexpo x - int ?j = - 1074" using dexpo_ge [of x] by simp
  show ?thesis
  proof (cases "dmant x = 0")
    case True
    then have "dmag x = 0" by (simp add: dmant_0_iff)
    then have "x = (if dsign x then negZero else posZero)"
      using dpack_fields [of x] by (auto simp: negZero_def posZero_def dpack_def split: if_splits)
    moreover have "dadd x negZero = (if dsign x then negZero else posZero)"
      using nan False True by (simp add: dadd_def dsigned_def)
    ultimately show ?thesis by (simp only:)
  next
    case m: False
    have "dadd x negZero = roundPack (dsign x) (dmant x * 2 ^ ?j) (- 1074)"
      using nan False m
      by (auto simp: dadd_def Let_def e s dsigned_def [of negZero] nat_mult_distrib nat_power_eq
          abs_mult mult_less_0_iff)
    then show ?thesis using roundPack_fields [OF nan False, of ?j] j by simp
  qed
qed

theorem dmul_one: "\<not> isNaN x \<Longrightarrow> dmul x done1 = x"
proof (cases "isInf x")
  case True
  assume "\<not> isNaN x"
  then show ?thesis
    using True dinf_fields [OF True] by (simp add: dmul_def isInf_def infMag_def)
next
  case False
  assume nan: "\<not> isNaN x"
  then show ?thesis using roundPack_fields [OF nan False, of 52] False by (simp add: dmul_def)
qed

end
