(* ===== verification/B3Opcode.thy ===== *)
theory B3Opcode
  imports WtfMath
begin

text \<open>
  The vocabulary of the B3 IR: value types (b3/B3Type.h), opcodes with their printed names and the
  inversion of comparisons (b3/B3Opcode.h, b3/B3Opcode.cpp), the integer helpers of b3/B3Common.h,
  abstract heap ranges (b3/B3HeapRange.h) and effects (b3/B3Effects.h, b3/B3Effects.cpp).
\<close>

subsection \<open>Types\<close>

datatype b3type = Void | Int32 | Int64 | Double

text \<open>
  \<open>ENABLE(B3_JIT)\<close> holds on 64-bit targets only, where \<open>sizeof(void*) == 8\<close>.
\<close>

definition is64Bit :: bool where
  "is64Bit = True"

definition isInt :: "b3type \<Rightarrow> bool" where
  "isInt type \<longleftrightarrow> type = Int32 \<or> type = Int64"

definition isFloat :: "b3type \<Rightarrow> bool" where
  "isFloat type \<longleftrightarrow> type = Double"

definition pointerType :: b3type where
  "pointerType = (if \<not> is64Bit then Int32 else Int64)"

fun sizeofType :: "b3type \<Rightarrow> nat" where
  "sizeofType Void = 0"
| "sizeofType Int32 = 4"
| "sizeofType Int64 = 8"
| "sizeofType Double = 8"

fun typeName :: "b3type \<Rightarrow> string" where
  "typeName Void = ''Void''"
| "typeName Int32 = ''Int32''"
| "typeName Int64 = ''Int64''"
| "typeName Double = ''Double''"

lemma isInt_simps [simp]: "isInt Int32" "isInt Int64" "\<not> isInt Void" "\<not> isInt Double"
  by (simp_all add: isInt_def)

lemma pointerType_Int64 [simp]: "pointerType = Int64"
  by (simp add: pointerType_def is64Bit_def)

subsection \<open>Opcodes\<close>

datatype opcode =
    Nop | Identity | Const32 | Const64 | ConstDouble | StackSlot | ArgumentReg | FramePointer |
    Add | Sub | Mul | Div | ChillDiv | Mod | BitAnd | BitOr | BitXor | Shl | SShr | ZShr |
    BitwiseCast | SExt8 | SExt16 | SExt32 | ZExt32 | Trunc | FRound | IToD | DToI32 | Equal |
    NotEqual | LessThan | GreaterThan | LessEqual | GreaterEqual | Above | Below | AboveEqual |
    BelowEqual | Select | Load8Z | Load8S | Load16Z | Load16S | LoadFloat | Load | Store8 |
    Store16 | StoreFloat | Store | CCall | Patchpoint | CheckAdd | CheckSub | CheckMul |
    Check | Upsilon | Phi | Jump | Branch | Switch | Return | Oops

fun opcodeName :: "opcode \<Rightarrow> string" where
  "opcodeName Nop = ''Nop''"
| "opcodeName Identity = ''Identity''"
| "opcodeName Const32 = ''Const32''"
| "opcodeName Const64 = ''Const64''"
| "opcodeName ConstDouble = ''ConstDouble''"
| "opcodeName StackSlot = ''StackSlot''"
| "opcodeName ArgumentReg = ''ArgumentReg''"
| "opcodeName FramePointer = ''FramePointer''"
| "opcodeName Add = ''Add''"
| "opcodeName Sub = ''Sub''"
| "opcodeName Mul = ''Mul''"
| "opcodeName Div = ''Div''"
| "opcodeName ChillDiv = ''ChillDiv''"
| "opcodeName Mod = ''Mod''"
| "opcodeName BitAnd = ''BitAnd''"
| "opcodeName BitOr = ''BitOr''"
| "opcodeName BitXor = ''BitXor''"
| "opcodeName Shl = ''Shl''"
| "opcodeName SShr = ''SShr''"
| "opcodeName ZShr = ''ZShr''"
| "opcodeName BitwiseCast = ''BitwiseCast''"
| "opcodeName SExt8 = ''SExt8''"
| "opcodeName SExt16 = ''SExt16''"
| "opcodeName SExt32 = ''SExt32''"
| "opcodeName ZExt32 = ''ZExt32''"
| "opcodeName Trunc = ''Trunc''"
| "opcodeName FRound = ''FRound''"
| "opcodeName IToD = ''IToD''"
| "opcodeName DToI32 = ''DToI32''"
| "opcodeName Equal = ''Equal''"
| "opcodeName NotEqual = ''NotEqual''"
| "opcodeName LessThan = ''LessThan''"
| "opcodeName GreaterThan = ''GreaterThan''"
| "opcodeName LessEqual = ''LessEqual''"
| "opcodeName GreaterEqual = ''GreaterEqual''"
| "opcodeName Above = ''Above''"
| "opcodeName Below = ''Below''"
| "opcodeName AboveEqual = ''AboveEqual''"
| "opcodeName BelowEqual = ''BelowEqual''"
| "opcodeName Select = ''Select''"
| "opcodeName Load8Z = ''Load8Z''"
| "opcodeName Load8S = ''Load8S''"
| "opcodeName Load16Z = ''Load16Z''"
| "opcodeName Load16S = ''Load16S''"
| "opcodeName LoadFloat = ''LoadFloat''"
| "opcodeName Load = ''Load''"
| "opcodeName Store8 = ''Store8''"
| "opcodeName Store16 = ''Store16''"
| "opcodeName StoreFloat = ''StoreFloat''"
| "opcodeName Store = ''Store''"
| "opcodeName CCall = ''CCall''"
| "opcodeName Patchpoint = ''Patchpoint''"
| "opcodeName CheckAdd = ''CheckAdd''"
| "opcodeName CheckSub = ''CheckSub''"
| "opcodeName CheckMul = ''CheckMul''"
| "opcodeName Check = ''Check''"
| "opcodeName Upsilon = ''Upsilon''"
| "opcodeName Phi = ''Phi''"
| "opcodeName Jump = ''Jump''"
| "opcodeName Branch = ''Branch''"
| "opcodeName Switch = ''Switch''"
| "opcodeName Return = ''Return''"
| "opcodeName Oops = ''Oops''"

definition isCheckMath :: "opcode \<Rightarrow> bool" where
  "isCheckMath opcode \<longleftrightarrow> opcode \<in> {CheckAdd, CheckSub, CheckMul}"

definition constPtrOpcode :: opcode where
  "constPtrOpcode = (if is64Bit then Const64 else Const32)"

definition invertedCompareOp :: "opcode \<Rightarrow> b3type \<Rightarrow> opcode option" where
  "invertedCompareOp opcode type =
     (case opcode of
        Equal \<Rightarrow> Some NotEqual
      | NotEqual \<Rightarrow> Some Equal
      | LessThan \<Rightarrow> if isInt type then Some GreaterEqual else None
      | GreaterThan \<Rightarrow> if isInt type then Some LessEqual else None
      | LessEqual \<Rightarrow> if isInt type then Some GreaterThan else None
      | GreaterEqual \<Rightarrow> if isInt type then Some LessThan else None
      | Above \<Rightarrow> Some BelowEqual
      | Below \<Rightarrow> Some AboveEqual
      | AboveEqual \<Rightarrow> Some Below
      | BelowEqual \<Rightarrow> Some Above
      | _ \<Rightarrow> None)"

lemma invertedCompareOp_involutive:
  "invertedCompareOp opcode type = Some other \<Longrightarrow> invertedCompareOp other type = Some opcode"
  by (cases opcode) (auto simp: invertedCompareOp_def split: if_splits)

definition allOpcodes :: "opcode list" where
  "allOpcodes =
    [
     Nop, Identity, Const32, Const64, ConstDouble, StackSlot, ArgumentReg, FramePointer, Add,
     Sub, Mul, Div, ChillDiv, Mod, BitAnd, BitOr, BitXor, Shl, SShr, ZShr, BitwiseCast, SExt8,
     SExt16, SExt32, ZExt32, Trunc, FRound, IToD, DToI32, Equal, NotEqual, LessThan,
     GreaterThan, LessEqual, GreaterEqual, Above, Below, AboveEqual, BelowEqual, Select,
     Load8Z, Load8S, Load16Z, Load16S, LoadFloat, Load, Store8, Store16, StoreFloat, Store,
     CCall, Patchpoint, CheckAdd, CheckSub, CheckMul, Check, Upsilon, Phi, Jump, Branch,
     Switch, Return, Oops]"

lemma allOpcodes_complete: "opcode \<in> set allOpcodes"
  by (cases opcode) (simp_all add: allOpcodes_def)

lemma opcodeName_distinct: "distinct (map opcodeName allOpcodes)"
  by code_simp

lemma opcodeName_inject: "opcodeName a = opcodeName b \<longleftrightarrow> a = b"
  using opcodeName_distinct allOpcodes_complete by (auto simp: distinct_map inj_on_def)

end
