(* ===== verification/B3Effects.thy ===== *)
theory B3Effects
  imports B3Opcode
begin

text \<open>
  The integer division of b3/B3Common.h that never traps, the abstract heap ranges of
  b3/B3HeapRange.h and the effects of b3/B3Effects.h and b3/B3Effects.cpp, with the test that
  decides whether two values may be reordered.
\<close>

subsection \<open>Division that does not trap\<close>

text \<open>
  The division of C++, which traps on the target: \<^term>\<open>None\<close> for a zero divisor and where the quotient is not representable.
\<close>

definition signedDivide :: "'a::len word \<Rightarrow> 'a word \<Rightarrow> 'a word option" where
  "signedDivide num den =
     (if den = 0 \<or> \<not> inSigned TYPE('a) (sint num sdiv sint den) then None else Some (word_of_int (sint num sdiv sint den)))"

definition chillDiv :: "'a::len word \<Rightarrow> 'a word \<Rightarrow> 'a word option" where
  "chillDiv num den =
     (if den = 0 then Some 0
      else if den = - 1 \<and> sint num = smin TYPE('a) then Some num
      else signedDivide num den)"

text \<open>The reference: the truncated quotient reduced to the width, with \<open>x / 0 = 0\<close>.\<close>

definition chillQuotient :: "'a::len word \<Rightarrow> 'a word \<Rightarrow> 'a word" where
  "chillQuotient num den = (if den = 0 then 0 else word_of_int (sint num sdiv sint den))"

lemma chillQuotient_eq: "chillQuotient num den = word_of_int (sint num sdiv sint (den :: 'a::len word))"
  by (simp add: chillQuotient_def)

lemma chillQuotient_min:
  fixes num :: "'a::len word"
  assumes "sint num = smin TYPE('a)"
  shows "chillQuotient num (- 1) = num"
proof -
  have "- sint num = sint num + 2 ^ LENGTH('a)"
    using assms by (simp add: smin_def flip: power_Suc)
  then have "word_of_int (- sint num) = (word_of_int (sint num + 2 ^ LENGTH('a)) :: 'a word)"
    by (simp only:)
  also have "\<dots> = word_of_int (sint num)"
    by (simp only: word_of_int_eq_iff) (simp add: take_bit_eq_mod)
  finally have "- num = num" by simp
  moreover have "word_of_int (sint num sdiv sint (- 1 :: 'a word)) = - num" by simp
  ultimately show ?thesis by (simp only: chillQuotient_eq)
qed

text \<open>The quotient of two signed words is representable but for the least one divided by minus one.\<close>

lemma sdiv_inSigned:
  fixes num den :: "'a::len word"
  assumes "\<not> (den = - 1 \<and> sint num = smin TYPE('a))"
  shows "inSigned TYPE('a) (sint num sdiv sint den)"
proof (cases "den = - 1")
  case True
  have "smax TYPE('a) = - smin TYPE('a) - 1" by (simp add: smin_def smax_def)
  moreover have "sint num sdiv sint den = - sint num" using True by simp
  ultimately show ?thesis using True assms sint_inSigned [of num] by (simp add: inSigned_def)
next
  case False
  have "sint den \<noteq> sint (- 1 :: 'a word)" using False signed_word_eqI by blast
  then have "sint den \<noteq> - 1" by simp
  then consider "sint den = 0" | "sint den = 1" | "2 \<le> \<bar>sint den\<bar>" by linarith
  then show ?thesis
  proof cases
    case 3
    have a: "\<bar>sint num\<bar> \<le> smax TYPE('a) + 1" using sint_inSigned [of num] smax_smin [where 'a = 'a] by linarith
    have "\<bar>sint num sdiv sint den\<bar> \<le> \<bar>sint num\<bar> div \<bar>sint den\<bar>"
      by (simp add: signed_divide_int_def abs_mult abs_sgn_eq pos_imp_zdiv_nonneg_iff)
    also have "\<dots> \<le> \<bar>sint num\<bar> div 2" by (rule zdiv_mono2) (use 3 in simp_all)
    also have "\<dots> \<le> smax TYPE('a)" using a smax_smin(2) [where 'a = 'a] by linarith
    finally show ?thesis using smax_smin [where 'a = 'a] by (simp add: inSigned_def abs_le_iff)
  qed (use sint_inSigned [of num] smax_smin [where 'a = 'a] in \<open>simp_all add: inSigned_def\<close>)
qed

lemma chillDiv_returns [simp]: "chillDiv num den = Some (chillQuotient num den)"
  using sdiv_inSigned [of den num] chillQuotient_min [of num]
  by (auto simp: chillDiv_def signedDivide_def chillQuotient_def)

definition isRepresentableAsInt32 :: "int64 \<Rightarrow> bool" where
  "isRepresentableAsInt32 originalValue \<longleftrightarrow>
     (let result = (ucast originalValue :: int32); newValue = (scast result :: int64)
      in originalValue = newValue)"

lemma isRepresentableAsInt32_iff:
  "isRepresentableAsInt32 w \<longleftrightarrow> - (2 ^ 31) \<le> sint w \<and> sint w < 2 ^ 31"
proof -
  have "sint (scast (ucast w :: int32) :: int64) = signed_take_bit 31 (sint w)"
    by (rule bit_eqI) (auto simp: bit_sint_iff bit_signed_take_bit_iff bit_signed_iff bit_unsigned_iff
        min_def)
  then have "isRepresentableAsInt32 w \<longleftrightarrow> signed_take_bit 31 (sint w) = sint w"
    by (metis isRepresentableAsInt32_def sint_inject)
  also have "\<dots> \<longleftrightarrow> - (2 ^ 31) \<le> sint w \<and> sint w < 2 ^ 31"
    by (simp add: signed_take_bit_int_eq_self_iff)
  finally show ?thesis .
qed

subsection \<open>Heap ranges\<close>

record HeapRange =
  m_begin :: "32 word"
  m_end :: "32 word"

definition bottomRange :: HeapRange where
  "bottomRange = \<lparr>m_begin = 0, m_end = 0\<rparr>"

definition mkRange :: "32 word \<Rightarrow> 32 word \<Rightarrow> HeapRange" where
  "mkRange begin end0 =
     (if begin = end0 then \<lparr>m_begin = 0, m_end = 0\<rparr> else \<lparr>m_begin = begin, m_end = end0\<rparr>)"

definition topRange :: HeapRange where
  "topRange = mkRange 0 (- 1)"

definition nonEmpty :: "HeapRange \<Rightarrow> bool" where
  "nonEmpty r \<longleftrightarrow> m_begin r \<noteq> m_end r"

definition overlaps :: "HeapRange \<Rightarrow> HeapRange \<Rightarrow> bool" where
  "overlaps r other = rangesOverlap (m_begin r) (m_end r) (m_begin other) (m_end other)"

text \<open>What the constructor asserts, and the abstract heap cells a range stands for.\<close>

definition rangeOK :: "HeapRange \<Rightarrow> bool" where
  "rangeOK r \<longleftrightarrow> m_begin r \<le> m_end r \<and> (m_begin r = m_end r \<longrightarrow> r = bottomRange)"

definition cells :: "HeapRange \<Rightarrow> 32 word set" where
  "cells r = {m_begin r..<m_end r}"

lemma mkRange_ok: "b \<le> e \<Longrightarrow> rangeOK (mkRange b e)"
  by (auto simp: rangeOK_def mkRange_def bottomRange_def)

lemma overlaps_iff: "rangeOK a \<Longrightarrow> rangeOK b \<Longrightarrow> overlaps a b \<longleftrightarrow> cells a \<inter> cells b \<noteq> {}"
  by (simp add: overlaps_def rangeOK_def cells_def rangesOverlap_iff)

lemma overlaps_sym: "overlaps a b = overlaps b a"
  by (auto simp: overlaps_def rangesOverlap_def)

lemma nonEmpty_iff: "rangeOK a \<Longrightarrow> nonEmpty a \<longleftrightarrow> cells a \<noteq> {}"
  by (auto simp: nonEmpty_def cells_def rangeOK_def)

lemma bottomRange_simps [simp]: "\<not> nonEmpty bottomRange" "rangeOK bottomRange" "cells bottomRange = {}"
  by (simp_all add: nonEmpty_def bottomRange_def rangeOK_def cells_def)

subsection \<open>Effects\<close>

record Effects =
  terminal :: bool
  exitsSideways :: bool
  controlDependent :: bool
  writesSSAState :: bool
  readsSSAState :: bool
  writes :: HeapRange
  reads :: HeapRange

definition noEffects :: Effects where
  "noEffects =
     \<lparr>terminal = False, exitsSideways = False, controlDependent = False, writesSSAState = False,
      readsSSAState = False, writes = bottomRange, reads = bottomRange\<rparr>"

definition forCall :: Effects where
  "forCall =
     noEffects\<lparr>exitsSideways := True, controlDependent := True, writes := topRange, reads := topRange\<rparr>"

definition mustExecute :: "Effects \<Rightarrow> bool" where
  "mustExecute e \<longleftrightarrow> terminal e \<or> exitsSideways e \<or> writesSSAState e \<or> nonEmpty (writes e)"

definition interferesWithTerminal :: "Effects \<Rightarrow> Effects \<Rightarrow> bool" where
  "interferesWithTerminal t other \<longleftrightarrow>
     (if \<not> terminal t then False
      else terminal other \<or> controlDependent other \<or> writesSSAState other \<or> nonEmpty (writes other))"

definition interferesWithExitSideways :: "Effects \<Rightarrow> Effects \<Rightarrow> bool" where
  "interferesWithExitSideways e other \<longleftrightarrow>
     (if \<not> exitsSideways e then False else controlDependent other \<or> nonEmpty (writes other))"

definition interferesWithWritesSSAState :: "Effects \<Rightarrow> Effects \<Rightarrow> bool" where
  "interferesWithWritesSSAState e other \<longleftrightarrow>
     (if \<not> writesSSAState e then False else writesSSAState other \<or> readsSSAState other)"

definition interferes :: "Effects \<Rightarrow> Effects \<Rightarrow> bool" where
  "interferes this other \<longleftrightarrow>
     (if interferesWithTerminal this other \<or> interferesWithTerminal other this then True
      else if interferesWithExitSideways this other \<or> interferesWithExitSideways other this then True
      else if interferesWithWritesSSAState this other \<or> interferesWithWritesSSAState other this then True
      else overlaps (writes this) (writes other) \<or> overlaps (writes this) (reads other)
           \<or> overlaps (reads this) (writes other))"

lemma interferes_sym: "interferes a b = interferes b a"
  by (auto simp: interferes_def overlaps_sym)

lemma topRange_ok [simp]: "rangeOK topRange" "nonEmpty topRange"
  by (simp_all add: topRange_def mkRange_def rangeOK_def nonEmpty_def)

end
