(* ===== verification/B3Value.thy ===== *)
theory B3Value
  imports B3Effects IeeeDouble
begin

text \<open>
  The values of the IR: class \<open>Value\<close> and its subclasses (b3/B3Value.h and the B3*Value.h files) as
  one record whose payload carries the fields a subclass adds, the inline accessors of
  b3/B3ValueInlines.h and the queries of b3/B3Value.cpp.

  A \<open>Value*\<close> is the index of the value. A query that follows child pointers takes the store, the
  partial function from indices to live values.
\<close>

subsection \<open>Data\<close>

datatype FrequencyClass = Normal | Rare

type_synonym FrequentedBlock = "block_ptr \<times> FrequencyClass"

text \<open>\<open>Reg\<close> is a register index; the general purpose registers of x86-64 come first.\<close>

type_synonym Reg = nat

definition isGPR :: "Reg \<Rightarrow> bool" where
  "isGPR reg \<longleftrightarrow> reg < 16"

datatype ValueRep =
    AnyRep | SomeRegister | Register Reg | StackRep int64 | StackArgument int64 | ConstantRep int64

datatype StackSlotKind = Locked | Anonymous

text \<open>
  What a \<open>StackmapValue\<close> adds: the constraints on the children, the identity of the generator
  callback and the clobbered registers.
\<close>

record StackmapData =
  m_reps :: "ValueRep list"
  m_generator :: "nat option"
  m_clobbered :: "Reg set"

datatype payload =
    NoPayload
  | Const32Payload int32
  | Const64Payload int64
  | ConstDoublePayload double
  | MemoryPayload int32 HeapRange
  | ControlPayload "FrequentedBlock list"
  | SwitchPayload "FrequentedBlock list" "int64 list"
  | UpsilonPayload "value_ptr option"
  | StackmapPayload StackmapData
  | PatchpointPayload StackmapData Effects
  | CCallPayload Effects
  | StackSlotPayload "32 word" StackSlotKind int64
  | ArgumentRegPayload Reg

record Value =
  m_opcode :: opcode
  m_type :: b3type
  m_origin :: nat
  m_children :: "value_ptr list"
  m_payload :: payload

type_synonym store = "value_ptr \<Rightarrow> Value option"

subsection \<open>Constructors\<close>

definition mkValue :: "opcode \<Rightarrow> b3type \<Rightarrow> nat \<Rightarrow> value_ptr list \<Rightarrow> payload \<Rightarrow> Value" where
  "mkValue opcode type origin children payload =
     \<lparr>m_opcode = opcode, m_type = type, m_origin = origin, m_children = children, m_payload = payload\<rparr>"

definition Const32Value :: "nat \<Rightarrow> int32 \<Rightarrow> Value" where
  "Const32Value origin value = mkValue Const32 Int32 origin [] (Const32Payload value)"

definition Const64Value :: "nat \<Rightarrow> int64 \<Rightarrow> Value" where
  "Const64Value origin value = mkValue Const64 Int64 origin [] (Const64Payload value)"

definition ConstDoubleValue :: "nat \<Rightarrow> double \<Rightarrow> Value" where
  "ConstDoubleValue origin value = mkValue ConstDouble Double origin [] (ConstDoublePayload value)"

definition UpsilonValue :: "nat \<Rightarrow> value_ptr \<Rightarrow> value_ptr option \<Rightarrow> Value" where
  "UpsilonValue origin value phi = mkValue Upsilon Void origin [value] (UpsilonPayload phi)"

text \<open>The forms of the \<open>ControlValue\<close> constructor.\<close>

definition OopsValue :: "nat \<Rightarrow> Value" where
  "OopsValue origin = mkValue Oops Void origin [] (ControlPayload [])"

definition ReturnValue :: "nat \<Rightarrow> value_ptr \<Rightarrow> Value" where
  "ReturnValue origin result = mkValue Return Void origin [result] (ControlPayload [])"

definition JumpValue :: "nat \<Rightarrow> FrequentedBlock \<Rightarrow> Value" where
  "JumpValue origin target = mkValue Jump Void origin [] (ControlPayload [target])"

definition BranchValue :: "nat \<Rightarrow> value_ptr \<Rightarrow> FrequentedBlock \<Rightarrow> FrequentedBlock \<Rightarrow> Value" where
  "BranchValue origin predicate yes no = mkValue Branch Void origin [predicate] (ControlPayload [yes, no])"

definition SwitchValue :: "nat \<Rightarrow> value_ptr \<Rightarrow> FrequentedBlock \<Rightarrow> Value" where
  "SwitchValue origin child fallThrough = mkValue Switch Void origin [child] (SwitchPayload [fallThrough] [])"

lemmas mk_defs [b3_simps] =
  mkValue_def Const32Value_def Const64Value_def ConstDoubleValue_def UpsilonValue_def OopsValue_def
  ReturnValue_def JumpValue_def BranchValue_def SwitchValue_def

subsection \<open>Casts: which class an opcode belongs to\<close>

definition acceptsMemory :: "opcode \<Rightarrow> bool" where
  "acceptsMemory opcode \<longleftrightarrow>
     opcode \<in> {Load8Z, Load8S, Load16Z, Load16S, LoadFloat, Load, Store8, Store16, StoreFloat, Store}"

definition acceptsControl :: "opcode \<Rightarrow> bool" where
  "acceptsControl opcode \<longleftrightarrow> opcode \<in> {Jump, Branch, Return, Oops, Switch}"

definition acceptsStackmap :: "opcode \<Rightarrow> bool" where
  "acceptsStackmap opcode \<longleftrightarrow> opcode \<in> {CheckAdd, CheckSub, CheckMul, Check, Patchpoint}"

definition acceptsCheck :: "opcode \<Rightarrow> bool" where
  "acceptsCheck opcode \<longleftrightarrow> opcode \<in> {CheckAdd, CheckSub, CheckMul, Check}"

lemmas accepts_defs [b3_simps] =
  acceptsMemory_def acceptsControl_def acceptsStackmap_def acceptsCheck_def

subsection \<open>Accessors\<close>

text \<open>
  \<open>as<Const32Value>()->value()\<close> dereferences null on any other opcode; the sources read it only
  after \<open>hasInt32()\<close>, and the payload of every well-formed value matches its opcode.
\<close>

definition isConstant :: "Value \<Rightarrow> bool" where
  "isConstant v \<longleftrightarrow> m_opcode v \<in> {Const32, Const64, ConstDouble}"

definition isInteger :: "Value \<Rightarrow> bool" where
  "isInteger v \<longleftrightarrow> m_type v = Int32 \<or> m_type v = Int64"

definition hasInt32 :: "Value \<Rightarrow> bool" where
  "hasInt32 v \<longleftrightarrow> m_opcode v = Const32"

definition asInt32 :: "Value \<Rightarrow> int32" where
  "asInt32 v = (case m_payload v of Const32Payload w \<Rightarrow> w | _ \<Rightarrow> 0)"

definition isInt32 :: "Value \<Rightarrow> int32 \<Rightarrow> bool" where
  "isInt32 v w \<longleftrightarrow> hasInt32 v \<and> asInt32 v = w"

definition hasInt64 :: "Value \<Rightarrow> bool" where
  "hasInt64 v \<longleftrightarrow> m_opcode v = Const64"

definition asInt64 :: "Value \<Rightarrow> int64" where
  "asInt64 v = (case m_payload v of Const64Payload w \<Rightarrow> w | _ \<Rightarrow> 0)"

definition isInt64 :: "Value \<Rightarrow> int64 \<Rightarrow> bool" where
  "isInt64 v w \<longleftrightarrow> hasInt64 v \<and> asInt64 v = w"

definition hasInt :: "Value \<Rightarrow> bool" where
  "hasInt v \<longleftrightarrow> hasInt32 v \<or> hasInt64 v"

definition asInt :: "Value \<Rightarrow> int64" where
  "asInt v = (if hasInt32 v then scast (asInt32 v) else asInt64 v)"

definition isIntValue :: "Value \<Rightarrow> int64 \<Rightarrow> bool" where
  "isIntValue v w \<longleftrightarrow> hasInt v \<and> asInt v = w"

definition hasIntPtr :: "Value \<Rightarrow> bool" where
  "hasIntPtr v = (if is64Bit then hasInt64 v else hasInt32 v)"

definition asIntPtr :: "Value \<Rightarrow> int64" where
  "asIntPtr v = (if is64Bit then asInt64 v else scast (asInt32 v))"

definition hasDouble :: "Value \<Rightarrow> bool" where
  "hasDouble v \<longleftrightarrow> m_opcode v = ConstDouble"

definition asDouble :: "Value \<Rightarrow> double" where
  "asDouble v = (case m_payload v of ConstDoublePayload d \<Rightarrow> d | _ \<Rightarrow> 0)"

definition isEqualToDouble :: "Value \<Rightarrow> double \<Rightarrow> bool" where
  "isEqualToDouble v d \<longleftrightarrow> hasDouble v \<and> deq (asDouble v) d"

definition hasNumber :: "Value \<Rightarrow> bool" where
  "hasNumber v \<longleftrightarrow> hasInt v \<or> hasDouble v"

definition isNegativeZero :: "Value \<Rightarrow> bool" where
  "isNegativeZero v =
     (if hasDouble v then deq (asDouble v) posZero \<and> dsign (asDouble v) else False)"

lemmas accessor_defs [b3_simps] =
  isConstant_def isInteger_def hasInt32_def isInt32_def hasInt64_def isInt64_def hasInt_def asInt_def
  isIntValue_def hasIntPtr_def asIntPtr_def hasDouble_def isEqualToDouble_def hasNumber_def
  isNegativeZero_def is64Bit_def

subsection \<open>Memory, control and upsilon fields\<close>

definition memOffset :: "Value \<Rightarrow> int32" where
  "memOffset v = (case m_payload v of MemoryPayload off r \<Rightarrow> off | _ \<Rightarrow> 0)"

definition memRange :: "Value \<Rightarrow> HeapRange" where
  "memRange v = (case m_payload v of MemoryPayload off r \<Rightarrow> r | _ \<Rightarrow> bottomRange)"

definition setOffset :: "int32 \<Rightarrow> Value \<Rightarrow> Value" where
  "setOffset off v = v\<lparr>m_payload := MemoryPayload off (memRange v)\<rparr>"

definition successors :: "Value \<Rightarrow> FrequentedBlock list" where
  "successors v =
     (case m_payload v of ControlPayload ss \<Rightarrow> ss | SwitchPayload ss cs \<Rightarrow> ss | _ \<Rightarrow> [])"

definition setSuccessors :: "FrequentedBlock list \<Rightarrow> Value \<Rightarrow> Value" where
  "setSuccessors ss v =
     v\<lparr>m_payload := (case m_payload v of SwitchPayload _ cs \<Rightarrow> SwitchPayload ss cs | _ \<Rightarrow> ControlPayload ss)\<rparr>"

definition caseValues :: "Value \<Rightarrow> int64 list" where
  "caseValues v = (case m_payload v of SwitchPayload ss cs \<Rightarrow> cs | _ \<Rightarrow> [])"

definition upsilonPhi :: "Value \<Rightarrow> value_ptr option" where
  "upsilonPhi v = (case m_payload v of UpsilonPayload phi \<Rightarrow> phi | _ \<Rightarrow> None)"

definition setPhi :: "value_ptr \<Rightarrow> Value \<Rightarrow> Value" where
  "setPhi phi v = v\<lparr>m_payload := UpsilonPayload (Some phi)\<rparr>"

definition accessByteSize :: "b3type \<Rightarrow> b3type \<Rightarrow> opcode \<Rightarrow> nat option" where
  "accessByteSize type childType opcode =
     (if opcode \<in> {Load8Z, Load8S, Store8} then Some 1
      else if opcode \<in> {Load16Z, Load16S, Store16} then Some 2
      else if opcode \<in> {LoadFloat, StoreFloat} then Some 4
      else if opcode = Load then Some (sizeofType type)
      else if opcode = Store then Some (sizeofType childType)
      else None)"

subsection \<open>Replacing a value in place\<close>

text \<open>\<open>RELEASE_ASSERT(type == value->type())\<close> is the caller's \<^term>\<open>None\<close>.\<close>

definition replaceWithIdentity :: "b3type \<Rightarrow> value_ptr \<Rightarrow> Value \<Rightarrow> Value option" where
  "replaceWithIdentity targetType target v =
     (if m_type v = targetType
      then Some (mkValue Identity (m_type v) (m_origin v) [target] NoPayload) else None)"

definition replaceWithNop :: "Value \<Rightarrow> Value" where
  "replaceWithNop v = mkValue Nop Void (m_origin v) [] NoPayload"

definition convertToJump :: "block_ptr \<Rightarrow> Value \<Rightarrow> Value" where
  "convertToJump destination v = JumpValue (m_origin v) (destination, Normal)"

definition convertToAdd :: "Value \<Rightarrow> Value option" where
  "convertToAdd v = (if isCheckMath (m_opcode v) then Some (v\<lparr>m_opcode := CheckAdd\<rparr>) else None)"

definition replaceSuccessor :: "block_ptr \<Rightarrow> block_ptr \<Rightarrow> Value \<Rightarrow> Value" where
  "replaceSuccessor from to v =
     setSuccessors (map (\<lambda>(b, f). if b = from then (to, f) else (b, f)) (successors v)) v"

subsection \<open>Queries\<close>

definition child :: "store \<Rightarrow> Value \<Rightarrow> nat \<Rightarrow> Value option" where
  "child s v k = (case at (m_children v) k of None \<Rightarrow> None | Some c \<Rightarrow> s c)"

definition returnsBool :: "store \<Rightarrow> Value \<Rightarrow> bool" where
  "returnsBool s v =
     (if m_type v \<noteq> Int32 then False
      else case m_opcode v of
        Const32 \<Rightarrow> asInt32 v = 0 \<or> asInt32 v = 1
      | BitAnd \<Rightarrow> (case child s v 1 of Some c \<Rightarrow> isInt32 c 1 | None \<Rightarrow> False)
      | Equal \<Rightarrow> True | NotEqual \<Rightarrow> True | LessThan \<Rightarrow> True | GreaterThan \<Rightarrow> True
      | LessEqual \<Rightarrow> True | GreaterEqual \<Rightarrow> True
      | Above \<Rightarrow> True | Below \<Rightarrow> True | AboveEqual \<Rightarrow> True | BelowEqual \<Rightarrow> True
      | _ \<Rightarrow> False)"

definition asTriState :: "Value \<Rightarrow> TriState" where
  "asTriState v =
     (case m_opcode v of
        Const32 \<Rightarrow> triState (asInt32 v \<noteq> 0)
      | Const64 \<Rightarrow> triState (asInt64 v \<noteq> 0)
      | ConstDouble \<Rightarrow> triState (\<not> deq (asDouble v) posZero)
      | _ \<Rightarrow> MixedTriState)"

definition isLikeZero :: "Value \<Rightarrow> bool" where
  "isLikeZero v \<longleftrightarrow> asTriState v = FalseTriState"

definition effects :: "Value \<Rightarrow> Effects" where
  "effects v =
     (let opcode = m_opcode v in
      if opcode = Div then noEffects\<lparr>controlDependent := True\<rparr>
      else if opcode \<in> {Load8Z, Load8S, Load16Z, Load16S, LoadFloat, Load}
        then noEffects\<lparr>reads := memRange v, controlDependent := True\<rparr>
      else if opcode \<in> {Store8, Store16, StoreFloat, Store}
        then noEffects\<lparr>writes := memRange v, controlDependent := True\<rparr>
      else if opcode = CCall then (case m_payload v of CCallPayload e \<Rightarrow> e | _ \<Rightarrow> forCall)
      else if opcode = Patchpoint then (case m_payload v of PatchpointPayload _ e \<Rightarrow> e | _ \<Rightarrow> forCall)
      else if opcode \<in> {CheckAdd, CheckSub, CheckMul, Check} then noEffects\<lparr>exitsSideways := True\<rparr>
      else if opcode = Upsilon then noEffects\<lparr>writesSSAState := True\<rparr>
      else if opcode = Phi then noEffects\<lparr>readsSSAState := True\<rparr>
      else if opcode \<in> {Jump, Branch, Switch, Return, Oops} then noEffects\<lparr>terminal := True\<rparr>
      else noEffects)"

text \<open>\<open>Value::typeFor\<close>, over the types of the first two children; \<^term>\<open>None\<close> is the crash.\<close>

definition typeFor :: "opcode \<Rightarrow> b3type \<Rightarrow> b3type \<Rightarrow> b3type option" where
  "typeFor opcode firstChild secondChild =
     (if opcode \<in> {Identity, Add, Sub, Mul, Div, ChillDiv, Mod, BitAnd, BitOr, BitXor, Shl, SShr, ZShr,
                   CheckAdd, CheckSub, CheckMul} then Some firstChild
      else if opcode = FramePointer then Some pointerType
      else if opcode \<in> {SExt8, SExt16, Trunc, DToI32, Equal, NotEqual, LessThan, GreaterThan, LessEqual,
                        GreaterEqual, Above, Below, AboveEqual, BelowEqual} then Some Int32
      else if opcode \<in> {SExt32, ZExt32} then Some Int64
      else if opcode \<in> {FRound, IToD} then Some Double
      else if opcode = BitwiseCast
        then (if firstChild = Int64 then Some Double else if firstChild = Double then Some Int64 else None)
      else if opcode = Nop then Some Void
      else if opcode = Select then Some secondChild
      else None)"

end
