(* ===== verification/B3Const.thy ===== *)
theory B3Const
  imports B3Value
begin

text \<open>
  Constant folding: the virtual methods of b3/B3Const32Value.cpp, b3/B3Const64Value.cpp and
  b3/B3ConstDoubleValue.cpp, one definition each, and their dispatch from b3/B3Value.cpp. A folding
  method returns the value it would add to the procedure, or \<^term>\<open>None\<close> for \<open>nullptr\<close>. The division
  of \<open>divConstant\<close> cannot trap (\<open>chillDiv_returns\<close>), so that \<^term>\<open>None\<close> means nothing else.
\<close>

subsection \<open>Const32Value\<close>

definition Const32Value_negConstant :: "Value \<Rightarrow> Value option" where
  "Const32Value_negConstant this = Some (Const32Value (m_origin this) (- asInt32 this))"

definition Const32Value_addConstant_int :: "Value \<Rightarrow> int32 \<Rightarrow> Value option" where
  "Const32Value_addConstant_int this other = Some (Const32Value (m_origin this) (asInt32 this + other))"

definition Const32Value_addConstant :: "Value \<Rightarrow> Value \<Rightarrow> Value option" where
  "Const32Value_addConstant this other = 
     (if \<not> hasInt32 other then None else Some (Const32Value (m_origin this) (asInt32 this + asInt32 other)))"

definition Const32Value_subConstant :: "Value \<Rightarrow> Value \<Rightarrow> Value option" where
  "Const32Value_subConstant this other = 
     (if \<not> hasInt32 other then None else Some (Const32Value (m_origin this) (asInt32 this - asInt32 other)))"

definition Const32Value_mulConstant :: "Value \<Rightarrow> Value \<Rightarrow> Value option" where
  "Const32Value_mulConstant this other = 
     (if \<not> hasInt32 other then None else Some (Const32Value (m_origin this) (asInt32 this * asInt32 other)))"

definition Const32Value_divConstant :: "Value \<Rightarrow> Value \<Rightarrow> Value option" where
  "Const32Value_divConstant this other = 
     (if \<not> hasInt32 other then None else map_option (Const32Value (m_origin this)) (chillDiv (asInt32 this) (asInt32 other)))"

definition Const32Value_bitAndConstant :: "Value \<Rightarrow> Value \<Rightarrow> Value option" where
  "Const32Value_bitAndConstant this other = 
     (if \<not> hasInt32 other then None else Some (Const32Value (m_origin this) (asInt32 this AND asInt32 other)))"

definition Const32Value_bitOrConstant :: "Value \<Rightarrow> Value \<Rightarrow> Value option" where
  "Const32Value_bitOrConstant this other = 
     (if \<not> hasInt32 other then None else Some (Const32Value (m_origin this) (asInt32 this OR asInt32 other)))"

definition Const32Value_bitXorConstant :: "Value \<Rightarrow> Value \<Rightarrow> Value option" where
  "Const32Value_bitXorConstant this other = 
     (if \<not> hasInt32 other then None else Some (Const32Value (m_origin this) (asInt32 this XOR asInt32 other)))"

definition Const32Value_checkAddConstant :: "Value \<Rightarrow> Value \<Rightarrow> Value option" where
  "Const32Value_checkAddConstant this other = 
     (if \<not> hasInt32 other then None
      else case safeAdd (asInt32 this) (asInt32 other) of None \<Rightarrow> None | Some result \<Rightarrow> Some (Const32Value (m_origin this) result))"

definition Const32Value_checkSubConstant :: "Value \<Rightarrow> Value \<Rightarrow> Value option" where
  "Const32Value_checkSubConstant this other = 
     (if \<not> hasInt32 other then None
      else case safeSub (asInt32 this) (asInt32 other) of None \<Rightarrow> None | Some result \<Rightarrow> Some (Const32Value (m_origin this) result))"

definition Const32Value_checkMulConstant :: "Value \<Rightarrow> Value \<Rightarrow> Value option" where
  "Const32Value_checkMulConstant this other = 
     (if \<not> hasInt32 other then None
      else case safeMultiply (asInt32 this) (asInt32 other) of None \<Rightarrow> None | Some result \<Rightarrow> Some (Const32Value (m_origin this) result))"

definition Const32Value_checkNegConstant :: "Value \<Rightarrow> Value option" where
  "Const32Value_checkNegConstant this = 
     (if asInt32 this = - asInt32 this then None else Const32Value_negConstant this)"

definition Const32Value_shlConstant :: "Value \<Rightarrow> Value \<Rightarrow> Value option" where
  "Const32Value_shlConstant this other = 
     (if \<not> hasInt32 other then None
      else Some (Const32Value (m_origin this) (push_bit (unat (asInt32 other AND 31)) (asInt32 this))))"

definition Const32Value_sShrConstant :: "Value \<Rightarrow> Value \<Rightarrow> Value option" where
  "Const32Value_sShrConstant this other = 
     (if \<not> hasInt32 other then None
      else Some (Const32Value (m_origin this) (signed_drop_bit (unat (asInt32 other AND 31)) (asInt32 this))))"

definition Const32Value_zShrConstant :: "Value \<Rightarrow> Value \<Rightarrow> Value option" where
  "Const32Value_zShrConstant this other = 
     (if \<not> hasInt32 other then None
      else Some (Const32Value (m_origin this) (drop_bit (unat (asInt32 other AND 31)) (asInt32 this))))"

definition Const32Value_equalConstant :: "Value \<Rightarrow> Value \<Rightarrow> TriState" where
  "Const32Value_equalConstant this other = 
     (if \<not> hasInt32 other then MixedTriState else triState (asInt32 this = asInt32 other))"

definition Const32Value_notEqualConstant :: "Value \<Rightarrow> Value \<Rightarrow> TriState" where
  "Const32Value_notEqualConstant this other = 
     (if \<not> hasInt32 other then MixedTriState else triState (asInt32 this \<noteq> asInt32 other))"

definition Const32Value_lessThanConstant :: "Value \<Rightarrow> Value \<Rightarrow> TriState" where
  "Const32Value_lessThanConstant this other = 
     (if \<not> hasInt32 other then MixedTriState else triState (sint (asInt32 this) < sint (asInt32 other)))"

definition Const32Value_greaterThanConstant :: "Value \<Rightarrow> Value \<Rightarrow> TriState" where
  "Const32Value_greaterThanConstant this other = 
     (if \<not> hasInt32 other then MixedTriState else triState (sint (asInt32 this) > sint (asInt32 other)))"

definition Const32Value_lessEqualConstant :: "Value \<Rightarrow> Value \<Rightarrow> TriState" where
  "Const32Value_lessEqualConstant this other = 
     (if \<not> hasInt32 other then MixedTriState else triState (sint (asInt32 this) \<le> sint (asInt32 other)))"

definition Const32Value_greaterEqualConstant :: "Value \<Rightarrow> Value \<Rightarrow> TriState" where
  "Const32Value_greaterEqualConstant this other = 
     (if \<not> hasInt32 other then MixedTriState else triState (sint (asInt32 this) \<ge> sint (asInt32 other)))"

definition Const32Value_aboveConstant :: "Value \<Rightarrow> Value \<Rightarrow> TriState" where
  "Const32Value_aboveConstant this other = 
     (if \<not> hasInt32 other then MixedTriState else triState (asInt32 this > asInt32 other))"

definition Const32Value_belowConstant :: "Value \<Rightarrow> Value \<Rightarrow> TriState" where
  "Const32Value_belowConstant this other = 
     (if \<not> hasInt32 other then MixedTriState else triState (asInt32 this < asInt32 other))"

definition Const32Value_aboveEqualConstant :: "Value \<Rightarrow> Value \<Rightarrow> TriState" where
  "Const32Value_aboveEqualConstant this other = 
     (if \<not> hasInt32 other then MixedTriState else triState (asInt32 this \<ge> asInt32 other))"

definition Const32Value_belowEqualConstant :: "Value \<Rightarrow> Value \<Rightarrow> TriState" where
  "Const32Value_belowEqualConstant this other = 
     (if \<not> hasInt32 other then MixedTriState else triState (asInt32 this \<le> asInt32 other))"

subsection \<open>Const64Value\<close>

definition Const64Value_negConstant :: "Value \<Rightarrow> Value option" where
  "Const64Value_negConstant this = Some (Const64Value (m_origin this) (- asInt64 this))"

definition Const64Value_addConstant_int :: "Value \<Rightarrow> int32 \<Rightarrow> Value option" where
  "Const64Value_addConstant_int this other = Some (Const64Value (m_origin this) (asInt64 this + scast other))"

definition Const64Value_addConstant :: "Value \<Rightarrow> Value \<Rightarrow> Value option" where
  "Const64Value_addConstant this other = 
     (if \<not> hasInt64 other then None else Some (Const64Value (m_origin this) (asInt64 this + asInt64 other)))"

definition Const64Value_subConstant :: "Value \<Rightarrow> Value \<Rightarrow> Value option" where
  "Const64Value_subConstant this other = 
     (if \<not> hasInt64 other then None else Some (Const64Value (m_origin this) (asInt64 this - asInt64 other)))"

definition Const64Value_mulConstant :: "Value \<Rightarrow> Value \<Rightarrow> Value option" where
  "Const64Value_mulConstant this other = 
     (if \<not> hasInt64 other then None else Some (Const64Value (m_origin this) (asInt64 this * asInt64 other)))"

definition Const64Value_divConstant :: "Value \<Rightarrow> Value \<Rightarrow> Value option" where
  "Const64Value_divConstant this other = 
     (if \<not> hasInt64 other then None else map_option (Const64Value (m_origin this)) (chillDiv (asInt64 this) (asInt64 other)))"

definition Const64Value_bitAndConstant :: "Value \<Rightarrow> Value \<Rightarrow> Value option" where
  "Const64Value_bitAndConstant this other = 
     (if \<not> hasInt64 other then None else Some (Const64Value (m_origin this) (asInt64 this AND asInt64 other)))"

definition Const64Value_bitOrConstant :: "Value \<Rightarrow> Value \<Rightarrow> Value option" where
  "Const64Value_bitOrConstant this other = 
     (if \<not> hasInt64 other then None else Some (Const64Value (m_origin this) (asInt64 this OR asInt64 other)))"

definition Const64Value_bitXorConstant :: "Value \<Rightarrow> Value \<Rightarrow> Value option" where
  "Const64Value_bitXorConstant this other = 
     (if \<not> hasInt64 other then None else Some (Const64Value (m_origin this) (asInt64 this XOR asInt64 other)))"

definition Const64Value_checkAddConstant :: "Value \<Rightarrow> Value \<Rightarrow> Value option" where
  "Const64Value_checkAddConstant this other = 
     (if \<not> hasInt64 other then None
      else case safeAdd (asInt64 this) (asInt64 other) of None \<Rightarrow> None | Some result \<Rightarrow> Some (Const64Value (m_origin this) result))"

definition Const64Value_checkSubConstant :: "Value \<Rightarrow> Value \<Rightarrow> Value option" where
  "Const64Value_checkSubConstant this other = 
     (if \<not> hasInt64 other then None
      else case safeSub (asInt64 this) (asInt64 other) of None \<Rightarrow> None | Some result \<Rightarrow> Some (Const64Value (m_origin this) result))"

definition Const64Value_checkMulConstant :: "Value \<Rightarrow> Value \<Rightarrow> Value option" where
  "Const64Value_checkMulConstant this other = 
     (if \<not> hasInt64 other then None
      else case safeMultiply (asInt64 this) (asInt64 other) of None \<Rightarrow> None | Some result \<Rightarrow> Some (Const64Value (m_origin this) result))"

definition Const64Value_checkNegConstant :: "Value \<Rightarrow> Value option" where
  "Const64Value_checkNegConstant this = 
     (if asInt64 this = - asInt64 this then None else Const64Value_negConstant this)"

definition Const64Value_shlConstant :: "Value \<Rightarrow> Value \<Rightarrow> Value option" where
  "Const64Value_shlConstant this other = 
     (if \<not> hasInt32 other then None
      else Some (Const64Value (m_origin this) (push_bit (unat (asInt32 other AND 63)) (asInt64 this))))"

definition Const64Value_sShrConstant :: "Value \<Rightarrow> Value \<Rightarrow> Value option" where
  "Const64Value_sShrConstant this other = 
     (if \<not> hasInt32 other then None
      else Some (Const64Value (m_origin this) (signed_drop_bit (unat (asInt32 other AND 63)) (asInt64 this))))"

definition Const64Value_zShrConstant :: "Value \<Rightarrow> Value \<Rightarrow> Value option" where
  "Const64Value_zShrConstant this other = 
     (if \<not> hasInt32 other then None
      else Some (Const64Value (m_origin this) (drop_bit (unat (asInt32 other AND 63)) (asInt64 this))))"

definition Const64Value_bitwiseCastConstant :: "Value \<Rightarrow> Value option" where
  "Const64Value_bitwiseCastConstant this = Some (ConstDoubleValue (m_origin this) (asInt64 this))"

definition Const64Value_equalConstant :: "Value \<Rightarrow> Value \<Rightarrow> TriState" where
  "Const64Value_equalConstant this other = 
     (if \<not> hasInt64 other then MixedTriState else triState (asInt64 this = asInt64 other))"

definition Const64Value_notEqualConstant :: "Value \<Rightarrow> Value \<Rightarrow> TriState" where
  "Const64Value_notEqualConstant this other = 
     (if \<not> hasInt64 other then MixedTriState else triState (asInt64 this \<noteq> asInt64 other))"

definition Const64Value_lessThanConstant :: "Value \<Rightarrow> Value \<Rightarrow> TriState" where
  "Const64Value_lessThanConstant this other = 
     (if \<not> hasInt64 other then MixedTriState else triState (sint (asInt64 this) < sint (asInt64 other)))"

definition Const64Value_greaterThanConstant :: "Value \<Rightarrow> Value \<Rightarrow> TriState" where
  "Const64Value_greaterThanConstant this other = 
     (if \<not> hasInt64 other then MixedTriState else triState (sint (asInt64 this) > sint (asInt64 other)))"

definition Const64Value_lessEqualConstant :: "Value \<Rightarrow> Value \<Rightarrow> TriState" where
  "Const64Value_lessEqualConstant this other = 
     (if \<not> hasInt64 other then MixedTriState else triState (sint (asInt64 this) \<le> sint (asInt64 other)))"

definition Const64Value_greaterEqualConstant :: "Value \<Rightarrow> Value \<Rightarrow> TriState" where
  "Const64Value_greaterEqualConstant this other = 
     (if \<not> hasInt64 other then MixedTriState else triState (sint (asInt64 this) \<ge> sint (asInt64 other)))"

definition Const64Value_aboveConstant :: "Value \<Rightarrow> Value \<Rightarrow> TriState" where
  "Const64Value_aboveConstant this other = 
     (if \<not> hasInt64 other then MixedTriState else triState (asInt64 this > asInt64 other))"

definition Const64Value_belowConstant :: "Value \<Rightarrow> Value \<Rightarrow> TriState" where
  "Const64Value_belowConstant this other = 
     (if \<not> hasInt64 other then MixedTriState else triState (asInt64 this < asInt64 other))"

definition Const64Value_aboveEqualConstant :: "Value \<Rightarrow> Value \<Rightarrow> TriState" where
  "Const64Value_aboveEqualConstant this other = 
     (if \<not> hasInt64 other then MixedTriState else triState (asInt64 this \<ge> asInt64 other))"

definition Const64Value_belowEqualConstant :: "Value \<Rightarrow> Value \<Rightarrow> TriState" where
  "Const64Value_belowEqualConstant this other = 
     (if \<not> hasInt64 other then MixedTriState else triState (asInt64 this \<le> asInt64 other))"

subsection \<open>ConstDoubleValue\<close>

definition ConstDoubleValue_negConstant :: "Value \<Rightarrow> Value option" where
  "ConstDoubleValue_negConstant this = Some (ConstDoubleValue (m_origin this) (dneg (asDouble this)))"

definition ConstDoubleValue_addConstant_int :: "Value \<Rightarrow> int32 \<Rightarrow> Value option" where
  "ConstDoubleValue_addConstant_int this other = 
     Some (ConstDoubleValue (m_origin this) (dadd (asDouble this) (doubleOfInt (sint other))))"

definition ConstDoubleValue_addConstant :: "Value \<Rightarrow> Value \<Rightarrow> Value option" where
  "ConstDoubleValue_addConstant this other = 
     (if \<not> hasDouble other then None
      else Some (ConstDoubleValue (m_origin this) (dadd (asDouble this) (asDouble other))))"

definition ConstDoubleValue_subConstant :: "Value \<Rightarrow> Value \<Rightarrow> Value option" where
  "ConstDoubleValue_subConstant this other = 
     (if \<not> hasDouble other then None
      else Some (ConstDoubleValue (m_origin this) (dsub (asDouble this) (asDouble other))))"

definition ConstDoubleValue_mulConstant :: "Value \<Rightarrow> Value \<Rightarrow> Value option" where
  "ConstDoubleValue_mulConstant this other = 
     (if \<not> hasDouble other then None
      else Some (ConstDoubleValue (m_origin this) (dmul (asDouble this) (asDouble other))))"

definition ConstDoubleValue_divConstant :: "Value \<Rightarrow> Value \<Rightarrow> Value option" where
  "ConstDoubleValue_divConstant this other = 
     (if \<not> hasDouble other then None
      else Some (ConstDoubleValue (m_origin this) (ddiv (asDouble this) (asDouble other))))"

definition ConstDoubleValue_bitwiseCastConstant :: "Value \<Rightarrow> Value option" where
  "ConstDoubleValue_bitwiseCastConstant this = Some (Const64Value (m_origin this) (asDouble this))"

definition ConstDoubleValue_equalConstant :: "Value \<Rightarrow> Value \<Rightarrow> TriState" where
  "ConstDoubleValue_equalConstant this other = 
     (if \<not> hasDouble other then MixedTriState else triState (deq (asDouble this) (asDouble other)))"

definition ConstDoubleValue_notEqualConstant :: "Value \<Rightarrow> Value \<Rightarrow> TriState" where
  "ConstDoubleValue_notEqualConstant this other = 
     (if \<not> hasDouble other then MixedTriState else triState (\<not> deq (asDouble this) (asDouble other)))"

definition ConstDoubleValue_lessThanConstant :: "Value \<Rightarrow> Value \<Rightarrow> TriState" where
  "ConstDoubleValue_lessThanConstant this other = 
     (if \<not> hasDouble other then MixedTriState else triState (dlt (asDouble this) (asDouble other)))"

definition ConstDoubleValue_greaterThanConstant :: "Value \<Rightarrow> Value \<Rightarrow> TriState" where
  "ConstDoubleValue_greaterThanConstant this other = 
     (if \<not> hasDouble other then MixedTriState else triState (dlt (asDouble other) (asDouble this)))"

definition ConstDoubleValue_lessEqualConstant :: "Value \<Rightarrow> Value \<Rightarrow> TriState" where
  "ConstDoubleValue_lessEqualConstant this other = 
     (if \<not> hasDouble other then MixedTriState else triState (dle (asDouble this) (asDouble other)))"

definition ConstDoubleValue_greaterEqualConstant :: "Value \<Rightarrow> Value \<Rightarrow> TriState" where
  "ConstDoubleValue_greaterEqualConstant this other = 
     (if \<not> hasDouble other then MixedTriState else triState (dle (asDouble other) (asDouble this)))"

subsection \<open>Virtual dispatch\<close>

definition negConstant :: "Value \<Rightarrow> Value option" where
  "negConstant this = 
     (case m_opcode this of
        Const32 \<Rightarrow> Const32Value_negConstant this
      | Const64 \<Rightarrow> Const64Value_negConstant this
      | ConstDouble \<Rightarrow> ConstDoubleValue_negConstant this
      | _ \<Rightarrow> None)"

definition addConstant_int :: "Value \<Rightarrow> int32 \<Rightarrow> Value option" where
  "addConstant_int this other = 
     (case m_opcode this of
        Const32 \<Rightarrow> Const32Value_addConstant_int this other
      | Const64 \<Rightarrow> Const64Value_addConstant_int this other
      | ConstDouble \<Rightarrow> ConstDoubleValue_addConstant_int this other
      | _ \<Rightarrow> None)"

definition addConstant :: "Value \<Rightarrow> Value \<Rightarrow> Value option" where
  "addConstant this other = 
     (case m_opcode this of
        Const32 \<Rightarrow> Const32Value_addConstant this other
      | Const64 \<Rightarrow> Const64Value_addConstant this other
      | ConstDouble \<Rightarrow> ConstDoubleValue_addConstant this other
      | _ \<Rightarrow> None)"

definition subConstant :: "Value \<Rightarrow> Value \<Rightarrow> Value option" where
  "subConstant this other = 
     (case m_opcode this of
        Const32 \<Rightarrow> Const32Value_subConstant this other
      | Const64 \<Rightarrow> Const64Value_subConstant this other
      | ConstDouble \<Rightarrow> ConstDoubleValue_subConstant this other
      | _ \<Rightarrow> None)"

definition mulConstant :: "Value \<Rightarrow> Value \<Rightarrow> Value option" where
  "mulConstant this other = 
     (case m_opcode this of
        Const32 \<Rightarrow> Const32Value_mulConstant this other
      | Const64 \<Rightarrow> Const64Value_mulConstant this other
      | ConstDouble \<Rightarrow> ConstDoubleValue_mulConstant this other
      | _ \<Rightarrow> None)"

definition checkAddConstant :: "Value \<Rightarrow> Value \<Rightarrow> Value option" where
  "checkAddConstant this other = 
     (case m_opcode this of
        Const32 \<Rightarrow> Const32Value_checkAddConstant this other
      | Const64 \<Rightarrow> Const64Value_checkAddConstant this other
      | _ \<Rightarrow> None)"

definition checkSubConstant :: "Value \<Rightarrow> Value \<Rightarrow> Value option" where
  "checkSubConstant this other = 
     (case m_opcode this of
        Const32 \<Rightarrow> Const32Value_checkSubConstant this other
      | Const64 \<Rightarrow> Const64Value_checkSubConstant this other
      | _ \<Rightarrow> None)"

definition checkMulConstant :: "Value \<Rightarrow> Value \<Rightarrow> Value option" where
  "checkMulConstant this other = 
     (case m_opcode this of
        Const32 \<Rightarrow> Const32Value_checkMulConstant this other
      | Const64 \<Rightarrow> Const64Value_checkMulConstant this other
      | _ \<Rightarrow> None)"

definition checkNegConstant :: "Value \<Rightarrow> Value option" where
  "checkNegConstant this = 
     (case m_opcode this of
        Const32 \<Rightarrow> Const32Value_checkNegConstant this
      | Const64 \<Rightarrow> Const64Value_checkNegConstant this
      | _ \<Rightarrow> None)"

definition divConstant :: "Value \<Rightarrow> Value \<Rightarrow> Value option" where
  "divConstant this other = 
     (case m_opcode this of
        Const32 \<Rightarrow> Const32Value_divConstant this other
      | Const64 \<Rightarrow> Const64Value_divConstant this other
      | ConstDouble \<Rightarrow> ConstDoubleValue_divConstant this other
      | _ \<Rightarrow> None)"

definition bitAndConstant :: "Value \<Rightarrow> Value \<Rightarrow> Value option" where
  "bitAndConstant this other = 
     (case m_opcode this of
        Const32 \<Rightarrow> Const32Value_bitAndConstant this other
      | Const64 \<Rightarrow> Const64Value_bitAndConstant this other
      | _ \<Rightarrow> None)"

definition bitOrConstant :: "Value \<Rightarrow> Value \<Rightarrow> Value option" where
  "bitOrConstant this other = 
     (case m_opcode this of
        Const32 \<Rightarrow> Const32Value_bitOrConstant this other
      | Const64 \<Rightarrow> Const64Value_bitOrConstant this other
      | _ \<Rightarrow> None)"

definition bitXorConstant :: "Value \<Rightarrow> Value \<Rightarrow> Value option" where
  "bitXorConstant this other = 
     (case m_opcode this of
        Const32 \<Rightarrow> Const32Value_bitXorConstant this other
      | Const64 \<Rightarrow> Const64Value_bitXorConstant this other
      | _ \<Rightarrow> None)"

definition shlConstant :: "Value \<Rightarrow> Value \<Rightarrow> Value option" where
  "shlConstant this other = 
     (case m_opcode this of
        Const32 \<Rightarrow> Const32Value_shlConstant this other
      | Const64 \<Rightarrow> Const64Value_shlConstant this other
      | _ \<Rightarrow> None)"

definition sShrConstant :: "Value \<Rightarrow> Value \<Rightarrow> Value option" where
  "sShrConstant this other = 
     (case m_opcode this of
        Const32 \<Rightarrow> Const32Value_sShrConstant this other
      | Const64 \<Rightarrow> Const64Value_sShrConstant this other
      | _ \<Rightarrow> None)"

definition zShrConstant :: "Value \<Rightarrow> Value \<Rightarrow> Value option" where
  "zShrConstant this other = 
     (case m_opcode this of
        Const32 \<Rightarrow> Const32Value_zShrConstant this other
      | Const64 \<Rightarrow> Const64Value_zShrConstant this other
      | _ \<Rightarrow> None)"

definition bitwiseCastConstant :: "Value \<Rightarrow> Value option" where
  "bitwiseCastConstant this = 
     (case m_opcode this of
        Const64 \<Rightarrow> Const64Value_bitwiseCastConstant this
      | ConstDouble \<Rightarrow> ConstDoubleValue_bitwiseCastConstant this
      | _ \<Rightarrow> None)"

definition equalConstant :: "Value \<Rightarrow> Value \<Rightarrow> TriState" where
  "equalConstant this other = 
     (case m_opcode this of
        Const32 \<Rightarrow> Const32Value_equalConstant this other
      | Const64 \<Rightarrow> Const64Value_equalConstant this other
      | ConstDouble \<Rightarrow> ConstDoubleValue_equalConstant this other
      | _ \<Rightarrow> MixedTriState)"

definition notEqualConstant :: "Value \<Rightarrow> Value \<Rightarrow> TriState" where
  "notEqualConstant this other = 
     (case m_opcode this of
        Const32 \<Rightarrow> Const32Value_notEqualConstant this other
      | Const64 \<Rightarrow> Const64Value_notEqualConstant this other
      | ConstDouble \<Rightarrow> ConstDoubleValue_notEqualConstant this other
      | _ \<Rightarrow> MixedTriState)"

definition lessThanConstant :: "Value \<Rightarrow> Value \<Rightarrow> TriState" where
  "lessThanConstant this other = 
     (case m_opcode this of
        Const32 \<Rightarrow> Const32Value_lessThanConstant this other
      | Const64 \<Rightarrow> Const64Value_lessThanConstant this other
      | ConstDouble \<Rightarrow> ConstDoubleValue_lessThanConstant this other
      | _ \<Rightarrow> MixedTriState)"

definition greaterThanConstant :: "Value \<Rightarrow> Value \<Rightarrow> TriState" where
  "greaterThanConstant this other = 
     (case m_opcode this of
        Const32 \<Rightarrow> Const32Value_greaterThanConstant this other
      | Const64 \<Rightarrow> Const64Value_greaterThanConstant this other
      | ConstDouble \<Rightarrow> ConstDoubleValue_greaterThanConstant this other
      | _ \<Rightarrow> MixedTriState)"

definition lessEqualConstant :: "Value \<Rightarrow> Value \<Rightarrow> TriState" where
  "lessEqualConstant this other = 
     (case m_opcode this of
        Const32 \<Rightarrow> Const32Value_lessEqualConstant this other
      | Const64 \<Rightarrow> Const64Value_lessEqualConstant this other
      | ConstDouble \<Rightarrow> ConstDoubleValue_lessEqualConstant this other
      | _ \<Rightarrow> MixedTriState)"

definition greaterEqualConstant :: "Value \<Rightarrow> Value \<Rightarrow> TriState" where
  "greaterEqualConstant this other = 
     (case m_opcode this of
        Const32 \<Rightarrow> Const32Value_greaterEqualConstant this other
      | Const64 \<Rightarrow> Const64Value_greaterEqualConstant this other
      | ConstDouble \<Rightarrow> ConstDoubleValue_greaterEqualConstant this other
      | _ \<Rightarrow> MixedTriState)"

definition aboveConstant :: "Value \<Rightarrow> Value \<Rightarrow> TriState" where
  "aboveConstant this other = 
     (case m_opcode this of
        Const32 \<Rightarrow> Const32Value_aboveConstant this other
      | Const64 \<Rightarrow> Const64Value_aboveConstant this other
      | _ \<Rightarrow> MixedTriState)"

definition belowConstant :: "Value \<Rightarrow> Value \<Rightarrow> TriState" where
  "belowConstant this other = 
     (case m_opcode this of
        Const32 \<Rightarrow> Const32Value_belowConstant this other
      | Const64 \<Rightarrow> Const64Value_belowConstant this other
      | _ \<Rightarrow> MixedTriState)"

definition aboveEqualConstant :: "Value \<Rightarrow> Value \<Rightarrow> TriState" where
  "aboveEqualConstant this other = 
     (case m_opcode this of
        Const32 \<Rightarrow> Const32Value_aboveEqualConstant this other
      | Const64 \<Rightarrow> Const64Value_aboveEqualConstant this other
      | _ \<Rightarrow> MixedTriState)"

definition belowEqualConstant :: "Value \<Rightarrow> Value \<Rightarrow> TriState" where
  "belowEqualConstant this other = 
     (case m_opcode this of
        Const32 \<Rightarrow> Const32Value_belowEqualConstant this other
      | Const64 \<Rightarrow> Const64Value_belowEqualConstant this other
      | _ \<Rightarrow> MixedTriState)"

lemmas class_fold_defs =
  Const32Value_negConstant_def Const32Value_addConstant_int_def Const32Value_addConstant_def
  Const32Value_subConstant_def Const32Value_mulConstant_def Const32Value_divConstant_def
  Const32Value_bitAndConstant_def Const32Value_bitOrConstant_def Const32Value_bitXorConstant_def
  Const32Value_checkAddConstant_def Const32Value_checkSubConstant_def
  Const32Value_checkMulConstant_def Const32Value_checkNegConstant_def
  Const32Value_shlConstant_def Const32Value_sShrConstant_def Const32Value_zShrConstant_def
  Const32Value_equalConstant_def Const32Value_notEqualConstant_def
  Const32Value_lessThanConstant_def Const32Value_greaterThanConstant_def
  Const32Value_lessEqualConstant_def Const32Value_greaterEqualConstant_def
  Const32Value_aboveConstant_def Const32Value_belowConstant_def
  Const32Value_aboveEqualConstant_def Const32Value_belowEqualConstant_def
  Const64Value_negConstant_def Const64Value_addConstant_int_def Const64Value_addConstant_def
  Const64Value_subConstant_def Const64Value_mulConstant_def Const64Value_divConstant_def
  Const64Value_bitAndConstant_def Const64Value_bitOrConstant_def Const64Value_bitXorConstant_def
  Const64Value_checkAddConstant_def Const64Value_checkSubConstant_def
  Const64Value_checkMulConstant_def Const64Value_checkNegConstant_def
  Const64Value_shlConstant_def Const64Value_sShrConstant_def Const64Value_zShrConstant_def
  Const64Value_bitwiseCastConstant_def Const64Value_equalConstant_def
  Const64Value_notEqualConstant_def Const64Value_lessThanConstant_def
  Const64Value_greaterThanConstant_def Const64Value_lessEqualConstant_def
  Const64Value_greaterEqualConstant_def Const64Value_aboveConstant_def
  Const64Value_belowConstant_def Const64Value_aboveEqualConstant_def
  Const64Value_belowEqualConstant_def ConstDoubleValue_negConstant_def
  ConstDoubleValue_addConstant_int_def ConstDoubleValue_addConstant_def
  ConstDoubleValue_subConstant_def ConstDoubleValue_mulConstant_def
  ConstDoubleValue_divConstant_def ConstDoubleValue_bitwiseCastConstant_def
  ConstDoubleValue_equalConstant_def ConstDoubleValue_notEqualConstant_def
  ConstDoubleValue_lessThanConstant_def ConstDoubleValue_greaterThanConstant_def
  ConstDoubleValue_lessEqualConstant_def ConstDoubleValue_greaterEqualConstant_def

lemmas fold_defs =
  negConstant_def addConstant_int_def addConstant_def subConstant_def mulConstant_def
  checkAddConstant_def checkSubConstant_def checkMulConstant_def checkNegConstant_def
  divConstant_def bitAndConstant_def bitOrConstant_def bitXorConstant_def shlConstant_def
  sShrConstant_def zShrConstant_def bitwiseCastConstant_def equalConstant_def
  notEqualConstant_def lessThanConstant_def greaterThanConstant_def lessEqualConstant_def
  greaterEqualConstant_def aboveConstant_def belowConstant_def aboveEqualConstant_def
  belowEqualConstant_def

end
