(* ===== verification/B3BlockUtils.thy ===== *)
theory B3BlockUtils
  imports WtfWorklist "HOL-Library.Multiset"
begin

text \<open>
  The templates of b3/B3BasicBlockUtils.h, which B3 and Air instantiate with their own block
  types: maintaining predecessor lists, recomputing reachability, and the two block orders. The
  template parameter becomes a successor function and a map of predecessor lists. What the
  templates promise is proved in the locale \<open>finite_graph\<close> of the worklist.
\<close>

subsection \<open>Predecessor lists\<close>

definition addPredecessor :: "'b list \<Rightarrow> 'b \<Rightarrow> bool \<times> 'b list" where
  "addPredecessor predecessors predecessor =
     (if predecessor \<in> set predecessors then (False, predecessors)
      else (True, predecessors @ [predecessor]))"

definition removePredecessor :: "'b list \<Rightarrow> 'b \<Rightarrow> bool \<times> 'b list" where
  "removePredecessor predecessors predecessor =
     (case find (\<lambda>i. predecessors ! i = predecessor) [0..<length predecessors] of
        None \<Rightarrow> (False, predecessors)
      | Some i \<Rightarrow> (True, butlast (predecessors[i := last predecessors])))"

definition replacePredecessor :: "'b list \<Rightarrow> 'b \<Rightarrow> 'b \<Rightarrow> bool \<times> 'b list" where
  "replacePredecessor predecessors from to =
     (let (removed, ps) = removePredecessor predecessors from;
          (added, ps) = addPredecessor ps to
      in (removed \<or> added, ps))"

lemma addPredecessor_set [simp]:
  "set (snd (addPredecessor ps p)) = insert p (set ps)"
  "distinct ps \<Longrightarrow> distinct (snd (addPredecessor ps p))"
  "fst (addPredecessor ps p) \<longleftrightarrow> p \<notin> set ps"
  by (auto simp: addPredecessor_def)

lemma removePredecessor_absent: "p \<notin> set ps \<Longrightarrow> removePredecessor ps p = (False, ps)"
  by (auto simp: removePredecessor_def find_None_iff find_Some_iff split: option.splits)

lemma removePredecessor_mset:
  assumes "p \<in> set ps"
  obtains qs where "removePredecessor ps p = (True, qs)" "mset qs = mset ps - {#p#}"
proof -
  have "find (\<lambda>i. ps ! i = p) [0..<length ps] \<noteq> None"
    using assms by (auto simp: find_None_iff in_set_conv_nth)
  then obtain i where f: "find (\<lambda>i. ps ! i = p) [0..<length ps] = Some i" by blast
  then have i: "i < length ps" "ps ! i = p" by (auto simp: find_Some_iff)
  have "mset (butlast (ps[i := last ps])) = mset ps - {#p#}"
  proof -
    have ne: "ps \<noteq> []" using i by auto
    then have lu: "last (ps[i := last ps]) = last ps" by (simp add: last_list_update)
    have "mset (ps[i := last ps]) = add_mset (last ps) (mset ps - {#p#})"
      using i by (simp add: mset_update)
    moreover have "ps[i := last ps] = butlast (ps[i := last ps]) @ [last ps]"
      using ne lu append_butlast_last_id [of "ps[i := last ps]"] by simp
    then have "mset (ps[i := last ps]) = add_mset (last ps) (mset (butlast (ps[i := last ps])))"
      by (metis add_mset_add_single mset_append mset.simps)
    ultimately show ?thesis by simp
  qed
  with f that show ?thesis by (simp add: removePredecessor_def)
qed

lemma removePredecessor_set:
  assumes "distinct ps"
  shows "set (snd (removePredecessor ps p)) = set ps - {p}" "distinct (snd (removePredecessor ps p))"
proof -
  consider "p \<notin> set ps" | qs where "removePredecessor ps p = (True, qs)" "mset qs = mset ps - {#p#}"
    using removePredecessor_mset [of p ps] by blast
  then have "mset (snd (removePredecessor ps p)) = mset (removeAll p ps)"
    by cases (use assms in \<open>simp_all add: removePredecessor_absent mset_filter distinct_remove1_removeAll [symmetric]\<close>)
  then show "set (snd (removePredecessor ps p)) = set ps - {p}" "distinct (snd (removePredecessor ps p))"
    using assms by (metis set_mset_mset set_removeAll, metis distinct_removeAll mset_eq_imp_distinct_iff)
qed

lemma replacePredecessor_set:
  assumes "distinct ps"
  shows "set (snd (replacePredecessor ps a b)) = insert b (set ps - {a})"
    "distinct (snd (replacePredecessor ps a b))"
  using removePredecessor_set [OF assms, of a]
  by (simp_all add: replacePredecessor_def Let_def split: prod.splits)
    (metis addPredecessor_set(1,2) snd_conv)+

subsection \<open>Recomputing predecessors\<close>

type_synonym 'b predMap = "'b \<Rightarrow> 'b list"

definition visitSuccessor :: "'b \<Rightarrow> 'b \<Rightarrow> 'b list \<times> 'b predMap \<Rightarrow> 'b list \<times> 'b predMap" where
  "visitSuccessor block successor = (\<lambda>(worklist, preds).
     let (added, ps) = addPredecessor (preds successor) block
     in (if added then worklist @ [successor] else worklist, preds(successor := ps)))"

partial_function (option) updatePredecessorsLoop ::
    "('b \<Rightarrow> 'b list) \<Rightarrow> 'b list \<Rightarrow> 'b predMap \<Rightarrow> 'b predMap option"
where
  "updatePredecessorsLoop succs worklist preds =
     (if worklist = [] then Some preds
      else case fold (visitSuccessor (last worklist)) (succs (last worklist)) (butlast worklist, preds) of
        (worklist', preds') \<Rightarrow> updatePredecessorsLoop succs worklist' preds')"

declare updatePredecessorsLoop.simps [code]

definition updatePredecessorsAfter :: "('b \<Rightarrow> 'b list) \<Rightarrow> 'b \<Rightarrow> 'b predMap \<Rightarrow> 'b predMap option" where
  "updatePredecessorsAfter succs root preds = updatePredecessorsLoop succs [root] preds"

text \<open>
  \<open>resetReachability\<close> clears the lists, recomputes them from the first block and deletes every
  other block that was left with none; it returns the deleted blocks in the order in which the
  functor sees them. \<^term>\<open>None\<close> is the null dereference of a missing first block.
\<close>

definition resetReachability ::
    "('b \<Rightarrow> 'b list) \<Rightarrow> 'b option list \<Rightarrow> 'b predMap \<Rightarrow> ('b option list \<times> 'b predMap \<times> 'b list) option" where
  "resetReachability succs blocks preds =
     (case blocks of
        Some root # rest \<Rightarrow>
          (case updatePredecessorsAfter succs root (\<lambda>b. if Some b \<in> set blocks then [] else preds b) of
             None \<Rightarrow> None
           | Some preds' \<Rightarrow>
               let dead = (\<lambda>b. preds' b = []) in
               Some (Some root # map (\<lambda>ob. case ob of Some b \<Rightarrow> if dead b then None else Some b | None \<Rightarrow> None) rest,
                     preds', filter dead (map the (filter (\<lambda>ob. ob \<noteq> None) rest))))
      | _ \<Rightarrow> None)"

subsection \<open>Block orders\<close>

definition blocksInPreOrder :: "('b \<Rightarrow> 'b list) \<Rightarrow> 'b \<Rightarrow> 'b list option" where
  "blocksInPreOrder succs root = map_option snd (drain succs (push root emptyWorklist) [])"

text \<open>The worklist of pairs: only a node pushed for its first visit is checked against \<open>m_seen\<close>.\<close>

datatype GraphVisitOrder = Pre | Post

type_synonym 'b PostOrderGraphNodeWorklist = "'b set \<times> ('b \<times> GraphVisitOrder) list"

definition pushPre :: "'b \<Rightarrow> 'b PostOrderGraphNodeWorklist \<Rightarrow> 'b PostOrderGraphNodeWorklist" where
  "pushPre node = (\<lambda>(seen, stack).
     if node \<in> seen then (seen, stack) else (insert node seen, stack @ [(node, Pre)]))"

definition pushPost :: "'b \<Rightarrow> 'b PostOrderGraphNodeWorklist \<Rightarrow> 'b PostOrderGraphNodeWorklist" where
  "pushPost node = (\<lambda>(seen, stack). (seen, stack @ [(node, Post)]))"

partial_function (option) postOrderLoop ::
    "('b \<Rightarrow> 'b list) \<Rightarrow> 'b PostOrderGraphNodeWorklist \<Rightarrow> 'b list \<Rightarrow> 'b list option"
where
  "postOrderLoop succs worklist result =
     (if snd worklist = [] then Some result
      else let (node, order) = last (snd worklist);
               rest = (fst worklist, butlast (snd worklist))
           in if order = Pre
              then postOrderLoop succs (fold pushPre (succs node) (pushPost node rest)) result
              else postOrderLoop succs rest (result @ [node]))"

declare postOrderLoop.simps [code]

definition blocksInPostOrder :: "('b \<Rightarrow> 'b list) \<Rightarrow> 'b \<Rightarrow> 'b list option" where
  "blocksInPostOrder succs root = postOrderLoop succs (pushPre root ({}, [])) []"

subsection \<open>One visit\<close>

lemma visitSuccessors_spec:
  "\<exists>new. fold (visitSuccessor a) ss (wl, P) = (wl @ new, \<lambda>b. if b \<in> set new then P b @ [a] else P b) \<and>
         set new = {s \<in> set ss. a \<notin> set (P s)} \<and> distinct new"
proof (induction ss arbitrary: wl P)
  case Nil
  show ?case by simp
next
  case (Cons s ss)
  show ?case
  proof (cases "a \<in> set (P s)")
    case True
    then have "visitSuccessor a s (wl, P) = (wl, P)" by (simp add: visitSuccessor_def addPredecessor_def)
    then show ?thesis using Cons.IH [of wl P] True by auto
  next
    case False
    let ?P = "P(s := P s @ [a])"
    have v: "visitSuccessor a s (wl, P) = (wl @ [s], ?P)"
      using False by (simp add: visitSuccessor_def addPredecessor_def)
    obtain new where n: "fold (visitSuccessor a) ss (wl @ [s], ?P)
          = ((wl @ [s]) @ new, \<lambda>b. if b \<in> set new then ?P b @ [a] else ?P b)"
        "set new = {t \<in> set ss. a \<notin> set (?P t)}" "distinct new"
      using Cons.IH [of "wl @ [s]" ?P] by blast
    have s: "s \<notin> set new" using n(2) by simp
    have "set (s # new) = {t \<in> set (s # ss). a \<notin> set (P t)}" using n(2) False by auto
    moreover have "(\<lambda>b. if b \<in> set new then ?P b @ [a] else ?P b) = (\<lambda>b. if b \<in> set (s # new) then P b @ [a] else P b)"
      using s by auto
    ultimately show ?thesis
      using n s v by (intro exI [of _ "s # new"]) simp
  qed
qed

lemma pushPres_spec:
  "\<exists>new. fold pushPre ss (seen, stack) = (seen \<union> set ss, stack @ map (\<lambda>n. (n, Pre)) new) \<and>
         set new = set ss - seen \<and> distinct new"
proof (induction ss arbitrary: seen stack)
  case Nil
  show ?case by (intro exI [of _ "[]"]) simp
next
  case (Cons s ss)
  show ?case
  proof (cases "s \<in> seen")
    case True
    then have "pushPre s (seen, stack) = (seen, stack)" "seen \<union> set (s # ss) = seen \<union> set ss"
      "set (s # ss) - seen = set ss - seen" by (auto simp: pushPre_def)
    then show ?thesis using Cons.IH [of seen stack] by simp
  next
    case False
    obtain new where "fold pushPre ss (insert s seen, stack @ [(s, Pre)])
          = (insert s seen \<union> set ss, (stack @ [(s, Pre)]) @ map (\<lambda>n. (n, Pre)) new)"
        "set new = set ss - insert s seen" "distinct new"
      using Cons.IH [of "insert s seen" "stack @ [(s, Pre)]"] by blast
    then have "fold pushPre (s # ss) (seen, stack) = (seen \<union> set (s # ss), stack @ map (\<lambda>n. (n, Pre)) (s # new))"
      "set (s # new) = set (s # ss) - seen" "distinct (s # new)"
      using False by (simp_all add: pushPre_def insert_Diff_if) blast
    then show ?thesis by blast
  qed
qed

context finite_graph
begin

definition missing :: "'n predMap \<Rightarrow> ('n \<times> 'n) set" where
  "missing P = {(a, b). a \<in> nodes \<and> b \<in> set (succs a) \<and> a \<notin> set (P b)}"

lemma finite_missing: "finite (missing P)"
  by (rule finite_subset [of _ "nodes \<times> nodes"]) (use succs_closed finite_nodes in \<open>auto simp: missing_def\<close>)

text \<open>
  What holds between two rounds: the lists hold distinct reachable predecessors, and a block that
  was discovered is on the worklist or registered with each of its successors.
\<close>

definition predInv :: "'n \<Rightarrow> 'n list \<Rightarrow> 'n predMap \<Rightarrow> bool" where
  "predInv root wl P \<longleftrightarrow>
     set wl \<subseteq> (edges succs)\<^sup>* `` {root} \<and>
     (\<forall>b \<in> nodes. distinct (P b) \<and> set (P b) \<subseteq> {a \<in> (edges succs)\<^sup>* `` {root}. b \<in> set (succs a)}) \<and>
     (\<forall>a \<in> nodes. a = root \<or> P a \<noteq> [] \<longrightarrow> a \<in> set wl \<or> (\<forall>b \<in> set (succs a). a \<in> set (P b)))"

lemma predInv_step:
  assumes inv: "predInv root (wl @ [a]) P" and root: "root \<in> nodes"
    and new: "set new = {s \<in> set (succs a). a \<notin> set (P s)}" "distinct new"
    and P': "P' = (\<lambda>b. if b \<in> set new then P b @ [a] else P b)"
  shows "predInv root (wl @ new) P'" "2 * card (missing P') + length (wl @ new) < 2 * card (missing P) + length (wl @ [a])"
proof -
  let ?R = "(edges succs)\<^sup>* `` {root}"
  have a: "a \<in> ?R" "a \<in> nodes" using inv reach_closed [of "{root}"] root by (auto simp: predInv_def)
  then have succ_R: "s \<in> ?R" if "s \<in> set (succs a)" for s
    using that by (auto simp: edges_def intro: rtrancl_into_rtrancl)
  have reg: "a \<in> set (P' b)" if "b \<in> set (succs a)" for b using that new P' by auto
  have mono: "set (P b) \<subseteq> set (P' b)" for b by (auto simp: P')
  show "predInv root (wl @ new) P'"
    unfolding predInv_def
  proof (intro conjI ballI impI)
    show "set (wl @ new) \<subseteq> ?R" using inv new(1) succ_R by (auto simp: predInv_def)
    fix b assume b: "b \<in> nodes"
    show "distinct (P' b)" using inv b new(1) by (auto simp: predInv_def P')
    show "set (P' b) \<subseteq> {a \<in> ?R. b \<in> set (succs a)}" using inv b a new(1) by (auto simp: predInv_def P')
    assume "b = root \<or> P' b \<noteq> []"
    then show "b \<in> set (wl @ new) \<or> (\<forall>c \<in> set (succs b). b \<in> set (P' c))"
      using inv b reg mono unfolding predInv_def P' by (fastforce split: if_splits)
  qed
  have "missing P = missing P' \<union> (\<lambda>b. (a, b)) ` set new" "missing P' \<inter> (\<lambda>b. (a, b)) ` set new = {}"
    using a(2) new(1) by (auto simp: missing_def P' split: if_splits)
  then have "card (missing P) = card (missing P') + length new"
    using finite_missing new(2) by (simp add: card_Un_disjoint card_image inj_on_def distinct_card)
  then show "2 * card (missing P') + length (wl @ new) < 2 * card (missing P) + length (wl @ [a])" by simp
qed

lemma updatePredecessorsLoop_ends:
  assumes "predInv root wl P" "root \<in> nodes"
  shows "\<exists>P'. updatePredecessorsLoop succs wl P = Some P' \<and> predInv root [] P'"
  using assms
proof (induction "2 * card (missing P) + length wl" arbitrary: wl P rule: less_induct)
  case less
  show ?case
  proof (cases "wl = []")
    case True
    then show ?thesis using less.prems by (simp add: updatePredecessorsLoop.simps [of succs "[]"])
  next
    case False
    then have wl: "wl = butlast wl @ [last wl]" by simp
    obtain new where new: "fold (visitSuccessor (last wl)) (succs (last wl)) (butlast wl, P)
          = (butlast wl @ new, \<lambda>b. if b \<in> set new then P b @ [last wl] else P b)"
        "set new = {s \<in> set (succs (last wl)). last wl \<notin> set (P s)}" "distinct new"
      using visitSuccessors_spec [of "last wl" "succs (last wl)" "butlast wl" P] by blast
    note step = predInv_step [OF _ less.prems(2) new(2,3) refl, of "butlast wl"]
    from less.prems(1) wl have "predInv root (butlast wl @ [last wl]) P" by simp
    note step = step [OF this]
    from less.hyps [OF _ step(1) less.prems(2)] step(2) wl new(1) False show ?thesis
      by (simp add: updatePredecessorsLoop.simps [of succs wl])
  qed
qed

lemma predInv_final:
  assumes "predInv root [] P" "root \<in> nodes" "b \<in> nodes"
  shows "set (P b) = {a \<in> (edges succs)\<^sup>* `` {root}. b \<in> set (succs a)}" "distinct (P b)"
proof -
  let ?R = "(edges succs)\<^sup>* `` {root}"
  have found: "a = root \<or> P a \<noteq> []" if "(root, a) \<in> (edges succs)\<^sup>*" for a
    using that
  proof (induction rule: rtrancl_induct)
    case (step x y)
    have "x \<in> nodes" using step(1) reach_closed [of "{root}"] assms(2) by auto
    then have "x \<in> set (P y)" using step(2,3) assms(1) by (auto simp: predInv_def edges_def)
    then show ?case by auto
  qed simp
  have "a \<in> set (P b)" if "a \<in> ?R" "b \<in> set (succs a)" for a
    using that found [of a] reach_closed [of "{root}"] assms(1,2) by (auto simp: predInv_def)
  then show "set (P b) = {a \<in> ?R. b \<in> set (succs a)}" "distinct (P b)"
    using assms(1,3) by (auto simp: predInv_def)
qed

lemma updatePredecessorsAfter_exact:
  assumes "root \<in> nodes" "\<forall>b \<in> nodes. P b = []"
  shows "\<exists>P'. updatePredecessorsAfter succs root P = Some P' \<and>
           (\<forall>b \<in> nodes. distinct (P' b) \<and> set (P' b) = {a \<in> (edges succs)\<^sup>* `` {root}. b \<in> set (succs a)})"
proof -
  have "predInv root [root] P" using assms by (auto simp: predInv_def)
  from updatePredecessorsLoop_ends [OF this assms(1)] obtain P'
    where "updatePredecessorsLoop succs [root] P = Some P'" "predInv root [] P'" by blast
  then show ?thesis using predInv_final [OF _ assms(1)] by (auto simp: updatePredecessorsAfter_def)
qed

text \<open>After \<open>resetReachability\<close> the block list holds exactly the reachable blocks.\<close>

lemma resetReachability_exact:
  assumes blocks: "blocks = Some root # rest" and nodes: "nodes = {b. Some b \<in> set blocks}"
    and once: "Some root \<notin> set rest"
  shows "\<exists>blocks' P' deleted. resetReachability succs blocks P = Some (blocks', P', deleted) \<and>
           length blocks' = length blocks \<and>
           {b. Some b \<in> set blocks'} = (edges succs)\<^sup>* `` {root} \<and>
           set deleted = nodes - (edges succs)\<^sup>* `` {root} \<and>
           (\<forall>b \<in> nodes. distinct (P' b) \<and> set (P' b) = {a \<in> (edges succs)\<^sup>* `` {root}. b \<in> set (succs a)})"
proof -
  let ?R = "(edges succs)\<^sup>* `` {root}"
  have root: "root \<in> nodes" using blocks nodes by simp
  obtain P' where u: "updatePredecessorsAfter succs root (\<lambda>b. if Some b \<in> set blocks then [] else P b) = Some P'"
      and P': "\<forall>b \<in> nodes. distinct (P' b) \<and> set (P' b) = {a \<in> ?R. b \<in> set (succs a)}"
    using updatePredecessorsAfter_exact [OF root, of "\<lambda>b. if Some b \<in> set blocks then [] else P b"] nodes by auto
  have dead: "P' b = [] \<longleftrightarrow> b \<notin> (edges succs)\<^sup>+ `` {root}" if "b \<in> nodes" for b
  proof -
    have "P' b = [] \<longleftrightarrow> {a \<in> ?R. b \<in> set (succs a)} = {}" using P' that by (metis set_empty)
    also have "\<dots> \<longleftrightarrow> b \<notin> (edges succs)\<^sup>+ `` {root}"
      by (auto simp: edges_def dest: tranclD2 intro: rtrancl_into_trancl1)
    finally show ?thesis .
  qed
  have R: "?R = insert root ((edges succs)\<^sup>+ `` {root})" by (auto simp: rtrancl_eq_or_trancl)
  have R_nodes: "?R \<subseteq> nodes" using reach_closed [of "{root}"] root by simp
  let ?keep = "\<lambda>ob. case ob of Some b \<Rightarrow> if P' b = [] then None else Some b | None \<Rightarrow> None"
  have rest: "{b. Some b \<in> set rest} \<subseteq> nodes" using blocks nodes by auto
  have kept: "{b. Some b \<in> set (Some root # map ?keep rest)} = ?R"
    using dead R R_nodes rest nodes blocks by (auto split: option.splits if_splits) (force simp: image_iff)+
  have "set (filter (\<lambda>b. P' b = []) (map the (filter (\<lambda>ob. ob \<noteq> None) rest))) = {b. Some b \<in> set rest \<and> P' b = []}"
    by (force simp: image_iff)
  also have "\<dots> = nodes - ?R" using dead R R_nodes rest nodes blocks once by auto
  finally show ?thesis using u P' kept blocks
    by (simp add: resetReachability_def)
qed

text \<open>
  The pre-order visits each reachable block once, and a block only after one of its predecessors.
\<close>

definition parented :: "'n \<Rightarrow> 'n list \<Rightarrow> bool" where
  "parented root xs \<longleftrightarrow>
     (\<forall>ys n zs. xs = ys @ n # zs \<longrightarrow> n = root \<or> (\<exists>a \<in> set ys. (a, n) \<in> edges succs))"

lemma parented_snoc:
  assumes "parented root xs" "n = root \<or> (\<exists>a \<in> set xs. (a, n) \<in> edges succs)"
  shows "parented root (xs @ [n])"
  unfolding parented_def
proof (intro allI impI)
  fix ys m zs assume eq: "xs @ [n] = ys @ m # zs"
  show "m = root \<or> (\<exists>a \<in> set ys. (a, m) \<in> edges succs)"
    using eq assms by (cases zs rule: rev_cases) (auto simp: parented_def)
qed

lemma drain_parented:
  assumes "drain succs (push root emptyWorklist) [] = Some (w', xs)"
  shows "parented root xs"
proof -
  let ?I = "\<lambda>w xs. parented root xs \<and> (\<forall>n \<in> set (m_stack w). n = root \<or> (\<exists>a \<in> set xs. (a, n) \<in> edges succs))"
  have "?I (fst (w', xs)) (snd (w', xs))"
  proof (rule drain_invariant [OF assms, of ?I], goal_cases)
    case 1
    show ?case by (simp add: parented_def push_def emptyWorklist_def)
  next
    case (2 w result n w1)
    have n: "n \<in> set (m_stack w)" and w1: "set (m_stack w1) \<subseteq> set (m_stack w)"
      using 2(2) by (auto simp: pop_def dest: in_set_butlastD split: if_splits)
    obtain new where "m_stack (pushAll (succs n) w1) = m_stack w1 @ new" "set new \<subseteq> set (succs n)"
      using pushAll_spec [of "succs n" w1] by blast
    then show ?case using 2(1) n w1 parented_snoc by (auto simp: edges_def)
  qed
  then show ?thesis by simp
qed

lemma blocksInPreOrder_exact:
  assumes "root \<in> nodes"
  shows "\<exists>order. blocksInPreOrder succs root = Some order \<and> distinct order \<and>
           set order = (edges succs)\<^sup>* `` {root} \<and> parented root order"
proof -
  have "m_seen (push root emptyWorklist) = {root}" "m_stack (push root emptyWorklist) = [root]"
    by (simp_all add: push_def emptyWorklist_def)
  then obtain w' new where "drain succs (push root emptyWorklist) [] = Some (w', new)"
      "m_seen w' = (edges succs)\<^sup>* `` {root}" "distinct new" "set new = m_seen w'"
    using drain_visits [of "push root emptyWorklist" "[]"] assms by (auto simp: workInv_push)
  then show ?thesis using drain_parented by (simp add: blocksInPreOrder_def)
qed

text \<open>
  A dominator of a block, a block on every path to it from the root, comes before it: follow the
  earlier predecessors back to the root.
\<close>

lemma parented_path:
  assumes "parented root xs" "xs = ys @ n # zs"
  shows "(root, n) \<in> (Restr (edges succs) (set (ys @ [n])))\<^sup>*"
  using assms
proof (induction "length ys" arbitrary: ys n zs rule: less_induct)
  case less
  show ?case
  proof (cases "n = root")
    case False
    then obtain a where a: "a \<in> set ys" "(a, n) \<in> edges succs"
      using less.prems unfolding parented_def by blast
    then obtain us vs where ys: "ys = us @ a # vs" by (meson split_list)
    have "(root, a) \<in> (Restr (edges succs) (set (us @ [a])))\<^sup>*"
      using less.hyps [of us a "vs @ n # zs"] less.prems ys by simp
    moreover have "Restr (edges succs) (set (us @ [a])) \<subseteq> Restr (edges succs) (set (ys @ [n]))"
      using ys by auto
    ultimately have "(root, a) \<in> (Restr (edges succs) (set (ys @ [n])))\<^sup>*"
      using rtrancl_mono by blast
    moreover have "(a, n) \<in> Restr (edges succs) (set (ys @ [n]))" using a by auto
    ultimately show ?thesis by (rule rtrancl_into_rtrancl)
  qed simp
qed

definition postInv :: "'n \<Rightarrow> 'n PostOrderGraphNodeWorklist \<Rightarrow> 'n list \<Rightarrow> bool" where
  "postInv root w result \<longleftrightarrow>
     root \<in> fst w \<and> fst w \<subseteq> (edges succs)\<^sup>* `` {root} \<and>
     distinct (map fst (snd w) @ result) \<and> set (map fst (snd w) @ result) = fst w \<and>
     (\<forall>n \<in> fst w. (n, Pre) \<notin> set (snd w) \<longrightarrow> set (succs n) \<subseteq> fst w)"

definition postWeight :: "'n PostOrderGraphNodeWorklist \<Rightarrow> nat" where
  "postWeight w = 3 * card (nodes - fst w) + sum_list (map (\<lambda>e. if snd e = Pre then 2 else 1) (snd w))"

lemma postInv_post:
  assumes "postInv root (seen, stack @ [(n, Post)]) result"
  shows "postInv root (seen, stack) (result @ [n])" "postWeight (seen, stack) < postWeight (seen, stack @ [(n, Post)])"
  using assms by (auto simp: postInv_def postWeight_def)

lemma postInv_pre:
  assumes inv: "postInv root (seen, stack @ [(n, Pre)]) result" and root: "root \<in> nodes"
    and new: "set new = set (succs n) - seen" "distinct new"
  defines "w' \<equiv> (seen \<union> set (succs n), (stack @ [(n, Post)]) @ map (\<lambda>m. (m, Pre)) new)"
  shows "postInv root w' result" "postWeight w' < postWeight (seen, stack @ [(n, Pre)])"
proof -
  let ?R = "(edges succs)\<^sup>* `` {root}"
  have n: "n \<in> ?R" "n \<in> seen"
    using inv by (auto simp: postInv_def)
  then have succ_R: "set (succs n) \<subseteq> ?R" by (auto simp: edges_def intro: rtrancl_into_rtrancl)
  have closed: "set (succs m) \<subseteq> fst w'" if "m \<in> fst w'" "(m, Pre) \<notin> set (snd w')" for m
  proof (cases "m = n")
    case False
    then have "m \<in> seen" "(m, Pre) \<notin> set (stack @ [(n, Pre)])" using that new(1) by (auto simp: w'_def)
    then show ?thesis using inv by (auto simp: postInv_def w'_def)
  qed (simp add: w'_def)
  obtain A where A: "A = map fst (stack @ [(n, Pre)])" by blast
  then have d: "distinct (A @ result)" "set (A @ result) = seen" using inv by (simp_all add: postInv_def)
  have "map fst (snd w') = A @ new" by (simp add: w'_def comp_def A)
  moreover have "set new \<inter> set (A @ result) = {}" using d(2) new(1) by auto
  ultimately have "distinct (map fst (snd w') @ result)" "set (map fst (snd w') @ result) = fst w'"
    using d new by (auto simp: w'_def)
  then show "postInv root w' result"
    using inv closed succ_R unfolding postInv_def by (simp add: w'_def)
  have "set new \<subseteq> nodes - seen" using new(1) succ_R reach_closed [of "{root}"] root by blast
  moreover have "nodes - fst w' = (nodes - seen) - set new" using new(1) by (auto simp: w'_def)
  ultimately have "card (nodes - fst w') + length new = card (nodes - seen)"
    using finite_nodes new(2) card_mono [of "nodes - seen" "set new"]
    by (simp add: card_Diff_subset distinct_card)
  moreover have "sum_list (map (\<lambda>e. if snd e = Pre then 2 else 1) (map (\<lambda>m. (m, Pre)) new)) = (2::nat) * length new"
    by (induction new) auto
  ultimately show "postWeight w' < postWeight (seen, stack @ [(n, Pre)])"
    by (simp add: postWeight_def w'_def comp_def)
qed

lemma postOrderLoop_ends:
  assumes "postInv root w result" "root \<in> nodes"
  shows "\<exists>order. postOrderLoop succs w result = Some order \<and> (\<exists>seen. postInv root (seen, []) order)"
  using assms
proof (induction "postWeight w" arbitrary: w result rule: less_induct)
  case less
  obtain seen stack where w: "w = (seen, stack)" by (cases w)
  show ?case
  proof (cases stack rule: rev_cases)
    case Nil
    then show ?thesis using less.prems w by (auto simp: postOrderLoop.simps [of succs "(seen, [])"])
  next
    case (snoc rest e)
    obtain n where "e = (n, Pre) \<or> e = (n, Post)" by (cases e; cases "snd e") auto
    then consider "e = (n, Pre)" | "e = (n, Post)" by blast
    then show ?thesis
    proof cases
      case 1
      obtain new where new: "fold pushPre (succs n) (seen, rest @ [(n, Post)])
            = (seen \<union> set (succs n), (rest @ [(n, Post)]) @ map (\<lambda>n. (n, Pre)) new)"
          "set new = set (succs n) - seen" "distinct new"
        using pushPres_spec [of "succs n" seen "rest @ [(n, Post)]"] by blast
      have inv: "postInv root (seen, rest @ [(n, Pre)]) result" using less.prems(1) w snoc 1 by simp
      note step = postInv_pre [OF inv less.prems(2) new(2,3)]
      from less.hyps [OF _ step(1) less.prems(2)] step(2) show ?thesis
        using w snoc 1 new(1) by (simp add: postOrderLoop.simps [of succs "(seen, rest @ [(n, Pre)])"] pushPost_def)
    next
      case 2
      have inv: "postInv root (seen, rest @ [(n, Post)]) result" using less.prems(1) w snoc 2 by simp
      note step = postInv_post [OF inv]
      from less.hyps [OF _ step(1) less.prems(2)] step(2) show ?thesis
        using w snoc 2 by (simp add: postOrderLoop.simps [of succs "(seen, rest @ [(n, Post)])"])
    qed
  qed
qed

lemma blocksInPostOrder_exact:
  assumes "root \<in> nodes"
  shows "\<exists>order. blocksInPostOrder succs root = Some order \<and> distinct order \<and>
           set order = (edges succs)\<^sup>* `` {root}"
proof -
  have "postInv root (pushPre root ({}, [])) []" by (auto simp: postInv_def pushPre_def)
  from postOrderLoop_ends [OF this assms] obtain order seen
    where o: "blocksInPostOrder succs root = Some order" "postInv root (seen, []) order"
    by (auto simp: blocksInPostOrder_def)
  then have "seen = set order" "distinct order" by (auto simp: postInv_def)
  moreover have "(edges succs)\<^sup>* `` seen = seen"
    using o(2) by (intro Image_closed_trancl) (auto simp: edges_def postInv_def)
  then have "(edges succs)\<^sup>* `` {root} \<subseteq> seen" using o(2) by (auto simp: postInv_def)
  ultimately show ?thesis using o by (auto simp: postInv_def)
qed

end

end
