(* ===== verification/B3Procedure.thy ===== *)
theory B3Procedure
  imports B3Const B3BlockUtils WtfSort
begin

text \<open>
  Class \<open>Procedure\<close> with the blocks and values it owns (b3/B3Procedure.h and .cpp,
  b3/B3BasicBlock.h and .cpp) and the insertion set of b3/B3InsertionSet.h and .cpp.

  \<open>m_values\<close> is a vector of owning pointers, null where a value was deleted; an index that was
  freed is handed out again. A \<open>BasicBlock*\<close> is the position of the block in \<open>m_heap\<close>, which
  keeps its identity while \<open>m_blocks\<close>, the ordered list of owned blocks, is rearranged.
\<close>

record BasicBlock =
  bb_index :: nat
  bb_values :: "value_ptr list"
  bb_predecessors :: "block_ptr list"
  bb_frequency :: double

record Procedure =
  m_values :: "Value option list"
  m_valueIndexFreeList :: "nat list"
  m_heap :: "BasicBlock option list"
  m_blocks :: "block_ptr option list"

definition emptyProcedure :: Procedure where
  "emptyProcedure = \<lparr>m_values = [], m_valueIndexFreeList = [], m_heap = [], m_blocks = []\<rparr>"

subsection \<open>Values\<close>

definition valuesOf :: "Procedure \<Rightarrow> store" where
  "valuesOf p i = (case at (m_values p) i of Some ov \<Rightarrow> ov | None \<Rightarrow> None)"

definition setValue :: "value_ptr \<Rightarrow> Value \<Rightarrow> Procedure \<Rightarrow> Procedure" where
  "setValue i v p = p\<lparr>m_values := (m_values p)[i := Some v]\<rparr>"

definition addValueIndex :: "Procedure \<Rightarrow> nat \<times> Procedure" where
  "addValueIndex p =
     (if m_valueIndexFreeList p = []
      then (length (m_values p), p\<lparr>m_values := m_values p @ [None]\<rparr>)
      else (last (m_valueIndexFreeList p), p\<lparr>m_valueIndexFreeList := butlast (m_valueIndexFreeList p)\<rparr>))"

definition add :: "Value \<Rightarrow> Procedure \<Rightarrow> value_ptr \<times> Procedure" where
  "add v p = (let (index, p') = addValueIndex p in (index, setValue index v p'))"

definition deleteValue :: "value_ptr \<Rightarrow> Procedure \<Rightarrow> Procedure" where
  "deleteValue i p =
     p\<lparr>m_valueIndexFreeList := m_valueIndexFreeList p @ [i], m_values := (m_values p)[i := None]\<rparr>"

text \<open>
  The constant that \<open>addIntConstant\<close> adds; \<open>RELEASE_ASSERT_NOT_REACHED\<close> for type \<open>Void\<close> is
  \<^term>\<open>None\<close>.
\<close>

definition intConstant :: "nat \<Rightarrow> b3type \<Rightarrow> int64 \<Rightarrow> Value option" where
  "intConstant origin type value =
     (case type of
        Int32 \<Rightarrow> Some (Const32Value origin (ucast value))
      | Int64 \<Rightarrow> Some (Const64Value origin value)
      | Double \<Rightarrow> Some (ConstDoubleValue origin (doubleOfInt (sint value)))
      | Void \<Rightarrow> None)"

definition addIntConstant :: "nat \<Rightarrow> b3type \<Rightarrow> int64 \<Rightarrow> Procedure \<Rightarrow> (value_ptr \<times> Procedure) option" where
  "addIntConstant origin type value p = map_option (\<lambda>v. add v p) (intConstant origin type value)"

definition addBoolConstant :: "nat \<Rightarrow> TriState \<Rightarrow> Procedure \<Rightarrow> (value_ptr option \<times> Procedure) option" where
  "addBoolConstant origin state p =
     (case state of
        FalseTriState \<Rightarrow> map_option (apfst Some) (addIntConstant origin Int32 0 p)
      | TrueTriState \<Rightarrow> map_option (apfst Some) (addIntConstant origin Int32 1 p)
      | MixedTriState \<Rightarrow> Some (None, p))"

subsection \<open>Blocks\<close>

definition block :: "Procedure \<Rightarrow> block_ptr \<Rightarrow> BasicBlock option" where
  "block p b = (case at (m_heap p) b of Some ob \<Rightarrow> ob | None \<Rightarrow> None)"

definition setBlock :: "block_ptr \<Rightarrow> BasicBlock \<Rightarrow> Procedure \<Rightarrow> Procedure" where
  "setBlock b bb p = p\<lparr>m_heap := (m_heap p)[b := Some bb]\<rparr>"

definition mkBasicBlock :: "nat \<Rightarrow> double \<Rightarrow> BasicBlock" where
  "mkBasicBlock index frequency =
     \<lparr>bb_index = index, bb_values = [], bb_predecessors = [], bb_frequency = frequency\<rparr>"

definition addBlock :: "double \<Rightarrow> Procedure \<Rightarrow> block_ptr \<times> Procedure" where
  "addBlock frequency p =
     (let result = length (m_heap p)
      in (result, p\<lparr>m_heap := m_heap p @ [Some (mkBasicBlock (length (m_blocks p)) frequency)],
                   m_blocks := m_blocks p @ [Some result]\<rparr>))"

text \<open>The iteration \<open>for (BasicBlock* block : procedure)\<close>, which skips null entries.\<close>

definition blocksOf :: "Procedure \<Rightarrow> block_ptr list" where
  "blocksOf p = map the (filter (\<lambda>ob. ob \<noteq> None) (m_blocks p))"

definition valuesIn :: "Procedure \<Rightarrow> block_ptr \<Rightarrow> value_ptr list" where
  "valuesIn p b = (case block p b of Some bb \<Rightarrow> bb_values bb | None \<Rightarrow> [])"

definition updateBlock :: "block_ptr \<Rightarrow> (BasicBlock \<Rightarrow> BasicBlock) \<Rightarrow> Procedure \<Rightarrow> Procedure" where
  "updateBlock b f p = (case block p b of Some bb \<Rightarrow> setBlock b (f bb) p | None \<Rightarrow> p)"

definition appendValue :: "block_ptr \<Rightarrow> value_ptr \<Rightarrow> Procedure \<Rightarrow> Procedure" where
  "appendValue b v p = updateBlock b (\<lambda>bb. bb\<lparr>bb_values := bb_values bb @ [v]\<rparr>) p"

definition appendNew :: "block_ptr \<Rightarrow> Value \<Rightarrow> Procedure \<Rightarrow> value_ptr \<times> Procedure" where
  "appendNew b v p = (let (result, p') = add v p in (result, appendValue b result p'))"

definition removeLast :: "block_ptr \<Rightarrow> Procedure \<Rightarrow> Procedure" where
  "removeLast b p =
     (if valuesIn p b = [] then p
      else deleteValue (last (valuesIn p b))
             (updateBlock b (\<lambda>bb. bb\<lparr>bb_values := butlast (bb_values bb)\<rparr>) p))"

definition replaceLast :: "block_ptr \<Rightarrow> value_ptr \<Rightarrow> Procedure \<Rightarrow> Procedure" where
  "replaceLast b v p = appendValue b v (removeLast b p)"

definition replaceLastWithNew :: "block_ptr \<Rightarrow> Value \<Rightarrow> Procedure \<Rightarrow> value_ptr \<times> Procedure" where
  "replaceLastWithNew b v p = (let (result, p') = add v p in (result, replaceLast b result p'))"

definition appendIntConstant ::
    "block_ptr \<Rightarrow> nat \<Rightarrow> b3type \<Rightarrow> int64 \<Rightarrow> Procedure \<Rightarrow> (value_ptr \<times> Procedure) option" where
  "appendIntConstant b origin type value p =
     map_option (\<lambda>(result, p'). (result, appendValue b result p')) (addIntConstant origin type value p)"

definition lastValue :: "Procedure \<Rightarrow> block_ptr \<Rightarrow> Value option" where
  "lastValue p b = (if valuesIn p b = [] then None else valuesOf p (last (valuesIn p b)))"

text \<open>
  \<open>block->successorBlocks()\<close>. The source reads the successors of the last value of the block as a
  \<open>ControlValue\<close>; a block that does not end in one has no successors here, and the theorems ask
  for blocks that do.
\<close>

definition successorBlocks :: "Procedure \<Rightarrow> block_ptr \<Rightarrow> block_ptr list" where
  "successorBlocks p b = (case lastValue p b of Some v \<Rightarrow> map fst (successors v) | None \<Rightarrow> [])"

definition predsOf :: "Procedure \<Rightarrow> block_ptr \<Rightarrow> block_ptr list" where
  "predsOf p b = (case block p b of Some bb \<Rightarrow> bb_predecessors bb | None \<Rightarrow> [])"

definition setPreds :: "(block_ptr \<Rightarrow> block_ptr list) \<Rightarrow> Procedure \<Rightarrow> Procedure" where
  "setPreds preds p =
     p\<lparr>m_heap := map (\<lambda>(b, ob). map_option (\<lambda>bb. bb\<lparr>bb_predecessors := preds b\<rparr>) ob)
                   (zip [0..<length (m_heap p)] (m_heap p))\<rparr>"

definition addPredecessorTo :: "block_ptr \<Rightarrow> block_ptr \<Rightarrow> Procedure \<Rightarrow> Procedure" where
  "addPredecessorTo b pred p =
     updateBlock b (\<lambda>bb. bb\<lparr>bb_predecessors := snd (addPredecessor (bb_predecessors bb) pred)\<rparr>) p"

definition removePredecessorFrom :: "block_ptr \<Rightarrow> block_ptr \<Rightarrow> Procedure \<Rightarrow> Procedure" where
  "removePredecessorFrom b pred p =
     updateBlock b (\<lambda>bb. bb\<lparr>bb_predecessors := snd (removePredecessor (bb_predecessors bb) pred)\<rparr>) p"

definition replacePredecessorOf :: "block_ptr \<Rightarrow> block_ptr \<Rightarrow> block_ptr \<Rightarrow> Procedure \<Rightarrow> Procedure" where
  "replacePredecessorOf b from to p =
     updateBlock b (\<lambda>bb. bb\<lparr>bb_predecessors := snd (replacePredecessor (bb_predecessors bb) from to)\<rparr>) p"

definition procBlocksInPreOrder :: "Procedure \<Rightarrow> block_ptr list option" where
  "procBlocksInPreOrder p =
     (case m_blocks p of Some root # _ \<Rightarrow> blocksInPreOrder (successorBlocks p) root | _ \<Rightarrow> None)"

definition procBlocksInPostOrder :: "Procedure \<Rightarrow> block_ptr list option" where
  "procBlocksInPostOrder p =
     (case m_blocks p of Some root # _ \<Rightarrow> blocksInPostOrder (successorBlocks p) root | _ \<Rightarrow> None)"

text \<open>
  \<open>Procedure::resetReachability\<close>: the functor deletes the values of each deleted block; the block
  itself dies with its owning pointer.
\<close>

definition deleteBlock :: "block_ptr \<Rightarrow> Procedure \<Rightarrow> Procedure" where
  "deleteBlock b p =
     (let p' = fold deleteValue (valuesIn p b) p in p'\<lparr>m_heap := (m_heap p')[b := None]\<rparr>)"

definition procResetReachability :: "Procedure \<Rightarrow> Procedure option" where
  "procResetReachability p =
     (case resetReachability (successorBlocks p) (m_blocks p) (predsOf p) of
        None \<Rightarrow> None
      | Some (blocks', preds', deleted) \<Rightarrow>
          Some ((fold deleteBlock deleted (setPreds preds' p))\<lparr>m_blocks := blocks'\<rparr>))"

subsection \<open>Substitution\<close>

text \<open>
  \<open>Value::performSubstitution\<close>: every child is chased through identities. The chase need not end
  on a cycle of identities, so it returns an option; null and dangling children are its crash.
\<close>

partial_function (option) chaseIdentity :: "store \<Rightarrow> value_ptr \<Rightarrow> value_ptr option" where
  "chaseIdentity s c =
     (case s c of
        None \<Rightarrow> None
      | Some v \<Rightarrow>
          if m_opcode v = Identity
          then (case m_children v of c' # _ \<Rightarrow> chaseIdentity s c' | [] \<Rightarrow> None)
          else Some c)"

declare chaseIdentity.simps [code]

fun chaseAll :: "store \<Rightarrow> value_ptr list \<Rightarrow> value_ptr list option" where
  "chaseAll s [] = Some []"
| "chaseAll s (c # cs) =
     (case chaseIdentity s c of None \<Rightarrow> None | Some c' \<Rightarrow> map_option ((#) c') (chaseAll s cs))"

definition performSubstitution :: "value_ptr \<Rightarrow> Procedure \<Rightarrow> Procedure option" where
  "performSubstitution i p =
     (case valuesOf p i of
        None \<Rightarrow> None
      | Some v \<Rightarrow>
          (case chaseAll (valuesOf p) (m_children v) of
             None \<Rightarrow> None
           | Some cs \<Rightarrow> Some (setValue i (v\<lparr>m_children := cs\<rparr>) p)))"

text \<open>\<open>Value::invertedCompare\<close>: the value it adds, or null.\<close>

definition invertedCompare :: "store \<Rightarrow> Value \<Rightarrow> Value option" where
  "invertedCompare s v =
     (case m_children v of
        [] \<Rightarrow> None
      | c # _ \<Rightarrow>
          (case s c of
             None \<Rightarrow> None
           | Some cv \<Rightarrow>
               (case invertedCompareOp (m_opcode v) (m_type cv) of
                  None \<Rightarrow> None
                | Some inverted \<Rightarrow> Some (mkValue inverted (m_type v) (m_origin v) (m_children v) NoPayload))))"

subsection \<open>The insertion set\<close>

type_synonym Insertion = "nat \<times> value_ptr"

definition executeInsertionSet :: "Insertion list \<Rightarrow> block_ptr \<Rightarrow> Procedure \<Rightarrow> Procedure" where
  "executeInsertionSet insertions b p =
     updateBlock b (\<lambda>bb. bb\<lparr>bb_values :=
       map the (executeInsertions (bb_values bb) (bubbleSort (\<lambda>x y. fst x < fst y) insertions))\<rparr>) p"

subsection \<open>The value heap\<close>

text \<open>
  What the phases rely on when they create, overwrite and delete values: a new value gets an
  index no live value has, and no operation disturbs the values at other indices.
\<close>

locale value_heap =
  fixes alloc :: "'v \<Rightarrow> 'h \<Rightarrow> nat \<times> 'h"
    and overwrite :: "nat \<Rightarrow> 'v \<Rightarrow> 'h \<Rightarrow> 'h"
    and free :: "nat \<Rightarrow> 'h \<Rightarrow> 'h"
    and live :: "'h \<Rightarrow> nat \<Rightarrow> 'v option"
    and heapInv :: "'h \<Rightarrow> bool"
  assumes alloc: "heapInv h \<Longrightarrow> alloc v h = (i, h') \<Longrightarrow>
      live h i = None \<and> live h' = (live h)(i \<mapsto> v) \<and> heapInv h'"
    and overwrite: "heapInv h \<Longrightarrow> live h i \<noteq> None \<Longrightarrow>
      live (overwrite i v h) = (live h)(i \<mapsto> v) \<and> heapInv (overwrite i v h)"
    and free: "heapInv h \<Longrightarrow> live h i \<noteq> None \<Longrightarrow> live (free i h) = (live h)(i := None) \<and> heapInv (free i h)"
begin

lemma alloc_dom: "heapInv h \<Longrightarrow> alloc v h = (i, h') \<Longrightarrow> dom (live h') = insert i (dom (live h)) \<and> i \<notin> dom (live h)"
  using alloc by auto

lemma alloc_old: "heapInv h \<Longrightarrow> alloc v h = (i, h') \<Longrightarrow> live h j = Some w \<Longrightarrow> live h' j = Some w"
  using alloc by fastforce

lemma free_all:
  "heapInv h \<Longrightarrow> distinct is \<Longrightarrow> set is \<subseteq> dom (live h) \<Longrightarrow>
     live (fold free is h) = (\<lambda>i. if i \<in> set is then None else live h i) \<and> heapInv (fold free is h)"
proof (induction "is" arbitrary: h)
  case (Cons i js)
  have f: "live (free i h) = (live h)(i := None)" "heapInv (free i h)"
    using free [of h i] Cons.prems by auto
  then have "live (fold free js (free i h)) = (\<lambda>k. if k \<in> set js then None else live (free i h) k) \<and>
      heapInv (fold free js (free i h))"
    using Cons.prems by (intro Cons.IH) auto
  then show ?case using f by auto
qed simp

end

lemma valuesOf_eq: "valuesOf p i = (if i < length (m_values p) then m_values p ! i else None)"
  by (simp add: valuesOf_def at_def)

definition procInv :: "Procedure \<Rightarrow> bool" where
  "procInv p \<longleftrightarrow>
     distinct (m_valueIndexFreeList p) \<and>
     set (m_valueIndexFreeList p) = {i. i < length (m_values p) \<and> m_values p ! i = None}"

lemma procInv_empty: "procInv emptyProcedure"
  by (simp add: procInv_def emptyProcedure_def)

lemma add_fresh:
  assumes "procInv p" "add v p = (i, p')"
  shows "valuesOf p i = None" "valuesOf p' = (valuesOf p)(i \<mapsto> v)" "procInv p'"
proof -
  have "valuesOf p i = None \<and> valuesOf p' = (valuesOf p)(i \<mapsto> v) \<and> procInv p'"
  proof (cases "m_valueIndexFreeList p" rule: rev_cases)
    case Nil
    have "m_values p ! j \<noteq> None" if "j < length (m_values p)" for j
      using assms(1) Nil that by (auto simp: procInv_def)
    moreover have "i = length (m_values p)" "p' = p\<lparr>m_values := m_values p @ [Some v]\<rparr>"
      using assms(2) Nil by (simp_all add: add_def addValueIndex_def setValue_def)
    ultimately show ?thesis using Nil
      by (auto simp: procInv_def valuesOf_eq nth_append fun_eq_iff less_Suc_eq split: if_splits)
  next
    case (snoc free j)
    then have "i = j" and p': "p' = p\<lparr>m_valueIndexFreeList := free, m_values := (m_values p)[j := Some v]\<rparr>"
      using assms(2) by (auto simp: add_def addValueIndex_def setValue_def)
    have fl: "distinct (free @ [j])" "set (free @ [j]) = {k. k < length (m_values p) \<and> m_values p ! k = None}"
      using assms(1) snoc by (simp_all add: procInv_def)
    then have j: "j < length (m_values p)" "m_values p ! j = None" by auto
    have "{k. k < length (m_values p) \<and> (m_values p)[j := Some v] ! k = None} = set (free @ [j]) - {j}"
      unfolding fl(2) using j by (auto simp: nth_list_update split: if_splits)
    then have "procInv p'" using fl(1) by (simp add: procInv_def p')
    moreover have "valuesOf p' = (valuesOf p)(i \<mapsto> v)"
      using j \<open>i = j\<close> by (intro ext) (simp add: valuesOf_eq p' nth_list_update)
    ultimately show ?thesis using j \<open>i = j\<close> by (simp add: valuesOf_eq)
  qed
  then show "valuesOf p i = None" "valuesOf p' = (valuesOf p)(i \<mapsto> v)" "procInv p'" by simp_all
qed

lemma valuesOf_setValue: "valuesOf p i \<noteq> None \<Longrightarrow> valuesOf (setValue i v p) = (valuesOf p)(i \<mapsto> v)"
  by (rule ext) (simp add: valuesOf_eq setValue_def nth_list_update split: if_splits)

lemma procInv_setValue: "procInv p \<Longrightarrow> valuesOf p i \<noteq> None \<Longrightarrow> procInv (setValue i v p)"
proof -
  assume "valuesOf p i \<noteq> None"
  then have "{k. k < length (m_values p) \<and> (m_values p)[i := Some v] ! k = None}
      = {k. k < length (m_values p) \<and> m_values p ! k = None}"
    by (intro Collect_cong) (auto simp: nth_list_update valuesOf_eq split: if_splits)
  then show "procInv p \<Longrightarrow> procInv (setValue i v p)" by (simp add: procInv_def setValue_def)
qed

lemma valuesOf_deleteValue: "valuesOf (deleteValue i p) = (valuesOf p)(i := None)"
  by (rule ext) (simp add: valuesOf_eq deleteValue_def nth_list_update)

lemma procInv_deleteValue: "procInv p \<Longrightarrow> valuesOf p i \<noteq> None \<Longrightarrow> procInv (deleteValue i p)"
proof -
  assume i: "valuesOf p i \<noteq> None"
  then have "{k. k < length (m_values p) \<and> (m_values p)[i := None] ! k = None}
      = insert i {k. k < length (m_values p) \<and> m_values p ! k = None}"
    by (auto simp: nth_list_update valuesOf_eq split: if_splits)
  then show "procInv p \<Longrightarrow> procInv (deleteValue i p)"
    using i by (simp add: procInv_def deleteValue_def valuesOf_eq split: if_splits)
qed

interpretation vals: value_heap add setValue deleteValue valuesOf procInv
  by unfold_locales
    (simp_all add: add_fresh valuesOf_setValue procInv_setValue valuesOf_deleteValue procInv_deleteValue)

lemma add_blocks: "add v p = (i, p') \<Longrightarrow> m_heap p' = m_heap p \<and> m_blocks p' = m_blocks p"
  by (auto simp: add_def addValueIndex_def setValue_def split: if_splits)

lemma setValue_blocks [simp]: "m_heap (setValue i v p) = m_heap p" "m_blocks (setValue i v p) = m_blocks p"
  by (simp_all add: setValue_def)

lemma deleteValue_blocks [simp]:
  "m_heap (deleteValue i p) = m_heap p" "m_blocks (deleteValue i p) = m_blocks p"
  by (simp_all add: deleteValue_def)

lemma updateBlock_values [simp]:
  "valuesOf (updateBlock b f p) = valuesOf p" "procInv (updateBlock b f p) = procInv p"
  "m_blocks (updateBlock b f p) = m_blocks p"
  by (auto simp: updateBlock_def setBlock_def valuesOf_def procInv_def fun_eq_iff split: option.splits)

lemma block_updateBlock: "block (updateBlock b f p) c = (if c = b then map_option f (block p b) else block p c)"
  by (auto simp: updateBlock_def setBlock_def block_def at_update at_def split: option.splits)

lemma valuesIn_appendValue:
  "block p b \<noteq> None \<Longrightarrow> valuesIn (appendValue b v p) c = (if c = b then valuesIn p b @ [v] else valuesIn p c)"
  by (auto simp: valuesIn_def appendValue_def block_updateBlock)

text \<open>
  Executing the insertion set leaves every value of the block in place and puts the inserted
  values in front of the value at their index, in the order in which they were inserted.
\<close>

lemma spliced_sort_key: "spliced t (sort_key fst ins) = spliced t ins"
  by (simp only: spliced_def sort_key_stable)

lemma executeInsertionSet_values:
  assumes "block p b \<noteq> None" "\<forall>(i, v) \<in> set ins. i \<le> length (valuesIn p b)"
  shows "valuesIn (executeInsertionSet ins b p) b = spliced (valuesIn p b) ins"
proof -
  have "\<forall>q \<in> set (sort_key fst ins). fst q \<le> length (valuesIn p b)" using assms(2) by auto
  then have "executeInsertions (valuesIn p b) (sort_key fst ins) = map Some (spliced (valuesIn p b) ins)"
    using executeInsertions_spliced [of "sort_key fst ins"] by (simp add: spliced_sort_key)
  then show ?thesis
    using assms(1) bubbleSort_sort_key [where key = fst and xs = ins]
    by (auto simp: valuesIn_def executeInsertionSet_def block_updateBlock comp_def)
qed

end
