(* ===== verification/B3Validate.thy ===== *)
theory B3Validate
  imports B3Procedure
begin

text \<open>
  The validator of b3/B3Validate.cpp: the structure of a procedure (every value in exactly one
  block, terminals at the end, exact predecessor lists) and the typing of each opcode. A failed
  \<open>VALIDATE\<close> ends the process; the validator is a bool-valued function here. The typing invariant
  \<open>wtValue\<close> that the phases are proved to keep is derived from it.
\<close>

definition numChildren :: "Value \<Rightarrow> nat" where
  "numChildren v = length (m_children v)"

definition childType :: "store \<Rightarrow> Value \<Rightarrow> nat \<Rightarrow> b3type option" where
  "childType s v k = map_option m_type (child s v k)"

definition childIsInt :: "store \<Rightarrow> Value \<Rightarrow> nat \<Rightarrow> bool" where
  "childIsInt s v k \<longleftrightarrow> childType s v k = Some Int32 \<or> childType s v k = Some Int64"

definition stackmapReps :: "Value \<Rightarrow> ValueRep list option" where
  "stackmapReps v =
     (case m_payload v of
        StackmapPayload d \<Rightarrow> Some (m_reps d)
      | PatchpointPayload d _ \<Rightarrow> Some (m_reps d)
      | _ \<Rightarrow> None)"

text \<open>\<open>StackmapValue::constrainedChild(i).rep()\<close>: a child past the end of \<open>m_reps\<close> may be anywhere.\<close>

definition constrainedRep :: "Value \<Rightarrow> nat \<Rightarrow> ValueRep" where
  "constrainedRep v k =
     (case stackmapReps v of
        Some reps \<Rightarrow> (case at reps k of Some r \<Rightarrow> r | None \<Rightarrow> AnyRep)
      | None \<Rightarrow> AnyRep)"

definition validateStackmap :: "store \<Rightarrow> Value \<Rightarrow> bool" where
  "validateStackmap s v =
     (case stackmapReps v of
        None \<Rightarrow> False
      | Some reps \<Rightarrow>
          numChildren v \<ge> length reps \<and>
          (\<forall>i \<in> set [0..<length reps].
             case reps ! i of
               Register reg \<Rightarrow> if isGPR reg then childIsInt s v i else childType s v i = Some Double
             | _ \<Rightarrow> True))"

definition validateStackAccess :: "store \<Rightarrow> Value \<Rightarrow> bool" where
  "validateStackAccess s v =
     (case child s v (numChildren v - 1) of
        None \<Rightarrow> False
      | Some address \<Rightarrow>
          (case m_payload address of
             StackSlotPayload byteSize kind offset \<Rightarrow>
               sint (memOffset v) \<ge> 0 \<and>
               (case accessByteSize (m_type v)
                       (case childType s v 0 of Some t \<Rightarrow> t | None \<Rightarrow> Void) (m_opcode v) of
                  Some bytes \<Rightarrow> sint (memOffset v) + int bytes \<le> uint byteSize
                | None \<Rightarrow> False)
           | _ \<Rightarrow> True))"

text \<open>The cases of the switch over the opcode, less the calls of \<open>validateStackAccess\<close>.\<close>

definition validateMath :: "store \<Rightarrow> Value \<Rightarrow> bool" where
  "validateMath s v \<longleftrightarrow>
     numChildren v = 2 \<and> childType s v 0 = Some (m_type v) \<and> childType s v 1 = Some (m_type v)"

definition validateCompare :: "store \<Rightarrow> Value \<Rightarrow> bool" where
  "validateCompare s v \<longleftrightarrow> numChildren v = 2 \<and> childType s v 0 = childType s v 1 \<and> m_type v = Int32"

definition validateCheckMath :: "store \<Rightarrow> Value \<Rightarrow> bool" where
  "validateCheckMath s v \<longleftrightarrow>
     numChildren v \<ge> 2 \<and> childIsInt s v 0 \<and> childIsInt s v 1 \<and>
     constrainedRep v 0 = AnyRep \<and> constrainedRep v 1 = AnyRep \<and> validateStackmap s v"

primrec validateOpcode :: "opcode \<Rightarrow> store \<Rightarrow> Value \<Rightarrow> bool" where
  "validateOpcode Nop = (\<lambda>s v. numChildren v = 0 \<and> m_type v = Void)"
| "validateOpcode Identity = (\<lambda>s v. numChildren v = 1 \<and> childType s v 0 = Some (m_type v) \<and> m_type v \<noteq> Void)"
| "validateOpcode Const32 = (\<lambda>s v. numChildren v = 0 \<and> m_type v = Int32)"
| "validateOpcode Const64 = (\<lambda>s v. numChildren v = 0 \<and> m_type v = Int64)"
| "validateOpcode ConstDouble = (\<lambda>s v. numChildren v = 0 \<and> m_type v = Double)"
| "validateOpcode StackSlot = (\<lambda>s v. numChildren v = 0 \<and> m_type v = pointerType)"
| "validateOpcode ArgumentReg = (\<lambda>s v. numChildren v = 0 \<and> (case m_payload v of
        ArgumentRegPayload reg \<Rightarrow> (if isGPR reg then pointerType else Double) = m_type v
      | _ \<Rightarrow> False))"
| "validateOpcode FramePointer = (\<lambda>s v. numChildren v = 0 \<and> m_type v = pointerType)"
| "validateOpcode Add = (\<lambda>s v. validateMath s v \<and> m_type v \<noteq> Void)"
| "validateOpcode Sub = (\<lambda>s v. validateMath s v \<and> m_type v \<noteq> Void)"
| "validateOpcode Mul = (\<lambda>s v. validateMath s v \<and> m_type v \<noteq> Void)"
| "validateOpcode Div = (\<lambda>s v. validateMath s v \<and> m_type v \<noteq> Void)"
| "validateOpcode ChillDiv = (\<lambda>s v. validateMath s v \<and> isInt (m_type v))"
| "validateOpcode Mod = (\<lambda>s v. validateMath s v \<and> isInt (m_type v))"
| "validateOpcode BitAnd = (\<lambda>s v. validateMath s v \<and> isInt (m_type v))"
| "validateOpcode BitOr = (\<lambda>s v. validateMath s v \<and> isInt (m_type v))"
| "validateOpcode BitXor = (\<lambda>s v. validateMath s v \<and> isInt (m_type v))"
| "validateOpcode Shl = (\<lambda>s v. numChildren v = 2 \<and> childType s v 0 = Some (m_type v) \<and> childType s v 1 = Some Int32 \<and> isInt (m_type v))"
| "validateOpcode SShr = (\<lambda>s v. numChildren v = 2 \<and> childType s v 0 = Some (m_type v) \<and> childType s v 1 = Some Int32 \<and> isInt (m_type v))"
| "validateOpcode ZShr = (\<lambda>s v. numChildren v = 2 \<and> childType s v 0 = Some (m_type v) \<and> childType s v 1 = Some Int32 \<and> isInt (m_type v))"
| "validateOpcode BitwiseCast = (\<lambda>s v. numChildren v = 1 \<and> childType s v 0 \<noteq> Some (m_type v) \<and>
     ((m_type v = Int64 \<and> childType s v 0 = Some Double) \<or> (m_type v = Double \<and> childType s v 0 = Some Int64)))"
| "validateOpcode SExt8 = (\<lambda>s v. numChildren v = 1 \<and> childType s v 0 = Some Int32 \<and> m_type v = Int32)"
| "validateOpcode SExt16 = (\<lambda>s v. numChildren v = 1 \<and> childType s v 0 = Some Int32 \<and> m_type v = Int32)"
| "validateOpcode SExt32 = (\<lambda>s v. numChildren v = 1 \<and> childType s v 0 = Some Int32 \<and> m_type v = Int64)"
| "validateOpcode ZExt32 = (\<lambda>s v. numChildren v = 1 \<and> childType s v 0 = Some Int32 \<and> m_type v = Int64)"
| "validateOpcode Trunc = (\<lambda>s v. numChildren v = 1 \<and> childType s v 0 = Some Int64 \<and> m_type v = Int32)"
| "validateOpcode FRound = (\<lambda>s v. numChildren v = 1 \<and> childType s v 0 = Some Double \<and> m_type v = Double)"
| "validateOpcode IToD = (\<lambda>s v. numChildren v = 1 \<and> childIsInt s v 0 \<and> m_type v = Double)"
| "validateOpcode DToI32 = (\<lambda>s v. numChildren v = 1 \<and> childType s v 0 = Some Double \<and> m_type v = Int32)"
| "validateOpcode Equal = (\<lambda>s v. validateCompare s v)"
| "validateOpcode NotEqual = (\<lambda>s v. validateCompare s v)"
| "validateOpcode LessThan = (\<lambda>s v. validateCompare s v)"
| "validateOpcode GreaterThan = (\<lambda>s v. validateCompare s v)"
| "validateOpcode LessEqual = (\<lambda>s v. validateCompare s v)"
| "validateOpcode GreaterEqual = (\<lambda>s v. validateCompare s v)"
| "validateOpcode Above = (\<lambda>s v. validateCompare s v \<and> childIsInt s v 0)"
| "validateOpcode Below = (\<lambda>s v. validateCompare s v \<and> childIsInt s v 0)"
| "validateOpcode AboveEqual = (\<lambda>s v. validateCompare s v \<and> childIsInt s v 0)"
| "validateOpcode BelowEqual = (\<lambda>s v. validateCompare s v \<and> childIsInt s v 0)"
| "validateOpcode Select = (\<lambda>s v. numChildren v = 3 \<and> childIsInt s v 0 \<and> childType s v 1 = Some (m_type v) \<and> childType s v 2 = Some (m_type v))"
| "validateOpcode Load8Z = (\<lambda>s v. numChildren v = 1 \<and> childType s v 0 = Some pointerType \<and> m_type v = Int32)"
| "validateOpcode Load8S = (\<lambda>s v. numChildren v = 1 \<and> childType s v 0 = Some pointerType \<and> m_type v = Int32)"
| "validateOpcode Load16Z = (\<lambda>s v. numChildren v = 1 \<and> childType s v 0 = Some pointerType \<and> m_type v = Int32)"
| "validateOpcode Load16S = (\<lambda>s v. numChildren v = 1 \<and> childType s v 0 = Some pointerType \<and> m_type v = Int32)"
| "validateOpcode LoadFloat = (\<lambda>s v. numChildren v = 1 \<and> childType s v 0 = Some pointerType \<and> m_type v = Double)"
| "validateOpcode Load = (\<lambda>s v. numChildren v = 1 \<and> childType s v 0 = Some pointerType \<and> m_type v \<noteq> Void)"
| "validateOpcode Store8 = (\<lambda>s v. numChildren v = 2 \<and> childType s v 0 = Some Int32 \<and> childType s v 1 = Some pointerType \<and> m_type v = Void)"
| "validateOpcode Store16 = (\<lambda>s v. numChildren v = 2 \<and> childType s v 0 = Some Int32 \<and> childType s v 1 = Some pointerType \<and> m_type v = Void)"
| "validateOpcode StoreFloat = (\<lambda>s v. numChildren v = 2 \<and> childType s v 0 = Some Double \<and> childType s v 1 = Some pointerType \<and> m_type v = Void)"
| "validateOpcode Store = (\<lambda>s v. numChildren v = 2 \<and> childType s v 1 = Some pointerType \<and> m_type v = Void)"
| "validateOpcode CCall = (\<lambda>s v. True)"
| "validateOpcode Patchpoint = (\<lambda>s v. validateStackmap s v)"
| "validateOpcode CheckAdd = (\<lambda>s v. validateCheckMath s v)"
| "validateOpcode CheckSub = (\<lambda>s v. validateCheckMath s v)"
| "validateOpcode CheckMul = (\<lambda>s v. validateCheckMath s v)"
| "validateOpcode Check = (\<lambda>s v. numChildren v \<ge> 1 \<and> childIsInt s v 0 \<and> constrainedRep v 0 = AnyRep \<and> validateStackmap s v)"
| "validateOpcode Upsilon = (\<lambda>s v. numChildren v = 1 \<and> (case upsilonPhi v of
        None \<Rightarrow> False
      | Some phi \<Rightarrow> s phi \<noteq> None \<and> childType s v 0 = map_option m_type (s phi)))"
| "validateOpcode Phi = (\<lambda>s v. numChildren v = 0 \<and> m_type v \<noteq> Void)"
| "validateOpcode Jump = (\<lambda>s v. numChildren v = 0 \<and> m_type v = Void)"
| "validateOpcode Branch = (\<lambda>s v. numChildren v = 1 \<and> childIsInt s v 0 \<and> m_type v = Void)"
| "validateOpcode Switch = (\<lambda>s v. numChildren v = 1 \<and> childIsInt s v 0 \<and> m_type v = Void)"
| "validateOpcode Return = (\<lambda>s v. numChildren v = 1 \<and> m_type v = Void)"
| "validateOpcode Oops = (\<lambda>s v. numChildren v = 0 \<and> m_type v = Void)"

definition validateTypes :: "store \<Rightarrow> Value \<Rightarrow> bool" where
  "validateTypes s v = validateOpcode (m_opcode v) s v"

definition validateChildren :: "store \<Rightarrow> Value \<Rightarrow> bool" where
  "validateChildren s v \<longleftrightarrow>
     (\<forall>c \<in> set (m_children v). case s c of Some cv \<Rightarrow> m_type cv \<noteq> Void | None \<Rightarrow> False)"

definition validateValue :: "store \<Rightarrow> Value \<Rightarrow> bool" where
  "validateValue s v \<longleftrightarrow>
     validateChildren s v \<and> validateTypes s v \<and>
     (acceptsMemory (m_opcode v) \<longrightarrow> validateStackAccess s v)"

subsection \<open>The whole procedure\<close>

definition liveValues :: "Procedure \<Rightarrow> value_ptr list" where
  "liveValues p = filter (\<lambda>i. valuesOf p i \<noteq> None) [0..<length (m_values p)]"

definition placedValues :: "Procedure \<Rightarrow> value_ptr list" where
  "placedValues p = concat (map (valuesIn p) (blocksOf p))"

definition validateBlock :: "Procedure \<Rightarrow> block_ptr \<Rightarrow> bool" where
  "validateBlock p b \<longleftrightarrow>
     valuesIn p b \<noteq> [] \<and>
     (\<forall>i \<in> set (butlast (valuesIn p b)).
        case valuesOf p i of Some v \<Rightarrow> \<not> acceptsControl (m_opcode v) | None \<Rightarrow> False) \<and>
     (case lastValue p b of Some v \<Rightarrow> acceptsControl (m_opcode v) | None \<Rightarrow> False) \<and>
     set (successorBlocks p b) \<subseteq> set (blocksOf p)"

text \<open>
  \<open>predecessors == successor->predecessors()\<close> compares a hash set with a vector: equal sizes, and
  every element of the vector in the set. It is only tested for blocks that are a successor.
\<close>

definition collectedPredecessors :: "Procedure \<Rightarrow> block_ptr \<Rightarrow> block_ptr set" where
  "collectedPredecessors p b = set (filter (\<lambda>a. b \<in> set (successorBlocks p a)) (blocksOf p))"

definition validatePredecessors :: "Procedure \<Rightarrow> bool" where
  "validatePredecessors p \<longleftrightarrow>
     (\<forall>a \<in> set (blocksOf p). \<forall>b \<in> set (successorBlocks p a).
        card (collectedPredecessors p b) = length (predsOf p b) \<and>
        set (predsOf p b) \<subseteq> collectedPredecessors p b)"

definition validateProcedure :: "Procedure \<Rightarrow> bool" where
  "validateProcedure p \<longleftrightarrow>
     (\<forall>i \<in> set (liveValues p). i \<in> set (placedValues p)) \<and>
     (\<forall>i \<in> set (placedValues p). i \<in> set (liveValues p) \<and> count_list (placedValues p) i = 1) \<and>
     (\<forall>i \<in> set (liveValues p). \<forall>c \<in> set (m_children (the (valuesOf p i))). c \<in> set (liveValues p)) \<and>
     (\<forall>b \<in> set (blocksOf p). validateBlock p b) \<and>
     validatePredecessors p \<and>
     (\<forall>i \<in> set (liveValues p). validateValue (valuesOf p) (the (valuesOf p i)))"

subsection \<open>The typing invariant\<close>

text \<open>
  The C++ class of a value fixes its fields and its constructor fixes some of its type; the
  validator leaves both unchecked. The invariant adds them to the validator's own tests. It
  leaves out \<open>validateStackAccess\<close>, which folding an address into an offset need not keep.
\<close>

definition payloadOK :: "opcode \<Rightarrow> payload \<Rightarrow> bool" where
  "payloadOK opcode pl =
     (if opcode = Const32 then (case pl of Const32Payload _ \<Rightarrow> True | _ \<Rightarrow> False)
      else if opcode = Const64 then (case pl of Const64Payload _ \<Rightarrow> True | _ \<Rightarrow> False)
      else if opcode = ConstDouble then (case pl of ConstDoublePayload _ \<Rightarrow> True | _ \<Rightarrow> False)
      else if acceptsMemory opcode then (case pl of MemoryPayload _ _ \<Rightarrow> True | _ \<Rightarrow> False)
      else if opcode = Switch
        then (case pl of SwitchPayload ss cs \<Rightarrow> length ss = Suc (length cs) | _ \<Rightarrow> False)
      else if acceptsControl opcode
        then (case pl of
                ControlPayload ss \<Rightarrow>
                  length ss = (if opcode = Branch then 2 else if opcode = Jump then 1 else 0)
              | _ \<Rightarrow> False)
      else if acceptsCheck opcode then (case pl of StackmapPayload _ \<Rightarrow> True | _ \<Rightarrow> False)
      else True)"

definition wtValue :: "store \<Rightarrow> Value \<Rightarrow> bool" where
  "wtValue s v \<longleftrightarrow>
     payloadOK (m_opcode v) (m_payload v) \<and> validateChildren s v \<and> validateTypes s v \<and>
     (isCheckMath (m_opcode v) \<longrightarrow> childType s v 0 = Some (m_type v) \<and> childType s v 1 = Some (m_type v)) \<and>
     (m_opcode v \<in> {Check, Upsilon} \<longrightarrow> m_type v = Void)"

definition wtStore :: "store \<Rightarrow> bool" where
  "wtStore s \<longleftrightarrow> (\<forall>i v. s i = Some v \<longrightarrow> wtValue s v)"

text \<open>The invariant looks at other values only through their types.\<close>

definition typeExt :: "store \<Rightarrow> store \<Rightarrow> bool" where
  "typeExt s s' \<longleftrightarrow> (\<forall>j u. s j = Some u \<longrightarrow> map_option m_type (s' j) = Some (m_type u))"

lemma typeExt_children: "typeExt s s' \<Longrightarrow> validateChildren s v \<Longrightarrow> validateChildren s' v"
  by (fastforce simp: typeExt_def validateChildren_def split: option.splits)

lemma validateChildren_at:
  assumes "validateChildren s v" "k < numChildren v"
  obtains t where "childType s v k = Some t" "t \<noteq> Void"
proof -
  have "m_children v ! k \<in> set (m_children v)" using assms(2) by (simp add: numChildren_def)
  then obtain cv where "s (m_children v ! k) = Some cv" "m_type cv \<noteq> Void"
    using assms(1) by (auto simp: validateChildren_def split: option.splits)
  then show ?thesis using that assms(2) by (simp add: childType_def child_def at_def numChildren_def)
qed

lemma typeExt_childType:
  assumes "typeExt s s'" "validateChildren s v"
  shows "childType s' v = childType s v"
proof
  fix k
  show "childType s' v k = childType s v k"
  proof (cases "at (m_children v) k")
    case (Some c)
    then obtain cv where "s c = Some cv"
      using assms(2) at_in_set [OF Some] by (auto simp: validateChildren_def split: option.splits)
    then show ?thesis using assms(1) Some by (simp add: childType_def child_def typeExt_def)
  qed (simp add: childType_def child_def)
qed

lemma validateTypes_ext:
  assumes "typeExt s s'" "validateChildren s v" "validateTypes s v"
  shows "validateTypes s' v"
proof -
  note ct = typeExt_childType [OF assms(1,2)]
  then have int: "childIsInt s' v = childIsInt s v" by (simp add: childIsInt_def fun_eq_iff)
  then have map: "validateStackmap s' v = validateStackmap s v" by (simp only: validateStackmap_def ct)
  note eqs = ct int map validateMath_def validateCompare_def validateCheckMath_def
  show ?thesis
  proof (cases "m_opcode v = Upsilon")
    case True
    then obtain phi where "upsilonPhi v = Some phi" "s phi \<noteq> None"
      using assms(3) by (auto simp: validateTypes_def split: option.splits)
    moreover from this have "s' phi \<noteq> None" "map_option m_type (s' phi) = map_option m_type (s phi)"
      using assms(1) by (auto simp: typeExt_def)
    ultimately show ?thesis using True assms(3) by (simp add: validateTypes_def ct)
  next
    case False
    then have "validateOpcode (m_opcode v) s' v = validateOpcode (m_opcode v) s v"
      by (cases "m_opcode v") (simp_all add: eqs)
    then show ?thesis using assms(3) by (simp add: validateTypes_def)
  qed
qed

lemma wtValue_ext:
  assumes "typeExt s s'" "wtValue s v"
  shows "wtValue s' v"
proof -
  have c: "validateChildren s v" using assms(2) by (simp add: wtValue_def)
  show ?thesis
    using assms(2) typeExt_children [OF assms(1) c] validateTypes_ext [OF assms(1) c]
      typeExt_childType [OF assms(1) c] by (simp add: wtValue_def)
qed

text \<open>A value looks only at its children and, if it is an upsilon, at its phi.\<close>

lemma wtValue_cong:
  assumes wtv: "wtValue s v" and cs: "\<And>c. c \<in> set (m_children v) \<Longrightarrow> s' c = s c"
    and phi: "\<And>phi. m_opcode v = Upsilon \<Longrightarrow> upsilonPhi v = Some phi \<Longrightarrow> s' phi = s phi"
  shows "wtValue s' v"
proof -
  have ct: "childType s' v = childType s v"
    using cs at_in_set by (fastforce simp: childType_def child_def fun_eq_iff split: option.splits)
  then have int: "childIsInt s' v = childIsInt s v" by (simp add: childIsInt_def fun_eq_iff)
  then have map: "validateStackmap s' v = validateStackmap s v" by (simp only: validateStackmap_def ct)
  have "validateOpcode (m_opcode v) s' v = validateOpcode (m_opcode v) s v"
    using phi by (cases "m_opcode v")
      (simp_all add: ct int map validateMath_def validateCompare_def validateCheckMath_def split: option.splits)
  then have "validateTypes s' v" using wtv by (simp add: validateTypes_def wtValue_def)
  moreover have "validateChildren s' v" using wtv cs by (auto simp: wtValue_def validateChildren_def)
  ultimately show ?thesis using wtv by (simp add: wtValue_def ct)
qed

lemma typeExt_refl [simp]: "typeExt s s"
  by (simp add: typeExt_def)

lemma typeExt_trans: "typeExt a b \<Longrightarrow> typeExt b c \<Longrightarrow> typeExt a c"
  by (fastforce simp: typeExt_def)

lemma typeExt_add: "s j = None \<Longrightarrow> typeExt s (s(j \<mapsto> w))"
  by (simp add: typeExt_def)

lemma typeExt_update: "s i = Some v \<Longrightarrow> m_type v' = m_type v \<Longrightarrow> typeExt s (s(i \<mapsto> v'))"
  by (simp add: typeExt_def)

lemma wtStoreD: "wtStore s \<Longrightarrow> s i = Some v \<Longrightarrow> wtValue s v"
  by (simp add: wtStore_def)

lemma wtStore_ext:
  assumes "wtStore s" "typeExt s s'" "\<And>i v. s' i = Some v \<Longrightarrow> s i = Some v \<or> wtValue s v"
  shows "wtStore s'"
  using assms wtValue_ext [OF assms(2)] unfolding wtStore_def by blast

lemma wtStore_add [wf_intros]:
  assumes "wtStore s" "s j = None" "wtValue s w"
  shows "wtStore (s(j \<mapsto> w))"
  by (rule wtStore_ext [OF assms(1) typeExt_add [of s j w, OF assms(2)]]) (use assms(3) in \<open>simp split: if_splits\<close>)

lemma wtStore_update [wf_intros]:
  assumes "wtStore s" "s i = Some v" "m_type v' = m_type v" "wtValue s v'"
  shows "wtStore (s(i \<mapsto> v'))"
  by (rule wtStore_ext [OF assms(1) typeExt_update [of s i v v', OF assms(2,3)]]) (use assms(4) in \<open>simp split: if_splits\<close>)

text \<open>Nothing refers to a value without a result, so it can be removed.\<close>

lemma wtStore_delete:
  assumes wt: "wtStore s" and t: "s t = Some v" "m_type v = Void"
  shows "wtStore (s(t := None))"
  unfolding wtStore_def
proof (intro allI impI)
  fix i w assume "(s(t := None)) i = Some w"
  then have w: "wtValue s w" using wtStoreD [OF wt, of i w] by (simp split: if_splits)
  have ch: "c \<noteq> t" if "c \<in> set (m_children w)" for c
    using w t that by (auto simp: wtValue_def validateChildren_def split: option.splits)
  show "wtValue (s(t := None)) w"
  proof (rule wtValue_cong [OF w])
    show "(s(t := None)) c = s c" if "c \<in> set (m_children w)" for c using ch [OF that] by simp
    show "(s(t := None)) phi = s phi" if u: "m_opcode w = Upsilon" "upsilonPhi w = Some phi" for phi
    proof -
      obtain c where c: "c \<in> set (m_children w)" "childType s w 0 = map_option m_type (s c)"
        using w u by (auto simp: wtValue_def validateTypes_def numChildren_def childType_def child_def at_def
            length_Suc_conv split: option.splits)
      have "map_option m_type (s phi) = childType s w 0" using w u by (simp add: wtValue_def validateTypes_def)
      moreover obtain cv where "s c = Some cv" "m_type cv \<noteq> Void"
        using w c(1) by (auto simp: wtValue_def validateChildren_def split: option.splits)
      ultimately have "phi \<noteq> t" using c(2) t by auto
      then show ?thesis by simp
    qed
  qed
qed

text \<open>A procedure the validator accepts satisfies the invariant, its values' classes and constructors granted.\<close>

definition constructedOK :: "store \<Rightarrow> Value \<Rightarrow> bool" where
  "constructedOK s v \<longleftrightarrow>
     payloadOK (m_opcode v) (m_payload v) \<and>
     (isCheckMath (m_opcode v) \<longrightarrow> childType s v 0 = Some (m_type v) \<and> childType s v 1 = Some (m_type v)) \<and>
     (m_opcode v \<in> {Check, Upsilon} \<longrightarrow> m_type v = Void)"

lemma validateValue_wtValue: "validateValue s v \<Longrightarrow> constructedOK s v \<Longrightarrow> wtValue s v"
  unfolding wtValue_def validateValue_def constructedOK_def by (elim conjE, intro conjI)

lemma validateProcedure_value:
  assumes "validateProcedure p" "valuesOf p i = Some v"
  shows "validateValue (valuesOf p) v"
proof -
  have "i < length (m_values p)" using assms(2) by (simp add: valuesOf_eq split: if_splits)
  then have "i \<in> set (liveValues p)" using assms(2) by (simp add: liveValues_def)
  moreover have "\<forall>j \<in> set (liveValues p). validateValue (valuesOf p) (the (valuesOf p j))"
    using assms(1) unfolding validateProcedure_def by (elim conjE)
  ultimately show ?thesis using assms(2) by fastforce
qed

lemma validateProcedure_wtStore:
  assumes "validateProcedure p" "\<And>i v. valuesOf p i = Some v \<Longrightarrow> constructedOK (valuesOf p) v"
  shows "wtStore (valuesOf p)"
  unfolding wtStore_def using assms(2) validateProcedure_value [OF assms(1)] validateValue_wtValue by blast

end
