(* ===== verification/B3Semantics.thy ===== *)
theory B3Semantics
  imports B3Validate
begin

text \<open>
  What the opcodes mean, after the comments of b3/B3Opcode.h. A pure operation constrains its
  result; an operation that touches memory, control flow or the outside world is observed.
  An environment that satisfies the constraint of every value of a store is a solution of it, and
  a store refines another when each of its solutions is a solution of the other with the same
  observations. This is the contract every B3 rewrite is proved against.
\<close>

subsection \<open>Machine values\<close>

datatype val = V32 int32 | V64 int64 | VD double | VVoid

fun typeOf :: "val \<Rightarrow> b3type" where
  "typeOf (V32 _) = Int32"
| "typeOf (V64 _) = Int64"
| "typeOf (VD _) = Double"
| "typeOf VVoid = Void"

lemma typeOf_cases:
  "typeOf x = Int32 \<longleftrightarrow> (\<exists>w. x = V32 w)"
  "typeOf x = Int64 \<longleftrightarrow> (\<exists>w. x = V64 w)"
  "typeOf x = Double \<longleftrightarrow> (\<exists>d. x = VD d)"
  "typeOf x = Void \<longleftrightarrow> x = VVoid"
  by (cases x; simp)+

text \<open>
  The results an operation allows: one value, any NaN pattern (IEEE-754 leaves the payload of a
  computed NaN open), or anything (\<open>Div\<close> where \<open>all bets are off\<close>, and results that come from
  memory or the outside).
\<close>

datatype result = Exactly val | AnyNaN | Anything

fun allows :: "result \<Rightarrow> val \<Rightarrow> bool" where
  "allows (Exactly x) y \<longleftrightarrow> y = x"
| "allows AnyNaN y \<longleftrightarrow> (case y of VD d \<Rightarrow> isNaN d | _ \<Rightarrow> False)"
| "allows Anything y \<longleftrightarrow> True"

definition rdouble :: "double \<Rightarrow> result" where
  "rdouble d = (if isNaN d then AnyNaN else Exactly (VD d))"

definition rbool :: "bool \<Rightarrow> result" where
  "rbool b = Exactly (V32 (if b then 1 else 0))"

subsection \<open>Operations\<close>

definition binary ::
    "(int32 \<Rightarrow> int32 \<Rightarrow> result) \<Rightarrow> (int64 \<Rightarrow> int64 \<Rightarrow> result) \<Rightarrow> (double \<Rightarrow> double \<Rightarrow> result) \<Rightarrow>
     val list \<Rightarrow> result" where
  "binary f32 f64 fd args =
     (case args of
        [V32 a, V32 b] \<Rightarrow> f32 a b
      | [V64 a, V64 b] \<Rightarrow> f64 a b
      | [VD a, VD b] \<Rightarrow> fd a b
      | _ \<Rightarrow> Anything)"

definition ints :: "(int32 \<Rightarrow> int32 \<Rightarrow> int32) \<Rightarrow> (int64 \<Rightarrow> int64 \<Rightarrow> int64) \<Rightarrow> val list \<Rightarrow> result" where
  "ints f32 f64 = binary (\<lambda>a b. Exactly (V32 (f32 a b))) (\<lambda>a b. Exactly (V64 (f64 a b))) (\<lambda>_ _. Anything)"

definition math ::
    "(int32 \<Rightarrow> int32 \<Rightarrow> int32) \<Rightarrow> (int64 \<Rightarrow> int64 \<Rightarrow> int64) \<Rightarrow> (double \<Rightarrow> double \<Rightarrow> double) \<Rightarrow>
     val list \<Rightarrow> result" where
  "math f32 f64 fd =
     binary (\<lambda>a b. Exactly (V32 (f32 a b))) (\<lambda>a b. Exactly (V64 (f64 a b))) (\<lambda>a b. rdouble (fd a b))"

definition compare ::
    "(int32 \<Rightarrow> int32 \<Rightarrow> bool) \<Rightarrow> (int64 \<Rightarrow> int64 \<Rightarrow> bool) \<Rightarrow> (double \<Rightarrow> double \<Rightarrow> bool) \<Rightarrow>
     val list \<Rightarrow> result" where
  "compare f32 f64 fd = binary (\<lambda>a b. rbool (f32 a b)) (\<lambda>a b. rbool (f64 a b)) (\<lambda>a b. rbool (fd a b))"

text \<open>A shift reads its amount modulo the width of the shifted operand.\<close>

definition shift ::
    "(nat \<Rightarrow> int32 \<Rightarrow> int32) \<Rightarrow> (nat \<Rightarrow> int64 \<Rightarrow> int64) \<Rightarrow> val list \<Rightarrow> result" where
  "shift f32 f64 args =
     (case args of
        [V32 a, V32 n] \<Rightarrow> Exactly (V32 (f32 (unat (n AND 31)) a))
      | [V64 a, V32 n] \<Rightarrow> Exactly (V64 (f64 (unat (n AND 63)) a))
      | _ \<Rightarrow> Anything)"

text \<open>Checked operations allow anything where they overflow: execution does not get past them.\<close>

definition checked ::
    "(int \<Rightarrow> int \<Rightarrow> int) \<Rightarrow> val list \<Rightarrow> result" where
  "checked f args =
     (case args of
        V32 a # V32 b # _ \<Rightarrow>
          if inSigned TYPE(32) (f (sint a) (sint b)) then Exactly (V32 (word_of_int (f (sint a) (sint b))))
          else Anything
      | V64 a # V64 b # _ \<Rightarrow>
          if inSigned TYPE(64) (f (sint a) (sint b)) then Exactly (V64 (word_of_int (f (sint a) (sint b))))
          else Anything
      | _ \<Rightarrow> Anything)"

definition checkFails :: "(int \<Rightarrow> int \<Rightarrow> int) \<Rightarrow> val list \<Rightarrow> bool" where
  "checkFails f args =
     (case args of
        V32 a # V32 b # _ \<Rightarrow> \<not> inSigned TYPE(32) (f (sint a) (sint b))
      | V64 a # V64 b # _ \<Rightarrow> \<not> inSigned TYPE(64) (f (sint a) (sint b))
      | _ \<Rightarrow> False)"

fun truthy :: "val \<Rightarrow> bool" where
  "truthy (V32 a) \<longleftrightarrow> a \<noteq> 0"
| "truthy (V64 a) \<longleftrightarrow> a \<noteq> 0"
| "truthy (VD d) \<longleftrightarrow> \<not> deq d posZero"
| "truthy VVoid \<longleftrightarrow> False"

definition sdivDefined :: "'a::len word \<Rightarrow> 'a word \<Rightarrow> bool" where
  "sdivDefined a b \<longleftrightarrow> b \<noteq> 0 \<and> \<not> (sint a = smin TYPE('a) \<and> b = - 1)"

definition divInt :: "('a::len word \<Rightarrow> val) \<Rightarrow> (int \<Rightarrow> int \<Rightarrow> int) \<Rightarrow> 'a word \<Rightarrow> 'a word \<Rightarrow> result" where
  "divInt mk f a b =
     (if sdivDefined a b then Exactly (mk (word_of_int (f (sint a) (sint b)))) else Anything)"

definition unary :: "(int32 \<Rightarrow> result) \<Rightarrow> (int64 \<Rightarrow> result) \<Rightarrow> (double \<Rightarrow> result) \<Rightarrow> val list \<Rightarrow> result" where
  "unary f32 f64 fd args =
     (case args of [V32 a] \<Rightarrow> f32 a | [V64 a] \<Rightarrow> f64 a | [VD d] \<Rightarrow> fd d | _ \<Rightarrow> Anything)"

primrec evalOp :: "opcode \<Rightarrow> payload \<Rightarrow> val list \<Rightarrow> result" where
  "evalOp Nop = (\<lambda>pl xs. Anything)"
| "evalOp Identity = (\<lambda>pl xs. (case xs of [a] \<Rightarrow> Exactly a | _ \<Rightarrow> Anything))"
| "evalOp Const32 = (\<lambda>pl xs. (case pl of Const32Payload w \<Rightarrow> Exactly (V32 w) | _ \<Rightarrow> Anything))"
| "evalOp Const64 = (\<lambda>pl xs. (case pl of Const64Payload w \<Rightarrow> Exactly (V64 w) | _ \<Rightarrow> Anything))"
| "evalOp ConstDouble = (\<lambda>pl xs. (case pl of ConstDoublePayload d \<Rightarrow> Exactly (VD d) | _ \<Rightarrow> Anything))"
| "evalOp StackSlot = (\<lambda>pl xs. Anything)"
| "evalOp ArgumentReg = (\<lambda>pl xs. Anything)"
| "evalOp FramePointer = (\<lambda>pl xs. Anything)"
| "evalOp Add = (\<lambda>pl xs. math (+) (+) dadd xs)"
| "evalOp Sub = (\<lambda>pl xs. math (-) (-) dsub xs)"
| "evalOp Mul = (\<lambda>pl xs. math (*) (*) dmul xs)"
| "evalOp Div = (\<lambda>pl xs. binary (divInt V32 (sdiv)) (divInt V64 (sdiv)) (\<lambda>a b. rdouble (ddiv a b)) xs)"
| "evalOp ChillDiv = (\<lambda>pl xs. ints chillQuotient chillQuotient xs)"
| "evalOp Mod = (\<lambda>pl xs. binary (divInt V32 (smod)) (divInt V64 (smod)) (\<lambda>_ _. Anything) xs)"
| "evalOp BitAnd = (\<lambda>pl xs. ints (AND) (AND) xs)"
| "evalOp BitOr = (\<lambda>pl xs. ints (OR) (OR) xs)"
| "evalOp BitXor = (\<lambda>pl xs. ints (XOR) (XOR) xs)"
| "evalOp Shl = (\<lambda>pl xs. shift push_bit push_bit xs)"
| "evalOp SShr = (\<lambda>pl xs. shift signed_drop_bit signed_drop_bit xs)"
| "evalOp ZShr = (\<lambda>pl xs. shift drop_bit drop_bit xs)"
| "evalOp BitwiseCast = (\<lambda>pl xs. unary (\<lambda>_. Anything) (\<lambda>a. Exactly (VD a)) (\<lambda>d. Exactly (V64 d)) xs)"
| "evalOp SExt8 = (\<lambda>pl xs. unary (\<lambda>a. Exactly (V32 (scast (ucast a :: 8 word)))) (\<lambda>_. Anything) (\<lambda>_. Anything) xs)"
| "evalOp SExt16 = (\<lambda>pl xs. unary (\<lambda>a. Exactly (V32 (scast (ucast a :: 16 word)))) (\<lambda>_. Anything) (\<lambda>_. Anything) xs)"
| "evalOp SExt32 = (\<lambda>pl xs. unary (\<lambda>a. Exactly (V64 (scast a))) (\<lambda>_. Anything) (\<lambda>_. Anything) xs)"
| "evalOp ZExt32 = (\<lambda>pl xs. unary (\<lambda>a. Exactly (V64 (ucast a))) (\<lambda>_. Anything) (\<lambda>_. Anything) xs)"
| "evalOp Trunc = (\<lambda>pl xs. unary (\<lambda>_. Anything) (\<lambda>a. Exactly (V32 (ucast a))) (\<lambda>_. Anything) xs)"
| "evalOp FRound = (\<lambda>pl xs. unary (\<lambda>_. Anything) (\<lambda>_. Anything) (\<lambda>d. rdouble (dfround d)) xs)"
| "evalOp IToD = (\<lambda>pl xs. unary (\<lambda>a. Exactly (VD (doubleOfInt (sint a)))) (\<lambda>a. Exactly (VD (doubleOfInt (sint a)))) (\<lambda>_. Anything) xs)"
| "evalOp DToI32 = (\<lambda>pl xs. unary (\<lambda>_. Anything) (\<lambda>_. Anything) (\<lambda>d. if \<not> isNaN d \<and> \<not> isInf d \<and> inSigned TYPE(32) (dtrunc d) then Exactly (V32 (word_of_int (dtrunc d))) else Anything) xs)"
| "evalOp Equal = (\<lambda>pl xs. compare (=) (=) deq xs)"
| "evalOp NotEqual = (\<lambda>pl xs. compare (\<noteq>) (\<noteq>) (\<lambda>a b. \<not> deq a b) xs)"
| "evalOp LessThan = (\<lambda>pl xs. compare (\<lambda>a b. sint a < sint b) (\<lambda>a b. sint a < sint b) dlt xs)"
| "evalOp GreaterThan = (\<lambda>pl xs. compare (\<lambda>a b. sint a > sint b) (\<lambda>a b. sint a > sint b) (\<lambda>a b. dlt b a) xs)"
| "evalOp LessEqual = (\<lambda>pl xs. compare (\<lambda>a b. sint a \<le> sint b) (\<lambda>a b. sint a \<le> sint b) dle xs)"
| "evalOp GreaterEqual = (\<lambda>pl xs. compare (\<lambda>a b. sint a \<ge> sint b) (\<lambda>a b. sint a \<ge> sint b) (\<lambda>a b. dle b a) xs)"
| "evalOp Above = (\<lambda>pl xs. binary (\<lambda>a b. rbool (a > b)) (\<lambda>a b. rbool (a > b)) (\<lambda>_ _. Anything) xs)"
| "evalOp Below = (\<lambda>pl xs. binary (\<lambda>a b. rbool (a < b)) (\<lambda>a b. rbool (a < b)) (\<lambda>_ _. Anything) xs)"
| "evalOp AboveEqual = (\<lambda>pl xs. binary (\<lambda>a b. rbool (a \<ge> b)) (\<lambda>a b. rbool (a \<ge> b)) (\<lambda>_ _. Anything) xs)"
| "evalOp BelowEqual = (\<lambda>pl xs. binary (\<lambda>a b. rbool (a \<le> b)) (\<lambda>a b. rbool (a \<le> b)) (\<lambda>_ _. Anything) xs)"
| "evalOp Select = (\<lambda>pl xs. (case xs of [c, a, b] \<Rightarrow> Exactly (if truthy c then a else b) | _ \<Rightarrow> Anything))"
| "evalOp Load8Z = (\<lambda>pl xs. Anything)"
| "evalOp Load8S = (\<lambda>pl xs. Anything)"
| "evalOp Load16Z = (\<lambda>pl xs. Anything)"
| "evalOp Load16S = (\<lambda>pl xs. Anything)"
| "evalOp LoadFloat = (\<lambda>pl xs. Anything)"
| "evalOp Load = (\<lambda>pl xs. Anything)"
| "evalOp Store8 = (\<lambda>pl xs. Anything)"
| "evalOp Store16 = (\<lambda>pl xs. Anything)"
| "evalOp StoreFloat = (\<lambda>pl xs. Anything)"
| "evalOp Store = (\<lambda>pl xs. Anything)"
| "evalOp CCall = (\<lambda>pl xs. Anything)"
| "evalOp Patchpoint = (\<lambda>pl xs. Anything)"
| "evalOp CheckAdd = (\<lambda>pl xs. checked (+) xs)"
| "evalOp CheckSub = (\<lambda>pl xs. checked (-) xs)"
| "evalOp CheckMul = (\<lambda>pl xs. checked (*) xs)"
| "evalOp Check = (\<lambda>pl xs. Anything)"
| "evalOp Upsilon = (\<lambda>pl xs. Anything)"
| "evalOp Phi = (\<lambda>pl xs. Anything)"
| "evalOp Jump = (\<lambda>pl xs. Anything)"
| "evalOp Branch = (\<lambda>pl xs. Anything)"
| "evalOp Switch = (\<lambda>pl xs. Anything)"
| "evalOp Return = (\<lambda>pl xs. Anything)"
| "evalOp Oops = (\<lambda>pl xs. Anything)"

lemmas op_defs [b3_eval] =
  binary_def ints_def math_def compare_def shift_def checked_def checkFails_def unary_def divInt_def

type_synonym env = "value_ptr \<Rightarrow> val"

definition args :: "env \<Rightarrow> Value \<Rightarrow> val list" where
  "args env v = map env (m_children v)"

definition evalValue :: "env \<Rightarrow> Value \<Rightarrow> result" where
  "evalValue env v = evalOp (m_opcode v) (m_payload v) (args env v)"

subsection \<open>Observations\<close>

datatype obs =
    Silent
  | Exits payload "val list"
  | Access opcode b3type val HeapRange "val list" val
  | Goto block_ptr
  | Returns "val list"
  | Unreachable
  | SetPhi "value_ptr option" "val list"
  | Opaque opcode b3type payload "val list" val

text \<open>The address of a memory access: the last child plus the offset, at pointer width.\<close>

definition address :: "val list \<Rightarrow> int32 \<Rightarrow> val" where
  "address xs off = (case xs of [] \<Rightarrow> VVoid | _ \<Rightarrow>
     (case last xs of V64 a \<Rightarrow> V64 (a + scast off) | x \<Rightarrow> x))"

text \<open>
  The target of a switch: the successor of the first case value equal to the operand, which is
  compared at its own width, and the last successor otherwise.
\<close>

definition caseMatches :: "val \<Rightarrow> int64 \<Rightarrow> bool" where
  "caseMatches x c \<longleftrightarrow> (case x of V32 a \<Rightarrow> a = ucast c | V64 a \<Rightarrow> a = c | _ \<Rightarrow> False)"

fun switchTarget :: "val \<Rightarrow> FrequentedBlock list \<Rightarrow> int64 list \<Rightarrow> block_ptr option" where
  "switchTarget x ss [] = (if ss = [] then None else Some (fst (last ss)))"
| "switchTarget x [] (c # cs) = None"
| "switchTarget x (b # ss) (c # cs) =
     (if caseMatches x c then Some (fst b) else switchTarget x ss cs)"

definition observeAccess :: "env \<Rightarrow> value_ptr \<Rightarrow> Value \<Rightarrow> obs" where
  "observeAccess env i v =
     Access (m_opcode v) (m_type v) (address (args env v) (memOffset v)) (memRange v)
       (butlast (args env v)) (env i)"

primrec observeOp :: "opcode \<Rightarrow> env \<Rightarrow> value_ptr \<Rightarrow> Value \<Rightarrow> obs" where
  "observeOp Nop = (\<lambda>env i v. Silent)"
| "observeOp Identity = (\<lambda>env i v. Silent)"
| "observeOp Const32 = (\<lambda>env i v. Silent)"
| "observeOp Const64 = (\<lambda>env i v. Silent)"
| "observeOp ConstDouble = (\<lambda>env i v. Silent)"
| "observeOp StackSlot = (\<lambda>env i v. Opaque (m_opcode v) (m_type v) (m_payload v) (args env v) (env i))"
| "observeOp ArgumentReg = (\<lambda>env i v. Opaque (m_opcode v) (m_type v) (m_payload v) (args env v) (env i))"
| "observeOp FramePointer = (\<lambda>env i v. Opaque (m_opcode v) (m_type v) (m_payload v) (args env v) (env i))"
| "observeOp Add = (\<lambda>env i v. Silent)"
| "observeOp Sub = (\<lambda>env i v. Silent)"
| "observeOp Mul = (\<lambda>env i v. Silent)"
| "observeOp Div = (\<lambda>env i v. Silent)"
| "observeOp ChillDiv = (\<lambda>env i v. Silent)"
| "observeOp Mod = (\<lambda>env i v. Silent)"
| "observeOp BitAnd = (\<lambda>env i v. Silent)"
| "observeOp BitOr = (\<lambda>env i v. Silent)"
| "observeOp BitXor = (\<lambda>env i v. Silent)"
| "observeOp Shl = (\<lambda>env i v. Silent)"
| "observeOp SShr = (\<lambda>env i v. Silent)"
| "observeOp ZShr = (\<lambda>env i v. Silent)"
| "observeOp BitwiseCast = (\<lambda>env i v. Silent)"
| "observeOp SExt8 = (\<lambda>env i v. Silent)"
| "observeOp SExt16 = (\<lambda>env i v. Silent)"
| "observeOp SExt32 = (\<lambda>env i v. Silent)"
| "observeOp ZExt32 = (\<lambda>env i v. Silent)"
| "observeOp Trunc = (\<lambda>env i v. Silent)"
| "observeOp FRound = (\<lambda>env i v. Silent)"
| "observeOp IToD = (\<lambda>env i v. Silent)"
| "observeOp DToI32 = (\<lambda>env i v. Silent)"
| "observeOp Equal = (\<lambda>env i v. Silent)"
| "observeOp NotEqual = (\<lambda>env i v. Silent)"
| "observeOp LessThan = (\<lambda>env i v. Silent)"
| "observeOp GreaterThan = (\<lambda>env i v. Silent)"
| "observeOp LessEqual = (\<lambda>env i v. Silent)"
| "observeOp GreaterEqual = (\<lambda>env i v. Silent)"
| "observeOp Above = (\<lambda>env i v. Silent)"
| "observeOp Below = (\<lambda>env i v. Silent)"
| "observeOp AboveEqual = (\<lambda>env i v. Silent)"
| "observeOp BelowEqual = (\<lambda>env i v. Silent)"
| "observeOp Select = (\<lambda>env i v. Silent)"
| "observeOp Load8Z = (\<lambda>env i v. observeAccess env i v)"
| "observeOp Load8S = (\<lambda>env i v. observeAccess env i v)"
| "observeOp Load16Z = (\<lambda>env i v. observeAccess env i v)"
| "observeOp Load16S = (\<lambda>env i v. observeAccess env i v)"
| "observeOp LoadFloat = (\<lambda>env i v. observeAccess env i v)"
| "observeOp Load = (\<lambda>env i v. observeAccess env i v)"
| "observeOp Store8 = (\<lambda>env i v. observeAccess env i v)"
| "observeOp Store16 = (\<lambda>env i v. observeAccess env i v)"
| "observeOp StoreFloat = (\<lambda>env i v. observeAccess env i v)"
| "observeOp Store = (\<lambda>env i v. observeAccess env i v)"
| "observeOp CCall = (\<lambda>env i v. Opaque (m_opcode v) (m_type v) (m_payload v) (args env v) (env i))"
| "observeOp Patchpoint = (\<lambda>env i v. Opaque (m_opcode v) (m_type v) (m_payload v) (args env v) (env i))"
| "observeOp CheckAdd = (\<lambda>env i v. if checkFails (+) (args env v) then Exits (m_payload v) (drop 2 (args env v)) else Silent)"
| "observeOp CheckSub = (\<lambda>env i v. if checkFails (-) (args env v) then Exits (m_payload v) (drop 2 (args env v)) else Silent)"
| "observeOp CheckMul = (\<lambda>env i v. if checkFails (*) (args env v) then Exits (m_payload v) (drop 2 (args env v)) else Silent)"
| "observeOp Check = (\<lambda>env i v. case args env v of
        c # rest \<Rightarrow> if truthy c then Exits (m_payload v) rest else Silent
      | [] \<Rightarrow> Silent)"
| "observeOp Upsilon = (\<lambda>env i v. SetPhi (upsilonPhi v) (args env v))"
| "observeOp Phi = (\<lambda>env i v. Opaque (m_opcode v) (m_type v) (m_payload v) (args env v) (env i))"
| "observeOp Jump = (\<lambda>env i v. case successors v of b # _ \<Rightarrow> Goto (fst b) | [] \<Rightarrow> Unreachable)"
| "observeOp Branch = (\<lambda>env i v. case (args env v, successors v) of
        ([c], [yes, no]) \<Rightarrow> Goto (fst (if truthy c then yes else no))
      | _ \<Rightarrow> Unreachable)"
| "observeOp Switch = (\<lambda>env i v. case args env v of
        [x] \<Rightarrow> (case switchTarget x (successors v) (caseValues v) of Some b \<Rightarrow> Goto b | None \<Rightarrow> Unreachable)
      | _ \<Rightarrow> Unreachable)"
| "observeOp Return = (\<lambda>env i v. Returns (args env v))"
| "observeOp Oops = (\<lambda>env i v. Unreachable)"

definition observe :: "env \<Rightarrow> value_ptr \<Rightarrow> Value \<Rightarrow> obs" where
  "observe env i v = observeOp (m_opcode v) env i v"

subsection \<open>Solutions and refinement\<close>

definition solves :: "env \<Rightarrow> value_ptr \<Rightarrow> Value \<Rightarrow> bool" where
  "solves env i v \<longleftrightarrow> typeOf (env i) = m_type v \<and> allows (evalValue env v) (env i)"

definition solution :: "store \<Rightarrow> env \<Rightarrow> bool" where
  "solution s env \<longleftrightarrow> (\<forall>i v. s i = Some v \<longrightarrow> solves env i v)"

definition refines :: "store \<Rightarrow> store \<Rightarrow> bool" where
  "refines s s' \<longleftrightarrow>
     (\<forall>env. solution s' env \<longrightarrow>
        (\<forall>i v. s i = Some v \<longrightarrow>
           solves env i v \<and> (\<exists>v'. s' i = Some v' \<and> observe env i v' = observe env i v)))"

lemma solutionD: "solution s env \<Longrightarrow> s i = Some v \<Longrightarrow> solves env i v"
  by (simp add: solution_def)

lemma refines_refl [simp]: "refines s s"
  by (simp add: refines_def solution_def)

lemma refines_solution: "refines s s' \<Longrightarrow> solution s' env \<Longrightarrow> solution s env"
  by (simp add: refines_def solution_def)

lemma refinesD:
  assumes "refines s s'" and "solution s' env" and "s i = Some v"
  shows "solves env i v" and "\<exists>v'. s' i = Some v' \<and> observe env i v' = observe env i v"
  using assms unfolding refines_def by blast+

lemma refines_trans:
  assumes ab: "refines a b" and bc: "refines b c"
  shows "refines a c"
  unfolding refines_def
proof (intro allI impI conjI)
  fix env i v assume c: "solution c env" and a: "a i = Some v"
  have b: "solution b env" by (rule refines_solution [OF bc c])
  show "solves env i v" by (rule refinesD(1) [OF ab b a])
  obtain v' where v': "b i = Some v'" "observe env i v' = observe env i v"
    using refinesD(2) [OF ab b a] by blast
  then show "\<exists>v''. c i = Some v'' \<and> observe env i v'' = observe env i v"
    using refinesD(2) [OF bc c v'(1)] by auto
qed

text \<open>
  The three moves rewrites are made of: adding a value under a fresh index, replacing the value
  at an index by one that does the same, and any sequence of these.
\<close>

lemma refines_add: "s i = None \<Longrightarrow> refines s (s(i \<mapsto> v))"
  by (auto simp: refines_def solution_def)

lemma refines_update:
  assumes "s i = Some v"
    and "\<And>env. solution (s(i \<mapsto> v')) env \<Longrightarrow>
           (\<And>j w. j \<noteq> i \<Longrightarrow> s j = Some w \<Longrightarrow> solves env j w) \<Longrightarrow> solves env i v' \<Longrightarrow>
           solves env i v \<and> observe env i v' = observe env i v"
  shows "refines s (s(i \<mapsto> v'))"
  unfolding refines_def
proof (intro allI impI)
  fix env j w assume sol: "solution (s(i \<mapsto> v')) env" and j: "s j = Some w"
  have rest: "solves env k u" if "k \<noteq> i" "s k = Some u" for k u
    using sol that by (auto simp: solution_def)
  show "solves env j w \<and> (\<exists>v''. (s(i \<mapsto> v')) j = Some v'' \<and> observe env j v'' = observe env j w)"
  proof (cases "j = i")
    case True
    then show ?thesis
      using assms(2) [OF sol rest] sol assms(1) j by (auto simp: solution_def)
  qed (use rest j in auto)
qed

subsection \<open>Every value has a result of its type\<close>

definition envTyped :: "store \<Rightarrow> env \<Rightarrow> bool" where
  "envTyped s env \<longleftrightarrow> (\<forall>i v. s i = Some v \<longrightarrow> typeOf (env i) = m_type v)"

lemma solution_typed: "solution s env \<Longrightarrow> envTyped s env"
  by (simp add: solution_def solves_def envTyped_def)

lemma args_at: "at (args env v) k = map_option env (at (m_children v) k)"
  by (simp add: args_def at_map)

lemma childType_arg:
  assumes "envTyped s env" "childType s v k = Some t"
  shows "\<exists>x. at (args env v) k = Some x \<and> typeOf x = t"
  using assms by (auto simp: childType_def child_def args_at envTyped_def split: option.splits)

lemma args1:
  assumes "envTyped s env" "numChildren v = 1" "childType s v 0 = Some t"
  obtains a where "args env v = [a]" "typeOf a = t"
  using childType_arg [OF assms(1,3)] assms(2)
  by (auto simp: numChildren_def args_def at_def length_Suc_conv)

lemma args2:
  assumes "envTyped s env" "numChildren v = 2" "childType s v 0 = Some t" "childType s v 1 = Some u"
  obtains a b where "args env v = [a, b]" "typeOf a = t" "typeOf b = u"
  using childType_arg [OF assms(1,3)] childType_arg [OF assms(1,4)] assms(2)
  by (auto simp: numChildren_def args_def at_def length_Suc_conv numeral_2_eq_2)

lemma args3:
  assumes "envTyped s env" "numChildren v = 3" "childType s v 0 = Some t" "childType s v 1 = Some u"
    "childType s v 2 = Some w"
  obtains a b c where "args env v = [a, b, c]" "typeOf a = t" "typeOf b = u" "typeOf c = w"
  using childType_arg [OF assms(1,3)] childType_arg [OF assms(1,4)] childType_arg [OF assms(1,5)] assms(2)
  by (auto simp: numChildren_def args_def at_def length_Suc_conv numeral_3_eq_3 numeral_2_eq_2)

definition inhabited :: "result \<Rightarrow> b3type \<Rightarrow> bool" where
  "inhabited r t \<longleftrightarrow> (\<exists>x. typeOf x = t \<and> allows r x)"

lemma inhabited_Anything [simp]: "inhabited Anything t"
proof -
  have "typeOf (case t of Int32 \<Rightarrow> V32 0 | Int64 \<Rightarrow> V64 0 | Double \<Rightarrow> VD posZero | Void \<Rightarrow> VVoid) = t"
    by (cases t) simp_all
  then show ?thesis unfolding inhabited_def by (metis allows.simps(3))
qed

lemma inhabited_Exactly [simp]: "inhabited (Exactly x) t \<longleftrightarrow> typeOf x = t"
  by (auto simp: inhabited_def)

lemma inhabited_rdouble [simp]: "inhabited (rdouble d) Double"
  unfolding inhabited_def by (rule exI [of _ "VD d"]) (simp add: rdouble_def)

lemma inhabited_rbool [simp]: "inhabited (rbool b) Int32"
  by (simp add: rbool_def)

text \<open>Well-typed operands give every operation a result of the type the validator expects.\<close>

lemma inhabited_math:
  "typeOf a = t \<Longrightarrow> typeOf b = t \<Longrightarrow> inhabited (math f g h [a, b]) t"
  by (cases a; cases b) (auto simp: op_defs)

lemma inhabited_ints: "typeOf a = t \<Longrightarrow> typeOf b = t \<Longrightarrow> inhabited (ints f g [a, b]) t"
  by (cases a; cases b) (auto simp: op_defs)

lemma inhabited_div:
  "typeOf a = t \<Longrightarrow> typeOf b = t \<Longrightarrow> inhabited (binary (divInt V32 f) (divInt V64 g) (\<lambda>a b. rdouble (h a b)) [a, b]) t"
  by (cases a; cases b) (auto simp: op_defs)

lemma inhabited_mod:
  "typeOf a = t \<Longrightarrow> typeOf b = t \<Longrightarrow> inhabited (binary (divInt V32 f) (divInt V64 g) (\<lambda>_ _. Anything) [a, b]) t"
  by (cases a; cases b) (auto simp: op_defs)

lemma inhabited_shift: "typeOf a = t \<Longrightarrow> typeOf b = Int32 \<Longrightarrow> inhabited (shift f g [a, b]) t"
  by (cases a; cases b) (auto simp: op_defs)

lemma inhabited_compare: "inhabited (compare f g h [a, b]) Int32"
  by (cases a; cases b) (auto simp: op_defs)

lemma inhabited_ucompare: "inhabited (binary (\<lambda>a b. rbool (f a b)) (\<lambda>a b. rbool (g a b)) (\<lambda>_ _. Anything) [a, b]) Int32"
  by (cases a; cases b) (auto simp: op_defs)

lemma inhabited_checked: "typeOf a = t \<Longrightarrow> typeOf b = t \<Longrightarrow> inhabited (checked f (a # b # xs)) t"
  by (cases a; cases b) (auto simp: op_defs)

lemmas inhabited_ops =
  inhabited_math inhabited_ints inhabited_div inhabited_mod inhabited_shift inhabited_compare
  inhabited_ucompare inhabited_checked

definition unaryOps :: "opcode set" where
  "unaryOps = {Identity, BitwiseCast, SExt8, SExt16, SExt32, ZExt32, Trunc, FRound, IToD, DToI32}"

definition binaryOps :: "opcode set" where
  "binaryOps = {Add, Sub, Mul, Div, ChillDiv, Mod, BitAnd, BitOr, BitXor, Shl, SShr, ZShr, Equal, NotEqual,
     LessThan, GreaterThan, LessEqual, GreaterEqual, Above, Below, AboveEqual, BelowEqual}"

lemma eval_unary_inhabited:
  assumes env: "envTyped s env" and types: "validateTypes s v" and children: "validateChildren s v"
    and op: "m_opcode v \<in> unaryOps"
  shows "inhabited (evalValue env v) (m_type v)"
proof -
  have n: "numChildren v = 1" using types op by (auto simp: unaryOps_def validateTypes_def)
  then obtain t where t: "childType s v 0 = Some t" "t \<noteq> Void"
    using validateChildren_at [OF children, of 0] by auto
  obtain a where a: "args env v = [a]" "typeOf a = t" using args1 [OF env n t(1)] .
  have "t = m_type v" if "m_opcode v = Identity" using that types t by (simp add: validateTypes_def)
  then show ?thesis
    using types op a t unfolding unaryOps_def
    by (cases a) (auto simp: validateTypes_def evalValue_def op_defs)
qed

lemma eval_binary_inhabited:
  assumes env: "envTyped s env" and types: "validateTypes s v" and children: "validateChildren s v"
    and op: "m_opcode v \<in> binaryOps"
  shows "inhabited (evalValue env v) (m_type v)"
proof -
  have n: "numChildren v = 2" using types op by (auto simp: binaryOps_def validateTypes_def validateMath_def validateCompare_def)
  obtain t where t: "childType s v 0 = Some t"
    by (rule validateChildren_at [OF children, of 0]) (use n in auto)
  obtain u where u: "childType s v 1 = Some u"
    by (rule validateChildren_at [OF children, of 1]) (use n in auto)
  note tu = t u
  obtain a b where "args env v = [a, b]" "typeOf a = t" "typeOf b = u" using args2 [OF env n tu] .
  then show ?thesis
    using types op tu unfolding binaryOps_def
    by (auto simp: validateTypes_def validateMath_def validateCompare_def evalValue_def inhabited_ops)
qed

lemma evalOp_Anything:
  assumes "opcode \<notin> unaryOps" "opcode \<notin> binaryOps" "opcode \<notin> {Select, Const32, Const64, ConstDouble}"
    "\<not> isCheckMath opcode"
  shows "evalOp opcode pl xs = Anything"
  using assms unfolding unaryOps_def binaryOps_def isCheckMath_def by (cases opcode) simp_all

theorem eval_inhabited:
  assumes env: "envTyped s env" and wt: "wtValue s v"
  shows "inhabited (evalValue env v) (m_type v)"
proof -
  have types: "validateTypes s v" and children: "validateChildren s v"
    and payload: "payloadOK (m_opcode v) (m_payload v)"
    and check: "isCheckMath (m_opcode v) \<Longrightarrow> childType s v 0 = Some (m_type v) \<and> childType s v 1 = Some (m_type v)"
    using wt by (simp_all add: wtValue_def)
  consider "m_opcode v \<in> unaryOps" | "m_opcode v \<in> binaryOps" | "isCheckMath (m_opcode v)"
    | "m_opcode v = Select" | "m_opcode v \<in> {Const32, Const64, ConstDouble}"
    | "m_opcode v \<notin> unaryOps \<union> binaryOps \<union> {Select, Const32, Const64, ConstDouble}" "\<not> isCheckMath (m_opcode v)"
    by blast
  then show ?thesis
  proof cases
    case 3
    obtain a b where "at (args env v) 0 = Some a" "typeOf a = m_type v" "at (args env v) 1 = Some b" "typeOf b = m_type v"
      using childType_arg [OF env] check [OF 3] by blast
    then obtain xs where "args env v = a # b # xs" "typeOf a = m_type v" "typeOf b = m_type v"
      by (cases "args env v"; cases "tl (args env v)") auto
    then show ?thesis using 3 by (auto simp: isCheckMath_def evalValue_def inhabited_checked)
  next
    case 4
    then have "numChildren v = 3" "childIsInt s v 0" "childType s v 1 = Some (m_type v)" "childType s v 2 = Some (m_type v)"
      using types by (auto simp: validateTypes_def)
    then obtain a b c where "args env v = [a, b, c]" "typeOf b = m_type v" "typeOf c = m_type v"
      using args3 [OF env] unfolding childIsInt_def by metis
    then show ?thesis using 4 by (simp add: evalValue_def)
  next
    case 5
    then show ?thesis using payload types
      by (auto simp: payloadOK_def validateTypes_def evalValue_def split: payload.splits)
  next
    case 6
    then show ?thesis by (simp add: evalValue_def evalOp_Anything)
  qed (rule eval_unary_inhabited [OF env types children] eval_binary_inhabited [OF env types children], assumption)+
qed

subsection \<open>Dependencies and the existence of solutions\<close>

definition deps :: "store \<Rightarrow> (value_ptr \<times> value_ptr) set" where
  "deps s = {(c, i). \<exists>v. s i = Some v \<and> c \<in> set (m_children v)}"

definition pick :: "store \<Rightarrow> env \<Rightarrow> value_ptr \<Rightarrow> val" where
  "pick s env i = (case s i of
     None \<Rightarrow> VVoid
   | Some v \<Rightarrow> (SOME x. typeOf x = m_type v \<and> allows (evalValue env v) x))"

lemma evalValue_cong: "(\<And>c. c \<in> set (m_children v) \<Longrightarrow> env c = env' c) \<Longrightarrow> evalValue env v = evalValue env' v"
proof -
  assume "\<And>c. c \<in> set (m_children v) \<Longrightarrow> env c = env' c"
  then have "args env v = args env' v" by (simp add: args_def)
  then show ?thesis by (simp add: evalValue_def)
qed

lemma eval_inhabited_local:
  assumes wt: "wtStore s" "s i = Some v"
    and env: "\<And>c cv. c \<in> set (m_children v) \<Longrightarrow> s c = Some cv \<Longrightarrow> typeOf (env c) = m_type cv"
  shows "inhabited (evalValue env v) (m_type v)"
proof -
  define env' where "env' c = (if c \<in> set (m_children v) then env c
     else case s c of None \<Rightarrow> VVoid | Some cv \<Rightarrow> SOME x. typeOf x = m_type cv)" for c
  have "typeOf (SOME x. typeOf x = t) = t" for t
    by (rule someI_ex) (metis typeOf.simps b3type.exhaust)
  then have "envTyped s env'" using env by (simp add: envTyped_def env'_def)
  then have "inhabited (evalValue env' v) (m_type v)" using eval_inhabited wtStoreD [OF wt] by blast
  moreover have "evalValue env' v = evalValue env v" by (rule evalValue_cong) (simp add: env'_def)
  ultimately show ?thesis by simp
qed

lemma solution_exists:
  assumes wt: "wtStore s" and wf: "wf (deps s)"
  shows "\<exists>env. solution s env"
proof -
  define env where "env = wfrec (deps s) (pick s)"
  have env: "env i = pick s env i" for i
  proof (cases "s i")
    case None
    then show ?thesis unfolding env_def by (subst wfrec [OF wf]) (simp add: pick_def)
  next
    case (Some v)
    have "evalValue (cut env (deps s) i) v = evalValue env v"
      by (rule evalValue_cong) (use Some in \<open>auto simp: cut_def deps_def\<close>)
    then show ?thesis using Some unfolding env_def by (subst wfrec [OF wf]) (simp add: pick_def)
  qed
  have "solves env i v" if "s i = Some v" for i v
    using that
  proof (induction i arbitrary: v rule: wf_induct_rule [OF wf])
    case (1 i)
    have "typeOf (env c) = m_type cv" if "c \<in> set (m_children v)" "s c = Some cv" for c cv
      using 1(1) [of c cv] that 1(2) by (auto simp: deps_def solves_def)
    then have "inhabited (evalValue env v) (m_type v)" by (rule eval_inhabited_local [OF wt 1(2)])
    then have "typeOf (env i) = m_type v \<and> allows (evalValue env v) (env i)"
      unfolding env [of i] pick_def inhabited_def using 1(2) by simp (rule someI_ex)
    then show ?case by (simp add: solves_def)
  qed
  then show ?thesis by (auto simp: solution_def)
qed

text \<open>
  A rewrite of the value \<open>i\<close> may add values \<open>X\<close> that \<open>i\<close> will use. The dependencies stay
  well-founded as long as what is added uses only what \<open>i\<close> depends on already.
\<close>

definition depsFor :: "store \<Rightarrow> value_ptr set \<Rightarrow> value_ptr \<Rightarrow> (value_ptr \<times> value_ptr) set" where
  "depsFor s X i = deps s \<union> X \<times> {i}"

definition below :: "store \<Rightarrow> value_ptr set \<Rightarrow> value_ptr \<Rightarrow> value_ptr set" where
  "below s X i = {c. (c, i) \<in> (depsFor s X i)\<^sup>+}"

lemma wf_insert_below:
  assumes wf: "wf R" and fresh: "j \<notin> Field R" "j \<noteq> i" and C: "\<And>c. c \<in> C \<Longrightarrow> (c, i) \<in> R\<^sup>+"
  shows "wf (R \<union> C \<times> {j} \<union> {(j, i)})"
proof -
  let ?f = "\<lambda>x. if x = j then (i, 0) else (x, 1 :: nat)"
  have "R \<union> C \<times> {j} \<union> {(j, i)} \<subseteq> inv_image (R\<^sup>+ <*lex*> less_than) ?f"
  proof
    fix e assume e: "e \<in> R \<union> C \<times> {j} \<union> {(j, i)}"
    obtain a b where ab: "e = (a, b)" by (cases e)
    have "j \<notin> C" using C fresh(1) by (metis Field_def DomainI UnI1 tranclD)
    then show "e \<in> inv_image (R\<^sup>+ <*lex*> less_than) ?f"
      using e ab C fresh by (auto simp: Field_def)
  qed
  moreover have "wf (inv_image (R\<^sup>+ <*lex*> less_than) ?f)"
    using wf by (intro wf_inv_image wf_lex_prod wf_trancl wf_less_than)
  ultimately show ?thesis by (rule wf_subset [rotated])
qed

end
