(* ===== verification/B3ReduceStrength.thy ===== *)
theory B3ReduceStrength
  imports B3Procedure
begin

text \<open>
  The strength reduction phase of b3/B3ReduceStrength.cpp. The fields of class \<open>ReduceStrength\<close>
  are a record, \<open>process()\<close> is the composition of one handler per opcode, and a handler is the
  sequence of its rewrites in the order of the source. A rewrite returns whether the source
  leaves the switch with \<open>break\<close> there, and the new state; \<^term>\<open>None\<close> is a null dereference, a
  child index out of range or a failed \<open>RELEASE_ASSERT\<close>.
\<close>

record ReduceStrength =
  m_proc :: Procedure
  m_insertionSet :: "Insertion list"
  m_block :: block_ptr
  m_index :: nat
  m_value :: value_ptr
  m_changed :: bool
  m_changedCFG :: bool

type_synonym rewrite = "ReduceStrength \<Rightarrow> (bool \<times> ReduceStrength) option"

subsection \<open>Reading and writing the current value\<close>

definition lookup :: "ReduceStrength \<Rightarrow> store" where
  "lookup rs = valuesOf (m_proc rs)"

definition cur :: "ReduceStrength \<Rightarrow> Value option" where
  "cur rs = lookup rs (m_value rs)"

definition kid :: "ReduceStrength \<Rightarrow> Value \<Rightarrow> nat \<Rightarrow> (value_ptr \<times> Value) option" where
  "kid rs v k = do { c \<leftarrow> at (m_children v) k; cv \<leftarrow> lookup rs c; Some (c, cv) }"

definition setCur :: "Value \<Rightarrow> ReduceStrength \<Rightarrow> ReduceStrength" where
  "setCur v rs = rs\<lparr>m_proc := setValue (m_value rs) v (m_proc rs)\<rparr>"

definition changed :: "ReduceStrength \<Rightarrow> ReduceStrength" where
  "changed rs = rs\<lparr>m_changed := True\<rparr>"

definition setChild :: "nat \<Rightarrow> value_ptr \<Rightarrow> Value \<Rightarrow> Value" where
  "setChild k c v = v\<lparr>m_children := (m_children v)[k := c]\<rparr>"

definition addNew :: "Value \<Rightarrow> ReduceStrength \<Rightarrow> value_ptr \<times> ReduceStrength" where
  "addNew w rs = (let (i, p) = add w (m_proc rs) in (i, rs\<lparr>m_proc := p\<rparr>))"

definition insertValue :: "value_ptr \<Rightarrow> ReduceStrength \<Rightarrow> ReduceStrength" where
  "insertValue i rs = rs\<lparr>m_insertionSet := m_insertionSet rs @ [(m_index rs, i)]\<rparr>"

definition insertNew :: "Value \<Rightarrow> ReduceStrength \<Rightarrow> value_ptr \<times> ReduceStrength" where
  "insertNew w rs = (let (i, rs') = addNew w rs in (i, insertValue i rs'))"

text \<open>\<open>new Value(opcode, origin, children...)\<close> takes its type from \<open>typeFor\<close>.\<close>

definition newOp :: "ReduceStrength \<Rightarrow> opcode \<Rightarrow> nat \<Rightarrow> value_ptr list \<Rightarrow> Value option" where
  "newOp rs opcode origin cs =
     (let ty = (\<lambda>k. case at cs k of None \<Rightarrow> Void | Some c \<Rightarrow> (case lookup rs c of Some v \<Rightarrow> m_type v | None \<Rightarrow> Void))
      in map_option (\<lambda>t. mkValue opcode t origin cs NoPayload) (typeFor opcode (ty 0) (ty 1)))"

definition toIdentity :: "value_ptr \<Rightarrow> ReduceStrength \<Rightarrow> ReduceStrength option" where
  "toIdentity target rs = do {
     v \<leftarrow> cur rs;
     tv \<leftarrow> lookup rs target;
     v' \<leftarrow> replaceWithIdentity (m_type tv) target v;
     Some (setCur v' rs) }"

definition replaceWithNewValue :: "value_ptr option \<Rightarrow> rewrite" where
  "replaceWithNewValue newValue rs =
     (case newValue of
        None \<Rightarrow> Some (False, rs)
      | Some i \<Rightarrow> do { rs' \<leftarrow> toIdentity i (insertValue i rs); Some (True, changed rs') })"

text \<open>\<open>replaceWithNewValue\<close> of what a folding method has just added, if it folded.\<close>

definition replaceWithFolded :: "Value option \<Rightarrow> rewrite" where
  "replaceWithFolded folded rs =
     (case folded of
        None \<Rightarrow> replaceWithNewValue None rs
      | Some w \<Rightarrow> (let (i, rs') = addNew w rs in replaceWithNewValue (Some i) rs'))"

definition replaceWithNew :: "opcode \<Rightarrow> nat \<Rightarrow> value_ptr list \<Rightarrow> rewrite" where
  "replaceWithNew opcode origin cs rs = do { w \<leftarrow> newOp rs opcode origin cs; replaceWithFolded (Some w) rs }"

definition becomes :: "value_ptr \<Rightarrow> rewrite" where
  "becomes target rs = do { rs' \<leftarrow> toIdentity target rs; Some (True, changed rs') }"

definition pass :: rewrite where
  "pass rs = Some (False, rs)"

definition andThen :: "rewrite \<Rightarrow> rewrite \<Rightarrow> rewrite" where
  "andThen r1 r2 rs = do { (broke, rs') \<leftarrow> r1 rs; if broke then Some (True, rs') else r2 rs' }"

primrec inOrder :: "rewrite list \<Rightarrow> rewrite" where
  "inOrder [] = pass"
| "inOrder (r # rs) = andThen r (inOrder rs)"

subsection \<open>Helpers shared by the handlers\<close>

definition swap01 :: "Value \<Rightarrow> Value" where
  "swap01 v = v\<lparr>m_children := (case m_children v of a # b # cs \<Rightarrow> b # a # cs | cs \<Rightarrow> cs)\<rparr>"

definition handleCommutativity :: rewrite where
  "handleCommutativity rs = do {
     v \<leftarrow> cur rs;
     (a, av) \<leftarrow> kid rs v 0;
     (b, bv) \<leftarrow> kid rs v 1;
     if isConstant bv then Some (False, rs)
     else if isConstant av then Some (False, changed (setCur (swap01 v) rs))
     else if a > b then Some (False, changed (setCur (swap01 v) rs))
     else Some (False, rs) }"

definition handleShiftByZero :: rewrite where
  "handleShiftByZero rs = do {
     v \<leftarrow> cur rs;
     (a, av) \<leftarrow> kid rs v 0;
     (b, bv) \<leftarrow> kid rs v 1;
     if isIntValue bv 0 then becomes a rs else Some (False, rs) }"

text \<open>The rewrite of two constant operands by a folding method.\<close>

definition foldConstants :: "(Value \<Rightarrow> Value \<Rightarrow> Value option) \<Rightarrow> rewrite" where
  "foldConstants f rs = do {
     v \<leftarrow> cur rs;
     (a, av) \<leftarrow> kid rs v 0;
     (b, bv) \<leftarrow> kid rs v 1;
     replaceWithFolded (f av bv) rs }"

definition foldCompare :: "(Value \<Rightarrow> Value \<Rightarrow> TriState) \<Rightarrow> rewrite" where
  "foldCompare f rs = do {
     v \<leftarrow> cur rs;
     (a, av) \<leftarrow> kid rs v 0;
     (b, bv) \<leftarrow> kid rs v 1;
     (newValue, p) \<leftarrow> addBoolConstant (m_origin v) (f av bv) (m_proc rs);
     replaceWithNewValue newValue (rs\<lparr>m_proc := p\<rparr>) }"

text \<open>
  \<open>Op(Op(value, constant1), constant2)\<close> to \<open>Op(value, constant2 op constant1)\<close>; for \<open>Add\<close> the
  source tests \<open>isInt\<close> of the type first.
\<close>

definition reassociate :: "opcode \<Rightarrow> bool \<Rightarrow> (Value \<Rightarrow> Value \<Rightarrow> Value option) \<Rightarrow> rewrite" where
  "reassociate op intOnly f rs = do {
     v \<leftarrow> cur rs;
     (a, av) \<leftarrow> kid rs v 0;
     (b, bv) \<leftarrow> kid rs v 1;
     if m_opcode av = op \<and> (intOnly \<longrightarrow> isInt (m_type v)) then do {
       (aa, aav) \<leftarrow> kid rs av 0;
       (ab, abv) \<leftarrow> kid rs av 1;
       case f bv abv of
         None \<Rightarrow> Some (False, rs)
       | Some w \<Rightarrow>
           (let (newConstant, rs') = insertNew w rs
            in Some (False, changed (setCur (setChild 1 newConstant (setChild 0 aa v)) rs'))) }
     else Some (False, rs) }"

subsection \<open>Add, Sub, Mul, Div\<close>

definition addToShl :: rewrite where
  "addToShl rs = do {
     v \<leftarrow> cur rs;
     (a, av) \<leftarrow> kid rs v 0;
     (b, bv) \<leftarrow> kid rs v 1;
     if isInteger v \<and> a = b then
       (let (one, rs') = insertNew (Const32Value (m_origin v) 1) rs
        in replaceWithNew Shl (m_origin v) [a, one] rs')
     else Some (False, rs) }"

definition addZero :: rewrite where
  "addZero rs = do {
     v \<leftarrow> cur rs;
     (a, av) \<leftarrow> kid rs v 0;
     (b, bv) \<leftarrow> kid rs v 1;
     if isIntValue bv 0 \<or> isNegativeZero bv then becomes a rs else Some (False, rs) }"

definition addSubToXor :: rewrite where
  "addSubToXor rs = do {
     v \<leftarrow> cur rs;
     (a, av) \<leftarrow> kid rs v 0;
     (b, bv) \<leftarrow> kid rs v 1;
     if isInteger v \<and> m_opcode av = Sub \<and> isIntValue bv (- 1) then do {
       (aa, aav) \<leftarrow> kid rs av 0;
       (ab, abv) \<leftarrow> kid rs av 1;
       if isIntValue aav 0 then replaceWithNew BitXor (m_origin v) [ab, b] rs else Some (False, rs) }
     else Some (False, rs) }"

definition reduceAdd :: rewrite where
  "reduceAdd = inOrder [handleCommutativity, reassociate Add True addConstant, foldConstants addConstant,
     addToShl, addZero, addSubToXor]"

definition subToAdd :: rewrite where
  "subToAdd rs = do {
     v \<leftarrow> cur rs;
     (a, av) \<leftarrow> kid rs v 0;
     (b, bv) \<leftarrow> kid rs v 1;
     if isInt (m_type v) then
       (case negConstant bv of
          None \<Rightarrow> Some (False, rs)
        | Some w \<Rightarrow>
            (let (negatedConstant, rs') = insertNew w rs
             in replaceWithNew Add (m_origin v) [a, negatedConstant] rs'))
     else Some (False, rs) }"

definition reduceSub :: rewrite where
  "reduceSub = inOrder [foldConstants subConstant, subToAdd]"

text \<open>
  The factor is read as an \<open>int64_t\<close>, sign-extended from an \<open>int32_t\<close>. The identity for a double
  factor of 1 leaves \<open>m_changed\<close> as it is.
\<close>

definition mulByConstant :: rewrite where
  "mulByConstant rs = do {
     v \<leftarrow> cur rs;
     (a, av) \<leftarrow> kid rs v 0;
     (b, bv) \<leftarrow> kid rs v 1;
     if hasInt bv then
       (let factor = asInt bv in
        if factor = 0 then becomes b rs
        else if factor = 1 then becomes a rs
        else if factor = - 1 then do {
          zero \<leftarrow> intConstant (m_origin v) (m_type v) 0;
          (let (z, rs') = insertNew zero rs in replaceWithNew Sub (m_origin v) [z, a] rs') }
        else if hasOneBitSet factor then
          (let (amount, rs') = insertNew (Const32Value (m_origin v) (of_nat (fastLog2 factor))) rs
           in replaceWithNew Shl (m_origin v) [a, amount] rs')
        else Some (False, rs))
     else if hasDouble bv then
       (if deq (asDouble bv) done1 then do { rs' \<leftarrow> toIdentity a rs; Some (True, rs') }
        else Some (False, rs))
     else Some (False, rs) }"

definition reduceMul :: rewrite where
  "reduceMul = inOrder [handleCommutativity, foldConstants mulConstant, mulByConstant]"

definition reduceDiv :: rewrite where
  "reduceDiv = foldConstants divConstant"

subsection \<open>Bitwise operations\<close>

definition sameOperands :: rewrite where
  "sameOperands rs = do {
     v \<leftarrow> cur rs;
     (a, av) \<leftarrow> kid rs v 0;
     (b, bv) \<leftarrow> kid rs v 1;
     if a = b then becomes a rs else Some (False, rs) }"

definition isAllOnes :: "Value \<Rightarrow> Value \<Rightarrow> bool" where
  "isAllOnes v bv \<longleftrightarrow>
     (m_type v = Int64 \<and> isIntValue bv 0xFFFFFFFFFFFFFFFF) \<or> (m_type v = Int32 \<and> isIntValue bv 0xFFFFFFFF)"

definition bitAndConstants :: rewrite where
  "bitAndConstants rs = do {
     v \<leftarrow> cur rs;
     (a, av) \<leftarrow> kid rs v 0;
     (b, bv) \<leftarrow> kid rs v 1;
     if isIntValue bv 0 then becomes b rs
     else if isAllOnes v bv then becomes a rs
     else if isInt64 bv 0xFFFFFFFF then do {
       trunc \<leftarrow> newOp rs Trunc (m_origin v) [a];
       (let (t, rs1) = insertNew trunc rs in do {
          zext \<leftarrow> newOp rs1 ZExt32 (m_origin v) [t];
          (let (newValue, rs2) = insertNew zext rs1 in becomes newValue rs2) }) }
     else Some (False, rs) }"

definition reduceBitAnd :: rewrite where
  "reduceBitAnd = inOrder [handleCommutativity, foldConstants bitAndConstant,
     reassociate BitAnd False bitAndConstant, sameOperands, bitAndConstants]"

definition bitOrConstants :: rewrite where
  "bitOrConstants rs = do {
     v \<leftarrow> cur rs;
     (a, av) \<leftarrow> kid rs v 0;
     (b, bv) \<leftarrow> kid rs v 1;
     if isIntValue bv 0 then becomes a rs
     else if isAllOnes v bv then becomes b rs
     else Some (False, rs) }"

definition reduceBitOr :: rewrite where
  "reduceBitOr = inOrder [handleCommutativity, foldConstants bitOrConstant,
     reassociate BitOr False bitOrConstant, sameOperands, bitOrConstants]"

definition bitXorRest :: rewrite where
  "bitXorRest rs = do {
     v \<leftarrow> cur rs;
     (a, av) \<leftarrow> kid rs v 0;
     (b, bv) \<leftarrow> kid rs v 1;
     if isInt32 bv 1 \<and> invertedCompare (lookup rs) av \<noteq> None
       then replaceWithFolded (invertedCompare (lookup rs) av) rs
     else if a = b then do {
       zero \<leftarrow> intConstant (m_origin v) (m_type v) 0;
       replaceWithFolded (Some zero) rs }
     else if isIntValue bv 0 then becomes a rs
     else Some (False, rs) }"

definition reduceBitXor :: rewrite where
  "reduceBitXor = inOrder [handleCommutativity, foldConstants bitXorConstant,
     reassociate BitXor False bitXorConstant, bitXorRest]"

definition reduceShl :: rewrite where
  "reduceShl = inOrder [foldConstants shlConstant, handleShiftByZero]"

definition reduceSShr :: rewrite where
  "reduceSShr = inOrder [foldConstants sShrConstant, handleShiftByZero]"

definition reduceZShr :: rewrite where
  "reduceZShr = inOrder [foldConstants zShrConstant, handleShiftByZero]"

subsection \<open>Conversions and Select\<close>

definition reduceBitwiseCast :: rewrite where
  "reduceBitwiseCast rs = do {
     v \<leftarrow> cur rs;
     (a, av) \<leftarrow> kid rs v 0;
     case bitwiseCastConstant av of
       Some w \<Rightarrow> replaceWithFolded (Some w) rs
     | None \<Rightarrow>
         if m_opcode av = BitwiseCast then do { (aa, aav) \<leftarrow> kid rs av 0; becomes aa rs }
         else Some (False, rs) }"

definition reduceSExt32 :: rewrite where
  "reduceSExt32 rs = do {
     v \<leftarrow> cur rs;
     (a, av) \<leftarrow> kid rs v 0;
     if hasInt32 av then do {
       w \<leftarrow> intConstant (m_origin v) (m_type v) (scast (asInt32 av));
       replaceWithFolded (Some w) rs }
     else Some (False, rs) }"

definition reduceZExt32 :: rewrite where
  "reduceZExt32 rs = do {
     v \<leftarrow> cur rs;
     (a, av) \<leftarrow> kid rs v 0;
     if hasInt32 av then do {
       w \<leftarrow> intConstant (m_origin v) (m_type v) (ucast (asInt32 av));
       replaceWithFolded (Some w) rs }
     else Some (False, rs) }"

definition reduceTrunc :: rewrite where
  "reduceTrunc rs = do {
     v \<leftarrow> cur rs;
     (a, av) \<leftarrow> kid rs v 0;
     if hasInt64 av then do {
       w \<leftarrow> intConstant (m_origin v) (m_type v) (scast (ucast (asInt64 av) :: int32));
       replaceWithFolded (Some w) rs }
     else if m_opcode av = SExt32 \<or> m_opcode av = ZExt32 then do { (aa, aav) \<leftarrow> kid rs av 0; becomes aa rs }
     else Some (False, rs) }"

definition swapSelect :: "value_ptr \<Rightarrow> Value \<Rightarrow> Value" where
  "swapSelect x v =
     v\<lparr>m_children := (case m_children v of [c, a, b] \<Rightarrow> [x, b, a] | cs \<Rightarrow> cs)\<rparr>"

definition reduceSelect :: rewrite where
  "reduceSelect rs = do {
     v \<leftarrow> cur rs;
     (c, cv) \<leftarrow> kid rs v 0;
     (a, av) \<leftarrow> kid rs v 1;
     (b, bv) \<leftarrow> kid rs v 2;
     if hasInt32 cv then becomes (if asInt32 cv \<noteq> 0 then a else b) rs
     else do {
       isNot \<leftarrow> (if m_opcode cv = Equal then do { (y, yv) \<leftarrow> kid rs cv 1; Some (isIntValue yv 0) }
                 else if m_opcode cv = BitXor then do {
                   (x, xv) \<leftarrow> kid rs cv 0;
                   (y, yv) \<leftarrow> kid rs cv 1;
                   Some (isInt32 yv 1 \<and> returnsBool (lookup rs) xv) }
                 else Some False);
       if isNot then do {
         (x, xv) \<leftarrow> kid rs cv 0;
         Some (True, changed (setCur (swapSelect x v) rs)) }
       else if a = b then becomes a rs
       else Some (False, rs) } }"

subsection \<open>Memory accesses\<close>

definition setLastChild :: "value_ptr \<Rightarrow> Value \<Rightarrow> Value" where
  "setLastChild c v = v\<lparr>m_children := butlast (m_children v) @ [c]\<rparr>"

definition lastKid :: "ReduceStrength \<Rightarrow> Value \<Rightarrow> (value_ptr \<times> Value) option" where
  "lastKid rs v = kid rs v (length (m_children v) - 1)"

definition foldOffset :: rewrite where
  "foldOffset rs = do {
     v \<leftarrow> cur rs;
     (address, addressv) \<leftarrow> lastKid rs v;
     if m_opcode addressv = Add then do {
       (x, xv) \<leftarrow> kid rs addressv 0;
       (y, yv) \<leftarrow> kid rs addressv 1;
       if hasIntPtr yv \<and> \<not> sumOverflows (asIntPtr yv) (scast (memOffset v)) then
         (let offset = asIntPtr yv + scast (memOffset v);
              smallOffset = (ucast offset :: int32)
          in if scast smallOffset = offset
             then Some (False, changed (setCur (setOffset smallOffset (setLastChild x v)) rs))
             else Some (False, rs))
       else Some (False, rs) }
     else Some (False, rs) }"

definition foldAddress :: rewrite where
  "foldAddress rs = do {
     v \<leftarrow> cur rs;
     (address, addressv) \<leftarrow> lastKid rs v;
     if memOffset v \<noteq> 0 then
       (case addConstant_int addressv (memOffset v) of
          None \<Rightarrow> Some (False, rs)
        | Some w \<Rightarrow>
            (let (newAddress, rs') = insertNew w rs
             in Some (False, changed (setCur (setOffset 0 (setLastChild newAddress v)) rs'))))
     else Some (False, rs) }"

definition reduceMemory :: rewrite where
  "reduceMemory = inOrder [foldOffset, foldAddress]"

subsection \<open>Comparisons\<close>

definition equalBool :: rewrite where
  "equalBool rs = do {
     v \<leftarrow> cur rs;
     (a, av) \<leftarrow> kid rs v 0;
     (b, bv) \<leftarrow> kid rs v 1;
     if returnsBool (lookup rs) av \<and> isInt32 bv 0 then
       (let (one, rs') = insertNew (Const32Value (m_origin v) 1) rs
        in replaceWithNew BitXor (m_origin v) [a, one] rs')
     else if returnsBool (lookup rs) av \<and> isInt32 bv 1 then becomes a rs
     else Some (False, rs) }"

definition reduceEqual :: rewrite where
  "reduceEqual = inOrder [handleCommutativity, equalBool, foldCompare equalConstant]"

text \<open>
  The comment of the second rewrite reads \<open>Equal(bool, 0)\<close>; the code passes \<open>child(1)\<close>, the
  constant 1, on.
\<close>

definition notEqualBool :: rewrite where
  "notEqualBool rs = do {
     v \<leftarrow> cur rs;
     (a, av) \<leftarrow> kid rs v 0;
     (b, bv) \<leftarrow> kid rs v 1;
     if returnsBool (lookup rs) av \<and> isInt32 bv 0 then becomes a rs
     else if returnsBool (lookup rs) av \<and> isInt32 bv 1 then replaceWithNew Equal (m_origin v) [a, b] rs
     else Some (False, rs) }"

definition reduceNotEqual :: rewrite where
  "reduceNotEqual = inOrder [handleCommutativity, notEqualBool, foldCompare notEqualConstant]"

subsection \<open>Checked arithmetic\<close>

definition checkZero :: rewrite where
  "checkZero rs = do {
     v \<leftarrow> cur rs;
     (a, av) \<leftarrow> kid rs v 0;
     (b, bv) \<leftarrow> kid rs v 1;
     if isIntValue bv 0 then becomes a rs else Some (False, rs) }"

definition reduceCheckAdd :: rewrite where
  "reduceCheckAdd = inOrder [foldConstants checkAddConstant, handleCommutativity, checkZero]"

definition checkSubToAdd :: rewrite where
  "checkSubToAdd rs = do {
     v \<leftarrow> cur rs;
     (b, bv) \<leftarrow> kid rs v 1;
     case checkNegConstant bv of
       None \<Rightarrow> Some (False, rs)
     | Some w \<Rightarrow>
         (let (negatedConstant, rs') = insertNew w rs in do {
            v' \<leftarrow> convertToAdd v;
            Some (True, changed (setCur (setChild 1 negatedConstant v') rs')) }) }"

definition reduceCheckSub :: rewrite where
  "reduceCheckSub = inOrder [foldConstants checkSubConstant, checkZero, checkSubToAdd]"

definition checkMulByConstant :: rewrite where
  "checkMulByConstant rs = do {
     v \<leftarrow> cur rs;
     (a, av) \<leftarrow> kid rs v 0;
     (b, bv) \<leftarrow> kid rs v 1;
     if hasInt bv then
       (if asInt bv = 0 then do {
          zero \<leftarrow> intConstant (m_origin v) (m_type v) 0;
          replaceWithFolded (Some zero) rs }
        else if asInt bv = 1 then becomes a rs
        else if asInt bv = 2 then do {
          v' \<leftarrow> convertToAdd v;
          Some (True, changed (setCur (setChild 1 a v') rs)) }
        else Some (False, rs))
     else Some (False, rs) }"

definition reduceCheckMul :: rewrite where
  "reduceCheckMul = inOrder [foldConstants checkMulConstant, handleCommutativity, checkMulByConstant]"

definition reduceCheck :: rewrite where
  "reduceCheck rs = do {
     v \<leftarrow> cur rs;
     (a, av) \<leftarrow> kid rs v 0;
     if isLikeZero av then Some (True, changed (setCur (replaceWithNop v) rs)) else Some (False, rs) }"

subsection \<open>Branch\<close>

definition branchNotEqual :: rewrite where
  "branchNotEqual rs = do {
     v \<leftarrow> cur rs;
     (c, cv) \<leftarrow> kid rs v 0;
     if m_opcode cv = NotEqual then do {
       (x, xv) \<leftarrow> kid rs cv 0;
       (y, yv) \<leftarrow> kid rs cv 1;
       if isIntValue yv 0 then Some (False, changed (setCur (setChild 0 x v) rs)) else Some (False, rs) }
     else Some (False, rs) }"

definition swapBranch :: "value_ptr \<Rightarrow> Value \<Rightarrow> Value" where
  "swapBranch x v =
     setSuccessors (case successors v of [taken, notTaken] \<Rightarrow> [notTaken, taken] | ss \<Rightarrow> ss) (setChild 0 x v)"

definition branchEqual :: rewrite where
  "branchEqual rs = do {
     v \<leftarrow> cur rs;
     (c, cv) \<leftarrow> kid rs v 0;
     if m_opcode cv = Equal then do {
       (x, xv) \<leftarrow> kid rs cv 0;
       (y, yv) \<leftarrow> kid rs cv 1;
       if isIntValue yv 0 then Some (False, changed (setCur (swapBranch x v) rs)) else Some (False, rs) }
     else Some (False, rs) }"

definition branchBitXor :: rewrite where
  "branchBitXor rs = do {
     v \<leftarrow> cur rs;
     (c, cv) \<leftarrow> kid rs v 0;
     if m_opcode cv = BitXor then do {
       (x, xv) \<leftarrow> kid rs cv 0;
       (y, yv) \<leftarrow> kid rs cv 1;
       if isInt32 yv 1 \<and> returnsBool (lookup rs) xv
       then Some (False, changed (setCur (swapBranch x v) rs)) else Some (False, rs) }
     else Some (False, rs) }"

definition branchTo :: "block_ptr \<Rightarrow> block_ptr \<Rightarrow> Value \<Rightarrow> ReduceStrength \<Rightarrow> ReduceStrength" where
  "branchTo target other v rs =
     (let rs' = rs\<lparr>m_proc := removePredecessorFrom other (m_block rs) (m_proc rs)\<rparr>
      in (setCur (convertToJump target v) rs')\<lparr>m_changedCFG := True\<rparr>)"

definition branchConstant :: rewrite where
  "branchConstant rs = do {
     v \<leftarrow> cur rs;
     (c, cv) \<leftarrow> kid rs v 0;
     taken \<leftarrow> at (successors v) 0;
     notTaken \<leftarrow> at (successors v) 1;
     case asTriState cv of
       FalseTriState \<Rightarrow> Some (True, branchTo (fst notTaken) (fst taken) v rs)
     | TrueTriState \<Rightarrow> Some (True, branchTo (fst taken) (fst notTaken) v rs)
     | MixedTriState \<Rightarrow> Some (False, rs) }"

definition reduceBranch :: rewrite where
  "reduceBranch = inOrder [branchNotEqual, branchEqual, branchBitXor, branchConstant]"

subsection \<open>process\<close>

primrec reduceOpcode :: "opcode \<Rightarrow> rewrite" where
  "reduceOpcode Nop = pass"
| "reduceOpcode Identity = pass"
| "reduceOpcode Const32 = pass"
| "reduceOpcode Const64 = pass"
| "reduceOpcode ConstDouble = pass"
| "reduceOpcode StackSlot = pass"
| "reduceOpcode ArgumentReg = pass"
| "reduceOpcode FramePointer = pass"
| "reduceOpcode Add = reduceAdd"
| "reduceOpcode Sub = reduceSub"
| "reduceOpcode Mul = reduceMul"
| "reduceOpcode Div = reduceDiv"
| "reduceOpcode ChillDiv = reduceDiv"
| "reduceOpcode Mod = pass"
| "reduceOpcode BitAnd = reduceBitAnd"
| "reduceOpcode BitOr = reduceBitOr"
| "reduceOpcode BitXor = reduceBitXor"
| "reduceOpcode Shl = reduceShl"
| "reduceOpcode SShr = reduceSShr"
| "reduceOpcode ZShr = reduceZShr"
| "reduceOpcode BitwiseCast = reduceBitwiseCast"
| "reduceOpcode SExt8 = pass"
| "reduceOpcode SExt16 = pass"
| "reduceOpcode SExt32 = reduceSExt32"
| "reduceOpcode ZExt32 = reduceZExt32"
| "reduceOpcode Trunc = reduceTrunc"
| "reduceOpcode FRound = pass"
| "reduceOpcode IToD = pass"
| "reduceOpcode DToI32 = pass"
| "reduceOpcode Equal = reduceEqual"
| "reduceOpcode NotEqual = reduceNotEqual"
| "reduceOpcode LessThan = foldCompare lessThanConstant"
| "reduceOpcode GreaterThan = foldCompare greaterThanConstant"
| "reduceOpcode LessEqual = foldCompare lessEqualConstant"
| "reduceOpcode GreaterEqual = foldCompare greaterEqualConstant"
| "reduceOpcode Above = foldCompare aboveConstant"
| "reduceOpcode Below = foldCompare belowConstant"
| "reduceOpcode AboveEqual = foldCompare aboveEqualConstant"
| "reduceOpcode BelowEqual = foldCompare belowEqualConstant"
| "reduceOpcode Select = reduceSelect"
| "reduceOpcode Load8Z = reduceMemory"
| "reduceOpcode Load8S = reduceMemory"
| "reduceOpcode Load16Z = reduceMemory"
| "reduceOpcode Load16S = reduceMemory"
| "reduceOpcode LoadFloat = reduceMemory"
| "reduceOpcode Load = reduceMemory"
| "reduceOpcode Store8 = reduceMemory"
| "reduceOpcode Store16 = reduceMemory"
| "reduceOpcode StoreFloat = reduceMemory"
| "reduceOpcode Store = reduceMemory"
| "reduceOpcode CCall = pass"
| "reduceOpcode Patchpoint = pass"
| "reduceOpcode CheckAdd = reduceCheckAdd"
| "reduceOpcode CheckSub = reduceCheckSub"
| "reduceOpcode CheckMul = reduceCheckMul"
| "reduceOpcode Check = reduceCheck"
| "reduceOpcode Upsilon = pass"
| "reduceOpcode Phi = pass"
| "reduceOpcode Jump = pass"
| "reduceOpcode Branch = reduceBranch"
| "reduceOpcode Switch = pass"
| "reduceOpcode Return = pass"
| "reduceOpcode Oops = pass"

definition process :: "ReduceStrength \<Rightarrow> ReduceStrength option" where
  "process rs = do {
     value \<leftarrow> at (valuesIn (m_proc rs) (m_block rs)) (m_index rs);
     p \<leftarrow> performSubstitution value (m_proc rs);
     (let rs' = rs\<lparr>m_value := value, m_proc := p\<rparr> in do {
        v \<leftarrow> cur rs';
        (broke, rs'') \<leftarrow> reduceOpcode (m_opcode v) rs';
        Some rs'' }) }"

end
