(* ===== verification/B3Rewrite.thy ===== *)
theory B3Rewrite
  imports B3Semantics
begin

text \<open>
  The theory of rewriting one value of a procedure: new values may be added, and then the value
  is overwritten. A rewrite that keeps the typing invariant, the well-founded dependencies and
  refinement is assembled from the two moves proved here.
\<close>

subsection \<open>Dependencies\<close>

lemma below_child: "s i = Some v \<Longrightarrow> c \<in> set (m_children v) \<Longrightarrow> c \<in> below s X i"
  by (auto simp: below_def depsFor_def deps_def)

lemma below_step: "c \<in> below s X i \<Longrightarrow> s c = Some cv \<Longrightarrow> d \<in> set (m_children cv) \<Longrightarrow> d \<in> below s X i"
  by (auto simp: below_def depsFor_def deps_def intro: trancl_into_trancl2)

lemma below_new: "j \<in> X \<Longrightarrow> j \<in> below s X i"
  by (auto simp: below_def depsFor_def)

lemma below_add: "s j = None \<Longrightarrow> c \<in> below s X i \<Longrightarrow> c \<in> below (s(j \<mapsto> w)) (insert j X) i"
proof -
  assume "s j = None"
  then have "depsFor s X i \<subseteq> depsFor (s(j \<mapsto> w)) (insert j X) i" by (auto simp: depsFor_def deps_def)
  then show "c \<in> below s X i \<Longrightarrow> c \<in> below (s(j \<mapsto> w)) (insert j X) i"
    unfolding below_def using trancl_mono by blast
qed

lemma wtStore_child: "wtStore s \<Longrightarrow> s i = Some v \<Longrightarrow> c \<in> set (m_children v) \<Longrightarrow> s c \<noteq> None"
  by (fastforce simp: wtStore_def wtValue_def validateChildren_def split: option.splits)

lemma depsFor_add:
  assumes wf: "wf (depsFor s X i)" and j: "s j = None" and i: "s i \<noteq> None" and X: "X \<subseteq> dom s"
    and wt: "wtStore s" and w: "set (m_children w) \<subseteq> below s X i"
  shows "wf (depsFor (s(j \<mapsto> w)) (insert j X) i)"
proof -
  have "j \<notin> Field (depsFor s X i)"
    using j i X wtStore_child [OF wt, of _ _ j] by (auto simp: Field_def depsFor_def deps_def)
  then have "wf (depsFor s X i \<union> set (m_children w) \<times> {j} \<union> {(j, i)})"
    using i j w by (intro wf_insert_below [OF wf]) (auto simp: below_def)
  moreover have "depsFor (s(j \<mapsto> w)) (insert j X) i \<subseteq> depsFor s X i \<union> set (m_children w) \<times> {j} \<union> {(j, i)}"
    by (auto simp: depsFor_def deps_def split: if_splits)
  ultimately show ?thesis by (rule wf_subset)
qed

lemma depsFor_update:
  assumes wf: "wf (depsFor s X i)" and v: "set (m_children v) \<subseteq> below s X i"
  shows "wf (depsFor (s(i \<mapsto> v)) X i)"
proof -
  have "depsFor (s(i \<mapsto> v)) X i \<subseteq> (depsFor s X i)\<^sup>+"
    using v by (auto simp: depsFor_def deps_def below_def split: if_splits)
  then show ?thesis using wf_trancl [OF wf] by (rule wf_subset [rotated])
qed

lemma wf_depsFor_deps: "wf (depsFor s X i) \<Longrightarrow> wf (deps s)"
  by (rule wf_subset) (auto simp: depsFor_def)

subsection \<open>Rewriting one value\<close>

definition rewriting :: "store \<Rightarrow> store \<Rightarrow> value_ptr list \<Rightarrow> value_ptr \<Rightarrow> bool" where
  "rewriting s s' js i \<longleftrightarrow>
     wtStore s' \<and> wf (depsFor s' (set js) i) \<and> refines s s' \<and> typeExt s s' \<and>
     dom s' = dom s \<union> set js \<and> distinct js \<and> set js \<inter> dom s = {} \<and> i \<in> dom s"

lemma rewriting_refl: "wtStore s \<Longrightarrow> wf (deps s) \<Longrightarrow> s i = Some v \<Longrightarrow> rewriting s s [] i"
  by (auto simp: rewriting_def depsFor_def)

lemma rewriting_trans:
  assumes "rewriting a b js i" "rewriting b c ks i"
  shows "wtStore c \<and> wf (deps c) \<and> refines a c \<and> typeExt a c \<and> dom c = dom a \<union> set (js @ ks) \<and>
    distinct (js @ ks) \<and> set (js @ ks) \<inter> dom a = {} \<and> i \<in> dom a"
  using assms refines_trans [of a b c] typeExt_trans [of a b c] wf_depsFor_deps [of c "set ks" i]
  unfolding rewriting_def by auto

lemma rewriting_add:
  assumes r: "rewriting s s' js i" and j: "s' j = None" and w: "wtValue s' w"
    and below: "set (m_children w) \<subseteq> below s' (set js) i"
  shows "rewriting s (s'(j \<mapsto> w)) (js @ [j]) i"
proof -
  have wt: "wtStore s'" and wf: "wf (depsFor s' (set js) i)" and dom: "dom s' = dom s \<union> set js" and i: "s' i \<noteq> None"
    using r by (auto simp: rewriting_def)
  have "wf (depsFor (s'(j \<mapsto> w)) (insert j (set js)) i)"
    using depsFor_add [OF wf j i _ wt below] dom by simp
  moreover have "refines s (s'(j \<mapsto> w))"
    using r refines_trans refines_add [of s' j w, OF j] by (auto simp: rewriting_def)
  moreover have "typeExt s (s'(j \<mapsto> w))"
    using r typeExt_trans typeExt_add [of s' j w, OF j] by (auto simp: rewriting_def)
  moreover have "wtStore (s'(j \<mapsto> w))" by (rule wtStore_add [OF wt j w])
  ultimately show ?thesis using r j by (auto simp: rewriting_def)
qed

text \<open>
  What a rewrite of the value at \<open>i\<close> has to show: under every environment in which the other
  values and the new one hold, the old one holds too and is observed alike.
\<close>

definition replaces :: "store \<Rightarrow> value_ptr \<Rightarrow> Value \<Rightarrow> Value \<Rightarrow> bool" where
  "replaces s i v v' \<longleftrightarrow>
     (\<forall>env. envTyped s env \<longrightarrow> (\<forall>j w. j \<noteq> i \<longrightarrow> s j = Some w \<longrightarrow> solves env j w) \<longrightarrow> solves env i v' \<longrightarrow>
        solves env i v \<and> observe env i v' = observe env i v)"

lemma rewriting_update:
  assumes r: "rewriting s s' js i" and v: "s' i = Some v" and type: "m_type v' = m_type v"
    and wt: "wtValue s' v'" and below: "set (m_children v') \<subseteq> below s' (set js) i"
    and sem: "replaces s' i v v'"
  shows "rewriting s (s'(i \<mapsto> v')) js i"
proof -
  have "refines s' (s'(i \<mapsto> v'))"
  proof (rule refines_update [of s' i v v', OF v])
    fix env assume "solution (s'(i \<mapsto> v')) env" "\<And>j w. j \<noteq> i \<Longrightarrow> s' j = Some w \<Longrightarrow> solves env j w" "solves env i v'"
    moreover from this have "typeOf (env j) = m_type w" if "s' j = Some w" for j w
      using that v type by (cases "j = i") (auto simp: solves_def)
    then have "envTyped s' env" by (simp add: envTyped_def)
    ultimately show "solves env i v \<and> observe env i v' = observe env i v"
      using sem unfolding replaces_def by blast
  qed
  then have "refines s (s'(i \<mapsto> v'))" using r refines_trans by (auto simp: rewriting_def)
  moreover have "typeExt s (s'(i \<mapsto> v'))"
    using r typeExt_trans typeExt_update [of s' i v v', OF v type] by (auto simp: rewriting_def)
  moreover have "wf (depsFor (s'(i \<mapsto> v')) (set js) i)"
    using r below depsFor_update by (auto simp: rewriting_def)
  moreover have "wtStore (s'(i \<mapsto> v'))"
    using r wtStore_update [of s' i v v', OF _ v type wt] by (auto simp: rewriting_def)
  ultimately show ?thesis using r v by (auto simp: rewriting_def)
qed

subsection \<open>Replacing a value by an identity\<close>

definition holds :: "store \<Rightarrow> value_ptr \<Rightarrow> env \<Rightarrow> bool" where
  "holds s i env \<longleftrightarrow> envTyped s env \<and> (\<forall>j w. j \<noteq> i \<longrightarrow> s j = Some w \<longrightarrow> solves env j w)"

lemma replacesI:
  "(\<And>env. holds s i env \<Longrightarrow> solves env i v' \<Longrightarrow> solves env i v \<and> observe env i v' = observe env i v) \<Longrightarrow>
     replaces s i v v'"
  by (simp add: replaces_def holds_def)

definition silentOps :: "opcode set" where
  "silentOps = unaryOps \<union> binaryOps \<union> {Nop, Select, Const32, Const64, ConstDouble}"

lemma observe_silent: "m_opcode v \<in> silentOps \<Longrightarrow> observe env i v = Silent"
  unfolding silentOps_def unaryOps_def binaryOps_def
  by (auto simp: observe_def)

lemma holds_typed: "holds s i env \<Longrightarrow> s j = Some w \<Longrightarrow> typeOf (env j) = m_type w"
  by (simp add: holds_def envTyped_def)

lemma holds_solves: "holds s i env \<Longrightarrow> s j = Some w \<Longrightarrow> j \<noteq> i \<Longrightarrow> solves env j w"
  by (simp add: holds_def)

lemma holds_add: "holds (s(j \<mapsto> w)) i env \<Longrightarrow> s j = None \<Longrightarrow> holds s i env"
  unfolding holds_def envTyped_def by (metis fun_upd_other option.distinct(1))

lemma replaces_identity:
  assumes silent: "\<And>env. holds s i env \<Longrightarrow> observe env i v = Silent"
    and allowed: "\<And>env. holds s i env \<Longrightarrow> allows (evalValue env v) (env t)"
  shows "replaces s i v (mkValue Identity (m_type v) origin [t] NoPayload)"
proof (rule replacesI)
  fix env assume h: "holds s i env" and sol: "solves env i (mkValue Identity (m_type v) origin [t] NoPayload)"
  have "env i = env t" "typeOf (env i) = m_type v"
    using sol by (auto simp: solves_def evalValue_def args_def mkValue_def)
  then show "solves env i v \<and> observe env i (mkValue Identity (m_type v) origin [t] NoPayload) = observe env i v"
    using allowed [OF h] silent [OF h] by (simp add: solves_def observe_silent mkValue_def silentOps_def unaryOps_def)
qed

lemma wtValue_identity:
  "s t = Some tv \<Longrightarrow> m_type tv = type \<Longrightarrow> type \<noteq> Void \<Longrightarrow> wtValue s (mkValue Identity type origin [t] NoPayload)"
  by (simp add: wtValue_def payloadOK_def accepts_defs validateChildren_def validateTypes_def childType_def child_def
      numChildren_def mkValue_def isCheckMath_def)

lemma below_irrefl: "wf (depsFor s X i) \<Longrightarrow> c \<in> below s X i \<Longrightarrow> c \<noteq> i"
  using wf_trancl [of "depsFor s X i"] by (auto simp: below_def)

subsection \<open>Constants\<close>

definition constVal :: "Value \<Rightarrow> val option" where
  "constVal v =
     (if m_opcode v = Const32 then Some (V32 (asInt32 v))
      else if m_opcode v = Const64 then Some (V64 (asInt64 v))
      else if m_opcode v = ConstDouble then Some (VD (asDouble v))
      else None)"

lemma constVal_env:
  assumes "constVal v = Some x" "solves env i v" "payloadOK (m_opcode v) (m_payload v)"
  shows "env i = x"
  using assms by (auto simp: constVal_def solves_def evalValue_def payloadOK_def asInt32_def asInt64_def asDouble_def
      split: if_splits payload.splits)

definition isConstVal :: "Value \<Rightarrow> val \<Rightarrow> bool" where
  "isConstVal w x \<longleftrightarrow>
     m_children w = [] \<and> m_type w = typeOf x \<and>
     (case x of
        V32 a \<Rightarrow> m_opcode w = Const32 \<and> m_payload w = Const32Payload a
      | V64 a \<Rightarrow> m_opcode w = Const64 \<and> m_payload w = Const64Payload a
      | VD d \<Rightarrow> m_opcode w = ConstDouble \<and> m_payload w = ConstDoublePayload d
      | VVoid \<Rightarrow> False)"

lemma isConstVal_mk [simp]:
  "isConstVal (Const32Value origin a) x \<longleftrightarrow> x = V32 a"
  "isConstVal (Const64Value origin b) x \<longleftrightarrow> x = V64 b"
  "isConstVal (ConstDoubleValue origin d) x \<longleftrightarrow> x = VD d"
  by (auto simp: isConstVal_def mk_defs split: val.splits)

lemma isConstVal_wt: "isConstVal w x \<Longrightarrow> wtValue s w"
  by (cases x) (auto simp: isConstVal_def wtValue_def payloadOK_def validateChildren_def validateTypes_def numChildren_def
      isCheckMath_def)

lemma isConstVal_eval: "isConstVal w x \<Longrightarrow> evalValue env w = Exactly x"
  by (cases x) (auto simp: isConstVal_def evalValue_def)

lemma isConstVal_env: "isConstVal w x \<Longrightarrow> solves env j w \<Longrightarrow> env j = x"
  by (simp add: solves_def isConstVal_eval)

lemma isConstVal_type: "isConstVal w x \<Longrightarrow> m_type w = typeOf x \<and> m_type w \<noteq> Void \<and> m_children w = []"
  by (cases x) (auto simp: isConstVal_def)

end
