(* ===== verification/B3ReduceSound.thy ===== *)
theory B3ReduceSound
  imports B3ReduceStrength B3Rewrite
begin

text \<open>
  The contract of a strength-reduction rewrite and the tools to prove it. The locale
  \<open>rewrite_rule\<close> is the contract: on a well-typed procedure the rewrite does not crash, keeps the
  invariants, refines the value it rewrites, and puts every value it adds into the insertion set
  once, after the values it uses.
\<close>

subsection \<open>States and steps\<close>

definition ready :: "ReduceStrength \<Rightarrow> bool" where
  "ready rs \<longleftrightarrow> procInv (m_proc rs) \<and> wtStore (lookup rs) \<and> wf (deps (lookup rs)) \<and> cur rs \<noteq> None"

definition frame :: "ReduceStrength \<Rightarrow> ReduceStrength \<Rightarrow> bool" where
  "frame rs rs' \<longleftrightarrow>
     m_value rs' = m_value rs \<and> m_index rs' = m_index rs \<and> m_block rs' = m_block rs \<and>
     m_blocks (m_proc rs') = m_blocks (m_proc rs) \<and> (\<forall>b. valuesIn (m_proc rs') b = valuesIn (m_proc rs) b)"

definition reducing :: "ReduceStrength \<Rightarrow> ReduceStrength \<Rightarrow> value_ptr list \<Rightarrow> bool" where
  "reducing rs rs' js \<longleftrightarrow>
     procInv (m_proc rs') \<and> rewriting (lookup rs) (lookup rs') js (m_value rs) \<and> frame rs rs' \<and>
     m_insertionSet rs' = m_insertionSet rs @ map (Pair (m_index rs)) js"

definition reduced :: "ReduceStrength \<Rightarrow> ReduceStrength \<Rightarrow> value_ptr list \<Rightarrow> bool" where
  "reduced rs rs' js \<longleftrightarrow>
     ready rs' \<and> refines (lookup rs) (lookup rs') \<and> typeExt (lookup rs) (lookup rs') \<and>
     dom (lookup rs') = dom (lookup rs) \<union> set js \<and> distinct js \<and> set js \<inter> dom (lookup rs) = {} \<and>
     frame rs rs' \<and> m_insertionSet rs' = m_insertionSet rs @ map (Pair (m_index rs)) js"

lemma frame_refl [simp]: "frame rs rs"
  by (simp add: frame_def)

lemma frame_trans: "frame a b \<Longrightarrow> frame b c \<Longrightarrow> frame a c"
  by (simp add: frame_def)

lemma reducing_refl: "ready rs \<Longrightarrow> reducing rs rs []"
  unfolding reducing_def ready_def cur_def by (auto intro: rewriting_refl)

lemma reducing_reduced: "reducing rs rs' js \<Longrightarrow> reduced rs rs' js"
  unfolding reducing_def reduced_def rewriting_def ready_def
  by (auto simp: cur_def frame_def intro: wf_depsFor_deps)

lemma reduced_refl: "ready rs \<Longrightarrow> reduced rs rs []"
  by (rule reducing_reduced [OF reducing_refl])

lemma reduced_trans: "reduced a b js \<Longrightarrow> reduced b c ks \<Longrightarrow> reduced a c (js @ ks)"
  unfolding reduced_def
  using refines_trans [of "lookup a" "lookup b" "lookup c"] typeExt_trans [of "lookup a" "lookup b" "lookup c"]
    frame_trans [of a b c]
  by (auto simp: frame_def)

subsection \<open>The two moves on the state of the phase\<close>

lemma reducing_insertNew:
  assumes r: "reducing rs rs1 js" and new: "insertNew w rs1 = (j, rs2)" and w: "wtValue (lookup rs1) w"
    and below: "set (m_children w) \<subseteq> below (lookup rs1) (set js) (m_value rs)"
  shows "reducing rs rs2 (js @ [j])" "lookup rs2 = (lookup rs1)(j \<mapsto> w)" "lookup rs1 j = None"
    "m_value rs2 = m_value rs1"
proof -
  obtain p where p: "add w (m_proc rs1) = (j, p)" and rs2: "rs2 = insertValue j (rs1\<lparr>m_proc := p\<rparr>)"
    using new by (auto simp: insertNew_def addNew_def split: prod.splits)
  have inv: "procInv (m_proc rs1)" using r by (simp add: reducing_def)
  note fresh = add_fresh [OF inv p]
  show l2: "lookup rs2 = (lookup rs1)(j \<mapsto> w)" and l1: "lookup rs1 j = None" and "m_value rs2 = m_value rs1"
    using fresh by (simp_all add: lookup_def rs2 insertValue_def)
  have "m_heap p = m_heap (m_proc rs1)" "m_blocks p = m_blocks (m_proc rs1)" using add_blocks [OF p] by simp_all
  then have "frame rs1 rs2" by (simp add: frame_def rs2 insertValue_def valuesIn_def block_def)
  moreover have "rewriting (lookup rs) ((lookup rs1)(j \<mapsto> w)) (js @ [j]) (m_value rs)"
    using r l1 w below by (intro rewriting_add) (auto simp: reducing_def)
  ultimately show "reducing rs rs2 (js @ [j])"
    using r fresh(3) l2 unfolding reducing_def
    by (auto simp: rs2 insertValue_def frame_def)
qed

lemma reducing_setCur:
  assumes r: "reducing rs rs1 js" and v: "lookup rs1 (m_value rs) = Some v" and type: "m_type v' = m_type v"
    and wt: "wtValue (lookup rs1) v'" and below: "set (m_children v') \<subseteq> below (lookup rs1) (set js) (m_value rs)"
    and sem: "replaces (lookup rs1) (m_value rs) v v'"
  shows "reducing rs (setCur v' rs1) js" "lookup (setCur v' rs1) = (lookup rs1)(m_value rs \<mapsto> v')"
proof -
  have mv: "m_value rs1 = m_value rs" using r by (simp add: reducing_def frame_def)
  have i: "valuesOf (m_proc rs1) (m_value rs) \<noteq> None" using v by (simp add: lookup_def)
  show l: "lookup (setCur v' rs1) = (lookup rs1)(m_value rs \<mapsto> v')"
    using valuesOf_setValue [OF i] mv by (simp add: lookup_def setCur_def)
  have "frame rs1 (setCur v' rs1)" by (simp add: frame_def setCur_def valuesIn_def block_def setValue_def)
  moreover have "procInv (m_proc (setCur v' rs1))"
    using r procInv_setValue [OF _ i] mv by (simp add: setCur_def reducing_def)
  moreover have "rewriting (lookup rs) ((lookup rs1)(m_value rs \<mapsto> v')) js (m_value rs)"
    using r v type wt below sem by (intro rewriting_update) (auto simp: reducing_def)
  ultimately show "reducing rs (setCur v' rs1) js"
    using r l unfolding reducing_def by (auto simp: setCur_def frame_def)
qed

lemma reducing_changed [simp]: "reducing rs (changed rs1) js = reducing rs rs1 js"
  by (simp add: reducing_def changed_def frame_def lookup_def)

lemma lookup_changed [simp]: "lookup (changed rs) = lookup rs" "cur (changed rs) = cur rs"
  "m_value (changed rs) = m_value rs"
  by (simp_all add: changed_def lookup_def cur_def)

text \<open>The current value becomes an identity of a value it depends on.\<close>

lemma reducing_toIdentity:
  assumes r: "reducing rs rs1 js" and v: "lookup rs1 (m_value rs) = Some v"
    and t: "lookup rs1 t = Some tv" "m_type tv = m_type v" "m_type v \<noteq> Void"
    and below: "t \<in> below (lookup rs1) (set js) (m_value rs)"
    and silent: "\<And>env. holds (lookup rs1) (m_value rs) env \<Longrightarrow> observe env (m_value rs) v = Silent"
    and allowed: "\<And>env. holds (lookup rs1) (m_value rs) env \<Longrightarrow> allows (evalValue env v) (env t)"
  shows "\<exists>rs2. toIdentity t rs1 = Some rs2 \<and> reducing rs rs2 js"
proof -
  let ?id = "mkValue Identity (m_type v) (m_origin v) [t] NoPayload"
  have mv: "m_value rs1 = m_value rs" using r by (simp add: reducing_def frame_def)
  have "toIdentity t rs1 = Some (setCur ?id rs1)"
    using v t mv by (simp add: toIdentity_def cur_def replaceWithIdentity_def)
  moreover have "reducing rs (setCur ?id rs1) js"
  proof (rule reducing_setCur(1) [OF r v])
    show "m_type ?id = m_type v" by (simp add: mkValue_def)
    show "wtValue (lookup rs1) ?id" by (rule wtValue_identity [of "lookup rs1" t tv, OF t])
    show "set (m_children ?id) \<subseteq> below (lookup rs1) (set js) (m_value rs)" using below by (simp add: mkValue_def)
    show "replaces (lookup rs1) (m_value rs) v ?id" using silent allowed by (rule replaces_identity)
  qed
  ultimately show ?thesis by blast
qed

lemma reducing_becomes:
  assumes "reducing rs rs1 js" "lookup rs1 (m_value rs) = Some v"
    and "lookup rs1 t = Some tv" "m_type tv = m_type v" "m_type v \<noteq> Void"
    and "t \<in> below (lookup rs1) (set js) (m_value rs)"
    and "\<And>env. holds (lookup rs1) (m_value rs) env \<Longrightarrow> observe env (m_value rs) v = Silent"
    and "\<And>env. holds (lookup rs1) (m_value rs) env \<Longrightarrow> allows (evalValue env v) (env t)"
  shows "\<exists>rs2. becomes t rs1 = Some (True, rs2) \<and> reduced rs rs2 js"
proof -
  obtain rs2 where "toIdentity t rs1 = Some rs2" "reducing rs rs2 js"
    using reducing_toIdentity [OF assms(1-6)] assms(7,8) by blast
  then have "becomes t rs1 = Some (True, changed rs2)" "reduced rs (changed rs2) js"
    by (simp_all add: becomes_def reducing_reduced)
  then show ?thesis by blast
qed

lemma replaceWithFolded_insertNew:
  "replaceWithFolded (Some w) rs = (let (j, rs') = insertNew w rs in becomes j rs')"
  by (simp add: replaceWithFolded_def replaceWithNewValue_def insertNew_def becomes_def split: prod.splits)

lemma reducing_replaceWithFolded:
  assumes r: "reducing rs rs1 js" and v: "lookup rs1 (m_value rs) = Some v"
    and w: "wtValue (lookup rs1) w" "m_type w = m_type v" "m_type v \<noteq> Void"
    and below: "set (m_children w) \<subseteq> below (lookup rs1) (set js) (m_value rs)"
    and silent: "\<And>env. holds (lookup rs1) (m_value rs) env \<Longrightarrow> observe env (m_value rs) v = Silent"
    and allowed: "\<And>env x. holds (lookup rs1) (m_value rs) env \<Longrightarrow> typeOf x = m_type w \<Longrightarrow>
                    allows (evalValue env w) x \<Longrightarrow> allows (evalValue env v) x"
  shows "\<exists>rs2 ks. replaceWithFolded (Some w) rs1 = Some (True, rs2) \<and> reduced rs rs2 ks"
proof -
  obtain j rs2 where new: "insertNew w rs1 = (j, rs2)" by (cases "insertNew w rs1")
  note ins = reducing_insertNew [OF r new w(1) below]
  have holds: "holds (lookup rs1) (m_value rs) env" if "holds (lookup rs2) (m_value rs) env" for env
    using holds_add [of "lookup rs1" j w] that ins(2,3) by simp
  have ji: "j \<noteq> m_value rs" using ins(3) v by auto
  have "\<exists>rs3. becomes j rs2 = Some (True, rs3) \<and> reduced rs rs3 (js @ [j])"
  proof (rule reducing_becomes [OF ins(1)])
    show "lookup rs2 (m_value rs) = Some v" "lookup rs2 j = Some w" using ins(2) ji v by simp_all
    show "m_type w = m_type v" "m_type v \<noteq> Void" by fact+
    show "j \<in> below (lookup rs2) (set (js @ [j])) (m_value rs)" by (rule below_new) simp
    fix env assume h: "holds (lookup rs2) (m_value rs) env"
    show "observe env (m_value rs) v = Silent" by (rule silent [OF holds [OF h]])
    have "solves env j w" using holds_solves [OF h] ins(2) ji by simp
    then show "allows (evalValue env v) (env j)"
      using allowed [OF holds [OF h]] by (simp add: solves_def)
  qed
  then show ?thesis using new by (simp add: replaceWithFolded_insertNew) blast
qed

subsection \<open>The contract\<close>

locale rewrite_rule =
  fixes opcode :: opcode and rule :: rewrite
  assumes sound: "ready rs \<Longrightarrow> cur rs = Some v \<Longrightarrow> m_opcode v = opcode \<Longrightarrow>
    \<exists>broke rs' js. rule rs = Some (broke, rs') \<and> reduced rs rs' js \<and>
      (broke \<or> (\<exists>v'. cur rs' = Some v' \<and> m_opcode v' = opcode))"
begin

lemma no_crash: "ready rs \<Longrightarrow> cur rs = Some v \<Longrightarrow> m_opcode v = opcode \<Longrightarrow> rule rs \<noteq> None"
  using sound by fastforce

end

lemma rewrite_rule_pass: "rewrite_rule opcode pass"
  by unfold_locales (auto simp: pass_def intro: reduced_refl)

lemma rewrite_rule_andThen:
  assumes "rewrite_rule opcode r1" "rewrite_rule opcode r2"
  shows "rewrite_rule opcode (andThen r1 r2)"
proof
  fix rs v assume rs: "ready rs" "cur rs = Some v" "m_opcode v = opcode"
  obtain broke rs1 js where r1: "r1 rs = Some (broke, rs1)" "reduced rs rs1 js"
      "broke \<or> (\<exists>v'. cur rs1 = Some v' \<and> m_opcode v' = opcode)"
    using rewrite_rule.sound [OF assms(1) rs] by blast
  show "\<exists>broke rs' js. andThen r1 r2 rs = Some (broke, rs') \<and> reduced rs rs' js \<and>
      (broke \<or> (\<exists>v'. cur rs' = Some v' \<and> m_opcode v' = opcode))"
  proof (cases broke)
    case True
    then show ?thesis using r1 by (auto simp: andThen_def)
  next
    case False
    then obtain v1 where v1: "cur rs1 = Some v1" "m_opcode v1 = opcode" using r1(3) by blast
    have "ready rs1" using r1(2) by (simp add: reduced_def)
    then obtain broke2 rs2 ks where r2: "r2 rs1 = Some (broke2, rs2)" "reduced rs1 rs2 ks"
        "broke2 \<or> (\<exists>v'. cur rs2 = Some v' \<and> m_opcode v' = opcode)"
      using rewrite_rule.sound [OF assms(2) _ v1] by blast
    then show ?thesis using False r1 reduced_trans [OF r1(2) r2(2)] by (auto simp: andThen_def)
  qed
qed

lemma rewrite_rule_inOrder:
  "(\<And>r. r \<in> set rules \<Longrightarrow> rewrite_rule opcode r) \<Longrightarrow> rewrite_rule opcode (inOrder rules)"
  by (induction rules) (auto intro: rewrite_rule_pass rewrite_rule_andThen)

subsection \<open>Operands\<close>

text \<open>
  A ready state, its current value with the operands \<open>a\<close> and \<open>b\<close> in front, and what is known of
  them. Rewrites start from this view.
\<close>

definition operand :: "ReduceStrength \<Rightarrow> value_ptr \<Rightarrow> Value \<Rightarrow> bool" where
  "operand rs a av \<longleftrightarrow>
     lookup rs a = Some av \<and> wtValue (lookup rs) av \<and> m_type av \<noteq> Void \<and>
     a \<in> below (lookup rs) {} (m_value rs) \<and> a \<noteq> m_value rs"

lemma operandD:
  assumes "operand rs a av"
  shows "lookup rs a = Some av" "wtValue (lookup rs) av" "m_type av \<noteq> Void"
    "a \<in> below (lookup rs) {} (m_value rs)" "a \<noteq> m_value rs" "payloadOK (m_opcode av) (m_payload av)"
  using assms unfolding operand_def wtValue_def by blast+

lemma ready_cur_wt: "ready rs \<Longrightarrow> cur rs = Some v \<Longrightarrow> wtValue (lookup rs) v"
  by (auto simp: ready_def cur_def dest: wtStoreD)

lemma below_operand:
  assumes "ready rs" "a \<in> below (lookup rs) {} (m_value rs)" "lookup rs a = Some av" "m_type av \<noteq> Void"
  shows "operand rs a av"
  using assms wtStoreD [of "lookup rs" a av] below_irrefl [of "lookup rs" "{}" "m_value rs" a]
  by (simp add: operand_def ready_def depsFor_def)

lemma cur_operand:
  assumes "ready rs" "cur rs = Some v" "a \<in> set (m_children v)"
  shows "\<exists>av. operand rs a av"
proof -
  obtain av where "lookup rs a = Some av" "m_type av \<noteq> Void"
    using ready_cur_wt [OF assms(1,2)] assms(3)
    by (auto simp: wtValue_def validateChildren_def split: option.splits)
  moreover have "a \<in> below (lookup rs) {} (m_value rs)"
    using assms(2,3) below_child [of "lookup rs" "m_value rs" v a] by (simp add: cur_def)
  ultimately show ?thesis using below_operand [OF assms(1)] by blast
qed

lemma operand_operand:
  assumes "ready rs" "operand rs a av" "c \<in> set (m_children av)"
  shows "\<exists>cv. operand rs c cv"
proof -
  obtain cv where "lookup rs c = Some cv" "m_type cv \<noteq> Void"
    using assms(2,3) by (auto simp: operand_def wtValue_def validateChildren_def split: option.splits)
  moreover have "c \<in> below (lookup rs) {} (m_value rs)"
    using assms(2,3) below_step [of a "lookup rs" "{}" "m_value rs" av c] by (simp add: operand_def)
  ultimately show ?thesis using below_operand [OF assms(1)] by blast
qed

lemma kid_eq: "at (m_children v) k = Some c \<Longrightarrow> lookup rs c = Some cv \<Longrightarrow> kid rs v k = Some (c, cv)"
  by (simp add: kid_def)

definition twoKids :: "ReduceStrength \<Rightarrow> Value \<Rightarrow> value_ptr \<Rightarrow> Value \<Rightarrow> value_ptr \<Rightarrow> Value \<Rightarrow> value_ptr list \<Rightarrow> bool" where
  "twoKids rs v a av b bv cs \<longleftrightarrow>
     ready rs \<and> cur rs = Some v \<and> m_children v = a # b # cs \<and> operand rs a av \<and> operand rs b bv \<and>
     kid rs v 0 = Some (a, av) \<and> kid rs v 1 = Some (b, bv)"

lemma twoKidsI:
  assumes "ready rs" "cur rs = Some v" "2 \<le> numChildren v"
  shows "\<exists>a av b bv cs. twoKids rs v a av b bv cs"
proof -
  obtain a b cs where c: "m_children v = a # b # cs"
    using assms(3) by (auto simp: numChildren_def numeral_2_eq_2 Suc_le_length_iff)
  obtain av bv where "operand rs a av" "operand rs b bv" using cur_operand [OF assms(1,2)] c by fastforce
  then show ?thesis using assms c by (auto simp: twoKids_def kid_eq operandD)
qed

lemma twoKidsD:
  assumes "twoKids rs v a av b bv cs"
  shows "ready rs" "cur rs = Some v" "lookup rs (m_value rs) = Some v" "m_children v = a # b # cs"
    "operand rs a av" "operand rs b bv" "kid rs v 0 = Some (a, av)" "kid rs v 1 = Some (b, bv)"
    "kid rs v (Suc 0) = Some (b, bv)" "wtValue (lookup rs) v" "lookup rs a = Some av" "lookup rs b = Some bv"
    "childType (lookup rs) v 0 = Some (m_type av)" "childType (lookup rs) v 1 = Some (m_type bv)"
    "childType (lookup rs) v (Suc 0) = Some (m_type bv)"
  using assms by (auto simp: twoKids_def cur_def childType_def child_def operandD dest: ready_cur_wt)

text \<open>A rewrite that does nothing in a state, and one that breaks after a step.\<close>

lemma keeps:
  "ready rs \<Longrightarrow> cur rs = Some v \<Longrightarrow> m_opcode v = opcode \<Longrightarrow>
    \<exists>broke rs' js. Some (False, rs) = Some (broke, rs') \<and> reduced rs rs' js \<and>
      (broke \<or> (\<exists>v'. cur rs' = Some v' \<and> m_opcode v' = opcode))"
  using reduced_refl by blast

lemma breaks:
  "\<exists>rs' js. r = Some (True, rs') \<and> reduced rs rs' js \<Longrightarrow>
    \<exists>broke rs' js. r = Some (broke, rs') \<and> reduced rs rs' js \<and> (broke \<or> P rs')"
  by blast

text \<open>In a state under rewriting, an operand holds in every environment that is considered.\<close>

lemma operand_solves:
  "holds (lookup rs) (m_value rs) env \<Longrightarrow> operand rs a av \<Longrightarrow> solves env a av"
  by (auto simp: operand_def intro: holds_solves)

lemma operand_typed: "holds (lookup rs) (m_value rs) env \<Longrightarrow> operand rs a av \<Longrightarrow> typeOf (env a) = m_type av"
  by (auto simp: operand_def intro: holds_typed)

lemma operand_const:
  "holds (lookup rs) (m_value rs) env \<Longrightarrow> operand rs a av \<Longrightarrow> constVal av = Some x \<Longrightarrow> env a = x"
  using operand_solves operandD(6) constVal_env by blast

lemma becomes_operand:
  assumes "ready rs" "cur rs = Some v" "operand rs a av" "m_type av = m_type v"
    and "\<And>env. holds (lookup rs) (m_value rs) env \<Longrightarrow> observe env (m_value rs) v = Silent"
    and "\<And>env. holds (lookup rs) (m_value rs) env \<Longrightarrow> allows (evalValue env v) (env a)"
  shows "\<exists>rs' js. becomes a rs = Some (True, rs') \<and> reduced rs rs' js"
proof -
  have "\<exists>rs2. becomes a rs = Some (True, rs2) \<and> reduced rs rs2 []"
  proof (rule reducing_becomes [OF reducing_refl [OF assms(1)]])
    show "lookup rs (m_value rs) = Some v" using assms(2) by (simp add: cur_def)
    show "lookup rs a = Some av" "m_type av = m_type v" "m_type v \<noteq> Void"
      "a \<in> below (lookup rs) (set []) (m_value rs)"
      using assms(3,4) by (auto simp: operand_def)
  qed (use assms in auto)
  then show ?thesis by blast
qed

lemma folded_operand:
  assumes "ready rs" "cur rs = Some v" "wtValue (lookup rs) w" "m_type w = m_type v" "m_type v \<noteq> Void"
    and "set (m_children w) \<subseteq> below (lookup rs) {} (m_value rs)"
    and "\<And>env. holds (lookup rs) (m_value rs) env \<Longrightarrow> observe env (m_value rs) v = Silent"
    and "\<And>env x. holds (lookup rs) (m_value rs) env \<Longrightarrow> typeOf x = m_type w \<Longrightarrow>
           allows (evalValue env w) x \<Longrightarrow> allows (evalValue env v) x"
  shows "\<exists>rs' js. replaceWithFolded (Some w) rs = Some (True, rs') \<and> reduced rs rs' js"
proof (rule reducing_replaceWithFolded [OF reducing_refl [OF assms(1)]])
  show "lookup rs (m_value rs) = Some v" using assms(2) by (simp add: cur_def)
  show "set (m_children w) \<subseteq> below (lookup rs) (set []) (m_value rs)" using assms(6) by simp
qed (use assms in auto)

subsection \<open>Folding constants\<close>

lemma wtD:
  assumes "wtValue s v"
  shows "validateTypes s v" "validateChildren s v" "payloadOK (m_opcode v) (m_payload v)"
    "isCheckMath (m_opcode v) \<Longrightarrow> childType s v 0 = Some (m_type v)"
    "isCheckMath (m_opcode v) \<Longrightarrow> childType s v 1 = Some (m_type v)"
  using assms unfolding wtValue_def by blast+

lemma binary_numChildren: "validateTypes s v \<Longrightarrow> m_opcode v \<in> binaryOps \<Longrightarrow> numChildren v = 2"
  by (auto simp: validateTypes_def binaryOps_def validateMath_def validateCompare_def)

lemma constVal_typed: "constVal v = Some x \<Longrightarrow> wtValue s v \<Longrightarrow> typeOf x = m_type v"
  by (auto simp: constVal_def wtValue_def validateTypes_def split: if_splits)

text \<open>
  What a binary folding method promises: its result is a constant that the operation allows for
  the constants it was given.
\<close>

locale constant_fold =
  fixes opcode :: opcode and f :: "Value \<Rightarrow> Value \<Rightarrow> Value option"
  assumes binary_opcode: "opcode \<in> binaryOps"
    and result_type: "wtValue s v \<Longrightarrow> m_opcode v = opcode \<Longrightarrow> childType s v 0 = Some (m_type v) \<and> m_type v \<noteq> Void"
    and folds: "f a b = Some w \<Longrightarrow>
      \<exists>x y z. constVal a = Some x \<and> constVal b = Some y \<and> isConstVal w z \<and> typeOf z = typeOf x \<and>
        (\<forall>pl. allows (evalOp opcode pl [x, y]) z)"
begin

lemma foldConstants_sound: "rewrite_rule opcode (foldConstants f)"
proof
  fix rs v assume rs: "ready rs" "cur rs = Some v" and op: "m_opcode v = opcode"
  have wt: "wtValue (lookup rs) v" by (rule ready_cur_wt [OF rs])
  have n: "numChildren v = 2" using binary_numChildren [OF wtD(1) [OF wt]] op binary_opcode by simp
  obtain a av b bv cs where k: "twoKids rs v a av b bv cs"
    using twoKidsI [OF rs] n by auto
  note k = twoKidsD [OF k]
  have args: "evalValue env v = evalOp opcode (m_payload v) [env a, env b]" for env
    using k(4) n op by (simp add: evalValue_def args_def numChildren_def)
  show "\<exists>broke rs' js. foldConstants f rs = Some (broke, rs') \<and> reduced rs rs' js \<and>
      (broke \<or> (\<exists>v'. cur rs' = Some v' \<and> m_opcode v' = opcode))"
  proof (cases "f av bv")
    case None
    then have "foldConstants f rs = Some (False, rs)"
      using k by (simp add: foldConstants_def replaceWithFolded_def replaceWithNewValue_def)
    then show ?thesis using keeps [OF rs op] by simp
  next
    case (Some w)
    then obtain x y z where z: "constVal av = Some x" "constVal bv = Some y" "isConstVal w z" "typeOf z = typeOf x"
        "\<And>pl. allows (evalOp opcode pl [x, y]) z" using folds by blast
    have "m_type w = m_type v" "m_type v \<noteq> Void"
    proof -
      have "typeOf x = m_type av" by (rule constVal_typed [OF z(1) operandD(2) [OF k(5)]])
      then show "m_type w = m_type v" using z(3,4) result_type [OF wt op] k(13) isConstVal_type by auto
      show "m_type v \<noteq> Void" using result_type [OF wt op] by simp
    qed
    moreover have "m_opcode v \<in> silentOps" using op binary_opcode by (simp add: silentOps_def)
    ultimately have "\<exists>rs' js. replaceWithFolded (Some w) rs = Some (True, rs') \<and> reduced rs rs' js"
    proof (intro folded_operand [OF rs isConstVal_wt [OF z(3)]])
      show "set (m_children w) \<subseteq> below (lookup rs) {} (m_value rs)" using isConstVal_type [OF z(3)] by simp
      fix env x' assume h: "holds (lookup rs) (m_value rs) env" and "allows (evalValue env w) x'"
      then have "x' = z" by (simp add: isConstVal_eval [OF z(3)])
      then show "allows (evalValue env v) x'"
        using z(5) by (simp add: args operand_const [OF h k(5) z(1)] operand_const [OF h k(6) z(2)])
    qed (simp_all add: observe_silent)
    then show ?thesis using k Some by (simp add: foldConstants_def) blast
  qed
qed

end

lemma constVal_simps:
  "m_opcode v = Const32 \<Longrightarrow> constVal v = Some (V32 (asInt32 v))"
  "m_opcode v = Const64 \<Longrightarrow> constVal v = Some (V64 (asInt64 v))"
  "m_opcode v = ConstDouble \<Longrightarrow> constVal v = Some (VD (asDouble v))"
  by (simp_all add: constVal_def)

lemma allows_rdouble [simp]: "allows (rdouble d) (VD d)"
  by (simp add: rdouble_def)

lemma chillQuotient_divInt: "sdivDefined a b \<Longrightarrow> chillQuotient a b = word_of_int (sint a sdiv sint b)"
  by (simp add: chillQuotient_eq)

lemma dispatch:
  "(case opcode of Const32 \<Rightarrow> x | Const64 \<Rightarrow> y | ConstDouble \<Rightarrow> z | _ \<Rightarrow> d) =
     (if opcode = Const32 then x else if opcode = Const64 then y else if opcode = ConstDouble then z else d)"
  "(case opcode of Const32 \<Rightarrow> x | Const64 \<Rightarrow> y | _ \<Rightarrow> d) =
     (if opcode = Const32 then x else if opcode = Const64 then y else d)"
  by (cases opcode; simp)+

lemmas fold_eval =
  fold_defs class_fold_defs dispatch accessor_defs constVal_simps op_defs

definition foldableOps :: "opcode set" where
  "foldableOps = {Add, Sub, Mul, Div, ChillDiv, BitAnd, BitOr, BitXor, Shl, SShr, ZShr}"

lemma foldable_type:
  assumes "wtValue s v" "m_opcode v \<in> foldableOps"
  shows "childType s v 0 = Some (m_type v) \<and> m_type v \<noteq> Void"
  using wtD(1) [OF assms(1)] assms(2)
  by (auto simp: foldableOps_def validateTypes_def validateMath_def isInt_def)

lemma constant_foldI:
  assumes "opcode \<in> foldableOps"
    and "\<And>a b w. f a b = Some w \<Longrightarrow>
      \<exists>x y z. constVal a = Some x \<and> constVal b = Some y \<and> isConstVal w z \<and> typeOf z = typeOf x \<and>
        (\<forall>pl. allows (evalOp opcode pl [x, y]) z)"
  shows "constant_fold opcode f"
proof
  show "opcode \<in> binaryOps" using assms(1) by (auto simp: foldableOps_def binaryOps_def)
  fix s v assume "wtValue s v" "m_opcode v = opcode"
  then show "childType s v 0 = Some (m_type v) \<and> m_type v \<noteq> Void" using foldable_type assms(1) by simp
qed (rule assms(2))

interpretation foldAdd: constant_fold Add addConstant
  by (rule constant_foldI) (auto simp: foldableOps_def fold_eval split: if_splits)

interpretation foldSub: constant_fold Sub subConstant
  by (rule constant_foldI) (auto simp: foldableOps_def fold_eval split: if_splits)

interpretation foldMul: constant_fold Mul mulConstant
  by (rule constant_foldI) (auto simp: foldableOps_def fold_eval split: if_splits)

interpretation foldDiv: constant_fold Div divConstant
  by (rule constant_foldI) (auto simp: foldableOps_def fold_eval chillQuotient_divInt split: if_splits)

interpretation foldBitAnd: constant_fold BitAnd bitAndConstant
  by (rule constant_foldI) (auto simp: foldableOps_def fold_eval split: if_splits)

interpretation foldBitOr: constant_fold BitOr bitOrConstant
  by (rule constant_foldI) (auto simp: foldableOps_def fold_eval split: if_splits)

interpretation foldBitXor: constant_fold BitXor bitXorConstant
  by (rule constant_foldI) (auto simp: foldableOps_def fold_eval split: if_splits)

interpretation foldShl: constant_fold Shl shlConstant
  by (rule constant_foldI) (auto simp: foldableOps_def fold_eval split: if_splits)

interpretation foldSShr: constant_fold SShr sShrConstant
  by (rule constant_foldI) (auto simp: foldableOps_def fold_eval split: if_splits)

interpretation foldZShr: constant_fold ZShr zShrConstant
  by (rule constant_foldI) (auto simp: foldableOps_def fold_eval split: if_splits)

interpretation foldChillDiv: constant_fold ChillDiv divConstant
  by (rule constant_foldI) (auto simp: foldableOps_def fold_eval split: if_splits)

subsection \<open>Folding comparisons\<close>

locale compare_fold =
  fixes opcode :: opcode and f :: "Value \<Rightarrow> Value \<Rightarrow> TriState"
  assumes compare_opcode: "opcode \<in> {Equal, NotEqual, LessThan, GreaterThan, LessEqual, GreaterEqual,
      Above, Below, AboveEqual, BelowEqual}"
    and decides: "f a b = triState c \<Longrightarrow>
      \<exists>x y. constVal a = Some x \<and> constVal b = Some y \<and> (\<forall>pl. evalOp opcode pl [x, y] = rbool c)"
begin

lemma compare_binary: "opcode \<in> binaryOps"
  using compare_opcode by (auto simp: binaryOps_def)

lemma foldCompare_sound: "rewrite_rule opcode (foldCompare f)"
proof
  fix rs v assume rs: "ready rs" "cur rs = Some v" and op: "m_opcode v = opcode"
  have wt: "validateTypes (lookup rs) v" by (rule wtD(1) [OF ready_cur_wt [OF rs]])
  have n: "numChildren v = 2" using binary_numChildren [OF wt] op compare_binary by simp
  have type: "m_type v = Int32"
    using wt op compare_opcode by (auto simp: validateTypes_def validateCompare_def)
  obtain a av b bv cs where k: "twoKids rs v a av b bv cs"
    using twoKidsI [OF rs] n by auto
  note k = twoKidsD [OF k]
  have args: "evalValue env v = evalOp opcode (m_payload v) [env a, env b]" for env
    using k(4) n op by (simp add: evalValue_def args_def numChildren_def)
  show "\<exists>broke rs' js. foldCompare f rs = Some (broke, rs') \<and> reduced rs rs' js \<and>
      (broke \<or> (\<exists>v'. cur rs' = Some v' \<and> m_opcode v' = opcode))"
  proof (cases "f av bv = MixedTriState")
    case True
    then have "foldCompare f rs = Some (False, rs)"
      using k by (simp add: foldCompare_def addBoolConstant_def replaceWithNewValue_def)
    then show ?thesis using keeps [OF rs op] by simp
  next
    case False
    then obtain c where c: "f av bv = triState c"
      by (cases "f av bv") (metis triState_def)+
    let ?w = "Const32Value (m_origin v) (if c then 1 else 0)"
    have eq: "foldCompare f rs = replaceWithFolded (Some ?w) rs"
      using k c by (simp add: foldCompare_def addBoolConstant_def addIntConstant_def intConstant_def replaceWithFolded_def
          addNew_def triState_def split: prod.splits)
    obtain x y where xy: "constVal av = Some x" "constVal bv = Some y" "\<And>pl. evalOp opcode pl [x, y] = rbool c"
      using decides [OF c] by blast
    have w: "isConstVal ?w (V32 (if c then 1 else 0))" by simp
    have "\<exists>rs' js. replaceWithFolded (Some ?w) rs = Some (True, rs') \<and> reduced rs rs' js"
    proof (rule folded_operand [OF rs isConstVal_wt [OF w]])
      show "m_type ?w = m_type v" "m_type v \<noteq> Void" using type by (simp_all add: mk_defs)
      show "set (m_children ?w) \<subseteq> below (lookup rs) {} (m_value rs)" by (simp add: mk_defs)
      show "observe env (m_value rs) v = Silent" for env
        using op compare_binary by (simp add: observe_silent silentOps_def)
      fix env x' assume h: "holds (lookup rs) (m_value rs) env" and "allows (evalValue env ?w) x'"
      then have "x' = V32 (if c then 1 else 0)" by (simp add: isConstVal_eval [OF w] del: if_split)
      then show "allows (evalValue env v) x'"
        using xy(3) by (simp add: args operand_const [OF h k(5) xy(1)] operand_const [OF h k(6) xy(2)] rbool_def)
    qed
    then show ?thesis unfolding eq by (rule breaks)
  qed
qed

end

lemma triState_eq [simp]: "triState a = triState b \<longleftrightarrow> a = b"
  by (simp add: triState_def)

lemma triState_Mixed [simp]: "MixedTriState \<noteq> triState b"
  by (simp add: triState_def)

interpretation foldEqual: compare_fold Equal equalConstant
  by unfold_locales (auto simp: fold_eval split: if_splits)

interpretation foldNotEqual: compare_fold NotEqual notEqualConstant
  by unfold_locales (auto simp: fold_eval split: if_splits)

interpretation foldLessThan: compare_fold LessThan lessThanConstant
  by unfold_locales (auto simp: fold_eval split: if_splits)

interpretation foldGreaterThan: compare_fold GreaterThan greaterThanConstant
  by unfold_locales (auto simp: fold_eval split: if_splits)

interpretation foldLessEqual: compare_fold LessEqual lessEqualConstant
  by unfold_locales (auto simp: fold_eval split: if_splits)

interpretation foldGreaterEqual: compare_fold GreaterEqual greaterEqualConstant
  by unfold_locales (auto simp: fold_eval split: if_splits)

interpretation foldAbove: compare_fold Above aboveConstant
  by unfold_locales (auto simp: fold_eval split: if_splits)

interpretation foldBelow: compare_fold Below belowConstant
  by unfold_locales (auto simp: fold_eval split: if_splits)

interpretation foldAboveEqual: compare_fold AboveEqual aboveEqualConstant
  by unfold_locales (auto simp: fold_eval split: if_splits)

interpretation foldBelowEqual: compare_fold BelowEqual belowEqualConstant
  by unfold_locales (auto simp: fold_eval split: if_splits)

text \<open>The folding methods, by the opcode whose handler calls them.\<close>

definition foldings :: "(opcode \<times> (Value \<Rightarrow> Value \<Rightarrow> Value option)) list" where
  "foldings =
     [(Add, addConstant), (Sub, subConstant), (Mul, mulConstant), (Div, divConstant), (ChillDiv, divConstant),
      (BitAnd, bitAndConstant), (BitOr, bitOrConstant), (BitXor, bitXorConstant),
      (Shl, shlConstant), (SShr, sShrConstant), (ZShr, zShrConstant)]"

definition comparisonFoldings :: "(opcode \<times> (Value \<Rightarrow> Value \<Rightarrow> TriState)) list" where
  "comparisonFoldings =
     [(Equal, equalConstant), (NotEqual, notEqualConstant), (LessThan, lessThanConstant),
      (GreaterThan, greaterThanConstant), (LessEqual, lessEqualConstant), (GreaterEqual, greaterEqualConstant),
      (Above, aboveConstant), (Below, belowConstant), (AboveEqual, aboveEqualConstant), (BelowEqual, belowEqualConstant)]"

lemma constVal_isConstVal: "isConstVal w z \<Longrightarrow> constVal w = Some z"
  by (cases z) (auto simp: isConstVal_def constVal_def asInt32_def asInt64_def asDouble_def)

lemma folding_correct:
  assumes "(opcode, f) \<in> set foldings" "f a b = Some w"
  shows "\<exists>x y z. constVal a = Some x \<and> constVal b = Some y \<and> constVal w = Some z \<and> typeOf z = typeOf x \<and>
    (\<forall>pl. allows (evalOp opcode pl [x, y]) z)"
proof -
  have "constant_fold opcode f"
    using assms(1) foldAdd.constant_fold_axioms foldSub.constant_fold_axioms foldMul.constant_fold_axioms
      foldDiv.constant_fold_axioms foldChillDiv.constant_fold_axioms foldBitAnd.constant_fold_axioms
      foldBitOr.constant_fold_axioms foldBitXor.constant_fold_axioms foldShl.constant_fold_axioms
      foldSShr.constant_fold_axioms foldZShr.constant_fold_axioms
    by (auto simp: foldings_def)
  from constant_fold.folds [OF this assms(2)] show ?thesis using constVal_isConstVal by blast
qed

lemma comparison_folding:
  assumes "(opcode, f) \<in> set comparisonFoldings" "f a b = triState c"
  shows "\<exists>x y. constVal a = Some x \<and> constVal b = Some y \<and> (\<forall>pl. evalOp opcode pl [x, y] = rbool c)"
proof -
  have "compare_fold opcode f"
    using assms(1) foldEqual.compare_fold_axioms foldNotEqual.compare_fold_axioms foldLessThan.compare_fold_axioms
      foldGreaterThan.compare_fold_axioms foldLessEqual.compare_fold_axioms foldGreaterEqual.compare_fold_axioms
      foldAbove.compare_fold_axioms foldBelow.compare_fold_axioms foldAboveEqual.compare_fold_axioms
      foldBelowEqual.compare_fold_axioms
    by (auto simp: comparisonFoldings_def)
  from compare_fold.decides [OF this assms(2)] show ?thesis .
qed

subsection \<open>Commuting the operands\<close>

definition commutativeOps :: "opcode set" where
  "commutativeOps = {Add, Mul, BitAnd, BitOr, BitXor, Equal, NotEqual, CheckAdd, CheckMul}"

lemma binary_commute:
  assumes "\<And>x y. f x y = f y x" "\<And>x y. g x y = g y x" "\<And>x y. h x y = h y x"
  shows "binary f g h (x # y # xs) = binary f g h (y # x # xs)"
  by (cases x; cases y; cases xs) (use assms in \<open>simp_all add: binary_def\<close>)

lemma deq_commute: "deq x y = deq y x"
  by (auto simp: deq_def)

lemma checked_commute: "(\<And>x y. f x y = f y x) \<Longrightarrow> checked f (x # y # xs) = checked f (y # x # xs)"
  by (cases x; cases y) (simp_all add: checked_def)

lemma checkFails_commute: "(\<And>x y. f x y = f y x) \<Longrightarrow> checkFails f (x # y # xs) = checkFails f (y # x # xs)"
  by (cases x; cases y) (simp_all add: checkFails_def)

lemma evalOp_commute:
  assumes "opcode \<in> commutativeOps"
  shows "evalOp opcode pl (x # y # xs) = evalOp opcode pl (y # x # xs)"
  using assms unfolding commutativeOps_def
  by (elim insertE emptyE)
    (simp_all add: ints_def math_def compare_def binary_commute checked_commute add.commute mult.commute
      and.commute or.commute xor.commute dadd_commute dmul_commute deq_commute eq_commute)

lemma swap01_fields [simp]:
  "m_opcode (swap01 v) = m_opcode v" "m_type (swap01 v) = m_type v" "m_payload (swap01 v) = m_payload v"
  "m_origin (swap01 v) = m_origin v"
  by (simp_all add: swap01_def)

lemma swap01_children: "m_children v = a # b # cs \<Longrightarrow> m_children (swap01 v) = b # a # cs"
  by (simp add: swap01_def)

lemma swap01_eval:
  assumes "m_opcode v \<in> commutativeOps" "m_children v = a # b # cs"
  shows "evalValue env (swap01 v) = evalValue env v" "observe env i (swap01 v) = observe env i v"
proof -
  have args: "args env v = env a # env b # args env (v\<lparr>m_children := cs\<rparr>)"
    "args env (swap01 v) = env b # env a # args env (v\<lparr>m_children := cs\<rparr>)"
    using assms(2) by (simp_all add: args_def swap01_children)
  show "evalValue env (swap01 v) = evalValue env v"
    using assms(1) evalOp_commute by (simp add: evalValue_def args)
  have silent: "observe env i (swap01 v) = observe env i v" if "m_opcode v \<in> binaryOps"
    using that by (simp add: observe_silent silentOps_def)
  show "observe env i (swap01 v) = observe env i v"
  proof (cases "m_opcode v \<in> binaryOps")
    case False
    then have "m_opcode v = CheckAdd \<or> m_opcode v = CheckMul"
      using assms(1) by (auto simp: commutativeOps_def binaryOps_def)
    moreover have "checkFails f (args env (swap01 v)) = checkFails f (args env v)" if "\<And>x y. f x y = f y x" for f
      unfolding args by (rule checkFails_commute [OF that])
    moreover have "drop 2 (args env (swap01 v)) = drop 2 (args env v)" by (simp add: args)
    ultimately show ?thesis by (auto simp: observe_def add.commute mult.commute)
  qed (rule silent)
qed

lemma swap01_stackmap:
  assumes "m_children v = a # b # cs" "constrainedRep v 0 = AnyRep" "constrainedRep v 1 = AnyRep"
    and "validateStackmap s v"
  shows "validateStackmap s (swap01 v)"
proof -
  obtain reps where reps: "stackmapReps v = Some reps" using assms(4) by (auto simp: validateStackmap_def split: option.splits)
  have any: "reps ! i = AnyRep" if "i < length reps" "i < 2" for i
  proof -
    have "i = 0 \<or> i = 1" using that(2) by auto
    then have "constrainedRep v i = AnyRep" using assms(2,3) by blast
    then show ?thesis using that(1) reps by (simp add: constrainedRep_def at_def)
  qed
  have same: "childType s (swap01 v) i = childType s v i" if "\<not> i < 2" for i
    using that assms(1) by (simp add: childType_def child_def swap01_children at_def nth_Cons' numeral_2_eq_2)
  have "case reps ! i of Register reg \<Rightarrow> if isGPR reg then childIsInt s (swap01 v) i else childType s (swap01 v) i = Some Double
      | _ \<Rightarrow> True" if "i < length reps" for i
  proof (cases "i < 2")
    case False
    have "case reps ! i of Register reg \<Rightarrow> if isGPR reg then childIsInt s v i else childType s v i = Some Double
        | _ \<Rightarrow> True" using assms(4) reps that by (simp add: validateStackmap_def)
    moreover have "childIsInt s (swap01 v) i = childIsInt s v i" by (simp add: childIsInt_def same [OF False])
    ultimately show ?thesis by (simp only: same [OF False])
  qed (simp add: any that)
  then show ?thesis using assms(1,4) reps
    by (simp add: validateStackmap_def stackmapReps_def numChildren_def swap01_children)
qed

lemma swap01_wt:
  assumes wt: "wtValue s v" and op: "m_opcode v \<in> commutativeOps" and c: "m_children v = a # b # cs"
  shows "wtValue s (swap01 v)"
proof -
  have ct: "childType s (swap01 v) 0 = childType s v 1" "childType s (swap01 v) 1 = childType s v 0"
    using c by (simp_all add: childType_def child_def swap01_children)
  have n: "numChildren (swap01 v) = numChildren v" using c by (simp add: numChildren_def swap01_children)
  have int: "childIsInt s (swap01 v) 0 = childIsInt s v 1" "childIsInt s (swap01 v) 1 = childIsInt s v 0"
    using ct by (simp_all add: childIsInt_def)
  have rep: "constrainedRep (swap01 v) k = constrainedRep v k" for k
    by (simp add: constrainedRep_def stackmapReps_def)
  have types: "validateTypes s (swap01 v)"
  proof (cases "isCheckMath (m_opcode v)")
    case True
    then have check: "validateCheckMath s v" using wtD(1) [OF wt] by (auto simp: validateTypes_def isCheckMath_def)
    then have "validateStackmap s (swap01 v)"
      using swap01_stackmap [OF c] by (simp add: validateCheckMath_def)
    then have "validateCheckMath s (swap01 v)" using check by (simp add: validateCheckMath_def n int rep del: One_nat_def)
    then show ?thesis using True by (auto simp: validateTypes_def isCheckMath_def)
  next
    case False
    then show ?thesis using wtD(1) [OF wt] op unfolding commutativeOps_def
      by (auto simp: validateTypes_def validateMath_def validateCompare_def n ct isCheckMath_def simp del: One_nat_def)
  qed
  moreover have "validateChildren s (swap01 v)"
    using wtD(2) [OF wt] c by (simp add: validateChildren_def swap01_children)
  moreover have "isCheckMath (m_opcode v) \<longrightarrow> childType s (swap01 v) 0 = Some (m_type v) \<and> childType s (swap01 v) 1 = Some (m_type v)"
    using wtD(4,5) [OF wt] ct by simp
  moreover have "m_opcode v \<notin> {Check, Upsilon}" using op by (auto simp: commutativeOps_def)
  ultimately show ?thesis using wtD(3) [OF wt] unfolding wtValue_def swap01_fields by blast
qed

text \<open>Overwriting the current value in place, with new operands among what it depends on.\<close>

lemma setCur_sound:
  assumes rs: "ready rs" "cur rs = Some v" and type: "m_type v' = m_type v" and wt: "wtValue (lookup rs) v'"
    and below: "set (m_children v') \<subseteq> below (lookup rs) {} (m_value rs)"
    and sem: "\<And>env. holds (lookup rs) (m_value rs) env \<Longrightarrow> solves env (m_value rs) v' \<Longrightarrow>
        allows (evalValue env v) (env (m_value rs)) \<and> observe env (m_value rs) v' = observe env (m_value rs) v"
  shows "reduced rs (changed (setCur v' rs)) []" "cur (changed (setCur v' rs)) = Some v'"
proof -
  have v: "lookup rs (m_value rs) = Some v" using rs(2) by (simp add: cur_def)
  have "replaces (lookup rs) (m_value rs) v v'"
    using sem type by (intro replacesI) (auto simp: solves_def)
  note step = reducing_setCur [OF reducing_refl [OF rs(1)] v type wt _ this]
  show "reduced rs (changed (setCur v' rs)) []" using step(1) below by (simp add: reducing_reduced)
  have "lookup (setCur v' rs) = (lookup rs)(m_value rs \<mapsto> v')" using step(2) below by simp
  then show "cur (changed (setCur v' rs)) = Some v'" by (simp add: cur_def setCur_def)
qed

lemma commutative_two: "wtValue s v \<Longrightarrow> m_opcode v \<in> commutativeOps \<Longrightarrow> 2 \<le> numChildren v"
  using wtD(1) [of s v]
  by (auto simp: commutativeOps_def validateTypes_def validateMath_def validateCompare_def validateCheckMath_def)

lemma handleCommutativity_sound:
  assumes op: "opcode \<in> commutativeOps"
  shows "rewrite_rule opcode handleCommutativity"
proof
  fix rs v assume rs: "ready rs" "cur rs = Some v" and vop: "m_opcode v = opcode"
  have wt: "wtValue (lookup rs) v" by (rule ready_cur_wt [OF rs])
  obtain a av b bv cs where k: "twoKids rs v a av b bv cs"
    using twoKidsI [OF rs commutative_two [OF wt]] op vop by auto
  note k = twoKidsD [OF k]
  have com: "m_opcode v \<in> commutativeOps" using op vop by simp
  note swapped = swap01_eval [OF com k(4)]
  have "set (m_children (swap01 v)) \<subseteq> below (lookup rs) {} (m_value rs)"
    using below_child [of "lookup rs" "m_value rs" v, OF k(3)] k(4) by (auto simp: swap01_children)
  note swap = setCur_sound [OF rs _ swap01_wt [OF wt com k(4)] this]
  have s: "reduced rs (changed (setCur (swap01 v) rs)) []" "cur (changed (setCur (swap01 v) rs)) = Some (swap01 v)"
    by (rule swap; simp add: solves_def swapped)+
  have "handleCommutativity rs = Some (False, rs) \<or> handleCommutativity rs = Some (False, changed (setCur (swap01 v) rs))"
    using k by (simp add: handleCommutativity_def)
  then show "\<exists>broke rs' js. handleCommutativity rs = Some (broke, rs') \<and> reduced rs rs' js \<and>
      (broke \<or> (\<exists>v'. cur rs' = Some v' \<and> m_opcode v' = opcode))"
  proof
    assume "handleCommutativity rs = Some (False, rs)"
    then show ?thesis using keeps [OF rs vop] by simp
  next
    assume "handleCommutativity rs = Some (False, changed (setCur (swap01 v) rs))"
    then show ?thesis using s vop by auto
  qed
qed

end
