(* ===== verification/B3ReduceRules.thy ===== *)
theory B3ReduceRules
  imports B3ReduceSound
begin

text \<open>
  Every handler of the strength reduction phase meets the contract of B3ReduceSound. A handler is
  proved from its rewrites, in the order of the source; the arithmetic each of them relies on is a
  lemma about the operations of B3Semantics.
\<close>

subsection \<open>What a rewrite achieves\<close>

definition achieves :: "opcode \<Rightarrow> ReduceStrength \<Rightarrow> (bool \<times> ReduceStrength) option \<Rightarrow> bool" where
  "achieves opcode rs r \<longleftrightarrow>
     (\<exists>broke rs' js. r = Some (broke, rs') \<and> reduced rs rs' js \<and>
        (broke \<or> (\<exists>v'. cur rs' = Some v' \<and> m_opcode v' = opcode)))"

lemma rewrite_ruleI:
  "(\<And>rs v. ready rs \<Longrightarrow> cur rs = Some v \<Longrightarrow> m_opcode v = opcode \<Longrightarrow> achieves opcode rs (rule rs)) \<Longrightarrow>
     rewrite_rule opcode rule"
  by unfold_locales (simp add: achieves_def)

lemma achieves_keep: "ready rs \<Longrightarrow> cur rs = Some v \<Longrightarrow> achieves (m_opcode v) rs (Some (False, rs))"
  using reduced_refl unfolding achieves_def by blast

lemma achieves_break: "\<exists>rs' js. r = Some (True, rs') \<and> reduced rs rs' js \<Longrightarrow> achieves opcode rs r"
  unfolding achieves_def by blast

lemmas achieves_becomes = achieves_break [OF becomes_operand]
lemmas achieves_folded = achieves_break [OF folded_operand]

lemma achieves_setCur:
  assumes rs: "ready rs" "cur rs = Some v" and "m_type v' = m_type v" "wtValue (lookup rs) v'"
    and "set (m_children v') \<subseteq> below (lookup rs) {} (m_value rs)"
    and "\<And>env. holds (lookup rs) (m_value rs) env \<Longrightarrow> solves env (m_value rs) v' \<Longrightarrow>
        allows (evalValue env v) (env (m_value rs)) \<and> observe env (m_value rs) v' = observe env (m_value rs) v"
    and op: "broke \<or> m_opcode v' = opcode"
  shows "achieves opcode rs (Some (broke, changed (setCur v' rs)))"
  using setCur_sound [OF assms(1-6)] op unfolding achieves_def by blast

lemma below_insert:
  assumes "C \<subseteq> insert j (below s {} i)" "s j = None"
  shows "C \<subseteq> below (s(j \<mapsto> w)) {j} i"
  using assms below_new [of j "{j}"] below_add [of s j _ "{}" i w] by blast

text \<open>A constant goes into the insertion set and the current value is overwritten to use it.\<close>

lemma achieves_insert_setCur:
  assumes rs: "ready rs" "cur rs = Some v" and w: "isConstVal w x"
    and v': "\<And>j. m_type (f j) = m_type v" "\<And>j. lookup rs j = None \<Longrightarrow> wtValue ((lookup rs)(j \<mapsto> w)) (f j)"
      "\<And>j. set (m_children (f j)) \<subseteq> insert j (below (lookup rs) {} (m_value rs))"
    and op: "\<And>j. broke \<or> m_opcode (f j) = opcode"
    and sem: "\<And>env j. holds (lookup rs) (m_value rs) env \<Longrightarrow> env j = x \<Longrightarrow> solves env (m_value rs) (f j) \<Longrightarrow>
        allows (evalValue env v) (env (m_value rs)) \<and> observe env (m_value rs) (f j) = observe env (m_value rs) v"
  shows "achieves opcode rs (let (j, rs') = insertNew w rs in Some (broke, changed (setCur (f j) rs')))"
proof -
  let ?i = "m_value rs"
  have v: "lookup rs ?i = Some v" using rs(2) by (simp add: cur_def)
  obtain j rs1 where new: "insertNew w rs = (j, rs1)" by (cases "insertNew w rs")
  have "set (m_children w) \<subseteq> below (lookup rs) (set []) ?i" using isConstVal_type [OF w] by simp
  note ins = reducing_insertNew [OF reducing_refl [OF rs(1)] new isConstVal_wt [OF w] this]
  have ji: "j \<noteq> ?i" using ins(3) v by auto
  have v1: "lookup rs1 ?i = Some v" using ins(2) ji v by simp
  have below: "set (m_children (f j)) \<subseteq> below (lookup rs1) (set ([] @ [j])) ?i"
    using below_insert [of "set (m_children (f j))" j "lookup rs" ?i w, OF v'(3) ins(3)] ins(2) by simp
  have "replaces (lookup rs1) ?i v (f j)"
  proof (rule replacesI)
    fix env assume h: "holds (lookup rs1) ?i env" and sol: "solves env ?i (f j)"
    have "holds (lookup rs) ?i env" using h holds_add [of "lookup rs" j w] ins(2,3) by simp
    moreover have "env j = x" using isConstVal_env [OF w holds_solves [OF h]] ins(2) ji by simp
    ultimately show "solves env ?i v \<and> observe env ?i (f j) = observe env ?i v"
      using sem sol v'(1) by (auto simp: solves_def)
  qed
  note step = reducing_setCur [OF ins(1) v1 v'(1) _ below this]
  have wt: "wtValue (lookup rs1) (f j)" using v'(2) [OF ins(3)] ins(2) by simp
  have "cur (changed (setCur (f j) rs1)) = Some (f j)"
    using step(2) [OF wt] ins(4) by (simp add: cur_def setCur_def)
  moreover have "reduced rs (changed (setCur (f j) rs1)) ([] @ [j])"
    using step(1) [OF wt] by (simp add: reducing_reduced)
  ultimately show ?thesis using new op unfolding achieves_def by auto
qed

text \<open>A constant goes into the insertion set and the current value becomes a new operation on it.\<close>

lemma achieves_insert_op:
  assumes rs: "ready rs" "cur rs = Some v" and w: "isConstVal w x" and void: "m_type v \<noteq> Void"
    and type: "\<And>rs' j. lookup rs' = (lookup rs)(j \<mapsto> w) \<Longrightarrow> lookup rs j = None \<Longrightarrow>
        newOp rs' op2 origin (f j) = Some (mkValue op2 (m_type v) origin (f j) NoPayload)"
    and wt: "\<And>j. lookup rs j = None \<Longrightarrow> wtValue ((lookup rs)(j \<mapsto> w)) (mkValue op2 (m_type v) origin (f j) NoPayload)"
    and below: "\<And>j. set (f j) \<subseteq> insert j (below (lookup rs) {} (m_value rs))"
    and silent: "\<And>env. holds (lookup rs) (m_value rs) env \<Longrightarrow> observe env (m_value rs) v = Silent"
    and sem: "\<And>env j z. holds (lookup rs) (m_value rs) env \<Longrightarrow> env j = x \<Longrightarrow> typeOf z = m_type v \<Longrightarrow>
        allows (evalOp op2 NoPayload (map env (f j))) z \<Longrightarrow> allows (evalValue env v) z"
  shows "achieves opcode rs (let (j, rs') = insertNew w rs in replaceWithNew op2 origin (f j) rs')"
proof -
  let ?i = "m_value rs"
  have v: "lookup rs ?i = Some v" using rs(2) by (simp add: cur_def)
  obtain j rs1 where new: "insertNew w rs = (j, rs1)" by (cases "insertNew w rs")
  let ?u = "mkValue op2 (m_type v) origin (f j) NoPayload"
  have "set (m_children w) \<subseteq> below (lookup rs) (set []) ?i" using isConstVal_type [OF w] by simp
  note ins = reducing_insertNew [OF reducing_refl [OF rs(1)] new isConstVal_wt [OF w] this]
  have ji: "j \<noteq> ?i" using ins(3) v by auto
  have "\<exists>rs2 ks. replaceWithFolded (Some ?u) rs1 = Some (True, rs2) \<and> reduced rs rs2 ks"
  proof (rule reducing_replaceWithFolded [OF ins(1)])
    show "lookup rs1 ?i = Some v" using ins(2) ji v by simp
    show "wtValue (lookup rs1) ?u" using wt ins(2,3) by simp
    show "m_type ?u = m_type v" "m_type v \<noteq> Void" using void by (simp_all add: mkValue_def)
    show "set (m_children ?u) \<subseteq> below (lookup rs1) (set ([] @ [j])) ?i"
      using below_insert [of "set (f j)" j "lookup rs" ?i w, OF below ins(3)] ins(2) by (simp add: mkValue_def)
    fix env assume h: "holds (lookup rs1) ?i env"
    have h0: "holds (lookup rs) ?i env" using h holds_add [of "lookup rs" j w] ins(2,3) by simp
    then show "observe env ?i v = Silent" by (rule silent)
    have x: "env j = x" using isConstVal_env [OF w holds_solves [OF h]] ins(2) ji by simp
    fix z assume "typeOf z = m_type ?u" "allows (evalValue env ?u) z"
    then show "allows (evalValue env v) z" using sem [OF h0 x] by (simp add: evalValue_def args_def mkValue_def)
  qed
  moreover have "replaceWithNew op2 origin (f j) rs1 = replaceWithFolded (Some ?u) rs1"
    using type [OF ins(2,3)] by (simp add: replaceWithNew_def)
  ultimately show ?thesis using new unfolding achieves_def by auto
qed

subsection \<open>Binary operations\<close>

definition binaryView :: "ReduceStrength \<Rightarrow> Value \<Rightarrow> value_ptr \<Rightarrow> Value \<Rightarrow> value_ptr \<Rightarrow> Value \<Rightarrow> bool" where
  "binaryView rs v a av b bv \<longleftrightarrow> twoKids rs v a av b bv [] \<and> m_opcode v \<in> binaryOps"

lemma binary_rule:
  assumes "opcode \<in> binaryOps"
    and "\<And>rs v a av b bv. binaryView rs v a av b bv \<Longrightarrow> m_opcode v = opcode \<Longrightarrow> achieves opcode rs (rule rs)"
  shows "rewrite_rule opcode rule"
proof (rule rewrite_ruleI)
  fix rs v assume rs: "ready rs" "cur rs = Some v" and op: "m_opcode v = opcode"
  have n: "numChildren v = 2"
    using binary_numChildren [OF wtD(1) [OF ready_cur_wt [OF rs]]] op assms(1) by simp
  obtain a av b bv cs where k: "twoKids rs v a av b bv cs" using twoKidsI [OF rs] n by auto
  moreover have "cs = []" using twoKidsD(4) [OF k] n by (simp add: numChildren_def)
  ultimately show "achieves opcode rs (rule rs)" using assms op by (auto simp: binaryView_def)
qed

lemma binaryViewD:
  assumes "binaryView rs v a av b bv"
  shows "twoKids rs v a av b bv []" "observe env i v = Silent"
    "evalValue env v = evalOp (m_opcode v) (m_payload v) [env a, env b]"
  using assms twoKidsD(4) [of rs v a av b bv "[]"]
  by (auto simp: binaryView_def observe_silent silentOps_def evalValue_def args_def)

lemma wt_mk2:
  assumes "s a = Some av" "s b = Some bv" "m_type av \<noteq> Void" "m_type bv \<noteq> Void"
  shows "op2 \<in> {Add, Sub, Mul} \<Longrightarrow> m_type av = t \<Longrightarrow> m_type bv = t \<Longrightarrow>
      wtValue s (mkValue op2 t origin [a, b] NoPayload)"
    "op2 \<in> {BitAnd, BitOr, BitXor} \<Longrightarrow> m_type av = t \<Longrightarrow> m_type bv = t \<Longrightarrow> isInt t \<Longrightarrow>
      wtValue s (mkValue op2 t origin [a, b] NoPayload)"
    "op2 \<in> {Shl, SShr, ZShr} \<Longrightarrow> m_type av = t \<Longrightarrow> m_type bv = Int32 \<Longrightarrow> isInt t \<Longrightarrow>
      wtValue s (mkValue op2 t origin [a, b] NoPayload)"
    "op2 \<in> {Equal, NotEqual} \<Longrightarrow> m_type av = m_type bv \<Longrightarrow>
      wtValue s (mkValue op2 Int32 origin [a, b] NoPayload)"
  using assms by (auto simp: wtValue_def payloadOK_def accepts_defs validateChildren_def validateTypes_def
      validateMath_def validateCompare_def childType_def child_def numChildren_def mkValue_def isCheckMath_def)

lemma newOp2:
  assumes "lookup rs a = Some av" "lookup rs b = Some bv" "typeFor op2 (m_type av) (m_type bv) = Some t"
  shows "newOp rs op2 origin [a, b] = Some (mkValue op2 t origin [a, b] NoPayload)"
  using assms by (simp add: newOp_def)

lemma isInt_cases: "isInt t \<longleftrightarrow> t = Int32 \<or> t = Int64"
  by (cases t) (simp_all add: isInt_def)

text \<open>The constant a value reads as, once its type is known.\<close>

lemma ucast_scast32 [simp]: "ucast (scast (w :: int32) :: int64) = w"
  by (rule bit_word_eqI) (auto simp: bit_simps)

lemma double_eqI:
  assumes "dsign x = dsign y" "dmag x = dmag y"
  shows "x = y"
proof -
  have "x = dpack (dsign x) (dmag x)" by (rule dpack_fields [symmetric])
  also have "\<dots> = dpack (dsign y) (dmag y)" by (simp only: assms)
  also have "\<dots> = y" by (rule dpack_fields)
  finally show ?thesis .
qed

lemma dkey_posZero: "dkey posZero = 0"
  by (simp add: dkey_def dmag_def posZero_def)

lemma deq_negZero: "deq x posZero \<Longrightarrow> dsign x \<Longrightarrow> x = negZero"
proof -
  assume "deq x posZero" and s: "dsign x"
  then have "dkey x = 0" using dkey_posZero by (simp add: deq_def)
  then have "dmag x = 0" using s by (simp add: dkey_def)
  then show "x = negZero" using s by (intro double_eqI) simp_all
qed

lemma deq_done1: "deq x done1 \<Longrightarrow> x = done1"
proof -
  assume "deq x done1"
  then have "dkey x = int (1023 * 2 ^ 52)" by (simp add: deq_def dkey_def)
  then have "\<not> dsign x" "dmag x = 1023 * 2 ^ 52" by (auto simp: dkey_def split: if_splits)
  then show "x = done1" by (intro double_eqI) simp_all
qed

lemma isIntValue_const:
  assumes "isIntValue bv c" "wtValue s bv"
  shows "m_type bv = Int32 \<and> constVal bv = Some (V32 (ucast c)) \<or> m_type bv = Int64 \<and> constVal bv = Some (V64 c)"
  using assms wtD(1) [OF assms(2)]
  by (auto simp: isIntValue_def hasInt_def hasInt32_def hasInt64_def asInt_def constVal_def validateTypes_def
      split: if_splits)

lemma isInt32_const: "isInt32 bv c \<Longrightarrow> wtValue s bv \<Longrightarrow> m_type bv = Int32 \<and> constVal bv = Some (V32 c)"
  using wtD(1) [of s bv] by (auto simp: isInt32_def hasInt32_def constVal_def validateTypes_def)

lemma isInt64_const: "isInt64 bv c \<Longrightarrow> wtValue s bv \<Longrightarrow> m_type bv = Int64 \<and> constVal bv = Some (V64 c)"
  using wtD(1) [of s bv] by (auto simp: isInt64_def hasInt64_def constVal_def validateTypes_def)

lemma isNegativeZero_const:
  assumes "isNegativeZero bv" "wtValue s bv"
  shows "m_type bv = Double \<and> constVal bv = Some (VD negZero)"
proof -
  have d: "hasDouble bv" "deq (asDouble bv) posZero" "dsign (asDouble bv)"
    using assms(1) by (auto simp: isNegativeZero_def split: if_splits)
  have "asDouble bv = negZero" using d(2,3) by (rule deq_negZero)
  then show ?thesis using d(1) wtD(1) [OF assms(2)] by (auto simp: hasDouble_def constVal_def validateTypes_def)
qed

subsection \<open>Reassociation\<close>

text \<open>An integer operation that takes its operands apart in any order.\<close>

definition intOp :: "opcode \<Rightarrow> (int32 \<Rightarrow> int32 \<Rightarrow> int32) \<Rightarrow> (int64 \<Rightarrow> int64 \<Rightarrow> int64) \<Rightarrow> bool" where
  "intOp opcode f g \<longleftrightarrow>
     (\<forall>pl a b. evalOp opcode pl [V32 a, V32 b] = Exactly (V32 (f a b))) \<and>
     (\<forall>pl a b. evalOp opcode pl [V64 a, V64 b] = Exactly (V64 (g a b)))"

lemma reassociates_ops:
  "intOp Add (+) (+)" "intOp BitAnd (AND) (AND)" "intOp BitOr (OR) (OR)" "intOp BitXor (XOR) (XOR)"
  by (simp_all add: intOp_def op_defs)

lemma intOp_assoc:
  assumes op: "intOp opcode f g"
    and f: "\<And>a b c. f (f a b) c = f a (f c b)" and g: "\<And>a b c. g (g a b) c = g a (g c b)"
    and types: "typeOf x = t" "typeOf c1 = t" "typeOf c2 = t" "isInt t"
    and inner: "allows (evalOp opcode pl1 [x, c1]) y" and z: "allows (evalOp opcode pl2 [c2, c1]) z"
    and new: "allows (evalOp opcode pl3 [x, z]) r"
  shows "allows (evalOp opcode pl3 [y, c2]) r"
proof -
  have "(\<exists>a b c. x = V32 a \<and> c1 = V32 b \<and> c2 = V32 c) \<or> (\<exists>a b c. x = V64 a \<and> c1 = V64 b \<and> c2 = V64 c)"
    using types by (auto simp: isInt_cases typeOf_cases)
  then show ?thesis using op inner z new by (auto simp: intOp_def f g)
qed

definition mathOps :: "opcode set" where
  "mathOps = {Add, BitAnd, BitOr, BitXor}"

lemma wt_children2:
  assumes wt: "wtValue s v" and op: "m_opcode v \<in> mathOps"
    and x: "s' x = Some xv" "m_type xv = m_type v" and y: "s' y = Some yv" "m_type yv = m_type v"
  shows "wtValue s' (v\<lparr>m_children := [x, y]\<rparr>)"
proof -
  have "m_type v \<noteq> Void" "m_opcode v \<noteq> Add \<longrightarrow> isInt (m_type v)"
    using wtD(1) [OF wt] op by (auto simp: mathOps_def validateTypes_def isInt_def)
  then show ?thesis using wtD(3) [OF wt] op x y unfolding mathOps_def
    by (auto simp: wtValue_def validateChildren_def validateTypes_def validateMath_def childType_def child_def
        numChildren_def isCheckMath_def)
qed

lemma mathOps_type:
  assumes "wtValue s v" "m_opcode v \<in> mathOps"
  shows "childType s v 0 = Some (m_type v)" "childType s v 1 = Some (m_type v)" "m_type v \<noteq> Void"
    "m_opcode v \<noteq> Add \<Longrightarrow> isInt (m_type v)" "numChildren v = 2"
  using wtD(1) [OF assms(1)] assms(2) by (auto simp: mathOps_def validateTypes_def validateMath_def isInt_def)

lemma binary_children:
  assumes rs: "ready rs" and a: "operand rs a av" and n: "numChildren av = 2"
  obtains c cv d dv where "m_children av = [c, d]" "operand rs c cv" "operand rs d dv"
    "kid rs av 0 = Some (c, cv)" "kid rs av (Suc 0) = Some (d, dv)"
    "childType (lookup rs) av 0 = Some (m_type cv)" "childType (lookup rs) av 1 = Some (m_type dv)"
    "\<And>env. evalValue env av = evalOp (m_opcode av) (m_payload av) [env c, env d]"
proof -
  obtain c d where c: "m_children av = [c, d]"
    using n by (auto simp: numChildren_def numeral_2_eq_2 length_Suc_conv)
  obtain cv where cv: "operand rs c cv" using operand_operand [OF rs a] c by fastforce
  obtain dv where dv: "operand rs d dv" using operand_operand [OF rs a] c by fastforce
  show ?thesis
    by (rule that [OF c cv dv])
      (use c cv dv in \<open>simp_all add: kid_def operandD childType_def child_def evalValue_def args_def\<close>)
qed

lemma reassociate_sound:
  assumes op: "opcode \<in> mathOps" and int: "intOp opcode f32 f64"
    and assoc: "\<And>a b c. f32 (f32 a b) c = f32 a (f32 c b)" "\<And>a b c. f64 (f64 a b) c = f64 a (f64 c b)"
    and fold: "constant_fold opcode f" and only: "opcode = Add \<Longrightarrow> intOnly"
  shows "rewrite_rule opcode (reassociate opcode intOnly f)"
proof (rule binary_rule)
  show "opcode \<in> binaryOps" using op by (auto simp: mathOps_def binaryOps_def)
  fix rs v a av b bv assume view: "binaryView rs v a av b bv" and vop: "m_opcode v = opcode"
  note k = twoKidsD [OF binaryViewD(1) [OF view]]
  note vt = mathOps_type [OF k(10)]
  show "achieves opcode rs (reassociate opcode intOnly f rs)"
  proof (cases "m_opcode av = opcode \<and> (intOnly \<longrightarrow> isInt (m_type v))")
    case False
    then have "reassociate opcode intOnly f rs = Some (False, rs)" using k by (auto simp: reassociate_def)
    then show ?thesis using achieves_keep [OF k(1,2)] vop by simp
  next
    case True
    note at = mathOps_type [OF operandD(2) [OF k(5)]]
    obtain aa aav ab abv where inner: "m_children av = [aa, ab]" "operand rs aa aav" "operand rs ab abv"
        "kid rs av 0 = Some (aa, aav)" "kid rs av (Suc 0) = Some (ab, abv)"
        "childType (lookup rs) av 0 = Some (m_type aav)" "childType (lookup rs) av 1 = Some (m_type abv)"
        and eva: "\<And>env. evalValue env av = evalOp (m_opcode av) (m_payload av) [env aa, env ab]"
      using binary_children [OF k(1,5)] at(5) True op by metis
    have types: "m_type av = m_type v" "m_type bv = m_type v" "m_type aav = m_type v" "m_type abv = m_type v"
      using k vt at inner True op vop by auto
    have intv: "isInt (m_type v)" using True vt(4) op vop only by auto
    show ?thesis
    proof (cases "f bv abv")
      case None
      then show ?thesis using k inner True achieves_keep [OF k(1,2)] vop by (simp add: reassociate_def)
    next
      case (Some w)
      then obtain c2 c1 z where z: "constVal bv = Some c2" "constVal abv = Some c1" "isConstVal w z" "typeOf z = typeOf c2"
          "\<And>pl. allows (evalOp opcode pl [c2, c1]) z" using constant_fold.folds [OF fold] by blast
      have wtype: "m_type w = m_type v"
        using isConstVal_type [OF z(3)] z(4) constVal_typed [OF z(1) operandD(2) [OF k(6)]] types by simp
      let ?f = "\<lambda>j. setChild 1 j (setChild 0 aa v)"
      have f: "?f j = v\<lparr>m_children := [aa, j]\<rparr>" for j using k(4) by (simp add: setChild_def)
      have "achieves opcode rs (let (j, rs') = insertNew w rs in Some (False, changed (setCur (?f j) rs')))"
      proof (rule achieves_insert_setCur [OF k(1,2) z(3)])
        fix j
        show "m_type (?f j) = m_type v" "False \<or> m_opcode (?f j) = opcode" using vop unfolding f by simp_all
        show "set (m_children (?f j)) \<subseteq> insert j (below (lookup rs) {} (m_value rs))"
          using operandD(4) [OF inner(2)] unfolding f by simp
        show "wtValue ((lookup rs)(j \<mapsto> w)) (?f j)" if "lookup rs j = None"
          unfolding f using that operandD(1) [OF inner(2)] types(3) wtype op vop
          by (intro wt_children2 [OF k(10), of _ aa aav j w]) auto
        fix env assume h: "holds (lookup rs) (m_value rs) env" and j: "env j = z" and sol: "solves env (m_value rs) (?f j)"
        have "env b = c2" "env ab = c1" using operand_const [OF h] k(6) inner(3) z(1,2) by auto
        moreover have "allows (evalOp opcode (m_payload av) [env aa, env ab]) (env a)"
          using operand_solves [OF h k(5)] True by (simp add: solves_def eva)
        moreover have "allows (evalOp opcode (m_payload v) [env aa, z]) (env (m_value rs))"
          using sol j vop unfolding f by (simp add: solves_def evalValue_def args_def)
        moreover have "typeOf (env aa) = m_type v" "typeOf c1 = m_type v" "typeOf c2 = m_type v"
          using operand_typed [OF h inner(2)] constVal_typed [OF z(1) operandD(2) [OF k(6)]]
            constVal_typed [OF z(2) operandD(2) [OF inner(3)]] types by simp_all
        ultimately have "allows (evalOp opcode (m_payload v) [env a, env b]) (env (m_value rs))"
          using intOp_assoc [OF int assoc, of "env aa" "m_type v"] intv z(5) by metis
        then show "allows (evalValue env v) (env (m_value rs)) \<and> observe env (m_value rs) (?f j) = observe env (m_value rs) v"
          using vop op unfolding f
          by (auto simp: binaryViewD(2,3) [OF view] observe_silent silentOps_def binaryOps_def mathOps_def)
      qed
      then show ?thesis using Some k inner True by (simp add: reassociate_def)
    qed
  qed
qed

subsection \<open>Add\<close>

lemma isInteger_cases: "isInteger v \<longleftrightarrow> isInt (m_type v)"
  by (simp add: isInteger_def isInt_cases)

text \<open>The operands of a binary operation whose operands and result have one type.\<close>

lemma binary_same_type:
  assumes "binaryView rs v a av b bv" "m_opcode v \<in> {Add, Sub, Mul, ChillDiv, BitAnd, BitOr, BitXor}"
  shows "m_type av = m_type v" "m_type bv = m_type v" "m_type v \<noteq> Void"
    "m_opcode v \<in> {ChillDiv, BitAnd, BitOr, BitXor} \<Longrightarrow> isInt (m_type v)"
  using twoKidsD(10,13,14) [OF binaryViewD(1) [OF assms(1)]] assms(2)
  by (auto simp: wtValue_def validateTypes_def validateMath_def isInt_def)

lemma binaryOpsI [simp]:
  "Add \<in> binaryOps" "Sub \<in> binaryOps" "Mul \<in> binaryOps" "BitAnd \<in> binaryOps" "BitOr \<in> binaryOps" "BitXor \<in> binaryOps"
  "Shl \<in> binaryOps" "SShr \<in> binaryOps" "ZShr \<in> binaryOps" "Equal \<in> binaryOps" "NotEqual \<in> binaryOps"
  by (simp_all add: binaryOps_def)

lemma isNaN_default [simp]: "isNaN defaultNaN"
  by (simp add: isNaN_def dmag_def defaultNaN_def infMag_def)

lemma rdouble_neutral:
  "allows (rdouble (dadd d negZero)) (VD d)" "allows (rdouble (dmul d done1)) (VD d)"
proof -
  have nan: "isNaN (dadd d negZero)" "isNaN (dmul d done1)" if "isNaN d"
    using that by (simp_all add: dadd_def dmul_def)
  show "allows (rdouble (dadd d negZero)) (VD d)"
    by (cases "isNaN d") (simp_all add: rdouble_def nan dadd_negZero)
  show "allows (rdouble (dmul d done1)) (VD d)"
    by (cases "isNaN d") (simp_all add: rdouble_def nan dmul_one)
qed

lemma addZero_sound: "rewrite_rule Add addZero"
proof (rule binary_rule)
  fix rs v a av b bv assume view: "binaryView rs v a av b bv" and op: "m_opcode v = Add"
  note k = twoKidsD [OF binaryViewD(1) [OF view]] and types = binary_same_type [OF view]
  show "achieves Add rs (addZero rs)"
  proof (cases "isIntValue bv 0 \<or> isNegativeZero bv")
    case True
    have "achieves Add rs (becomes a rs)"
    proof (rule achieves_becomes [OF k(1,2,5)])
      show "m_type av = m_type v" using types op by simp
      show "observe env (m_value rs) v = Silent" for env by (rule binaryViewD(2) [OF view])
      fix env assume h: "holds (lookup rs) (m_value rs) env"
      have ta: "typeOf (env a) = m_type bv" using operand_typed [OF h k(5)] types op by simp
      consider "m_type bv = Int32" "env b = V32 0" | "m_type bv = Int64" "env b = V64 0" | "m_type bv = Double" "env b = VD negZero"
        using True isIntValue_const [OF _ operandD(2) [OF k(6)]] isNegativeZero_const [OF _ operandD(2) [OF k(6)]]
          operand_const [OF h k(6)] by fastforce
      then show "allows (evalValue env v) (env a)"
        unfolding binaryViewD(3) [OF view] op using ta
        by cases (auto simp: typeOf_cases op_defs rdouble_neutral)
    qed
    then show ?thesis using k True by (auto simp: addZero_def)
  next
    case False
    then have "addZero rs = Some (False, rs)" using k by (auto simp: addZero_def)
    then show ?thesis using achieves_keep [OF k(1,2)] op by simp
  qed
qed simp

end
