(* ===== verification/B3ReduceArith.thy ===== *)
theory B3ReduceArith
  imports B3ReduceRules
begin

text \<open>
  The handlers of the arithmetic, bitwise and shift opcodes meet the contract of strength
  reduction.
\<close>

subsection \<open>New binary operations\<close>

text \<open>The operand and result types of the binary operations the phase creates.\<close>

definition op2Typed :: "opcode \<Rightarrow> b3type \<Rightarrow> b3type \<Rightarrow> b3type \<Rightarrow> bool" where
  "op2Typed op2 t ta tb \<longleftrightarrow>
     ta \<noteq> Void \<and>
     (op2 \<in> {Add, Sub, Mul} \<and> ta = t \<and> tb = t \<or>
      op2 \<in> {BitAnd, BitOr, BitXor} \<and> ta = t \<and> tb = t \<and> isInt t \<or>
      op2 \<in> {Shl, SShr, ZShr} \<and> ta = t \<and> tb = Int32 \<and> isInt t \<or>
      op2 \<in> {Equal, NotEqual} \<and> ta = tb \<and> t = Int32)"

lemma op2Typed_wt:
  assumes "op2Typed op2 t (m_type av) (m_type bv)" "s a = Some av" "s b = Some bv"
  shows "wtValue s (mkValue op2 t origin [a, b] NoPayload)"
proof -
  have void: "m_type av \<noteq> Void" "m_type bv \<noteq> Void" using assms(1) by (auto simp: op2Typed_def)
  note mk = wt_mk2 [of s a av b bv, OF assms(2,3) void]
  show ?thesis using assms(1) unfolding op2Typed_def
    by (elim conjE disjE) (simp_all only: mk)
qed

lemma op2Typed_typeFor: "op2Typed op2 t ta tb \<Longrightarrow> typeFor op2 ta tb = Some t"
  by (auto simp: op2Typed_def typeFor_def)

lemma op2Typed_newOp:
  assumes "op2Typed op2 t (m_type av) (m_type bv)" "lookup rs a = Some av" "lookup rs b = Some bv"
  shows "newOp rs op2 origin [a, b] = Some (mkValue op2 t origin [a, b] NoPayload)"
  by (rule newOp2 [OF assms(2,3) op2Typed_typeFor [OF assms(1)]])

text \<open>The current value becomes a new operation on an operand and a constant inserted before it.\<close>

lemma achieves_op_const:
  assumes rs: "ready rs" "cur rs = Some v" and c: "operand rs c cv" and w: "isConstVal w x"
    and types: "op2Typed op2 (m_type v) (m_type cv) (typeOf x)"
    and silent: "\<And>env. observe env (m_value rs) v = Silent"
    and sem: "\<And>env z. holds (lookup rs) (m_value rs) env \<Longrightarrow> typeOf z = m_type v \<Longrightarrow>
        allows (evalOp op2 NoPayload [env c, x]) z \<Longrightarrow> allows (evalValue env v) z"
  shows "achieves opcode rs (let (j, rs') = insertNew w rs in replaceWithNew op2 origin [c, j] rs')"
proof (rule achieves_insert_op [OF rs w])
  have wt: "m_type w = typeOf x" using isConstVal_type [OF w] by simp
  show "m_type v \<noteq> Void" using types by (auto simp: op2Typed_def)
  show "set [c, j] \<subseteq> insert j (below (lookup rs) {} (m_value rs))" for j using operandD(4) [OF c] by simp
  show "observe env (m_value rs) v = Silent" for env by (rule silent)
  fix rs' j assume "lookup rs' = (lookup rs)(j \<mapsto> w)" "lookup rs j = None"
  then show "newOp rs' op2 origin [c, j] = Some (mkValue op2 (m_type v) origin [c, j] NoPayload)"
    using types wt operandD(1) [OF c] by (intro op2Typed_newOp [of _ _ cv w]) auto
next
  have wt: "m_type w = typeOf x" using isConstVal_type [OF w] by simp
  fix j assume "lookup rs j = None"
  then show "wtValue ((lookup rs)(j \<mapsto> w)) (mkValue op2 (m_type v) origin [c, j] NoPayload)"
    using types wt operandD(1) [OF c] by (intro op2Typed_wt [of _ _ cv w]) auto
qed (use sem in auto)

lemma achieves_const_op:
  assumes rs: "ready rs" "cur rs = Some v" and c: "operand rs c cv" and w: "isConstVal w x"
    and types: "op2Typed op2 (m_type v) (typeOf x) (m_type cv)"
    and silent: "\<And>env. observe env (m_value rs) v = Silent"
    and sem: "\<And>env z. holds (lookup rs) (m_value rs) env \<Longrightarrow> typeOf z = m_type v \<Longrightarrow>
        allows (evalOp op2 NoPayload [x, env c]) z \<Longrightarrow> allows (evalValue env v) z"
  shows "achieves opcode rs (let (j, rs') = insertNew w rs in replaceWithNew op2 origin [j, c] rs')"
proof (rule achieves_insert_op [OF rs w])
  have wt: "m_type w = typeOf x" using isConstVal_type [OF w] by simp
  show "m_type v \<noteq> Void" using types by (auto simp: op2Typed_def)
  show "set [j, c] \<subseteq> insert j (below (lookup rs) {} (m_value rs))" for j using operandD(4) [OF c] by simp
  show "observe env (m_value rs) v = Silent" for env by (rule silent)
  fix rs' j assume "lookup rs' = (lookup rs)(j \<mapsto> w)" "lookup rs j = None"
  then show "newOp rs' op2 origin [j, c] = Some (mkValue op2 (m_type v) origin [j, c] NoPayload)"
    using types wt operandD(1) [OF c] by (intro op2Typed_newOp [of _ _ w cv]) auto
next
  have wt: "m_type w = typeOf x" using isConstVal_type [OF w] by simp
  fix j assume "lookup rs j = None"
  then show "wtValue ((lookup rs)(j \<mapsto> w)) (mkValue op2 (m_type v) origin [j, c] NoPayload)"
    using types wt operandD(1) [OF c] by (intro op2Typed_wt [of _ _ w cv]) auto
qed (use sem in auto)

lemma achieves_op:
  assumes rs: "ready rs" "cur rs = Some v" and c: "operand rs c cv" and d: "operand rs d dv"
    and types: "op2Typed op2 (m_type v) (m_type cv) (m_type dv)"
    and silent: "\<And>env. observe env (m_value rs) v = Silent"
    and sem: "\<And>env z. holds (lookup rs) (m_value rs) env \<Longrightarrow> typeOf z = m_type v \<Longrightarrow>
        allows (evalOp op2 NoPayload [env c, env d]) z \<Longrightarrow> allows (evalValue env v) z"
  shows "achieves opcode rs (replaceWithNew op2 origin [c, d] rs)"
proof -
  let ?u = "mkValue op2 (m_type v) origin [c, d] NoPayload"
  have "replaceWithNew op2 origin [c, d] rs = replaceWithFolded (Some ?u) rs"
    using op2Typed_newOp [OF types operandD(1) [OF c] operandD(1) [OF d]] by (simp add: replaceWithNew_def)
  moreover have "achieves opcode rs (replaceWithFolded (Some ?u) rs)"
  proof (rule achieves_folded [OF rs])
    show "wtValue (lookup rs) ?u" by (rule op2Typed_wt [OF types operandD(1) [OF c] operandD(1) [OF d]])
    show "m_type ?u = m_type v" "m_type v \<noteq> Void" using types by (auto simp: mkValue_def op2Typed_def)
    show "set (m_children ?u) \<subseteq> below (lookup rs) {} (m_value rs)"
      using operandD(4) [OF c] operandD(4) [OF d] by (simp add: mkValue_def)
    fix env z assume "holds (lookup rs) (m_value rs) env" "typeOf z = m_type ?u" "allows (evalValue env ?u) z"
    then show "allows (evalValue env v) z" using sem by (simp add: mkValue_def evalValue_def args_def)
  qed (rule silent)
  ultimately show ?thesis by simp
qed

subsection \<open>Add\<close>

lemma addToShl_sound: "rewrite_rule Add addToShl"
proof (rule binary_rule)
  fix rs v a av b bv assume view: "binaryView rs v a av b bv" and op: "m_opcode v = Add"
  note k = twoKidsD [OF binaryViewD(1) [OF view]] and types = binary_same_type [OF view]
  show "achieves Add rs (addToShl rs)"
  proof (cases "isInteger v \<and> a = b")
    case True
    then have int: "isInt (m_type v)" by (simp add: isInteger_cases)
    have "achieves Add rs (let (one, rs') = insertNew (Const32Value (m_origin v) 1) rs
        in replaceWithNew Shl (m_origin v) [a, one] rs')"
    proof (rule achieves_op_const [OF k(1,2,5)])
      show "isConstVal (Const32Value (m_origin v) 1) (V32 1)" by simp
      show "op2Typed Shl (m_type v) (m_type av) (typeOf (V32 1))" using int types op by (auto simp: op2Typed_def)
      fix env z assume h: "holds (lookup rs) (m_value rs) env" and z: "allows (evalOp Shl NoPayload [env a, V32 1]) z"
      have "typeOf (env a) = m_type v" using operand_typed [OF h k(5)] types op by simp
      then show "allows (evalValue env v) z" using z int True
        by (auto simp: binaryViewD(3) [OF view] op isInt_cases typeOf_cases op_defs push_bit_eq_mult)
    qed (rule binaryViewD(2) [OF view])
    then show ?thesis using k True by (simp add: addToShl_def)
  next
    case False
    then have "addToShl rs = Some (False, rs)" using k by (auto simp: addToShl_def)
    then show ?thesis using achieves_keep [OF k(1,2)] op by simp
  qed
qed simp

lemma binary_keep:
  assumes "binaryView rs v a av b bv" "m_opcode v = opcode"
  shows "achieves opcode rs (Some (False, rs))"
  using achieves_keep [of rs v] twoKidsD(1,2) [OF binaryViewD(1) [OF assms(1)]] assms(2) by simp

text \<open>The operands of an operand that is a binary operation of one type.\<close>

lemma inner_same_type:
  assumes "operand rs a av" "m_opcode av \<in> {Add, Sub, Mul, ChillDiv, BitAnd, BitOr, BitXor}"
  shows "childType (lookup rs) av 0 = Some (m_type av)" "childType (lookup rs) av 1 = Some (m_type av)"
    "numChildren av = 2"
  using operandD(2) [OF assms(1)] assms(2)
  by (auto simp: wtValue_def validateTypes_def validateMath_def)

lemma ucast_minus_one [simp]: "ucast (- 1 :: int64) = (- 1 :: int32)"
  by (rule bit_word_eqI) (simp add: bit_simps)

lemma addSubToXor_sound: "rewrite_rule Add addSubToXor"
proof (rule binary_rule)
  fix rs v a av b bv assume view: "binaryView rs v a av b bv" and op: "m_opcode v = Add"
  note k = twoKidsD [OF binaryViewD(1) [OF view]] and types = binary_same_type [OF view]
  show "achieves Add rs (addSubToXor rs)"
  proof (cases "isInteger v \<and> m_opcode av = Sub \<and> isIntValue bv (- 1)")
    case True
    then have int: "isInt (m_type v)" and sub: "m_opcode av = Sub" by (simp_all add: isInteger_cases)
    note inner = inner_same_type [OF k(5)]
    obtain c cv d dv where cd: "operand rs c cv" "operand rs d dv" "kid rs av 0 = Some (c, cv)" "kid rs av (Suc 0) = Some (d, dv)"
        "childType (lookup rs) av 0 = Some (m_type cv)" "childType (lookup rs) av 1 = Some (m_type dv)"
        and ev: "\<And>env. evalValue env av = evalOp (m_opcode av) (m_payload av) [env c, env d]"
      using binary_children [OF k(1,5)] inner(3) sub by (metis insertI1 insertI2)
    have t: "m_type cv = m_type v" "m_type dv = m_type v" using inner cd sub types op by auto
    show ?thesis
    proof (cases "isIntValue cv 0")
      case zero: True
      have "achieves Add rs (replaceWithNew BitXor (m_origin v) [d, b] rs)"
      proof (rule achieves_op [OF k(1,2) cd(2) k(6)])
        show "op2Typed BitXor (m_type v) (m_type dv) (m_type bv)" using int t types op by (auto simp: op2Typed_def)
        fix env z assume h: "holds (lookup rs) (m_value rs) env" and z: "allows (evalOp BitXor NoPayload [env d, env b]) z"
        have "typeOf (env d) = m_type v" using operand_typed [OF h cd(2)] t by simp
        moreover have "allows (evalOp Sub (m_payload av) [env c, env d]) (env a)"
          using operand_solves [OF h k(5)] sub by (simp add: solves_def ev)
        moreover have "m_type v = Int32 \<and> env c = V32 0 \<and> env b = V32 (- 1) \<or> m_type v = Int64 \<and> env c = V64 0 \<and> env b = V64 (- 1)"
          using isIntValue_const [OF zero operandD(2) [OF cd(1)]] isIntValue_const [of bv "- 1", OF _ operandD(2) [OF k(6)]] True
            operand_const [OF h cd(1)] operand_const [OF h k(6)] t types op by auto
        ultimately show "allows (evalValue env v) z" using z
          by (auto simp: binaryViewD(3) [OF view] op typeOf_cases op_defs not_eq_complement)
      qed (rule binaryViewD(2) [OF view])
      then show ?thesis using k cd True zero by (simp add: addSubToXor_def)
    next
      case False
      then show ?thesis using k cd True binary_keep [OF view op] by (simp add: addSubToXor_def)
    qed
  next
    case False
    then have "addSubToXor rs = Some (False, rs)" using k by (auto simp: addSubToXor_def)
    then show ?thesis using binary_keep [OF view op] by simp
  qed
qed simp

lemma reassociateAdd_sound: "rewrite_rule Add (reassociate Add True addConstant)"
  by (rule reassociate_sound [OF _ reassociates_ops(1)])
    (simp_all add: mathOps_def ac_simps foldAdd.constant_fold_axioms)

lemma reduceAdd_sound: "rewrite_rule Add reduceAdd"
  unfolding reduceAdd_def
  by (rule rewrite_rule_inOrder)
    (auto simp: commutativeOps_def intro: handleCommutativity_sound reassociateAdd_sound foldAdd.foldConstants_sound
      addToShl_sound addZero_sound addSubToXor_sound)

subsection \<open>Sub, Mul and Div\<close>

lemma negConstant_const:
  assumes "negConstant bv = Some w" "m_type bv = t" "isInt t" "wtValue s bv"
  shows "(\<exists>n. t = Int32 \<and> constVal bv = Some (V32 n) \<and> isConstVal w (V32 (- n))) \<or>
    (\<exists>n. t = Int64 \<and> constVal bv = Some (V64 n) \<and> isConstVal w (V64 (- n)))"
  using assms(1-3) wtD(1) [OF assms(4)]
  by (auto simp: negConstant_def class_fold_defs dispatch constVal_def validateTypes_def split: if_splits)

lemma add_negated:
  "typeOf z = Int32 \<Longrightarrow> evalOp Add pl [z, V32 (- m)] = evalOp Sub pl' [z, V32 m]"
  "typeOf z = Int64 \<Longrightarrow> evalOp Add pl [z, V64 (- n)] = evalOp Sub pl' [z, V64 n]"
  by (auto simp: typeOf_cases op_defs)

lemma subToAdd_sound: "rewrite_rule Sub subToAdd"
proof (rule binary_rule)
  fix rs v a av b bv assume view: "binaryView rs v a av b bv" and op: "m_opcode v = Sub"
  note k = twoKidsD [OF binaryViewD(1) [OF view]] and types = binary_same_type [OF view]
  show "achieves Sub rs (subToAdd rs)"
  proof (cases "isInt (m_type v) \<and> negConstant bv \<noteq> None")
    case True
    then obtain w where w: "negConstant bv = Some w" and int: "isInt (m_type v)" by blast
    have "m_type bv = m_type v" using types op by simp
    from negConstant_const [OF w this int operandD(2) [OF k(6)]]
    have "\<exists>x y. constVal bv = Some y \<and> isConstVal w x \<and> typeOf x = m_type v \<and>
        (\<forall>z pl pl'. typeOf z = m_type v \<longrightarrow> evalOp Add pl [z, x] = evalOp Sub pl' [z, y])"
      using add_negated by (elim disjE exE conjE) (simp, metis typeOf.simps(1,2))+
    then obtain x y where xy: "constVal bv = Some y" "isConstVal w x" "typeOf x = m_type v"
        "\<And>z pl pl'. typeOf z = m_type v \<Longrightarrow> evalOp Add pl [z, x] = evalOp Sub pl' [z, y]" by blast
    have "achieves Sub rs (let (j, rs') = insertNew w rs in replaceWithNew Add (m_origin v) [a, j] rs')"
    proof (rule achieves_op_const [OF k(1,2,5) xy(2)])
      show "op2Typed Add (m_type v) (m_type av) (typeOf x)" using xy(3) types op by (auto simp: op2Typed_def)
      fix env z assume h: "holds (lookup rs) (m_value rs) env" and z: "allows (evalOp Add NoPayload [env a, x]) z"
      have "typeOf (env a) = m_type v" using operand_typed [OF h k(5)] types op by simp
      from xy(4) [OF this] show "allows (evalValue env v) z"
        using z operand_const [OF h k(6) xy(1)] by (metis binaryViewD(3) [OF view] op)
    qed (rule binaryViewD(2) [OF view])
    then show ?thesis using k w int by (simp add: subToAdd_def)
  next
    case False
    then have "subToAdd rs = Some (False, rs)" using k by (auto simp: subToAdd_def)
    then show ?thesis using binary_keep [OF view op] by simp
  qed
qed simp

lemma reduceSub_sound: "rewrite_rule Sub reduceSub"
  unfolding reduceSub_def
  by (rule rewrite_rule_inOrder) (auto intro: foldSub.foldConstants_sound subToAdd_sound)

lemma reduceDiv_sound: "rewrite_rule Div reduceDiv" "rewrite_rule ChillDiv reduceDiv"
  unfolding reduceDiv_def by (rule foldDiv.foldConstants_sound foldChillDiv.foldConstants_sound)+

text \<open>
  The factor of a multiplication, sign-extended to 64 bits, is a power of two only when the
  factor itself is one below the sign bit.
\<close>

lemma scast_power:
  assumes "scast (n :: int32) = (2 ^ k :: int64)" "k < 64"
  shows "n = 2 ^ k" "k < 31"
proof -
  have b: "bit (scast n :: int64) i \<longleftrightarrow> i < 64 \<and> i = k" for i
    using assms(2) by (simp add: assms(1) bit_simps)
  have "k < 31"
  proof (rule ccontr)
    assume "\<not> k < 31"
    then have "bit (scast n :: int64) k = bit (scast n :: int64) (if k = 31 then 32 else 31)"
      by (simp add: bit_simps min_def assms(2))
    then show False using b [of k] b [of "if k = 31 then 32 else 31"] assms(2) by (simp split: if_splits)
  qed
  moreover from this have "ucast (2 ^ k :: int64) = (2 ^ k :: int32)"
    by (intro bit_word_eqI) (auto simp: bit_simps)
  ultimately show "k < 31" "n = 2 ^ k"
    using arg_cong [OF assms(1), of "ucast :: int64 \<Rightarrow> int32"] by simp_all
qed

lemma mul_power_shift:
  "k < 32 \<Longrightarrow> push_bit (unat (word_of_nat k AND 31 :: int32)) a = (a :: int32) * 2 ^ k"
  "k < 64 \<Longrightarrow> push_bit (unat (word_of_nat k AND 63 :: int32)) b = (b :: int64) * 2 ^ k"
proof -
  have m: "w AND 31 = take_bit 5 w" "w AND 63 = take_bit 6 w" for w :: int32
    by (simp_all add: take_bit_eq_mask mask_eq_exp_minus_1)
  show "k < 32 \<Longrightarrow> push_bit (unat (word_of_nat k AND 31 :: int32)) a = (a :: int32) * 2 ^ k"
    unfolding m by (simp add: push_bit_eq_mult unsigned_take_bit_eq unat_of_nat take_bit_nat_eq_self)
  show "k < 64 \<Longrightarrow> push_bit (unat (word_of_nat k AND 63 :: int32)) b = (b :: int64) * 2 ^ k"
    unfolding m by (simp add: push_bit_eq_mult unsigned_take_bit_eq unat_of_nat take_bit_nat_eq_self)
qed

lemma hasInt_const:
  assumes "hasInt bv" "wtValue s bv"
  obtains "m_type bv = Int32" "constVal bv = Some (V32 (asInt32 bv))" "asInt bv = scast (asInt32 bv)"
    | "m_type bv = Int64" "constVal bv = Some (V64 (asInt bv))"
  using assms(1) wtD(1) [OF assms(2)] that
  by (auto simp: hasInt_def hasInt32_def hasInt64_def asInt_def constVal_def validateTypes_def)

text \<open>Multiplying by a power of two is a shift.\<close>

lemma mulByConstant_shift:
  assumes view: "binaryView rs v a av b bv" and op: "m_opcode v = Mul"
    and int: "hasInt bv" "hasOneBitSet (asInt bv)"
  shows "achieves opcode rs
    (let (amount, rs') = insertNew (Const32Value (m_origin v) (of_nat (fastLog2 (asInt bv)))) rs
     in replaceWithNew Shl (m_origin v) [a, amount] rs')"
proof -
  note k = twoKidsD [OF binaryViewD(1) [OF view]] and types = binary_same_type [OF view]
  obtain n where n: "n < 64" "asInt bv = 2 ^ n" using hasOneBitSet_power [OF int(2)] by auto
  have log: "fastLog2 (asInt bv) = n" using n fastLog2_power by simp
  have const: "m_type v = Int32 \<and> n < 32 \<and> constVal bv = Some (V32 (2 ^ n)) \<or>
      m_type v = Int64 \<and> constVal bv = Some (V64 (2 ^ n))"
    by (rule hasInt_const [OF int(1) operandD(2) [OF k(6)]])
      (use n scast_power [of "asInt32 bv" n] types op in auto)
  show ?thesis unfolding log
  proof (rule achieves_op_const [OF k(1,2,5)])
    show "isConstVal (Const32Value (m_origin v) (of_nat n)) (V32 (of_nat n))" by simp
    show "op2Typed Shl (m_type v) (m_type av) (typeOf (V32 (of_nat n)))"
      using const types op by (auto simp: op2Typed_def)
    fix env z assume h: "holds (lookup rs) (m_value rs) env" and z: "allows (evalOp Shl NoPayload [env a, V32 (of_nat n)]) z"
    have "typeOf (env a) = m_type v" using operand_typed [OF h k(5)] types op by simp
    then show "allows (evalValue env v) z" using z const operand_const [OF h k(6)] n(1)
      by (auto simp: binaryViewD(3) [OF view] op typeOf_cases op_defs mul_power_shift)
  qed (rule binaryViewD(2) [OF view])
qed

lemma mulByConstant_negate:
  assumes view: "binaryView rs v a av b bv" and op: "m_opcode v = Mul" and int: "isIntValue bv (- 1)"
  shows "achieves opcode rs (do {
     zero \<leftarrow> intConstant (m_origin v) (m_type v) 0;
     (let (z, rs') = insertNew zero rs in replaceWithNew Sub (m_origin v) [z, a] rs') })"
proof -
  note k = twoKidsD [OF binaryViewD(1) [OF view]] and types = binary_same_type [OF view]
  note const = isIntValue_const [OF int operandD(2) [OF k(6)]]
  have "isInt (m_type v)" using const types op by auto
  then obtain w x where w: "intConstant (m_origin v) (m_type v) 0 = Some w" "isConstVal w x" "typeOf x = m_type v"
      "x = V32 0 \<or> x = V64 0"
    by (cases "m_type v") (simp_all add: intConstant_def)
  have "achieves opcode rs (let (z, rs') = insertNew w rs in replaceWithNew Sub (m_origin v) [z, a] rs')"
  proof (rule achieves_const_op [OF k(1,2,5) w(2)])
    show "op2Typed Sub (m_type v) (typeOf x) (m_type av)" using w types op by (auto simp: op2Typed_def)
    fix env z assume h: "holds (lookup rs) (m_value rs) env" and z: "allows (evalOp Sub NoPayload [x, env a]) z"
    have "typeOf (env a) = m_type v" using operand_typed [OF h k(5)] types op by simp
    then show "allows (evalValue env v) z" using z const operand_const [OF h k(6)] w(3,4) types op
      by (auto simp: binaryViewD(3) [OF view] op typeOf_cases op_defs)
  qed (rule binaryViewD(2) [OF view])
  then show ?thesis by (simp add: w(1))
qed

text \<open>An identity that leaves \<open>m_changed\<close> as it is.\<close>

lemma achieves_toIdentity:
  assumes "ready rs" "cur rs = Some v" "operand rs a av" "m_type av = m_type v"
    and "\<And>env. observe env (m_value rs) v = Silent"
    and "\<And>env. holds (lookup rs) (m_value rs) env \<Longrightarrow> allows (evalValue env v) (env a)"
  shows "achieves opcode rs (do { rs' \<leftarrow> toIdentity a rs; Some (True, rs') })"
proof -
  have "\<exists>rs2. toIdentity a rs = Some rs2 \<and> reducing rs rs2 []"
  proof (rule reducing_toIdentity [OF reducing_refl [OF assms(1)]])
    show "lookup rs (m_value rs) = Some v" using assms(2) by (simp add: cur_def)
    show "lookup rs a = Some av" "m_type av = m_type v" "m_type v \<noteq> Void"
      "a \<in> below (lookup rs) (set []) (m_value rs)"
      using operandD [OF assms(3)] assms(4) by auto
  qed (use assms(5,6) in auto)
  then obtain rs2 where "toIdentity a rs = Some rs2" "reducing rs rs2 []" by blast
  then show ?thesis using reducing_reduced [of rs rs2 "[]"] by (intro achieves_break) (simp, blast)
qed

lemma binary_becomes:
  assumes view: "binaryView rs v a av b bv" and c: "operand rs c cv" and type: "m_type cv = m_type v"
    and sem: "\<And>env. holds (lookup rs) (m_value rs) env \<Longrightarrow> typeOf (env a) = m_type av \<Longrightarrow>
        allows (evalOp (m_opcode v) (m_payload v) [env a, env b]) (env c)"
  shows "achieves opcode rs (becomes c rs)"
proof -
  note k = twoKidsD [OF binaryViewD(1) [OF view]]
  show ?thesis
    by (rule achieves_becomes [OF k(1,2) c type])
      (simp_all add: binaryViewD(2,3) [OF view] sem operand_typed [OF _ k(5)])
qed

lemma mulByConstant_sound: "rewrite_rule Mul mulByConstant"
proof (rule binary_rule)
  fix rs v a av b bv assume view: "binaryView rs v a av b bv" and op: "m_opcode v = Mul"
  note k = twoKidsD [OF binaryViewD(1) [OF view]] and types = binary_same_type [OF view]
  have ta: "typeOf (env a) = m_type v" if "holds (lookup rs) (m_value rs) env" for env
    using operand_typed [OF that k(5)] types op by simp
  have cb: "m_type v = Int32 \<and> env b = V32 (ucast c) \<or> m_type v = Int64 \<and> env b = V64 c"
    if "holds (lookup rs) (m_value rs) env" "hasInt bv" "asInt bv = c" for env c
    using isIntValue_const [of bv c, OF _ operandD(2) [OF k(6)]] that operand_const [OF that(1) k(6)] types op
    by (auto simp: isIntValue_def)
  consider "hasInt bv" "asInt bv = 0" | "hasInt bv" "asInt bv = 1" | "hasInt bv" "asInt bv = - 1"
    | "hasInt bv" "asInt bv \<notin> {0, 1, - 1}" "hasOneBitSet (asInt bv)"
    | "\<not> hasInt bv" "hasDouble bv" "deq (asDouble bv) done1"
    | "hasInt bv" "asInt bv \<notin> {0, 1, - 1}" "\<not> hasOneBitSet (asInt bv)"
    | "\<not> hasInt bv" "\<not> (hasDouble bv \<and> deq (asDouble bv) done1)" by blast
  then show "achieves Mul rs (mulByConstant rs)"
  proof cases
    case 1
    have "achieves Mul rs (becomes b rs)"
    proof (rule binary_becomes [OF view k(6)])
      fix env assume h: "holds (lookup rs) (m_value rs) env"
      from cb [OF h 1] ta [OF h] show "allows (evalOp (m_opcode v) (m_payload v) [env a, env b]) (env b)"
        by (auto simp: op typeOf_cases op_defs)
    qed (use types op in simp)
    then show ?thesis using k 1 by (simp add: mulByConstant_def)
  next
    case 2
    have "achieves Mul rs (becomes a rs)"
    proof (rule binary_becomes [OF view k(5)])
      fix env assume h: "holds (lookup rs) (m_value rs) env"
      from cb [OF h 2] ta [OF h] show "allows (evalOp (m_opcode v) (m_payload v) [env a, env b]) (env a)"
        by (auto simp: op typeOf_cases op_defs)
    qed (use types op in simp)
    then show ?thesis using k 2 by (simp add: mulByConstant_def)
  next
    case 3
    then have "achieves Mul rs (mulByConstant rs) = achieves Mul rs (do {
        zero \<leftarrow> intConstant (m_origin v) (m_type v) 0;
        (let (z, rs') = insertNew zero rs in replaceWithNew Sub (m_origin v) [z, a] rs') })"
      using k by (simp add: mulByConstant_def)
    then show ?thesis using mulByConstant_negate [OF view op] 3 by (simp add: isIntValue_def)
  next
    case 4
    then show ?thesis using k mulByConstant_shift [OF view op] by (simp add: mulByConstant_def)
  next
    case 5
    have "constVal bv = Some (VD done1)" "m_type v = Double"
      using 5 deq_done1 operandD(2) [OF k(6)] types op
      by (auto simp: hasDouble_def constVal_def wtValue_def validateTypes_def)
    then have "allows (evalValue env v) (env a)" if "holds (lookup rs) (m_value rs) env" for env
      using ta [OF that] operand_const [OF that k(6)]
      by (auto simp: binaryViewD(3) [OF view] op typeOf_cases op_defs rdouble_neutral)
    then have "achieves Mul rs (do { rs' \<leftarrow> toIdentity a rs; Some (True, rs') })"
      using types op by (intro achieves_toIdentity [OF k(1,2,5)]) (auto simp: binaryViewD(2) [OF view])
    then show ?thesis using k 5 by (simp add: mulByConstant_def)
  qed (use k binary_keep [OF view op] in \<open>auto simp: mulByConstant_def\<close>)
qed simp

lemma reduceMul_sound: "rewrite_rule Mul reduceMul"
  unfolding reduceMul_def
  by (rule rewrite_rule_inOrder)
    (auto simp: commutativeOps_def intro: handleCommutativity_sound foldMul.foldConstants_sound mulByConstant_sound)

subsection \<open>Bitwise operations\<close>

lemma sameOperands_sound:
  assumes "opcode = BitAnd \<or> opcode = BitOr"
  shows "rewrite_rule opcode sameOperands"
proof (rule binary_rule)
  show "opcode \<in> binaryOps" using assms by auto
  fix rs v a av b bv assume view: "binaryView rs v a av b bv" and op: "m_opcode v = opcode"
  note k = twoKidsD [OF binaryViewD(1) [OF view]] and types = binary_same_type [OF view]
  have t: "m_type av = m_type v" "isInt (m_type v)" using types op assms by auto
  show "achieves opcode rs (sameOperands rs)"
  proof (cases "a = b")
    case True
    have "achieves opcode rs (becomes a rs)"
      using op assms t True by (intro binary_becomes [OF view k(5)]) (auto simp: isInt_cases typeOf_cases op_defs)
    then show ?thesis using k True by (simp add: sameOperands_def)
  qed (use k binary_keep [OF view op] in \<open>simp add: sameOperands_def\<close>)
qed

text \<open>What a constant operand of a given type stands for in every environment.\<close>

lemma operand_isInt:
  assumes "holds (lookup rs) (m_value rs) env" "operand rs b bv" "isIntValue bv c"
  shows "m_type bv = Int32 \<and> env b = V32 (ucast c) \<or> m_type bv = Int64 \<and> env b = V64 c"
  using isIntValue_const [OF assms(3) operandD(2) [OF assms(2)]] operand_const [OF assms(1,2)] by auto

lemma isAllOnes_int64:
  assumes "isAllOnes v bv" "wtValue s bv" "m_type bv = m_type v"
  shows "m_type v = Int64 \<and> constVal bv = Some (V64 (- 1))"
proof -
  have "scast (n :: int32) \<noteq> (0xFFFFFFFF :: int64)" for n
  proof
    assume "scast n = (0xFFFFFFFF :: int64)"
    then have "bit (scast n :: int64) 31" "\<not> bit (scast n :: int64) 32" by (simp_all add: bit_simps)
    then show False by (simp add: bit_simps)
  qed
  then show ?thesis using assms wtD(1) [OF assms(2)]
    by (auto simp: isAllOnes_def isIntValue_def hasInt_def hasInt32_def hasInt64_def asInt_def constVal_def
        validateTypes_def split: if_splits)
qed

lemma wt_mk1:
  assumes "s a = Some av"
  shows "m_type av = Int64 \<Longrightarrow> wtValue s (mkValue Trunc Int32 origin [a] NoPayload)"
    "m_type av = Int32 \<Longrightarrow> wtValue s (mkValue ZExt32 Int64 origin [a] NoPayload)"
  using assms by (auto simp: wtValue_def payloadOK_def accepts_defs validateChildren_def validateTypes_def
      childType_def child_def numChildren_def mkValue_def isCheckMath_def)

lemma and_low_word: "ucast (ucast (w :: int64) :: int32) = w AND 0xFFFFFFFF"
proof -
  have m: "(0xFFFFFFFF :: int64) = mask 32" by (simp add: mask_eq_exp_minus_1)
  show ?thesis unfolding m by (intro bit_word_eqI) (auto simp: bit_simps)
qed

text \<open>\<open>BitAnd(value, 0xffffffff)\<close> becomes \<open>ZExt32(Trunc(value))\<close>: two values are inserted.\<close>

lemma bitAnd_low_word:
  assumes view: "binaryView rs v a av b bv" and op: "m_opcode v = BitAnd" and low: "isInt64 bv 0xFFFFFFFF"
  shows "achieves opcode rs (do {
       trunc \<leftarrow> newOp rs Trunc (m_origin v) [a];
       (let (t, rs1) = insertNew trunc rs in do {
          zext \<leftarrow> newOp rs1 ZExt32 (m_origin v) [t];
          (let (newValue, rs2) = insertNew zext rs1 in becomes newValue rs2) }) })"
proof -
  let ?i = "m_value rs"
  note k = twoKidsD [OF binaryViewD(1) [OF view]] and types = binary_same_type [OF view]
  have cb: "m_type bv = Int64" "constVal bv = Some (V64 0xFFFFFFFF)"
    using isInt64_const [OF low operandD(2) [OF k(6)]] by simp_all
  have ty: "m_type av = Int64" "m_type v = Int64" using types op cb(1) by auto
  let ?t = "mkValue Trunc Int32 (m_origin v) [a] NoPayload"
  have t: "newOp rs Trunc (m_origin v) [a] = Some ?t" using k(11) by (simp add: newOp_def typeFor_def)
  obtain j rs1 where new1: "insertNew ?t rs = (j, rs1)" by (cases "insertNew ?t rs")
  have "set (m_children ?t) \<subseteq> below (lookup rs) (set []) ?i" using operandD(4) [OF k(5)] by (simp add: mkValue_def)
  note ins1 = reducing_insertNew [OF reducing_refl [OF k(1)] new1 wt_mk1(1) [of "lookup rs" a av, OF k(11) ty(1)] this]
  have l1: "lookup rs1 j = Some ?t" using ins1(2) by simp
  let ?z = "mkValue ZExt32 Int64 (m_origin v) [j] NoPayload"
  have z: "newOp rs1 ZExt32 (m_origin v) [j] = Some ?z" using l1 by (simp add: newOp_def typeFor_def mkValue_def)
  obtain l rs2 where new2: "insertNew ?z rs1 = (l, rs2)" by (cases "insertNew ?z rs1")
  have "set (m_children ?z) \<subseteq> below (lookup rs1) (set ([] @ [j])) ?i" using below_new [of j "{j}"] by (simp add: mkValue_def)
  note ins2 = reducing_insertNew [OF ins1(1) new2 wt_mk1(2) [of "lookup rs1" j ?t, OF l1] this]
  have t32: "m_type ?t = Int32" by (simp add: mkValue_def)
  have ji: "j \<noteq> ?i" "l \<noteq> ?i" "l \<noteq> j" using ins1(2,3) ins2(3) [OF t32] k(3) by (auto split: if_splits)
  have "\<exists>rs3. becomes l rs2 = Some (True, rs3) \<and> reduced rs rs3 (([] @ [j]) @ [l])"
  proof (rule reducing_becomes [OF ins2(1) [OF t32]])
    have l2: "lookup rs2 = (lookup rs)(j \<mapsto> ?t, l \<mapsto> ?z)" using ins1(2) ins2(2) [OF t32] by simp
    show "lookup rs2 ?i = Some v" "lookup rs2 l = Some ?z" using l2 ji k(3) by simp_all
    show "m_type ?z = m_type v" "m_type v \<noteq> Void" using ty by (simp_all add: mkValue_def)
    show "l \<in> below (lookup rs2) (set (([] @ [j]) @ [l])) ?i" by (rule below_new) simp
    show "observe env ?i v = Silent" for env by (rule binaryViewD(2) [OF view])
    fix env assume h: "holds (lookup rs2) ?i env"
    have h1: "holds (lookup rs1) ?i env" using h holds_add [of "lookup rs1" l ?z] ins2(2,3) [OF t32] by simp
    have h0: "holds (lookup rs) ?i env" using h1 holds_add [of "lookup rs" j ?t] ins1(2,3) by simp
    have "solves env l ?z" "solves env j ?t"
      using holds_solves [OF h, of l ?z] holds_solves [OF h1 l1] l2 ji by simp_all
    moreover obtain w where "env a = V64 w" using operand_typed [OF h0 k(5)] ty by (auto simp: typeOf_cases)
    moreover have "env b = V64 0xFFFFFFFF" by (rule operand_const [OF h0 k(6) cb(2)])
    ultimately show "allows (evalValue env v) (env l)"
      using k(4) by (simp add: op solves_def evalValue_def args_def mkValue_def op_defs and_low_word)
  qed
  then show ?thesis unfolding t using new1 new2 z by (intro achieves_break) auto
qed

lemma bitAndConstants_sound: "rewrite_rule BitAnd bitAndConstants"
proof (rule binary_rule)
  fix rs v a av b bv assume view: "binaryView rs v a av b bv" and op: "m_opcode v = BitAnd"
  note k = twoKidsD [OF binaryViewD(1) [OF view]] and types = binary_same_type [OF view]
  have t: "m_type av = m_type v" "m_type bv = m_type v" using types op by auto
  consider "isIntValue bv 0" | "\<not> isIntValue bv 0" "isAllOnes v bv"
    | "\<not> isIntValue bv 0" "\<not> isAllOnes v bv" "isInt64 bv 0xFFFFFFFF"
    | "\<not> isIntValue bv 0" "\<not> isAllOnes v bv" "\<not> isInt64 bv 0xFFFFFFFF" by blast
  then show "achieves BitAnd rs (bitAndConstants rs)"
  proof cases
    case 1
    have "achieves BitAnd rs (becomes b rs)"
    proof (rule binary_becomes [OF view k(6) t(2)])
      fix env assume h: "holds (lookup rs) (m_value rs) env" and a: "typeOf (env a) = m_type av"
      from operand_isInt [OF h k(6) 1] show "allows (evalOp (m_opcode v) (m_payload v) [env a, env b]) (env b)"
        using a t by (auto simp: op typeOf_cases op_defs)
    qed
    then show ?thesis using k 1 by (simp add: bitAndConstants_def)
  next
    case 2
    note ones = isAllOnes_int64 [OF 2(2) operandD(2) [OF k(6)] t(2)]
    have "achieves BitAnd rs (becomes a rs)"
    proof (rule binary_becomes [OF view k(5) t(1)])
      fix env assume h: "holds (lookup rs) (m_value rs) env" and "typeOf (env a) = m_type av"
      then show "allows (evalOp (m_opcode v) (m_payload v) [env a, env b]) (env a)"
        using ones t operand_const [OF h k(6)] by (auto simp: op typeOf_cases op_defs)
    qed
    then show ?thesis using k 2 by (simp add: bitAndConstants_def)
  next
    case 3
    then show ?thesis using k bitAnd_low_word [OF view op] by (simp add: bitAndConstants_def)
  qed (use k binary_keep [OF view op] in \<open>simp add: bitAndConstants_def\<close>)
qed simp

lemma reassociateBits_sound:
  "rewrite_rule BitAnd (reassociate BitAnd False bitAndConstant)"
  "rewrite_rule BitOr (reassociate BitOr False bitOrConstant)"
  "rewrite_rule BitXor (reassociate BitXor False bitXorConstant)"
  by (rule reassociate_sound [OF _ reassociates_ops(2)] reassociate_sound [OF _ reassociates_ops(3)]
      reassociate_sound [OF _ reassociates_ops(4)];
      simp add: mathOps_def ac_simps foldBitAnd.constant_fold_axioms foldBitOr.constant_fold_axioms
        foldBitXor.constant_fold_axioms)+

lemma reduceBitAnd_sound: "rewrite_rule BitAnd reduceBitAnd"
  unfolding reduceBitAnd_def
  by (rule rewrite_rule_inOrder)
    (auto simp: commutativeOps_def intro: handleCommutativity_sound foldBitAnd.foldConstants_sound
      reassociateBits_sound sameOperands_sound bitAndConstants_sound)

lemma bitOrConstants_sound: "rewrite_rule BitOr bitOrConstants"
proof (rule binary_rule)
  fix rs v a av b bv assume view: "binaryView rs v a av b bv" and op: "m_opcode v = BitOr"
  note k = twoKidsD [OF binaryViewD(1) [OF view]] and types = binary_same_type [OF view]
  have t: "m_type av = m_type v" "m_type bv = m_type v" using types op by auto
  consider "isIntValue bv 0" | "\<not> isIntValue bv 0" "isAllOnes v bv"
    | "\<not> isIntValue bv 0" "\<not> isAllOnes v bv" by blast
  then show "achieves BitOr rs (bitOrConstants rs)"
  proof cases
    case 1
    have "achieves BitOr rs (becomes a rs)"
    proof (rule binary_becomes [OF view k(5) t(1)])
      fix env assume h: "holds (lookup rs) (m_value rs) env" and a: "typeOf (env a) = m_type av"
      from operand_isInt [OF h k(6) 1] show "allows (evalOp (m_opcode v) (m_payload v) [env a, env b]) (env a)"
        using a t by (auto simp: op typeOf_cases op_defs)
    qed
    then show ?thesis using k 1 by (simp add: bitOrConstants_def)
  next
    case 2
    note ones = isAllOnes_int64 [OF 2(2) operandD(2) [OF k(6)] t(2)]
    have "achieves BitOr rs (becomes b rs)"
    proof (rule binary_becomes [OF view k(6) t(2)])
      fix env assume h: "holds (lookup rs) (m_value rs) env" and "typeOf (env a) = m_type av"
      then show "allows (evalOp (m_opcode v) (m_payload v) [env a, env b]) (env b)"
        using ones t operand_const [OF h k(6)] by (auto simp: op typeOf_cases op_defs)
    qed
    then show ?thesis using k 2 by (simp add: bitOrConstants_def)
  qed (use k binary_keep [OF view op] in \<open>simp add: bitOrConstants_def\<close>)
qed simp

lemma reduceBitOr_sound: "rewrite_rule BitOr reduceBitOr"
  unfolding reduceBitOr_def
  by (rule rewrite_rule_inOrder)
    (auto simp: commutativeOps_def intro: handleCommutativity_sound foldBitOr.foldConstants_sound
      reassociateBits_sound sameOperands_sound bitOrConstants_sound)

text \<open>\<open>invertedCompare\<close> builds the negation of a comparison.\<close>

lemma invertedCompareOp_compares:
  assumes "invertedCompareOp opcode t = Some other"
  shows "opcode \<in> {Equal, NotEqual, LessThan, GreaterThan, LessEqual, GreaterEqual, Above, Below, AboveEqual, BelowEqual}"
  using assms by (cases opcode) (simp_all add: invertedCompareOp_def)

lemma inverted_eval:
  assumes inv: "invertedCompareOp opcode t = Some other" and t: "t \<noteq> Void"
    and unsigned: "opcode \<in> {Above, Below, AboveEqual, BelowEqual} \<Longrightarrow> isInt t"
    and xy: "typeOf x = t" "typeOf y = t"
  shows "\<exists>c. evalOp opcode pl [x, y] = rbool c \<and> evalOp other pl' [x, y] = rbool (\<not> c)"
proof -
  note e = evalOp.simps op_defs invertedCompareOp_def
  show ?thesis
  proof (cases t)
    case Int32
    then obtain a b where "x = V32 a" "y = V32 b" using xy by (auto simp: typeOf_cases)
    then show ?thesis using inv invertedCompareOp_compares [OF inv] Int32
      by (auto simp: e linorder_not_less linorder_not_le intro: exI [where x = "a = b"])
  next
    case Int64
    then obtain a b where "x = V64 a" "y = V64 b" using xy by (auto simp: typeOf_cases)
    then show ?thesis using inv invertedCompareOp_compares [OF inv] Int64
      by (auto simp: e linorder_not_less linorder_not_le)
  next
    case Double
    then obtain a b where "x = VD a" "y = VD b" using xy by (auto simp: typeOf_cases)
    then show ?thesis using inv invertedCompareOp_compares [OF inv] Double unsigned
      by (auto simp: e)
  qed (use t in simp)
qed

lemma compare_wt:
  assumes "wtValue s v" "m_opcode v \<in> {Equal, NotEqual, LessThan, GreaterThan, LessEqual, GreaterEqual, Above, Below, AboveEqual, BelowEqual}"
  shows "numChildren v = 2" "childType s v 0 = childType s v 1" "m_type v = Int32"
    "m_opcode v \<in> {Above, Below, AboveEqual, BelowEqual} \<Longrightarrow> childIsInt s v 0"
  using wtD(1) [OF assms(1)] assms(2) by (auto simp: validateTypes_def validateCompare_def)

lemma wt_mkCompare:
  assumes "s a = Some av" "s b = Some bv" "m_type av \<noteq> Void" "m_type bv = m_type av"
    and "other \<in> {Equal, NotEqual, LessThan, GreaterThan, LessEqual, GreaterEqual, Above, Below, AboveEqual, BelowEqual}"
    and "other \<in> {Above, Below, AboveEqual, BelowEqual} \<Longrightarrow> isInt (m_type av)"
  shows "wtValue s (mkValue other Int32 origin [a, b] NoPayload)"
proof -
  let ?v = "mkValue other Int32 origin [a, b] NoPayload"
  have "validateCompare s ?v" "validateChildren s ?v"
    using assms(1-4) by (simp_all add: validateCompare_def validateChildren_def childType_def child_def numChildren_def mkValue_def)
  moreover have "childIsInt s ?v 0 = isInt (m_type av)"
    using assms(1) by (simp add: childIsInt_def childType_def child_def mkValue_def isInt_cases)
  moreover have "m_opcode ?v = other" "m_payload ?v = NoPayload" by (simp_all add: mkValue_def)
  ultimately show ?thesis using assms(5,6)
    by (elim insertE emptyE) (simp_all add: wtValue_def payloadOK_def accepts_defs validateTypes_def isCheckMath_def)
qed

lemma inverted_unsigned:
  "invertedCompareOp opcode t = Some other \<Longrightarrow>
     other \<in> {Equal, NotEqual, LessThan, GreaterThan, LessEqual, GreaterEqual, Above, Below, AboveEqual, BelowEqual} \<and>
     (other \<in> {Above, Below, AboveEqual, BelowEqual} \<longrightarrow> opcode \<in> {Above, Below, AboveEqual, BelowEqual})"
  by (cases opcode) (auto simp: invertedCompareOp_def split: if_splits)

lemma invertedCompare_sound:
  assumes rs: "ready rs" and a: "operand rs a av" and inv: "invertedCompare (lookup rs) av = Some w"
  shows "wtValue (lookup rs) w" "m_type w = Int32" "m_type av = Int32"
    "set (m_children w) \<subseteq> below (lookup rs) {} (m_value rs)"
    "holds (lookup rs) (m_value rs) env \<Longrightarrow> \<exists>c. evalValue env av = rbool c \<and> evalValue env w = rbool (\<not> c)"
proof -
  obtain c cs cv other where w: "m_children av = c # cs" "lookup rs c = Some cv"
      "invertedCompareOp (m_opcode av) (m_type cv) = Some other"
      "w = mkValue other (m_type av) (m_origin av) (m_children av) NoPayload"
    using inv by (auto simp: invertedCompare_def split: list.splits option.splits)
  note cmp = compare_wt [OF operandD(2) [OF a] invertedCompareOp_compares [OF w(3)]]
  obtain c' cv' d dv where cd: "m_children av = [c', d]" "operand rs c' cv'" "operand rs d dv"
      "childType (lookup rs) av 0 = Some (m_type cv')" "childType (lookup rs) av 1 = Some (m_type dv)"
      and ev: "\<And>env. evalValue env av = evalOp (m_opcode av) (m_payload av) [env c', env d]"
    using binary_children [OF rs a cmp(1)] by metis
  have c: "c' = c" "cv' = cv" using w(1,2) cd(1) operandD(1) [OF cd(2)] by auto
  have same: "m_type dv = m_type cv" using cmp(2) cd(4,5) c by simp
  note inv = inverted_unsigned [OF w(3)]
  show t: "m_type av = Int32" by (rule cmp(3))
  show "m_type w = Int32" using t w(4) by (simp add: mkValue_def)
  show "set (m_children w) \<subseteq> below (lookup rs) {} (m_value rs)"
    using w(4) cd(1) operandD(4) [OF cd(2)] operandD(4) [OF cd(3)] by (simp add: mkValue_def)
  have int: "isInt (m_type cv)" if "m_opcode av \<in> {Above, Below, AboveEqual, BelowEqual}"
    using cmp(4) [OF that] cd(4) c by (auto simp: childIsInt_def)
  have "wtValue (lookup rs) (mkValue other Int32 (m_origin av) [c, d] NoPayload)"
    using wt_mkCompare [of "lookup rs" c cv d dv other] inv int same operandD(1,3) [OF cd(2)] operandD(1) [OF cd(3)]
    unfolding c by blast
  then show "wtValue (lookup rs) w" using w(4) cd(1) c t by simp
  assume h: "holds (lookup rs) (m_value rs) env"
  have "typeOf (env c') = m_type cv" "typeOf (env d) = m_type cv"
    using operand_typed [OF h cd(2)] operand_typed [OF h cd(3)] c same by simp_all
  then show "\<exists>c. evalValue env av = rbool c \<and> evalValue env w = rbool (\<not> c)"
    using inverted_eval [OF w(3) _ int, of "env c'" "env d"] operandD(3) [OF cd(2)] c ev w(4) cd(1)
    by (simp add: evalValue_def args_def mkValue_def)
qed

lemma bitXorRest_sound: "rewrite_rule BitXor bitXorRest"
proof (rule binary_rule)
  fix rs v a av b bv assume view: "binaryView rs v a av b bv" and op: "m_opcode v = BitXor"
  note k = twoKidsD [OF binaryViewD(1) [OF view]] and types = binary_same_type [OF view]
  have t: "m_type av = m_type v" "m_type bv = m_type v" "isInt (m_type v)" using types op by auto
  consider w where "isInt32 bv 1" "invertedCompare (lookup rs) av = Some w"
    | "\<not> (isInt32 bv 1 \<and> invertedCompare (lookup rs) av \<noteq> None)" "a = b"
    | "\<not> (isInt32 bv 1 \<and> invertedCompare (lookup rs) av \<noteq> None)" "a \<noteq> b" "isIntValue bv 0"
    | "\<not> (isInt32 bv 1 \<and> invertedCompare (lookup rs) av \<noteq> None)" "a \<noteq> b" "\<not> isIntValue bv 0" by blast
  then show "achieves BitXor rs (bitXorRest rs)"
  proof cases
    case (1 w)
    note one = isInt32_const [OF 1(1) operandD(2) [OF k(6)]] and inv = invertedCompare_sound [OF k(1,5) 1(2)]
    have "achieves BitXor rs (replaceWithFolded (Some w) rs)"
    proof (rule achieves_folded [OF k(1,2) inv(1)])
      show "m_type w = m_type v" "m_type v \<noteq> Void" using inv t by auto
      show "observe env (m_value rs) v = Silent" for env by (rule binaryViewD(2) [OF view])
      fix env z assume h: "holds (lookup rs) (m_value rs) env" and z: "allows (evalValue env w) z"
      then show "allows (evalValue env v) z"
        using inv(5) [OF h] operand_solves [OF h k(5)] operand_const [OF h k(6)] one
        by (auto simp: binaryViewD(3) [OF view] op solves_def rbool_def op_defs split: if_splits)
    qed (rule inv(4))
    then show ?thesis using k 1 by (simp add: bitXorRest_def)
  next
    case 2
    then obtain w x where w: "intConstant (m_origin v) (m_type v) 0 = Some w" "isConstVal w x" "typeOf x = m_type v"
        "x = V32 0 \<or> x = V64 0"
      using t(3) by (cases "m_type v") (simp_all add: intConstant_def)
    have "achieves BitXor rs (replaceWithFolded (Some w) rs)"
    proof (rule achieves_folded [OF k(1,2) isConstVal_wt [OF w(2)]])
      show "m_type w = m_type v" "m_type v \<noteq> Void" "set (m_children w) \<subseteq> below (lookup rs) {} (m_value rs)"
        using isConstVal_type [OF w(2)] w(3) by auto
      show "observe env (m_value rs) v = Silent" for env by (rule binaryViewD(2) [OF view])
      fix env z assume h: "holds (lookup rs) (m_value rs) env" and z: "allows (evalValue env w) z"
      then show "allows (evalValue env v) z" using w(3,4) 2(2) operand_typed [OF h k(5)] t isConstVal_eval [OF w(2)]
        by (auto simp: binaryViewD(3) [OF view] op typeOf_cases op_defs)
    qed
    then show ?thesis using k 2 w by (auto simp: bitXorRest_def)
  next
    case 3
    have "achieves BitXor rs (becomes a rs)"
    proof (rule binary_becomes [OF view k(5) t(1)])
      fix env assume h: "holds (lookup rs) (m_value rs) env" and a: "typeOf (env a) = m_type av"
      from operand_isInt [OF h k(6) 3(3)] show "allows (evalOp (m_opcode v) (m_payload v) [env a, env b]) (env a)"
        using a t by (auto simp: op typeOf_cases op_defs)
    qed
    then show ?thesis using k 3 by (auto simp: bitXorRest_def)
  qed (use k binary_keep [OF view op] in \<open>auto simp: bitXorRest_def\<close>)
qed simp

lemma reduceBitXor_sound: "rewrite_rule BitXor reduceBitXor"
  unfolding reduceBitXor_def
  by (rule rewrite_rule_inOrder)
    (auto simp: commutativeOps_def intro: handleCommutativity_sound foldBitXor.foldConstants_sound
      reassociateBits_sound bitXorRest_sound)

subsection \<open>Shifts\<close>

lemma handleShiftByZero_sound:
  assumes "opcode \<in> {Shl, SShr, ZShr}"
  shows "rewrite_rule opcode handleShiftByZero"
proof (rule binary_rule)
  show "opcode \<in> binaryOps" using assms by auto
  fix rs v a av b bv assume view: "binaryView rs v a av b bv" and op: "m_opcode v = opcode"
  note k = twoKidsD [OF binaryViewD(1) [OF view]]
  have t: "m_type av = m_type v" "isInt (m_type v)" "m_type bv = Int32"
    using wtD(1) [OF k(10)] op assms k(13,14) by (auto simp: validateTypes_def)
  show "achieves opcode rs (handleShiftByZero rs)"
  proof (cases "isIntValue bv 0")
    case True
    have "achieves opcode rs (becomes a rs)"
    proof (rule binary_becomes [OF view k(5) t(1)])
      fix env assume h: "holds (lookup rs) (m_value rs) env" and a: "typeOf (env a) = m_type av"
      from operand_isInt [OF h k(6) True] show "allows (evalOp (m_opcode v) (m_payload v) [env a, env b]) (env a)"
        using a t assms by (auto simp: op isInt_cases typeOf_cases op_defs)
    qed
    then show ?thesis using k True by (simp add: handleShiftByZero_def)
  qed (use k binary_keep [OF view op] in \<open>simp add: handleShiftByZero_def\<close>)
qed

lemma reduceShl_sound: "rewrite_rule Shl reduceShl"
  unfolding reduceShl_def
  by (rule rewrite_rule_inOrder) (auto intro: foldShl.foldConstants_sound handleShiftByZero_sound)

lemma reduceSShr_sound: "rewrite_rule SShr reduceSShr"
  unfolding reduceSShr_def
  by (rule rewrite_rule_inOrder) (auto intro: foldSShr.foldConstants_sound handleShiftByZero_sound)

lemma reduceZShr_sound: "rewrite_rule ZShr reduceZShr"
  unfolding reduceZShr_def
  by (rule rewrite_rule_inOrder) (auto intro: foldZShr.foldConstants_sound handleShiftByZero_sound)

end
