(* ===== verification/B3ReduceConv.thy ===== *)
theory B3ReduceConv
  imports B3ReduceArith
begin

text \<open>
  The handlers of the conversions, of \<open>Select\<close> and of the comparisons meet the contract of
  strength reduction, the one rewrite of \<open>NotEqual\<close> that negates its value excepted.
\<close>

subsection \<open>Conversions\<close>

definition unaryView :: "ReduceStrength \<Rightarrow> Value \<Rightarrow> value_ptr \<Rightarrow> Value \<Rightarrow> bool" where
  "unaryView rs v a av \<longleftrightarrow>
     ready rs \<and> cur rs = Some v \<and> m_children v = [a] \<and> operand rs a av \<and> kid rs v 0 = Some (a, av) \<and>
     m_opcode v \<in> unaryOps \<and> wtValue (lookup rs) v \<and> childType (lookup rs) v 0 = Some (m_type av)"

lemma unary_numChildren: "validateTypes s v \<Longrightarrow> m_opcode v \<in> unaryOps \<Longrightarrow> numChildren v = 1"
  by (auto simp: validateTypes_def unaryOps_def)

lemma unary_rule:
  assumes "opcode \<in> unaryOps"
    and "\<And>rs v a av. unaryView rs v a av \<Longrightarrow> m_opcode v = opcode \<Longrightarrow> achieves opcode rs (rule rs)"
  shows "rewrite_rule opcode rule"
proof (rule rewrite_ruleI)
  fix rs v assume rs: "ready rs" "cur rs = Some v" and op: "m_opcode v = opcode"
  have "numChildren v = 1"
    using unary_numChildren [OF wtD(1) [OF ready_cur_wt [OF rs]]] op assms(1) by simp
  then obtain a where a: "m_children v = [a]" by (auto simp: numChildren_def length_Suc_conv)
  obtain av where "operand rs a av" using cur_operand [OF rs] a by fastforce
  then have "unaryView rs v a av"
    using rs a op assms(1) ready_cur_wt [OF rs] by (simp add: unaryView_def kid_def operandD childType_def child_def)
  then show "achieves opcode rs (rule rs)" using assms(2) op by blast
qed

lemma unaryViewD:
  assumes "unaryView rs v a av"
  shows "ready rs" "cur rs = Some v" "operand rs a av" "kid rs v 0 = Some (a, av)" "m_children v = [a]"
    "wtValue (lookup rs) v" "childType (lookup rs) v 0 = Some (m_type av)" "observe env i v = Silent"
    "evalValue env v = evalOp (m_opcode v) (m_payload v) [env a]"
  using assms by (auto simp: unaryView_def observe_silent silentOps_def evalValue_def args_def)

lemma unary_keep:
  assumes "unaryView rs v a av" "m_opcode v = opcode"
  shows "achieves opcode rs (Some (False, rs))"
  using achieves_keep [of rs v] unaryViewD(1,2) [OF assms(1)] assms(2) by simp

lemma unary_folded:
  assumes view: "unaryView rs v a av" and w: "isConstVal w x" "typeOf x = m_type v"
    and y: "constVal av = Some y" and sem: "allows (evalOp (m_opcode v) (m_payload v) [y]) x"
  shows "achieves opcode rs (replaceWithFolded (Some w) rs)"
proof (rule achieves_folded [OF unaryViewD(1,2) [OF view] isConstVal_wt [OF w(1)]])
  show "m_type w = m_type v" "m_type v \<noteq> Void" "set (m_children w) \<subseteq> below (lookup rs) {} (m_value rs)"
    using isConstVal_type [OF w(1)] w(2) by auto
  show "observe env (m_value rs) v = Silent" for env by (rule unaryViewD(8) [OF view])
  fix env z assume h: "holds (lookup rs) (m_value rs) env" and "allows (evalValue env w) z"
  then have "z = x" by (simp add: isConstVal_eval [OF w(1)])
  then show "allows (evalValue env v) z" using sem
    by (simp only: unaryViewD(9) [OF view] operand_const [OF h unaryViewD(3) [OF view] y])
qed

text \<open>The current value becomes the operand of its operand.\<close>

lemma unary_becomes:
  assumes view: "unaryView rs v a av" and c: "operand rs c cv" and type: "m_type cv = m_type v"
    and sem: "\<And>env. holds (lookup rs) (m_value rs) env \<Longrightarrow> allows (evalOp (m_opcode v) (m_payload v) [env a]) (env c)"
  shows "achieves opcode rs (becomes c rs)"
  by (rule achieves_becomes [OF unaryViewD(1,2) [OF view] c type])
    (simp_all add: unaryViewD(8,9) [OF view] sem)

lemma unary_child:
  assumes rs: "ready rs" and a: "operand rs a av" and op: "m_opcode av \<in> unaryOps"
  obtains c cv where "operand rs c cv" "kid rs av 0 = Some (c, cv)" "childType (lookup rs) av 0 = Some (m_type cv)"
    "\<And>env. evalValue env av = evalOp (m_opcode av) (m_payload av) [env c]"
proof -
  have "numChildren av = 1" using unary_numChildren [OF wtD(1) [OF operandD(2) [OF a]] op] .
  then obtain c where c: "m_children av = [c]" by (auto simp: numChildren_def length_Suc_conv)
  obtain cv where "operand rs c cv" using operand_operand [OF rs a] c by fastforce
  then show ?thesis using that c by (simp add: kid_def operandD childType_def child_def evalValue_def args_def)
qed

lemma unaryOpsI [simp]:
  "BitwiseCast \<in> unaryOps" "SExt32 \<in> unaryOps" "ZExt32 \<in> unaryOps" "Trunc \<in> unaryOps"
  by (simp_all add: unaryOps_def)

lemma bitwiseCast_const:
  assumes "bitwiseCastConstant av = Some w"
  shows "(\<exists>n. constVal av = Some (V64 n) \<and> isConstVal w (VD n)) \<or> (\<exists>d. constVal av = Some (VD d) \<and> isConstVal w (V64 d))"
proof -
  have "m_opcode av = Const64 \<or> m_opcode av = ConstDouble"
    using assms by (cases "m_opcode av") (simp_all add: bitwiseCastConstant_def)
  then show ?thesis using assms by (auto simp: bitwiseCastConstant_def class_fold_defs constVal_def)
qed

lemma reduceBitwiseCast_sound: "rewrite_rule BitwiseCast reduceBitwiseCast"
proof (rule unary_rule)
  fix rs v a av assume view: "unaryView rs v a av" and op: "m_opcode v = BitwiseCast"
  note k = unaryViewD [OF view]
  have t: "m_type v = Int64 \<and> m_type av = Double \<or> m_type v = Double \<and> m_type av = Int64"
    using wtD(1) [OF k(6)] k(7) op by (auto simp: validateTypes_def)
  show "achieves BitwiseCast rs (reduceBitwiseCast rs)"
  proof (cases "bitwiseCastConstant av")
    case (Some w)
    obtain x y where xy: "constVal av = Some y" "isConstVal w x" "typeOf x = m_type v"
        "\<And>pl. evalOp BitwiseCast pl [y] = Exactly x"
      using bitwiseCast_const [OF Some] t constVal_typed [of av _ "lookup rs", OF _ operandD(2) [OF k(3)]]
      by (auto simp: op_defs)
    have "achieves BitwiseCast rs (replaceWithFolded (Some w) rs)"
      using xy(4) op by (intro unary_folded [OF view xy(2,3,1)]) simp
    then show ?thesis using k Some by (simp add: reduceBitwiseCast_def)
  next
    case None
    show ?thesis
    proof (cases "m_opcode av = BitwiseCast")
      case True
      obtain c cv where c: "operand rs c cv" "kid rs av 0 = Some (c, cv)" "childType (lookup rs) av 0 = Some (m_type cv)"
          "\<And>env. evalValue env av = evalOp (m_opcode av) (m_payload av) [env c]"
        using unary_child [OF k(1,3)] True by auto
      have tc: "m_type cv = m_type v"
        using wtD(1) [OF operandD(2) [OF k(3)]] c(3) t True by (auto simp: validateTypes_def)
      have "achieves BitwiseCast rs (becomes c rs)"
      proof (rule unary_becomes [OF view c(1) tc])
        fix env assume h: "holds (lookup rs) (m_value rs) env"
        show "allows (evalOp (m_opcode v) (m_payload v) [env a]) (env c)"
          using operand_solves [OF h k(3)] operand_typed [OF h c(1)] t tc
          by (auto simp: op solves_def c(4) True typeOf_cases op_defs)
      qed
      then show ?thesis using k None True c(2) by (simp add: reduceBitwiseCast_def)
    qed (use k None unary_keep [OF view op] in \<open>simp add: reduceBitwiseCast_def\<close>)
  qed
qed simp

lemma reduceSExt32_sound: "rewrite_rule SExt32 reduceSExt32"
proof (rule unary_rule)
  fix rs v a av assume view: "unaryView rs v a av" and op: "m_opcode v = SExt32"
  note k = unaryViewD [OF view]
  have t: "m_type v = Int64" using wtD(1) [OF k(6)] op by (simp add: validateTypes_def)
  show "achieves SExt32 rs (reduceSExt32 rs)"
  proof (cases "hasInt32 av")
    case True
    have "achieves SExt32 rs (replaceWithFolded (Some (Const64Value (m_origin v) (scast (asInt32 av)))) rs)"
      by (rule unary_folded [OF view, of _ "V64 (scast (asInt32 av))" "V32 (asInt32 av)"]) (use True t op in \<open>simp_all add: hasInt32_def constVal_def op_defs\<close>)
    then show ?thesis using k True t by (simp add: reduceSExt32_def intConstant_def)
  qed (use k unary_keep [OF view op] in \<open>simp add: reduceSExt32_def\<close>)
qed simp

lemma reduceZExt32_sound: "rewrite_rule ZExt32 reduceZExt32"
proof (rule unary_rule)
  fix rs v a av assume view: "unaryView rs v a av" and op: "m_opcode v = ZExt32"
  note k = unaryViewD [OF view]
  have t: "m_type v = Int64" using wtD(1) [OF k(6)] op by (simp add: validateTypes_def)
  show "achieves ZExt32 rs (reduceZExt32 rs)"
  proof (cases "hasInt32 av")
    case True
    have "achieves ZExt32 rs (replaceWithFolded (Some (Const64Value (m_origin v) (ucast (asInt32 av)))) rs)"
      by (rule unary_folded [OF view, of _ "V64 (ucast (asInt32 av))" "V32 (asInt32 av)"]) (use True t op in \<open>simp_all add: hasInt32_def constVal_def op_defs\<close>)
    then show ?thesis using k True t by (simp add: reduceZExt32_def intConstant_def)
  qed (use k unary_keep [OF view op] in \<open>simp add: reduceZExt32_def\<close>)
qed simp

lemma reduceTrunc_sound: "rewrite_rule Trunc reduceTrunc"
proof (rule unary_rule)
  fix rs v a av assume view: "unaryView rs v a av" and op: "m_opcode v = Trunc"
  note k = unaryViewD [OF view]
  have t: "m_type v = Int32" using wtD(1) [OF k(6)] op by (simp add: validateTypes_def)
  consider "hasInt64 av" | "\<not> hasInt64 av" "m_opcode av = SExt32 \<or> m_opcode av = ZExt32"
    | "\<not> hasInt64 av" "\<not> (m_opcode av = SExt32 \<or> m_opcode av = ZExt32)" by blast
  then show "achieves Trunc rs (reduceTrunc rs)"
  proof cases
    case 1
    have "achieves Trunc rs (replaceWithFolded (Some (Const32Value (m_origin v) (ucast (asInt64 av)))) rs)"
      by (rule unary_folded [OF view, of _ "V32 (ucast (asInt64 av))" "V64 (asInt64 av)"]) (use 1 t op in \<open>simp_all add: hasInt64_def constVal_def op_defs\<close>)
    then show ?thesis using k 1 t by (simp add: reduceTrunc_def intConstant_def)
  next
    case 2
    then have "m_opcode av \<in> unaryOps" by auto
    then obtain c cv where c: "operand rs c cv" "kid rs av 0 = Some (c, cv)" "childType (lookup rs) av 0 = Some (m_type cv)"
        "\<And>env. evalValue env av = evalOp (m_opcode av) (m_payload av) [env c]"
      using unary_child [OF k(1,3)] by metis
    have tc: "m_type cv = m_type v"
      using wtD(1) [OF operandD(2) [OF k(3)]] c(3) t 2(2) by (auto simp: validateTypes_def)
    have "achieves Trunc rs (becomes c rs)"
    proof (rule unary_becomes [OF view c(1) tc])
      fix env assume h: "holds (lookup rs) (m_value rs) env"
      have "ucast (ucast (w :: int32) :: int64) = w" for w by (rule bit_word_eqI) (auto simp: bit_simps)
      then show "allows (evalOp (m_opcode v) (m_payload v) [env a]) (env c)"
        using operand_solves [OF h k(3)] operand_typed [OF h c(1)] t tc 2(2)
        by (auto simp: op solves_def c(4) typeOf_cases op_defs)
    qed
    then show ?thesis using k 2 c(2) by (auto simp: reduceTrunc_def)
  qed (use k unary_keep [OF view op] in \<open>simp add: reduceTrunc_def\<close>)
qed simp

subsection \<open>Boolean values\<close>

text \<open>A value for which \<open>returnsBool\<close> holds is 0 or 1 in every environment.\<close>

lemma compare_rbool:
  assumes rs: "ready rs" and a: "operand rs a av" and h: "holds (lookup rs) (m_value rs) env"
    and op: "m_opcode av \<in> {Equal, NotEqual, LessThan, GreaterThan, LessEqual, GreaterEqual, Above, Below, AboveEqual, BelowEqual}"
  shows "\<exists>c. evalValue env av = rbool c"
proof -
  note cmp = compare_wt [OF operandD(2) [OF a] op]
  obtain c cv d dv where cd: "operand rs c cv" "operand rs d dv"
      "childType (lookup rs) av 0 = Some (m_type cv)" "childType (lookup rs) av 1 = Some (m_type dv)"
      and ev: "\<And>env. evalValue env av = evalOp (m_opcode av) (m_payload av) [env c, env d]"
    using binary_children [OF rs a cmp(1)] by metis
  have t: "typeOf (env c) = m_type cv" "typeOf (env d) = m_type cv" "m_type cv \<noteq> Void"
    using operand_typed [OF h cd(1)] operand_typed [OF h cd(2)] cmp(2) cd(3,4) operandD(3) [OF cd(1)] by simp_all
  moreover have "isInt (m_type cv)" if "m_opcode av \<in> {Above, Below, AboveEqual, BelowEqual}"
    using cmp(4) [OF that] cd(3) by (auto simp: childIsInt_def)
  ultimately show ?thesis using op unfolding ev
    by (cases "m_type cv"; elim insertE emptyE; auto simp: typeOf_cases op_defs)
qed

lemma returnsBool_sound:
  assumes rs: "ready rs" and a: "operand rs a av" and h: "holds (lookup rs) (m_value rs) env"
    and bool: "returnsBool (lookup rs) av"
  shows "m_type av = Int32" "env a = V32 0 \<or> env a = V32 1"
proof -
  show t: "m_type av = Int32" using bool by (auto simp: returnsBool_def split: if_splits)
  consider "m_opcode av = Const32" "asInt32 av = 0 \<or> asInt32 av = 1"
    | "m_opcode av = BitAnd" "\<exists>c. child (lookup rs) av 1 = Some c \<and> isInt32 c 1"
    | "m_opcode av \<in> {Equal, NotEqual, LessThan, GreaterThan, LessEqual, GreaterEqual, Above, Below, AboveEqual, BelowEqual}"
    using bool t unfolding returnsBool_def by (cases "m_opcode av") (auto split: option.splits)
  then show "env a = V32 0 \<or> env a = V32 1"
  proof cases
    case 1
    then show ?thesis using operand_const [OF h a] by (auto simp: constVal_def)
  next
    case 2
    then obtain c cv d dv where cd: "m_children av = [c, d]" "operand rs c cv" "operand rs d dv"
        and ev: "evalValue env av = evalOp (m_opcode av) (m_payload av) [env c, env d]"
      using binary_children [OF rs a inner_same_type(3) [OF a]] by (metis insertI1 insertI2)
    have one: "isInt32 dv 1" using 2(2) cd operandD(1) [OF cd(3)] by (auto simp: child_def)
    then have "env d = V32 1" using isInt32_const [OF one operandD(2) [OF cd(3)]] operand_const [OF h cd(3)] by simp
    moreover have "typeOf (env c) = Int32"
      using operand_typed [OF h cd(2)] inner_same_type(1) [OF a] 2(1) cd t operandD(1) [OF cd(2)]
      by (simp add: childType_def child_def)
    ultimately show ?thesis using operand_solves [OF h a] 2(1) ev by (auto simp: solves_def typeOf_cases op_defs and_one_eq mod_2_eq_odd split: if_splits)
  next
    case 3
    then show ?thesis using compare_rbool [OF rs a h] operand_solves [OF h a] by (auto simp: solves_def rbool_def)
  qed
qed

subsection \<open>Select\<close>

lemma truthy_equal_zero:
  assumes "isInt t" "typeOf x = t" "y = V32 0 \<and> t = Int32 \<or> y = V64 0 \<and> t = Int64"
  shows "allows (evalOp Equal pl [x, y]) z \<Longrightarrow> truthy z \<longleftrightarrow> \<not> truthy x"
    "allows (evalOp NotEqual pl [x, y]) z \<Longrightarrow> truthy z \<longleftrightarrow> truthy x"
  using assms by (auto simp: typeOf_cases op_defs rbool_def)

text \<open>
  The condition of a branch or a select that tests another value against zero, or flips a
  boolean, has the opposite truth of that value.
\<close>

lemma negated_condition:
  assumes rs: "ready rs" and c: "operand rs c cv"
    and x: "kid rs cv 0 = Some (x, xv)" and y: "kid rs cv 1 = Some (y, yv)"
    and not: "m_opcode cv = Equal \<and> isIntValue yv 0 \<or>
      m_opcode cv = BitXor \<and> isInt32 yv 1 \<and> returnsBool (lookup rs) xv"
  shows "operand rs x xv" "isInt (m_type xv)"
    "holds (lookup rs) (m_value rs) env \<Longrightarrow> truthy (env c) \<longleftrightarrow> \<not> truthy (env x)"
proof -
  have n: "numChildren cv = 2"
    using not binary_numChildren [OF wtD(1) [OF operandD(2) [OF c]]] by auto
  obtain x' xv' y' yv' where xy: "operand rs x' xv'" "operand rs y' yv'" "kid rs cv 0 = Some (x', xv')"
      "kid rs cv (Suc 0) = Some (y', yv')" "childType (lookup rs) cv 0 = Some (m_type xv')"
      "childType (lookup rs) cv 1 = Some (m_type yv')"
      and ev: "\<And>env. evalValue env cv = evalOp (m_opcode cv) (m_payload cv) [env x', env y']"
    using binary_children [OF rs c n] by metis
  have eq: "x' = x" "xv' = xv" "y' = y" "yv' = yv" using xy(3,4) x y by auto
  have "childType (lookup rs) cv 0 = childType (lookup rs) cv 1"
    using wtD(1) [OF operandD(2) [OF c]] not by (auto simp: validateTypes_def validateMath_def validateCompare_def)
  then have same: "m_type xv = m_type yv" using xy(5,6) eq by simp
  show ox: "operand rs x xv" using xy(1) eq by simp
  have oy: "operand rs y yv" using xy(2) eq by simp
  show int: "isInt (m_type xv)"
    using not same isIntValue_const [of yv 0, OF _ operandD(2) [OF oy]] isInt32_const [OF _ operandD(2) [OF oy]] by auto
  assume h: "holds (lookup rs) (m_value rs) env"
  have sol: "allows (evalOp (m_opcode cv) (m_payload cv) [env x, env y]) (env c)"
    using operand_solves [OF h c] by (simp add: solves_def ev eq)
  show "truthy (env c) \<longleftrightarrow> \<not> truthy (env x)"
    using not
  proof
    assume e: "m_opcode cv = Equal \<and> isIntValue yv 0"
    have "env y = V32 0 \<and> m_type xv = Int32 \<or> env y = V64 0 \<and> m_type xv = Int64"
      using operand_isInt [OF h oy, of 0] e same by auto
    from truthy_equal_zero(1) [OF int operand_typed [OF h ox] this] show ?thesis using sol e by metis
  next
    assume e: "m_opcode cv = BitXor \<and> isInt32 yv 1 \<and> returnsBool (lookup rs) xv"
    have "env y = V32 1" using isInt32_const [OF _ operandD(2) [OF oy]] operand_const [OF h oy] e by blast
    then show ?thesis using sol e returnsBool_sound(2) [OF rs ox h] by (auto simp: op_defs)
  qed
qed

lemma select_wt:
  assumes "wtValue s v" "m_opcode v = Select" "m_children v = [c, a, b]" "s x = Some xv" "isInt (m_type xv)"
  shows "wtValue s (v\<lparr>m_children := [x, b, a]\<rparr>)"
proof -
  have "childType s v 1 = Some (m_type v)" "childType s v 2 = Some (m_type v)"
    using wtD(1) [OF assms(1)] assms(2) by (auto simp: validateTypes_def)
  then obtain av bv where ab: "s a = Some av" "s b = Some bv" "m_type av = m_type v" "m_type bv = m_type v"
    using assms(3) by (auto simp: childType_def child_def at_def split: option.splits)
  have "m_type v \<noteq> Void" using wtD(2) [OF assms(1)] assms(3) ab by (simp add: validateChildren_def)
  then show ?thesis using ab assms wtD(3) [OF assms(1)]
    by (auto simp: wtValue_def validateChildren_def validateTypes_def childIsInt_def childType_def child_def
        numChildren_def isCheckMath_def at_def isInt_cases)
qed

text \<open>The test of the source for a condition that negates another value, in both handlers that use it.\<close>

definition isNotTest :: "ReduceStrength \<Rightarrow> Value \<Rightarrow> bool option" where
  "isNotTest rs cv =
     (if m_opcode cv = Equal then do { (y, yv) \<leftarrow> kid rs cv 1; Some (isIntValue yv 0) }
      else if m_opcode cv = BitXor then do {
        (x, xv) \<leftarrow> kid rs cv 0;
        (y, yv) \<leftarrow> kid rs cv 1;
        Some (isInt32 yv 1 \<and> returnsBool (lookup rs) xv) }
      else Some False)"

lemma isNotTest_total:
  assumes rs: "ready rs" and c: "operand rs c cv"
  obtains (yes) x xv y yv where "isNotTest rs cv = Some True" "kid rs cv 0 = Some (x, xv)" "kid rs cv 1 = Some (y, yv)"
      "m_opcode cv = Equal \<and> isIntValue yv 0 \<or> m_opcode cv = BitXor \<and> isInt32 yv 1 \<and> returnsBool (lookup rs) xv"
    | (no) "isNotTest rs cv = Some False"
proof (cases "m_opcode cv = Equal \<or> m_opcode cv = BitXor")
  case True
  then have "numChildren cv = 2" using binary_numChildren [OF wtD(1) [OF operandD(2) [OF c]]] by auto
  then obtain x xv y yv where xy: "kid rs cv 0 = Some (x, xv)" "kid rs cv (Suc 0) = Some (y, yv)"
    using binary_children [OF rs c] by metis
  have "isNotTest rs cv = Some (m_opcode cv = Equal \<and> isIntValue yv 0 \<or>
      m_opcode cv = BitXor \<and> isInt32 yv 1 \<and> returnsBool (lookup rs) xv)"
    using True xy by (auto simp: isNotTest_def)
  then show thesis using yes [of x xv y yv] no xy by auto
next
  case False
  then show thesis using no by (simp add: isNotTest_def)
qed

lemma reduceSelect_sound: "rewrite_rule Select reduceSelect"
proof (rule rewrite_ruleI)
  fix rs v assume rs: "ready rs" "cur rs = Some v" and op: "m_opcode v = Select"
  have wt: "wtValue (lookup rs) v" by (rule ready_cur_wt [OF rs])
  have n: "numChildren v = 3" and ct: "childType (lookup rs) v 1 = Some (m_type v)"
      "childType (lookup rs) v 2 = Some (m_type v)" using wtD(1) [OF wt] op by (auto simp: validateTypes_def)
  obtain c a b where ch: "m_children v = [c, a, b]"
    using n by (auto simp: numChildren_def numeral_3_eq_3 length_Suc_conv)
  obtain cv av bv where o: "operand rs c cv" "operand rs a av" "operand rs b bv"
    using cur_operand [OF rs] ch by (metis list.set_intros)
  have kids: "kid rs v 0 = Some (c, cv)" "kid rs v (Suc 0) = Some (a, av)" "kid rs v 2 = Some (b, bv)"
    using ch o by (simp_all add: kid_def operandD at_def)
  have t: "m_type av = m_type v" "m_type bv = m_type v"
    using ct ch operandD(1) [OF o(2)] operandD(1) [OF o(3)] by (simp_all add: childType_def child_def at_def)
  have ev: "evalValue env v = Exactly (if truthy (env c) then env a else env b)" "observe env i v = Silent" for env i
    using ch op by (simp_all add: evalValue_def args_def observe_def)
  have eq: "reduceSelect rs = (if hasInt32 cv then becomes (if asInt32 cv \<noteq> 0 then a else b) rs
      else do { isNot \<leftarrow> isNotTest rs cv;
        if isNot then do { (x, xv) \<leftarrow> kid rs cv 0; Some (True, changed (setCur (swapSelect x v) rs)) }
        else if a = b then becomes a rs else Some (False, rs) })"
    using rs kids by (simp add: reduceSelect_def isNotTest_def)
  show "achieves Select rs (reduceSelect rs)"
  proof (cases "hasInt32 cv")
    case True
    have const: "env c = V32 (asInt32 cv)" if "holds (lookup rs) (m_value rs) env" for env
      using operand_const [OF that o(1)] True by (simp add: hasInt32_def constVal_def)
    have "achieves Select rs (becomes a rs)" if "asInt32 cv \<noteq> 0"
      by (rule achieves_becomes [OF rs o(2) t(1)]) (simp_all add: ev const that)
    moreover have "achieves Select rs (becomes b rs)" if "asInt32 cv = 0"
      by (rule achieves_becomes [OF rs o(3) t(2)]) (simp_all add: ev const that)
    ultimately show ?thesis using True unfolding eq by simp
  next
    case False
    show ?thesis
    proof (rule isNotTest_total [OF rs(1) o(1)])
      fix x xv y yv assume y: "isNotTest rs cv = Some True" "kid rs cv 0 = Some (x, xv)" "kid rs cv 1 = Some (y, yv)"
        "m_opcode cv = Equal \<and> isIntValue yv 0 \<or> m_opcode cv = BitXor \<and> isInt32 yv 1 \<and> returnsBool (lookup rs) xv"
      note neg = negated_condition [OF rs(1) o(1) y(2-4)]
      let ?v = "swapSelect x v"
      have sw: "?v = v\<lparr>m_children := [x, b, a]\<rparr>" using ch by (simp add: swapSelect_def)
      have "achieves Select rs (Some (True, changed (setCur ?v rs)))"
      proof (rule achieves_setCur [OF rs])
        show "wtValue (lookup rs) ?v" unfolding sw
          by (rule select_wt [of "lookup rs" v c a b x xv, OF wt op ch operandD(1) [OF neg(1)] neg(2)])
        show "set (m_children ?v) \<subseteq> below (lookup rs) {} (m_value rs)"
          using operandD(4) [OF neg(1)] operandD(4) [OF o(2)] operandD(4) [OF o(3)] by (simp add: sw)
        fix env assume h: "holds (lookup rs) (m_value rs) env" and "solves env (m_value rs) ?v"
        then show "allows (evalValue env v) (env (m_value rs)) \<and> observe env (m_value rs) ?v = observe env (m_value rs) v"
          using neg(3) [OF h] ch op by (simp add: sw solves_def evalValue_def args_def observe_def)
      qed (simp_all add: sw)
      then show ?thesis using False y unfolding eq by simp
    next
      assume no: "isNotTest rs cv = Some False"
      have "achieves Select rs (becomes a rs)" if "a = b"
        using that by (intro achieves_becomes [OF rs o(2) t(1)]) (simp_all add: ev)
      then show ?thesis using False no achieves_keep [OF rs] op unfolding eq by simp
    qed
  qed
qed

subsection \<open>Equal and NotEqual\<close>

lemma equalBool_sound: "rewrite_rule Equal equalBool"
proof (rule binary_rule)
  fix rs v a av b bv assume view: "binaryView rs v a av b bv" and op: "m_opcode v = Equal"
  note k = twoKidsD [OF binaryViewD(1) [OF view]]
  have t: "m_type v = Int32" using compare_wt(3) [OF k(10)] op by simp
  have const: "env b = V32 c" if "isInt32 bv c" "holds (lookup rs) (m_value rs) env" for env c
    using isInt32_const [OF that(1) operandD(2) [OF k(6)]] operand_const [OF that(2) k(6)] by simp
  note bool = returnsBool_sound [OF k(1,5)]
  have tb: "m_type av = Int32" if "returnsBool (lookup rs) av" using that by (auto simp: returnsBool_def split: if_splits)
  consider "returnsBool (lookup rs) av" "isInt32 bv 0" | "returnsBool (lookup rs) av" "\<not> isInt32 bv 0" "isInt32 bv 1"
    | "\<not> (returnsBool (lookup rs) av \<and> (isInt32 bv 0 \<or> isInt32 bv 1))" by blast
  then show "achieves Equal rs (equalBool rs)"
  proof cases
    case 1
    have "achieves Equal rs (let (one, rs') = insertNew (Const32Value (m_origin v) 1) rs
        in replaceWithNew BitXor (m_origin v) [a, one] rs')"
    proof (rule achieves_op_const [OF k(1,2,5)])
      show "isConstVal (Const32Value (m_origin v) 1) (V32 1)" by simp
      show "op2Typed BitXor (m_type v) (m_type av) (typeOf (V32 1))" using t tb [OF 1(1)] by (simp add: op2Typed_def)
      fix env z assume h: "holds (lookup rs) (m_value rs) env" and "allows (evalOp BitXor NoPayload [env a, V32 1]) z"
      then show "allows (evalValue env v) z" using bool(2) [OF h 1(1)] const [OF 1(2) h]
        by (auto simp: binaryViewD(3) [OF view] op op_defs rbool_def)
    qed (rule binaryViewD(2) [OF view])
    then show ?thesis using k 1 by (simp add: equalBool_def)
  next
    case 2
    have "achieves Equal rs (becomes a rs)"
    proof (rule binary_becomes [OF view k(5)])
      fix env assume h: "holds (lookup rs) (m_value rs) env"
      show "allows (evalOp (m_opcode v) (m_payload v) [env a, env b]) (env a)"
        using bool(2) [OF h 2(1)] const [OF 2(3) h] by (auto simp: op op_defs rbool_def)
    qed (use t tb 2 in simp)
    then show ?thesis using k 2 by (simp add: equalBool_def)
  qed (use k binary_keep [OF view op] in \<open>auto simp: equalBool_def\<close>)
qed simp

lemma reduceEqual_sound: "rewrite_rule Equal reduceEqual"
  unfolding reduceEqual_def
  by (rule rewrite_rule_inOrder)
    (auto simp: commutativeOps_def intro: handleCommutativity_sound equalBool_sound foldEqual.foldCompare_sound)

text \<open>
  \<open>NotEqual(bool, 1)\<close> is turned into \<open>Equal(bool, 1)\<close>, which is its negation. The rest of the
  handler is sound: it does what a handler without that rewrite does.
\<close>

definition notEqualZero :: rewrite where
  "notEqualZero rs = do {
     v \<leftarrow> cur rs;
     (a, av) \<leftarrow> kid rs v 0;
     (b, bv) \<leftarrow> kid rs v 1;
     if returnsBool (lookup rs) av \<and> isInt32 bv 0 then becomes a rs else Some (False, rs) }"

text \<open>Where the wrong rewrite applies: the operands, in the order that canonicalisation gives them, are a boolean and the constant 1.\<close>

definition boolAndOne :: "store \<Rightarrow> Value \<Rightarrow> Value \<Rightarrow> bool" where
  "boolAndOne s av bv \<longleftrightarrow> returnsBool s av \<and> isInt32 bv 1 \<or> \<not> isConstant bv \<and> isInt32 av 1 \<and> returnsBool s bv"

definition comparesWithOne :: "store \<Rightarrow> Value \<Rightarrow> bool" where
  "comparesWithOne s v \<longleftrightarrow>
     m_opcode v = NotEqual \<and>
     (case m_children v of [a, b] \<Rightarrow> (case (s a, s b) of (Some av, Some bv) \<Rightarrow> boolAndOne s av bv | _ \<Rightarrow> False) | _ \<Rightarrow> False)"

text \<open>Whether a value is boolean does not depend on a value that is no constant.\<close>

lemma returnsBool_update:
  assumes "s i = Some u" "m_opcode u \<noteq> Const32" "m_opcode u' \<noteq> Const32"
  shows "returnsBool (s(i \<mapsto> u')) w = returnsBool s w"
proof -
  have "(case child (s(i \<mapsto> u')) w 1 of Some c \<Rightarrow> isInt32 c 1 | None \<Rightarrow> False) = (case child s w 1 of Some c \<Rightarrow> isInt32 c 1 | None \<Rightarrow> False)"
    using assms by (auto simp: child_def isInt32_def hasInt32_def split: option.splits)
  then show ?thesis unfolding returnsBool_def by (simp cong: opcode.case_cong)
qed

lemma notEqualZero_sound: "rewrite_rule NotEqual notEqualZero"
proof (rule binary_rule)
  fix rs v a av b bv assume view: "binaryView rs v a av b bv" and op: "m_opcode v = NotEqual"
  note k = twoKidsD [OF binaryViewD(1) [OF view]]
  have t: "m_type v = Int32" using compare_wt(3) [OF k(10)] op by simp
  show "achieves NotEqual rs (notEqualZero rs)"
  proof (cases "returnsBool (lookup rs) av \<and> isInt32 bv 0")
    case True
    have "achieves NotEqual rs (becomes a rs)"
    proof (rule binary_becomes [OF view k(5)])
      fix env assume h: "holds (lookup rs) (m_value rs) env"
      have "env b = V32 0" using isInt32_const [OF _ operandD(2) [OF k(6)]] operand_const [OF h k(6)] True by blast
      then show "allows (evalOp (m_opcode v) (m_payload v) [env a, env b]) (env a)"
        using returnsBool_sound(2) [OF k(1,5) h] True by (auto simp: op op_defs rbool_def)
    qed (use t True in \<open>auto simp: returnsBool_def split: if_splits\<close>)
    then show ?thesis using k True by (simp add: notEqualZero_def)
  qed (use k binary_keep [OF view op] in \<open>auto simp: notEqualZero_def\<close>)
qed simp

lemma saneNotEqual_sound:
  "rewrite_rule NotEqual (inOrder [handleCommutativity, notEqualZero, foldCompare notEqualConstant])"
  by (rule rewrite_rule_inOrder)
    (auto simp: commutativeOps_def intro: handleCommutativity_sound notEqualZero_sound foldNotEqual.foldCompare_sound)

lemma notEqualBool_sane:
  assumes "cur rs = Some v" "kid rs v 0 = Some (a, av)" "kid rs v (Suc 0) = Some (b, bv)"
    "\<not> (returnsBool (lookup rs) av \<and> isInt32 bv 1)"
  shows "notEqualBool rs = notEqualZero rs"
  using assms by (auto simp: notEqualBool_def notEqualZero_def)

lemma reduceNotEqual_sane:
  assumes rs: "ready rs" "cur rs = Some v" and op: "m_opcode v = NotEqual" and sane: "\<not> comparesWithOne (lookup rs) v"
  shows "reduceNotEqual rs = inOrder [handleCommutativity, notEqualZero, foldCompare notEqualConstant] rs"
proof -
  have n: "numChildren v = 2"
    using binary_numChildren [OF wtD(1) [OF ready_cur_wt [OF rs]]] op by simp
  then obtain a av b bv cs where k: "twoKids rs v a av b bv cs" using twoKidsI [OF rs] by auto
  note k = twoKidsD [OF k]
  have ch: "m_children v = [a, b]" using k(4) n by (simp add: numChildren_def)
  then have sane': "\<not> boolAndOne (lookup rs) av bv" using sane op k(11,12) by (simp add: comparesWithOne_def)
  let ?rs1 = "changed (setCur (swap01 v) rs)"
  have l: "lookup ?rs1 = (lookup rs)(m_value rs \<mapsto> swap01 v)"
    using valuesOf_setValue [of "m_proc rs" "m_value rs"] k(3) by (simp add: lookup_def setCur_def changed_def)
  then have c1: "cur ?rs1 = Some (swap01 v)" by (simp add: cur_def changed_def setCur_def)
  have k1: "kid ?rs1 (swap01 v) 0 = Some (b, bv)" "kid ?rs1 (swap01 v) (Suc 0) = Some (a, av)"
    using l k(4,11,12) operandD(5) [OF k(5)] operandD(5) [OF k(6)] by (simp_all add: kid_def swap01_children)
  have bool: "returnsBool (lookup ?rs1) w = returnsBool (lookup rs) w" for w
    unfolding l by (rule returnsBool_update [where u = v]) (use k(3) in \<open>simp_all add: op swap01_def\<close>)
  have swapped: "handleCommutativity rs = Some (False, rs) \<or> \<not> isConstant bv \<and> handleCommutativity rs = Some (False, ?rs1)"
    using k by (simp add: handleCommutativity_def)
  have "notEqualBool rs = notEqualZero rs"
    by (rule notEqualBool_sane [OF rs(2) k(7,9)]) (use sane' in \<open>simp add: boolAndOne_def\<close>)
  moreover have "notEqualBool ?rs1 = notEqualZero ?rs1" if "\<not> isConstant bv"
    by (rule notEqualBool_sane [OF c1 k1]) (use sane' that bool in \<open>auto simp: boolAndOne_def\<close>)
  ultimately show ?thesis using swapped by (auto simp: reduceNotEqual_def andThen_def)
qed

lemma reduceNotEqual_sound:
  assumes "ready rs" "cur rs = Some v" "m_opcode v = NotEqual" "\<not> comparesWithOne (lookup rs) v"
  shows "achieves NotEqual rs (reduceNotEqual rs)"
  using rewrite_rule.sound [OF saneNotEqual_sound assms(1-3)]
  unfolding reduceNotEqual_sane [OF assms] achieves_def .

end
