(* ===== verification/B3ReduceEffects.thy ===== *)
theory B3ReduceEffects
  imports B3ReduceConv
begin

text \<open>
  The handlers of the opcodes with an effect: memory accesses, checked arithmetic, \<open>Check\<close> and
  \<open>Branch\<close>. Their rewrites keep what is observed of the value as well as its result.
\<close>

subsection \<open>Memory accesses\<close>

lemma memory_last:
  assumes "wtValue s v" "acceptsMemory (m_opcode v)"
  shows "m_children v \<noteq> []" "map_option m_type (s (last (m_children v))) = Some Int64"
proof -
  have "numChildren v = 1 \<and> childType s v 0 = Some Int64 \<or> numChildren v = 2 \<and> childType s v 1 = Some Int64"
    using wtD(1) [OF assms(1)] assms(2) unfolding acceptsMemory_def
    by (elim insertE emptyE) (simp_all add: validateTypes_def)
  then show "m_children v \<noteq> []" "map_option m_type (s (last (m_children v))) = Some Int64"
    by (auto simp: numChildren_def childType_def child_def at_def numeral_2_eq_2 length_Suc_conv)
qed

lemma setLastChild_fields [simp]:
  "m_opcode (setLastChild c v) = m_opcode v" "m_type (setLastChild c v) = m_type v"
  "m_payload (setLastChild c v) = m_payload v" "m_children (setLastChild c v) = butlast (m_children v) @ [c]"
  "memRange (setLastChild c v) = memRange v" "memOffset (setLastChild c v) = memOffset v"
  by (simp_all add: setLastChild_def memRange_def memOffset_def)

lemma setOffset_fields [simp]:
  "m_opcode (setOffset off v) = m_opcode v" "m_type (setOffset off v) = m_type v"
  "m_payload (setOffset off v) = MemoryPayload off (memRange v)" "m_children (setOffset off v) = m_children v"
  "memRange (setOffset off v) = memRange v" "memOffset (setOffset off v) = off"
  by (simp_all add: setOffset_def memRange_def memOffset_def)

lemma memory_childType:
  assumes "m_children v \<noteq> []" "m_type xv = Int64" "s x = Some xv" "s (last (m_children v)) = Some cv" "m_type cv = Int64"
  shows "childType s (setOffset off (setLastChild x v)) k = childType s v k"
    "numChildren (setOffset off (setLastChild x v)) = numChildren v"
proof -
  obtain cs c where c: "m_children v = cs @ [c]" using assms(1) by (cases "m_children v" rule: rev_cases) auto
  show "numChildren (setOffset off (setLastChild x v)) = numChildren v" using c by (simp add: numChildren_def)
  show "childType s (setOffset off (setLastChild x v)) k = childType s v k"
    using assms c by (auto simp: childType_def child_def at_def nth_append)
qed

lemma memory_wt:
  assumes wt: "wtValue s v" and op: "acceptsMemory (m_opcode v)" and ext: "typeExt s s'"
    and x: "s' x = Some xv" "m_type xv = Int64"
  shows "wtValue s' (setOffset off (setLastChild x v))"
proof -
  have wt': "wtValue s' v" by (rule wtValue_ext [OF ext wt])
  note last = memory_last [OF wt' op]
  obtain cv where cv: "s' (last (m_children v)) = Some cv" "m_type cv = Int64" using last(2) by auto
  note same = memory_childType [of v xv s' x cv, OF last(1) x(2,1) cv]
  have "childIsInt s' (setOffset off (setLastChild x v)) k = childIsInt s' v k" for k
    by (simp add: childIsInt_def same)
  then have "validateOpcode (m_opcode v) s' (setOffset off (setLastChild x v)) = validateOpcode (m_opcode v) s' v"
    using op unfolding acceptsMemory_def by (elim insertE emptyE) (simp_all add: same)
  then have "validateTypes s' (setOffset off (setLastChild x v))"
    using wtD(1) [OF wt'] by (simp add: validateTypes_def)
  moreover have "validateChildren s' (setOffset off (setLastChild x v))"
    using wtD(2) [OF wt'] x by (auto simp: validateChildren_def dest: in_set_butlastD)
  moreover have "payloadOK (m_opcode v) (MemoryPayload off (memRange v))"
    using op by (auto simp: payloadOK_def acceptsMemory_def)
  moreover have "\<not> isCheckMath (m_opcode v)" "m_opcode v \<notin> {Check, Upsilon}"
    using op by (auto simp: acceptsMemory_def isCheckMath_def)
  ultimately show ?thesis by (auto simp: wtValue_def)
qed

lemma memory_observe:
  assumes "acceptsMemory (m_opcode v)"
  shows "evalValue env v = Anything"
    "observe env i v = Access (m_opcode v) (m_type v) (address (args env v) (memOffset v)) (memRange v) (butlast (args env v)) (env i)"
  using assms unfolding acceptsMemory_def
  by (auto simp: evalValue_def observe_def observeAccess_def)

lemma address_snoc: "address (xs @ [V64 a]) off = V64 (a + scast off)"
  by (cases xs) (simp_all add: address_def)

text \<open>Moving a constant between the address and the offset keeps the address that is accessed.\<close>

lemma memory_rewrite:
  assumes op: "acceptsMemory (m_opcode v)" and c: "m_children v \<noteq> []"
    and x: "env (last (m_children v)) = V64 a" "env x = V64 b" "a + scast (memOffset v) = b + scast off"
  shows "observe env i (setOffset off (setLastChild x v)) = observe env i v"
proof -
  obtain cs d where "m_children v = cs @ [d]" using c by (cases "m_children v" rule: rev_cases) auto
  then show ?thesis using op x by (simp add: memory_observe args_def address_snoc)
qed

lemma memory_view:
  assumes rs: "ready rs" "cur rs = Some v" and op: "acceptsMemory (m_opcode v)"
  obtains cs c cv where "m_children v = cs @ [c]" "operand rs c cv" "m_type cv = Int64" "lastKid rs v = Some (c, cv)"
    "set cs \<subseteq> below (lookup rs) {} (m_value rs)"
proof -
  note last = memory_last [OF ready_cur_wt [OF rs] op]
  obtain cs c where c: "m_children v = cs @ [c]" using last(1) by (cases "m_children v" rule: rev_cases) auto
  obtain cv where cv: "operand rs c cv" using cur_operand [OF rs, of c] c by auto
  moreover have "lastKid rs v = Some (c, cv)" using c operandD(1) [OF cv] by (simp add: lastKid_def kid_def at_def)
  moreover have "m_type cv = Int64" using last(2) c operandD(1) [OF cv] by simp
  moreover have "set cs \<subseteq> below (lookup rs) {} (m_value rs)"
    using below_child [of "lookup rs" "m_value rs" v] rs(2) c by (auto simp: cur_def)
  ultimately show ?thesis using that c by blast
qed

lemma foldOffset_sound:
  assumes op: "acceptsMemory opcode"
  shows "rewrite_rule opcode foldOffset"
proof (rule rewrite_ruleI)
  fix rs v assume rs: "ready rs" "cur rs = Some v" and vop: "m_opcode v = opcode"
  have mem: "acceptsMemory (m_opcode v)" using op vop by simp
  have wt: "wtValue (lookup rs) v" by (rule ready_cur_wt [OF rs])
  obtain cs c cv where c: "m_children v = cs @ [c]" "operand rs c cv" "m_type cv = Int64" "lastKid rs v = Some (c, cv)"
      "set cs \<subseteq> below (lookup rs) {} (m_value rs)" using memory_view [OF rs mem] .
  have keep: "achieves opcode rs (Some (False, rs))" using achieves_keep [OF rs] vop by simp
  show "achieves opcode rs (foldOffset rs)"
  proof (cases "m_opcode cv = Add")
    case True
    then have n: "numChildren cv = 2" using inner_same_type(3) [OF c(2)] by simp
    obtain x xv y yv where xy: "operand rs x xv" "operand rs y yv" "kid rs cv 0 = Some (x, xv)" "kid rs cv (Suc 0) = Some (y, yv)"
        "childType (lookup rs) cv 0 = Some (m_type xv)" "childType (lookup rs) cv 1 = Some (m_type yv)"
        and ev: "\<And>env. evalValue env cv = evalOp (m_opcode cv) (m_payload cv) [env x, env y]"
      using binary_children [OF rs(1) c(2) n] by metis
    have t: "m_type xv = Int64" using inner_same_type(1) [OF c(2)] True xy(5) c(3) by simp
    let ?off = "asIntPtr yv + scast (memOffset v)"
    show ?thesis
    proof (cases "hasIntPtr yv \<and> \<not> sumOverflows (asIntPtr yv) (scast (memOffset v)) \<and> scast (ucast ?off :: int32) = ?off")
      case fits: True
      let ?v = "setOffset (ucast ?off) (setLastChild x v)"
      have y: "constVal yv = Some (V64 (asIntPtr yv))"
        using fits by (auto simp: hasIntPtr_def asIntPtr_def is64Bit_def hasInt64_def constVal_def)
      have "achieves opcode rs (Some (False, changed (setCur ?v rs)))"
      proof (rule achieves_setCur [OF rs])
        show "wtValue (lookup rs) ?v" by (rule memory_wt [OF wt mem typeExt_refl operandD(1) [OF xy(1)] t])
        show "set (m_children ?v) \<subseteq> below (lookup rs) {} (m_value rs)" using c(1,5) operandD(4) [OF xy(1)] by simp
        fix env assume h: "holds (lookup rs) (m_value rs) env"
        obtain b where b: "env x = V64 b" using operand_typed [OF h xy(1)] t by (auto simp: typeOf_cases)
        have "env c = V64 (b + asIntPtr yv)"
          using operand_solves [OF h c(2)] operand_const [OF h xy(2) y] b True by (simp add: solves_def ev op_defs)
        then have "observe env (m_value rs) ?v = observe env (m_value rs) v"
          using fits c(1) b by (intro memory_rewrite [OF mem]) (simp_all add: add.assoc)
        then show "allows (evalValue env v) (env (m_value rs)) \<and> observe env (m_value rs) ?v = observe env (m_value rs) v"
          by (simp add: memory_observe(1) [OF mem])
      qed (use vop in simp_all)
      then show ?thesis using rs c(4) True xy fits by (simp add: foldOffset_def Let_def)
    qed (use rs c(4) True xy keep in \<open>auto simp: foldOffset_def Let_def\<close>)
  qed (use rs c(4) keep in \<open>simp add: foldOffset_def\<close>)
qed

lemma foldAddress_sound:
  assumes op: "acceptsMemory opcode"
  shows "rewrite_rule opcode foldAddress"
proof (rule rewrite_ruleI)
  fix rs v assume rs: "ready rs" "cur rs = Some v" and vop: "m_opcode v = opcode"
  have mem: "acceptsMemory (m_opcode v)" using op vop by simp
  have wt: "wtValue (lookup rs) v" by (rule ready_cur_wt [OF rs])
  obtain cs c cv where c: "m_children v = cs @ [c]" "operand rs c cv" "m_type cv = Int64" "lastKid rs v = Some (c, cv)"
      "set cs \<subseteq> below (lookup rs) {} (m_value rs)" using memory_view [OF rs mem] .
  have keep: "achieves opcode rs (Some (False, rs))" using achieves_keep [OF rs] vop by simp
  show "achieves opcode rs (foldAddress rs)"
  proof (cases "memOffset v \<noteq> 0 \<and> addConstant_int cv (memOffset v) \<noteq> None")
    case True
    then obtain w where w: "addConstant_int cv (memOffset v) = Some w" by blast
    have "m_opcode cv = Const64"
      using w c(3) wtD(1) [OF operandD(2) [OF c(2)]]
      by (auto simp: addConstant_int_def dispatch validateTypes_def split: if_splits)
    then have const: "constVal cv = Some (V64 (asInt64 cv))" and
        wc: "isConstVal w (V64 (asInt64 cv + scast (memOffset v)))"
      using w by (auto simp: addConstant_int_def dispatch Const64Value_addConstant_int_def constVal_def)
    let ?f = "\<lambda>j. setOffset 0 (setLastChild j v)"
    have "achieves opcode rs (let (j, rs') = insertNew w rs in Some (False, changed (setCur (?f j) rs')))"
    proof (rule achieves_insert_setCur [OF rs wc])
      fix j
      show "set (m_children (?f j)) \<subseteq> insert j (below (lookup rs) {} (m_value rs))" using c(1,5) by auto
      show "wtValue ((lookup rs)(j \<mapsto> w)) (?f j)" if "lookup rs j = None"
        using isConstVal_type [OF wc] by (intro memory_wt [OF wt mem typeExt_add [of "lookup rs" j w, OF that], of j w]) simp_all
      fix env assume h: "holds (lookup rs) (m_value rs) env" and "env j = V64 (asInt64 cv + scast (memOffset v))"
      then have "observe env (m_value rs) (?f j) = observe env (m_value rs) v"
        using c(1) operand_const [OF h c(2) const] by (intro memory_rewrite [OF mem]) simp_all
      then show "allows (evalValue env v) (env (m_value rs)) \<and> observe env (m_value rs) (?f j) = observe env (m_value rs) v"
        by (simp add: memory_observe(1) [OF mem])
    qed (use vop in simp_all)
    then show ?thesis using rs c(4) True w by (simp add: foldAddress_def)
  qed (use rs c(4) keep in \<open>auto simp: foldAddress_def\<close>)
qed

lemma reduceMemory_sound: "acceptsMemory opcode \<Longrightarrow> rewrite_rule opcode reduceMemory"
  unfolding reduceMemory_def
  by (rule rewrite_rule_inOrder) (auto intro: foldOffset_sound foldAddress_sound)

subsection \<open>Checked arithmetic\<close>

definition checkView :: "ReduceStrength \<Rightarrow> Value \<Rightarrow> value_ptr \<Rightarrow> Value \<Rightarrow> value_ptr \<Rightarrow> Value \<Rightarrow> value_ptr list \<Rightarrow> bool" where
  "checkView rs v a av b bv cs \<longleftrightarrow>
     twoKids rs v a av b bv cs \<and> isCheckMath (m_opcode v) \<and> m_type av = m_type v \<and> m_type bv = m_type v \<and> isInt (m_type v)"

lemma check_rule:
  assumes "isCheckMath opcode"
    and "\<And>rs v a av b bv cs. checkView rs v a av b bv cs \<Longrightarrow> m_opcode v = opcode \<Longrightarrow> achieves opcode rs (rule rs)"
  shows "rewrite_rule opcode rule"
proof (rule rewrite_ruleI)
  fix rs v assume rs: "ready rs" "cur rs = Some v" and op: "m_opcode v = opcode"
  note wt = wtD [OF ready_cur_wt [OF rs]]
  have check: "isCheckMath (m_opcode v)" using assms(1) op by simp
  have cm: "validateCheckMath (lookup rs) v" using wt(1) check by (auto simp: validateTypes_def isCheckMath_def)
  then obtain a av b bv cs where k: "twoKids rs v a av b bv cs"
    using twoKidsI [OF rs] by (auto simp: validateCheckMath_def)
  have "childType (lookup rs) v 0 = Some (m_type v)" "childType (lookup rs) v 1 = Some (m_type v)"
    using wt(4,5) check by auto
  then have "checkView rs v a av b bv cs"
    using k check cm twoKidsD(13,14) [OF k] by (auto simp: checkView_def validateCheckMath_def childIsInt_def)
  then show "achieves opcode rs (rule rs)" using assms(2) op by blast
qed

text \<open>The exact operation a checked opcode performs, and what is observed of it.\<close>

definition checkOp :: "opcode \<Rightarrow> int \<Rightarrow> int \<Rightarrow> int" where
  "checkOp opcode = (if opcode = CheckAdd then (+) else if opcode = CheckSub then (-) else (*))"

lemma check_eval:
  assumes "isCheckMath (m_opcode v)" "m_children v = a # b # cs"
  shows "evalValue env v = checked (checkOp (m_opcode v)) (env a # env b # map env cs)"
    "observe env i v = (if checkFails (checkOp (m_opcode v)) (env a # env b # map env cs)
       then Exits (m_payload v) (map env cs) else Silent)"
  using assms by (auto simp: isCheckMath_def evalValue_def observe_def args_def checkOp_def)

lemma checkViewD:
  assumes "checkView rs v a av b bv cs"
  shows "twoKids rs v a av b bv cs" "m_type av = m_type v" "m_type bv = m_type v" "isInt (m_type v)" "m_type v \<noteq> Void"
    "evalValue env v = checked (checkOp (m_opcode v)) (env a # env b # map env cs)"
    "observe env i v = (if checkFails (checkOp (m_opcode v)) (env a # env b # map env cs)
       then Exits (m_payload v) (map env cs) else Silent)"
    "holds (lookup rs) (m_value rs) env \<Longrightarrow> typeOf (env a) = m_type v"
    "holds (lookup rs) (m_value rs) env \<Longrightarrow> typeOf (env b) = m_type v"
  using assms twoKidsD(4) [of rs v a av b bv cs] check_eval operand_typed [of rs env a av] operand_typed [of rs env b bv]
    twoKidsD(5,6) [of rs v a av b bv cs]
  by (auto simp: checkView_def)

lemma check_keep:
  assumes "checkView rs v a av b bv cs" "m_opcode v = opcode"
  shows "achieves opcode rs (Some (False, rs))"
  using achieves_keep [of rs v] twoKidsD(1,2) [OF checkViewD(1) [OF assms(1)]] assms(2) by simp

text \<open>What a folding method of a checked operation promises.\<close>

locale check_fold =
  fixes opcode :: opcode and f :: "Value \<Rightarrow> Value \<Rightarrow> Value option"
  assumes check_opcode: "isCheckMath opcode"
    and folds: "f a b = Some w \<Longrightarrow>
      \<exists>x y z. constVal a = Some x \<and> constVal b = Some y \<and> isConstVal w z \<and> typeOf z = typeOf x \<and>
        (\<forall>xs. checked (checkOp opcode) (x # y # xs) = Exactly z \<and> \<not> checkFails (checkOp opcode) (x # y # xs))"
begin

lemma foldConstants_sound: "rewrite_rule opcode (foldConstants f)"
proof (rule check_rule [OF check_opcode])
  fix rs v a av b bv cs assume view: "checkView rs v a av b bv cs" and op: "m_opcode v = opcode"
  note k = twoKidsD [OF checkViewD(1) [OF view]] and c = checkViewD [OF view]
  show "achieves opcode rs (foldConstants f rs)"
  proof (cases "f av bv")
    case None
    then show ?thesis using k check_keep [OF view op]
      by (simp add: foldConstants_def replaceWithFolded_def replaceWithNewValue_def)
  next
    case (Some w)
    then obtain x y z where z: "constVal av = Some x" "constVal bv = Some y" "isConstVal w z" "typeOf z = typeOf x"
        "\<And>xs. checked (checkOp opcode) (x # y # xs) = Exactly z \<and> \<not> checkFails (checkOp opcode) (x # y # xs)"
      using folds by blast
    have "achieves opcode rs (replaceWithFolded (Some w) rs)"
    proof (rule achieves_folded [OF k(1,2) isConstVal_wt [OF z(3)]])
      show "m_type w = m_type v"
        using isConstVal_type [OF z(3)] z(4) constVal_typed [OF z(1) operandD(2) [OF k(5)]] c(2) by simp
      show "set (m_children w) \<subseteq> below (lookup rs) {} (m_value rs)" using isConstVal_type [OF z(3)] by simp
      fix env assume h: "holds (lookup rs) (m_value rs) env"
      note e = operand_const [OF h k(5) z(1)] operand_const [OF h k(6) z(2)]
      show "observe env (m_value rs) v = Silent" using z(5) by (simp add: c(7) op e)
      show "allows (evalValue env v) x'" if "allows (evalValue env w) x'" for x'
        using that z(5) by (simp add: c(6) op e isConstVal_eval [OF z(3)])
    qed (rule c(5))
    then show ?thesis using k Some by (simp add: foldConstants_def)
  qed
qed

end

lemmas check_fold_eval = fold_defs class_fold_defs dispatch accessor_defs constVal_simps checkOp_def checked_def checkFails_def
  safeAdd_exact safeSub_exact safeMultiply_exact

interpretation foldCheckAdd: check_fold CheckAdd checkAddConstant
  by unfold_locales (auto simp: isCheckMath_def check_fold_eval split: if_splits)

interpretation foldCheckSub: check_fold CheckSub checkSubConstant
  by unfold_locales (auto simp: isCheckMath_def check_fold_eval split: if_splits)

interpretation foldCheckMul: check_fold CheckMul checkMulConstant
  by unfold_locales (auto simp: isCheckMath_def check_fold_eval split: if_splits)

lemma checkZero_sound:
  assumes "opcode = CheckAdd \<or> opcode = CheckSub"
  shows "rewrite_rule opcode checkZero"
proof (rule check_rule)
  show "isCheckMath opcode" using assms by (auto simp: isCheckMath_def)
  fix rs v a av b bv cs assume view: "checkView rs v a av b bv cs" and op: "m_opcode v = opcode"
  note k = twoKidsD [OF checkViewD(1) [OF view]] and c = checkViewD [OF view]
  show "achieves opcode rs (checkZero rs)"
  proof (cases "isIntValue bv 0")
    case True
    have "achieves opcode rs (becomes a rs)"
    proof (rule achieves_becomes [OF k(1,2,5) c(2)])
      fix env assume h: "holds (lookup rs) (m_value rs) env"
      from operand_isInt [OF h k(6) True] c(8) [OF h]
      have ab: "(\<exists>w. env a = V32 w) \<and> env b = V32 0 \<or> (\<exists>w. env a = V64 w) \<and> env b = V64 0"
        using c(2,3) by (auto simp: typeOf_cases)
      show "observe env (m_value rs) v = Silent" "allows (evalValue env v) (env a)"
        using ab assms op by (auto simp: c(6,7) checkOp_def checked_def checkFails_def inSigned_def sint_inSigned)
    qed
    then show ?thesis using k True by (simp add: checkZero_def)
  qed (use k check_keep [OF view op] in \<open>simp add: checkZero_def\<close>)
qed

lemma reduceCheckAdd_sound: "rewrite_rule CheckAdd reduceCheckAdd"
  unfolding reduceCheckAdd_def
  by (rule rewrite_rule_inOrder)
    (auto simp: commutativeOps_def intro: handleCommutativity_sound foldCheckAdd.foldConstants_sound checkZero_sound)

text \<open>A checked operation with another second operand of the same type, as an addition, stays well-typed.\<close>

lemma check_wt:
  assumes wt: "wtValue s v" and op: "isCheckMath (m_opcode v)" and c: "m_children v = a # b # cs"
    and ext: "typeExt s s'" and j: "s' j = Some w" "m_type w = m_type v"
  shows "wtValue s' (v\<lparr>m_opcode := CheckAdd, m_children := a # j # cs\<rparr>)"
proof -
  let ?v = "v\<lparr>m_opcode := CheckAdd, m_children := a # j # cs\<rparr>"
  have wt': "wtValue s' v" by (rule wtValue_ext [OF ext wt])
  note types = wtD [OF wt']
  have ct: "childType s' ?v i = childType s' v i" for i
  proof (cases "i = 1")
    case True
    then show ?thesis using types(5) [OF op] c j by (auto simp: childType_def child_def)
  next
    case False
    then show ?thesis using c by (cases i; cases "i - 1") (simp_all add: childType_def child_def)
  qed
  then have int: "childIsInt s' ?v i = childIsInt s' v i" for i by (simp add: childIsInt_def)
  have n: "numChildren ?v = numChildren v" using c by (simp add: numChildren_def)
  have reps: "stackmapReps ?v = stackmapReps v" "constrainedRep ?v i = constrainedRep v i" for i
    by (simp_all add: stackmapReps_def constrainedRep_def)
  have "validateStackmap s' ?v = validateStackmap s' v" by (simp only: validateStackmap_def reps n int ct)
  moreover have "validateCheckMath s' v" using types(1) op by (auto simp: validateTypes_def isCheckMath_def)
  ultimately have "validateCheckMath s' ?v" by (simp add: validateCheckMath_def reps n int)
  moreover have "validateChildren s' ?v"
  proof -
    obtain bv where "s' b = Some bv" "m_type bv = m_type v" "m_type bv \<noteq> Void"
      using types(2) types(5) [OF op] c by (auto simp: validateChildren_def childType_def child_def)
    then show ?thesis using types(2) c j by (simp add: validateChildren_def)
  qed
  moreover have "payloadOK CheckAdd (m_payload v)"
    using types(3) op by (auto simp: payloadOK_def isCheckMath_def accepts_defs)
  moreover have "childType s' ?v 0 = Some (m_type v)" "childType s' ?v 1 = Some (m_type v)"
    using types(4,5) op unfolding ct by auto
  ultimately show ?thesis by (simp add: wtValue_def validateTypes_def isCheckMath_def)
qed

lemma convertToAdd_setChild:
  assumes "isCheckMath (m_opcode v)" "m_children v = a # b # cs"
  shows "convertToAdd v = Some (v\<lparr>m_opcode := CheckAdd\<rparr>)"
    "setChild 1 j (v\<lparr>m_opcode := CheckAdd\<rparr>) = v\<lparr>m_opcode := CheckAdd, m_children := a # j # cs\<rparr>"
  using assms by (simp_all add: convertToAdd_def setChild_def)

lemma add_observe:
  assumes c: "m_children v = a # b # cs" and op: "isCheckMath (m_opcode v)"
    and same: "checked (+) (env a # env j # map env cs) = checked (checkOp (m_opcode v)) (env a # env b # map env cs)"
      "checkFails (+) (env a # env j # map env cs) = checkFails (checkOp (m_opcode v)) (env a # env b # map env cs)"
    and sol: "solves env i (v\<lparr>m_opcode := CheckAdd, m_children := a # j # cs\<rparr>)"
  shows "allows (evalValue env v) (env i) \<and>
    observe env i (v\<lparr>m_opcode := CheckAdd, m_children := a # j # cs\<rparr>) = observe env i v"
proof -
  let ?v = "v\<lparr>m_opcode := CheckAdd, m_children := a # j # cs\<rparr>"
  have new: "isCheckMath (m_opcode ?v)" "m_children ?v = a # j # cs" "checkOp (m_opcode ?v) = (+)" "m_payload ?v = m_payload v"
    by (simp_all add: isCheckMath_def checkOp_def)
  show ?thesis
    using sol same unfolding solves_def check_eval [OF new(1,2)] new(3,4) check_eval [OF op c] by simp
qed

lemma checkNeg_const:
  assumes "checkNegConstant bv = Some w" "wtValue s bv"
  shows "(\<exists>n. m_type bv = Int32 \<and> constVal bv = Some (V32 n) \<and> isConstVal w (V32 (- n)) \<and> n \<noteq> - n) \<or>
    (\<exists>n. m_type bv = Int64 \<and> constVal bv = Some (V64 n) \<and> isConstVal w (V64 (- n)) \<and> n \<noteq> - n)"
  using assms(1) wtD(1) [OF assms(2)]
  by (auto simp: checkNegConstant_def class_fold_defs dispatch constVal_def validateTypes_def split: if_splits)

lemma sint_uminus:
  assumes "n \<noteq> - (n :: 'a::len word)"
  shows "sint (- n) = - sint n"
proof -
  have "sint n \<noteq> smin TYPE('a)"
  proof
    assume "sint n = smin TYPE('a)"
    moreover have "n = word_of_int (sint n)" by simp
    ultimately have "n = word_of_int (- (2 ^ (LENGTH('a) - 1)))" by (simp only: smin_def)
    then have "n + n = word_of_int (- (2 * 2 ^ (LENGTH('a) - 1)))" by simp
    also have "\<dots> = word_of_int (- (2 ^ LENGTH('a)))" by (simp flip: power_Suc)
    also have "\<dots> = (0 :: 'a word)" by (simp add: word_of_int_eq_iff)
    finally show False using assms by (simp add: eq_neg_iff_add_eq_0)
  qed
  then have "smin TYPE('a) \<le> - sint n" "- sint n \<le> smax TYPE('a)"
    using sint_inSigned [of n] smax_smin [where 'a = 'a] by auto
  then have "sint (word_of_int (- sint n) :: 'a word) = - sint n"
    unfolding sint_sbintrunc' by (intro signed_take_bit_int_eq_self) (simp_all add: smin_def smax_def)
  then show ?thesis by simp
qed

lemma checkSub_negated:
  "m \<noteq> - m \<Longrightarrow> typeOf x = Int32 \<Longrightarrow> checked (+) (x # V32 (- m) # xs) = checked (-) (x # V32 m # xs)"
  "m \<noteq> - m \<Longrightarrow> typeOf x = Int32 \<Longrightarrow> checkFails (+) (x # V32 (- m) # xs) = checkFails (-) (x # V32 m # xs)"
  "n \<noteq> - n \<Longrightarrow> typeOf x = Int64 \<Longrightarrow> checked (+) (x # V64 (- n) # xs) = checked (-) (x # V64 n # xs)"
  "n \<noteq> - n \<Longrightarrow> typeOf x = Int64 \<Longrightarrow> checkFails (+) (x # V64 (- n) # xs) = checkFails (-) (x # V64 n # xs)"
  by (auto simp: typeOf_cases checked_def checkFails_def sint_uminus)

lemma checkSubToAdd_sound: "rewrite_rule CheckSub checkSubToAdd"
proof (rule check_rule)
  show "isCheckMath CheckSub" by (simp add: isCheckMath_def)
  fix rs v a av b bv cs assume view: "checkView rs v a av b bv cs" and op: "m_opcode v = CheckSub"
  note k = twoKidsD [OF checkViewD(1) [OF view]] and c = checkViewD [OF view]
  have cm: "isCheckMath (m_opcode v)" using op by (simp add: isCheckMath_def)
  show "achieves CheckSub rs (checkSubToAdd rs)"
  proof (cases "checkNegConstant bv")
    case (Some w)
    from checkNeg_const [OF Some operandD(2) [OF k(6)]] obtain x y where
      xy: "constVal bv = Some y" "isConstVal w x" "typeOf x = m_type v"
        "\<And>z xs. typeOf z = m_type v \<Longrightarrow> checked (+) (z # x # xs) = checked (-) (z # y # xs)"
        "\<And>z xs. typeOf z = m_type v \<Longrightarrow> checkFails (+) (z # x # xs) = checkFails (-) (z # y # xs)"
      using checkSub_negated c(3) by (elim disjE exE conjE) (metis typeOf.simps(1,2))+
    let ?f = "\<lambda>j. v\<lparr>m_opcode := CheckAdd, m_children := a # j # cs\<rparr>"
    have "achieves CheckSub rs (let (j, rs') = insertNew w rs in Some (True, changed (setCur (?f j) rs')))"
    proof (rule achieves_insert_setCur [OF k(1,2) xy(2)])
      fix j
      show "set (m_children (?f j)) \<subseteq> insert j (below (lookup rs) {} (m_value rs))"
        using below_child [of "lookup rs" "m_value rs" v, OF k(3)] k(4) by auto
      show "wtValue ((lookup rs)(j \<mapsto> w)) (?f j)" if "lookup rs j = None"
        using isConstVal_type [OF xy(2)] xy(3)
        by (intro check_wt [OF k(10) cm k(4) typeExt_add [of "lookup rs" j w, OF that], of j w]) simp_all
      fix env assume h: "holds (lookup rs) (m_value rs) env" and j: "env j = x" and sol: "solves env (m_value rs) (?f j)"
      show "allows (evalValue env v) (env (m_value rs)) \<and> observe env (m_value rs) (?f j) = observe env (m_value rs) v"
        using xy(4,5) [OF c(8) [OF h]] operand_const [OF h k(6) xy(1)] j
        by (intro add_observe [OF k(4) cm _ _ sol]) (simp_all add: op checkOp_def)
    qed simp_all
    then show ?thesis using k Some convertToAdd_setChild [OF cm k(4)] by (simp add: checkSubToAdd_def)
  qed (use k check_keep [OF view op] in \<open>simp add: checkSubToAdd_def\<close>)
qed

lemma reduceCheckSub_sound: "rewrite_rule CheckSub reduceCheckSub"
  unfolding reduceCheckSub_def
  by (rule rewrite_rule_inOrder)
    (auto intro: foldCheckSub.foldConstants_sound checkZero_sound checkSubToAdd_sound)

lemma checkMulByConstant_sound: "rewrite_rule CheckMul checkMulByConstant"
proof (rule check_rule)
  show "isCheckMath CheckMul" by (simp add: isCheckMath_def)
  fix rs v a av b bv cs assume view: "checkView rs v a av b bv cs" and op: "m_opcode v = CheckMul"
  note k = twoKidsD [OF checkViewD(1) [OF view]] and c = checkViewD [OF view]
  have cm: "isCheckMath (m_opcode v)" using op by (simp add: isCheckMath_def)
  have ab: "(\<exists>w. env a = V32 w) \<and> env b = V32 (ucast n) \<or> (\<exists>w. env a = V64 w) \<and> env b = V64 n"
    if h: "holds (lookup rs) (m_value rs) env" and "hasInt bv" "asInt bv = n" for env n
    using operand_isInt [OF h k(6), of n] that(2,3) c(8) [OF h] c(3) by (auto simp: typeOf_cases isIntValue_def)
  note e = checkOp_def checked_def checkFails_def inSigned_def sint_inSigned
  consider "hasInt bv" "asInt bv = 0" | "hasInt bv" "asInt bv = 1" | "hasInt bv" "asInt bv = 2"
    | "\<not> hasInt bv \<or> asInt bv \<notin> {0, 1, 2}" by blast
  then show "achieves CheckMul rs (checkMulByConstant rs)"
  proof cases
    case 1
    obtain w x where w: "intConstant (m_origin v) (m_type v) 0 = Some w" "isConstVal w x" "typeOf x = m_type v"
        "x = V32 0 \<or> x = V64 0"
      using c(4) by (cases "m_type v") (simp_all add: intConstant_def)
    have "achieves CheckMul rs (replaceWithFolded (Some w) rs)"
    proof (rule achieves_folded [OF k(1,2) isConstVal_wt [OF w(2)]])
      show "m_type w = m_type v" "m_type v \<noteq> Void" "set (m_children w) \<subseteq> below (lookup rs) {} (m_value rs)"
        using isConstVal_type [OF w(2)] w(3) by auto
      fix env assume h: "holds (lookup rs) (m_value rs) env"
      have t: "typeOf (env a) = typeOf x" using c(8) [OF h] w(3) by simp
      show "observe env (m_value rs) v = Silent"
        using ab [OF h 1] op smax_smin [where 'a = 32] smax_smin [where 'a = 64] by (auto simp: c(7) e)
      show "allows (evalValue env v) z" if "allows (evalValue env w) z" for z
        using that ab [OF h 1] w(4) t op smax_smin [where 'a = 32] smax_smin [where 'a = 64]
        by (auto simp: c(6) isConstVal_eval [OF w(2)] e)
    qed
    then show ?thesis using k 1 w(1) by (simp add: checkMulByConstant_def)
  next
    case 2
    have "achieves CheckMul rs (becomes a rs)"
    proof (rule achieves_becomes [OF k(1,2,5) c(2)])
      fix env assume h: "holds (lookup rs) (m_value rs) env"
      have one: "ucast (1 :: int64) = (1 :: int32)" by simp
      show "observe env (m_value rs) v = Silent" "allows (evalValue env v) (env a)"
        using ab [OF h 2] op by (auto simp: c(6,7) e one)
    qed
    then show ?thesis using k 2 by (simp add: checkMulByConstant_def)
  next
    case 3
    let ?v = "v\<lparr>m_opcode := CheckAdd, m_children := a # a # cs\<rparr>"
    have "achieves CheckMul rs (Some (True, changed (setCur ?v rs)))"
    proof (rule achieves_setCur [OF k(1,2)])
      show "wtValue (lookup rs) ?v" by (rule check_wt [OF k(10) cm k(4) typeExt_refl k(11) c(2)])
      show "set (m_children ?v) \<subseteq> below (lookup rs) {} (m_value rs)"
        using below_child [of "lookup rs" "m_value rs" v, OF k(3)] k(4) by auto
      fix env assume h: "holds (lookup rs) (m_value rs) env" and sol: "solves env (m_value rs) ?v"
      have "sint (ucast (2 :: int64) :: int32) = 2" "sint (2 :: int64) = 2" by simp_all
      then show "allows (evalValue env v) (env (m_value rs)) \<and> observe env (m_value rs) ?v = observe env (m_value rs) v"
        using ab [OF h 3] op by (intro add_observe [OF k(4) cm _ _ sol]) (auto simp: checkOp_def checked_def checkFails_def mult_2_right)
    qed simp_all
    then show ?thesis using k 3 convertToAdd_setChild [OF cm k(4)] by (simp add: checkMulByConstant_def)
  qed (use k check_keep [OF view op] in \<open>auto simp: checkMulByConstant_def\<close>)
qed

lemma reduceCheckMul_sound: "rewrite_rule CheckMul reduceCheckMul"
  unfolding reduceCheckMul_def
  by (rule rewrite_rule_inOrder)
    (auto simp: commutativeOps_def intro: handleCommutativity_sound foldCheckMul.foldConstants_sound checkMulByConstant_sound)

subsection \<open>Check and Branch\<close>

lemma asTriState_truthy:
  assumes h: "holds (lookup rs) (m_value rs) env" and a: "operand rs a av"
  shows "asTriState av = FalseTriState \<Longrightarrow> \<not> truthy (env a)" "asTriState av = TrueTriState \<Longrightarrow> truthy (env a)"
proof -
  have "m_opcode av \<in> {Const32, Const64, ConstDouble}" if "asTriState av \<noteq> MixedTriState"
    using that by (cases "m_opcode av") (simp_all add: asTriState_def)
  then show "asTriState av = FalseTriState \<Longrightarrow> \<not> truthy (env a)" "asTriState av = TrueTriState \<Longrightarrow> truthy (env a)"
    using operand_const [OF h a] by (auto simp: asTriState_def constVal_def)
qed

lemma reduceCheck_sound: "rewrite_rule Check reduceCheck"
proof (rule rewrite_ruleI)
  fix rs v assume rs: "ready rs" "cur rs = Some v" and op: "m_opcode v = Check"
  have wt: "wtValue (lookup rs) v" by (rule ready_cur_wt [OF rs])
  then have "m_children v \<noteq> []" "m_type v = Void"
    using wtD(1) [OF wt] op by (auto simp: validateTypes_def numChildren_def wtValue_def)
  then obtain a cs where c: "m_children v = a # cs" by (auto simp: neq_Nil_conv)
  obtain av where a: "operand rs a av" using cur_operand [OF rs] c by fastforce
  have kid: "kid rs v 0 = Some (a, av)" using c operandD(1) [OF a] by (simp add: kid_def)
  show "achieves Check rs (reduceCheck rs)"
  proof (cases "isLikeZero av")
    case True
    have "achieves Check rs (Some (True, changed (setCur (replaceWithNop v) rs)))"
    proof (rule achieves_setCur [OF rs])
      show "m_type (replaceWithNop v) = m_type v" using \<open>m_type v = Void\<close> by (simp add: replaceWithNop_def mkValue_def)
      show "wtValue (lookup rs) (replaceWithNop v)"
        by (simp add: replaceWithNop_def mkValue_def wtValue_def payloadOK_def accepts_defs validateChildren_def
            validateTypes_def numChildren_def isCheckMath_def)
      show "set (m_children (replaceWithNop v)) \<subseteq> below (lookup rs) {} (m_value rs)"
        by (simp add: replaceWithNop_def mkValue_def)
      fix env assume "holds (lookup rs) (m_value rs) env"
      then have "\<not> truthy (env a)" using asTriState_truthy(1) [OF _ a] True by (simp add: isLikeZero_def)
      then show "allows (evalValue env v) (env (m_value rs)) \<and>
          observe env (m_value rs) (replaceWithNop v) = observe env (m_value rs) v"
        using op c by (simp add: evalValue_def observe_def args_def replaceWithNop_def mkValue_def)
    qed simp
    then show ?thesis using rs kid True by (simp add: reduceCheck_def)
  qed (use rs kid achieves_keep [OF rs] op in \<open>simp add: reduceCheck_def\<close>)
qed

definition branchView :: "ReduceStrength \<Rightarrow> Value \<Rightarrow> value_ptr \<Rightarrow> Value \<Rightarrow> FrequentedBlock \<Rightarrow> FrequentedBlock \<Rightarrow> bool" where
  "branchView rs v c cv yes no \<longleftrightarrow>
     ready rs \<and> cur rs = Some v \<and> m_opcode v = Branch \<and> m_children v = [c] \<and> operand rs c cv \<and>
     kid rs v 0 = Some (c, cv) \<and> m_payload v = ControlPayload [yes, no] \<and> wtValue (lookup rs) v \<and> m_type v = Void"

lemma branch_rule:
  assumes "\<And>rs v c cv yes no. branchView rs v c cv yes no \<Longrightarrow> achieves Branch rs (rule rs)"
  shows "rewrite_rule Branch rule"
proof (rule rewrite_ruleI)
  fix rs v assume rs: "ready rs" "cur rs = Some v" and op: "m_opcode v = Branch"
  note wt = ready_cur_wt [OF rs]
  have n: "numChildren v = 1" "m_type v = Void" using wtD(1) [OF wt] op by (simp_all add: validateTypes_def)
  then obtain c where c: "m_children v = [c]" by (auto simp: numChildren_def length_Suc_conv)
  obtain cv where cv: "operand rs c cv" using cur_operand [OF rs] c by fastforce
  have "\<exists>ss. m_payload v = ControlPayload ss \<and> length ss = 2"
    using wtD(3) [OF wt] op by (auto simp: payloadOK_def accepts_defs split: payload.splits)
  then obtain yes no where "m_payload v = ControlPayload [yes, no]"
    by (auto simp: numeral_2_eq_2 length_Suc_conv)
  then have "branchView rs v c cv yes no"
    using rs op n c cv wt operandD(1) [OF cv] by (simp add: branchView_def kid_def)
  then show "achieves Branch rs (rule rs)" by (rule assms)
qed

lemma branchViewD:
  assumes "branchView rs v c cv yes no"
  shows "ready rs" "cur rs = Some v" "m_opcode v = Branch" "m_children v = [c]" "operand rs c cv"
    "kid rs v 0 = Some (c, cv)" "m_payload v = ControlPayload [yes, no]" "wtValue (lookup rs) v" "m_type v = Void"
    "successors v = [yes, no]" "evalValue env v = Anything"
    "observe env i v = Goto (fst (if truthy (env c) then yes else no))" "achieves Branch rs (Some (False, rs))"
  using assms achieves_keep [of rs v]
  by (auto simp: branchView_def successors_def evalValue_def observe_def args_def)

text \<open>A branch on another condition, with the same or with exchanged successors.\<close>

lemma branch_setCur:
  assumes view: "branchView rs v c cv yes no" and x: "operand rs x xv" "isInt (m_type xv)"
    and v': "v' = v\<lparr>m_children := [x], m_payload := ControlPayload [yes', no']\<rparr>"
    and same: "\<And>env. holds (lookup rs) (m_value rs) env \<Longrightarrow>
        (if truthy (env x) then yes' else no') = (if truthy (env c) then yes else no)"
  shows "achieves Branch rs (Some (False, changed (setCur v' rs)))"
proof (rule achieves_setCur)
  note k = branchViewD [OF view]
  show "ready rs" "cur rs = Some v" by (rule k)+
  show "m_type v' = m_type v" "False \<or> m_opcode v' = Branch" using v' k(3) by simp_all
  show "wtValue (lookup rs) v'"
    using wtD [OF k(8)] k(3,9) v' operandD(1,3) [OF x(1)] x(2)
    by (auto simp: wtValue_def payloadOK_def accepts_defs validateTypes_def validateChildren_def numChildren_def
        childIsInt_def childType_def child_def isInt_cases isCheckMath_def)
  show "set (m_children v') \<subseteq> below (lookup rs) {} (m_value rs)" using v' operandD(4) [OF x(1)] by simp
  fix env assume "holds (lookup rs) (m_value rs) env"
  then show "allows (evalValue env v) (env (m_value rs)) \<and> observe env (m_value rs) v' = observe env (m_value rs) v"
    using same k(3,4,7) by (simp add: k(11) v' observe_def args_def successors_def)
qed

lemma branchNotEqual_sound: "rewrite_rule Branch branchNotEqual"
proof (rule branch_rule)
  fix rs v c cv yes no assume view: "branchView rs v c cv yes no"
  note k = branchViewD [OF view]
  show "achieves Branch rs (branchNotEqual rs)"
  proof (cases "m_opcode cv = NotEqual")
    case True
    note cmp = compare_wt [OF operandD(2) [OF k(5)]]
    obtain x xv y yv where xy: "operand rs x xv" "operand rs y yv" "kid rs cv 0 = Some (x, xv)" "kid rs cv (Suc 0) = Some (y, yv)"
        "childType (lookup rs) cv 0 = Some (m_type xv)" "childType (lookup rs) cv 1 = Some (m_type yv)"
        and ev: "\<And>env. evalValue env cv = evalOp (m_opcode cv) (m_payload cv) [env x, env y]"
      using binary_children [OF k(1,5)] cmp(1) True by (metis insertI1 insertI2)
    have same: "m_type xv = m_type yv" using cmp(2) True xy(5,6) by simp
    show ?thesis
    proof (cases "isIntValue yv 0")
      case zero: True
      have int: "isInt (m_type xv)" using isIntValue_const [OF zero operandD(2) [OF xy(2)]] same by auto
      have "achieves Branch rs (Some (False, changed (setCur (setChild 0 x v) rs)))"
      proof (rule branch_setCur [OF view xy(1) int, of _ yes no])
        show "setChild 0 x v = v\<lparr>m_children := [x], m_payload := ControlPayload [yes, no]\<rparr>"
          using k(4,7) by (simp add: setChild_def)
        fix env assume h: "holds (lookup rs) (m_value rs) env"
        have "env y = V32 0 \<and> m_type xv = Int32 \<or> env y = V64 0 \<and> m_type xv = Int64"
          using operand_isInt [OF h xy(2) zero] same by auto
        from truthy_equal_zero(2) [OF int operand_typed [OF h xy(1)] this]
        have "truthy (env c) = truthy (env x)" using operand_solves [OF h k(5)] True by (metis solves_def ev)
        then show "(if truthy (env x) then yes else no) = (if truthy (env c) then yes else no)" by simp
      qed
      then show ?thesis using k True xy zero by (simp add: branchNotEqual_def)
    qed (use k True xy in \<open>simp add: branchNotEqual_def\<close>)
  qed (use k in \<open>simp add: branchNotEqual_def\<close>)
qed

lemma branch_negated:
  assumes view: "branchView rs v c cv yes no" and x: "kid rs cv 0 = Some (x, xv)" and y: "kid rs cv 1 = Some (y, yv)"
    and not: "m_opcode cv = Equal \<and> isIntValue yv 0 \<or> m_opcode cv = BitXor \<and> isInt32 yv 1 \<and> returnsBool (lookup rs) xv"
  shows "achieves Branch rs (Some (False, changed (setCur (swapBranch x v) rs)))"
proof -
  note k = branchViewD [OF view] and neg = negated_condition [OF branchViewD(1,5) [OF view] x y not]
  show ?thesis
  proof (rule branch_setCur [OF view neg(1,2), of _ no yes])
    show "swapBranch x v = v\<lparr>m_children := [x], m_payload := ControlPayload [no, yes]\<rparr>"
      using k(4,7,10) by (simp add: swapBranch_def setChild_def setSuccessors_def)
  qed (use neg(3) in simp)
qed

lemma branchEqual_sound: "rewrite_rule Branch branchEqual"
proof (rule branch_rule)
  fix rs v c cv yes no assume view: "branchView rs v c cv yes no"
  note k = branchViewD [OF view]
  show "achieves Branch rs (branchEqual rs)"
  proof (cases "m_opcode cv = Equal")
    case True
    then have "numChildren cv = 2" using binary_numChildren [OF wtD(1) [OF operandD(2) [OF k(5)]]] by simp
    then obtain x xv y yv where "kid rs cv 0 = Some (x, xv)" "kid rs cv (Suc 0) = Some (y, yv)"
      using binary_children [OF k(1,5)] by metis
    then show ?thesis using k True branch_negated [OF view] by (simp add: branchEqual_def)
  qed (use k in \<open>simp add: branchEqual_def\<close>)
qed

lemma branchBitXor_sound: "rewrite_rule Branch branchBitXor"
proof (rule branch_rule)
  fix rs v c cv yes no assume view: "branchView rs v c cv yes no"
  note k = branchViewD [OF view]
  show "achieves Branch rs (branchBitXor rs)"
  proof (cases "m_opcode cv = BitXor")
    case True
    then have "numChildren cv = 2" using binary_numChildren [OF wtD(1) [OF operandD(2) [OF k(5)]]] by simp
    then obtain x xv y yv where "kid rs cv 0 = Some (x, xv)" "kid rs cv (Suc 0) = Some (y, yv)"
      using binary_children [OF k(1,5)] by metis
    then show ?thesis using k True branch_negated [OF view] by (simp add: branchBitXor_def)
  qed (use k in \<open>simp add: branchBitXor_def\<close>)
qed

lemma reduced_flags [simp]:
  "reduced rs (rs'\<lparr>m_changedCFG := f\<rparr>) js = reduced rs rs' js" "reduced rs (changed rs') js = reduced rs rs' js"
  by (simp_all add: reduced_def ready_def frame_def lookup_def cur_def changed_def)

lemma reduced_removePredecessor:
  assumes "ready rs"
  shows "reduced rs (rs\<lparr>m_proc := removePredecessorFrom other b (m_proc rs)\<rparr>) []"
proof -
  let ?rs = "rs\<lparr>m_proc := removePredecessorFrom other b (m_proc rs)\<rparr>"
  have l: "lookup ?rs = lookup rs" by (simp add: lookup_def removePredecessorFrom_def)
  have "valuesIn (removePredecessorFrom other b (m_proc rs)) a = valuesIn (m_proc rs) a" for a
    by (simp add: removePredecessorFrom_def valuesIn_def block_updateBlock split: option.splits)
  then have "frame rs ?rs" by (simp add: frame_def removePredecessorFrom_def)
  moreover have "ready ?rs" using assms l by (simp add: ready_def cur_def removePredecessorFrom_def)
  ultimately show ?thesis using l by (simp add: reduced_def)
qed

lemma branchTo_sound:
  assumes view: "branchView rs v c cv yes no"
    and taken: "\<And>env. holds (lookup rs) (m_value rs) env \<Longrightarrow> fst (if truthy (env c) then yes else no) = target"
  shows "achieves Branch rs (Some (True, branchTo target other v rs))"
proof -
  note k = branchViewD [OF view]
  let ?rs = "rs\<lparr>m_proc := removePredecessorFrom other (m_block rs) (m_proc rs)\<rparr>"
  let ?v = "convertToJump target v"
  note r = reduced_removePredecessor [OF k(1), of other "m_block rs"]
  have l: "lookup ?rs = lookup rs" by (simp add: lookup_def removePredecessorFrom_def)
  have v: "?v = JumpValue (m_origin v) (target, Normal)" by (simp add: convertToJump_def)
  have "reduced ?rs (changed (setCur ?v ?rs)) []"
  proof (rule setCur_sound(1))
    show "ready ?rs" "cur ?rs = Some v" using r k(2) l by (auto simp: reduced_def cur_def)
    show "m_type ?v = m_type v" using k(9) by (simp add: v mk_defs)
    show "wtValue (lookup ?rs) ?v"
      by (simp add: v mk_defs wtValue_def payloadOK_def accepts_defs validateChildren_def validateTypes_def
          numChildren_def isCheckMath_def)
    show "set (m_children ?v) \<subseteq> below (lookup ?rs) {} (m_value ?rs)" by (simp add: v mk_defs)
    fix env assume "holds (lookup ?rs) (m_value ?rs) env"
    then have "observe env (m_value rs) v = Goto target" using taken l by (simp add: k(12))
    then show "allows (evalValue env v) (env (m_value ?rs)) \<and> observe env (m_value ?rs) ?v = observe env (m_value ?rs) v"
      by (simp add: k(11) v mk_defs observe_def successors_def)
  qed
  from reduced_trans [OF r this] have "reduced rs (branchTo target other v rs) []"
    by (simp add: branchTo_def)
  then show ?thesis unfolding achieves_def by blast
qed

lemma branchConstant_sound: "rewrite_rule Branch branchConstant"
proof (rule branch_rule)
  fix rs v c cv yes no assume view: "branchView rs v c cv yes no"
  note k = branchViewD [OF view]
  show "achieves Branch rs (branchConstant rs)"
  proof (cases "asTriState cv")
    case FalseTriState
    then have "achieves Branch rs (Some (True, branchTo (fst no) (fst yes) v rs))"
      using asTriState_truthy(1) [OF _ k(5)] by (intro branchTo_sound [OF view]) simp
    then show ?thesis using k FalseTriState by (simp add: branchConstant_def)
  next
    case TrueTriState
    then have "achieves Branch rs (Some (True, branchTo (fst yes) (fst no) v rs))"
      using asTriState_truthy(2) [OF _ k(5)] by (intro branchTo_sound [OF view]) simp
    then show ?thesis using k TrueTriState by (simp add: branchConstant_def)
  qed (use k in \<open>simp add: branchConstant_def\<close>)
qed

lemma reduceBranch_sound: "rewrite_rule Branch reduceBranch"
  unfolding reduceBranch_def
  by (rule rewrite_rule_inOrder)
    (auto intro: branchNotEqual_sound branchEqual_sound branchBitXor_sound branchConstant_sound)

subsection \<open>Every handler\<close>

text \<open>Every handler keeps the contract of a rewrite.\<close>

interpretation onAdd: rewrite_rule Add reduceAdd
  by (rule reduceAdd_sound)

interpretation onSub: rewrite_rule Sub reduceSub
  by (rule reduceSub_sound)

interpretation onMul: rewrite_rule Mul reduceMul
  by (rule reduceMul_sound)

interpretation onDiv: rewrite_rule Div reduceDiv
  by (rule reduceDiv_sound)

interpretation onChillDiv: rewrite_rule ChillDiv reduceDiv
  by (rule reduceDiv_sound(2))

interpretation onBitAnd: rewrite_rule BitAnd reduceBitAnd
  by (rule reduceBitAnd_sound)

interpretation onBitOr: rewrite_rule BitOr reduceBitOr
  by (rule reduceBitOr_sound)

interpretation onBitXor: rewrite_rule BitXor reduceBitXor
  by (rule reduceBitXor_sound)

interpretation onShl: rewrite_rule Shl reduceShl
  by (rule reduceShl_sound)

interpretation onSShr: rewrite_rule SShr reduceSShr
  by (rule reduceSShr_sound)

interpretation onZShr: rewrite_rule ZShr reduceZShr
  by (rule reduceZShr_sound)

interpretation onBitwiseCast: rewrite_rule BitwiseCast reduceBitwiseCast
  by (rule reduceBitwiseCast_sound)

interpretation onSExt32: rewrite_rule SExt32 reduceSExt32
  by (rule reduceSExt32_sound)

interpretation onZExt32: rewrite_rule ZExt32 reduceZExt32
  by (rule reduceZExt32_sound)

interpretation onTrunc: rewrite_rule Trunc reduceTrunc
  by (rule reduceTrunc_sound)

interpretation onSelect: rewrite_rule Select reduceSelect
  by (rule reduceSelect_sound)

interpretation onEqual: rewrite_rule Equal reduceEqual
  by (rule reduceEqual_sound)

interpretation onCheckAdd: rewrite_rule CheckAdd reduceCheckAdd
  by (rule reduceCheckAdd_sound)

interpretation onCheckSub: rewrite_rule CheckSub reduceCheckSub
  by (rule reduceCheckSub_sound)

interpretation onCheckMul: rewrite_rule CheckMul reduceCheckMul
  by (rule reduceCheckMul_sound)

interpretation onCheck: rewrite_rule Check reduceCheck
  by (rule reduceCheck_sound)

interpretation onBranch: rewrite_rule Branch reduceBranch
  by (rule reduceBranch_sound)

lemmas handler_rules =
  rewrite_rule_pass reduceMemory_sound onAdd.rewrite_rule_axioms onSub.rewrite_rule_axioms onMul.rewrite_rule_axioms onDiv.rewrite_rule_axioms onChillDiv.rewrite_rule_axioms onBitAnd.rewrite_rule_axioms onBitOr.rewrite_rule_axioms onBitXor.rewrite_rule_axioms onShl.rewrite_rule_axioms onSShr.rewrite_rule_axioms onZShr.rewrite_rule_axioms onBitwiseCast.rewrite_rule_axioms onSExt32.rewrite_rule_axioms onZExt32.rewrite_rule_axioms onTrunc.rewrite_rule_axioms onSelect.rewrite_rule_axioms onEqual.rewrite_rule_axioms onCheckAdd.rewrite_rule_axioms onCheckSub.rewrite_rule_axioms onCheckMul.rewrite_rule_axioms onCheck.rewrite_rule_axioms onBranch.rewrite_rule_axioms
  foldLessThan.foldCompare_sound foldGreaterThan.foldCompare_sound
  foldLessEqual.foldCompare_sound foldGreaterEqual.foldCompare_sound foldAbove.foldCompare_sound
  foldBelow.foldCompare_sound foldAboveEqual.foldCompare_sound foldBelowEqual.foldCompare_sound

lemma reduceOpcode_sound:
  assumes "ready rs" "cur rs = Some v" "\<not> comparesWithOne (lookup rs) v"
  shows "achieves (m_opcode v) rs (reduceOpcode (m_opcode v) rs)"
proof (cases "m_opcode v = NotEqual")
  case True
  then show ?thesis using reduceNotEqual_sound [OF assms(1,2) _ assms(3)] by simp
next
  case False
  have "rewrite_rule (m_opcode v) (reduceOpcode (m_opcode v))"
    using False
    by (cases "m_opcode v") (simp_all add: handler_rules acceptsMemory_def)
  from rewrite_rule.sound [OF this assms(1,2) refl] show ?thesis by (simp add: achieves_def)
qed

end
