(* ===== verification/B3Process.thy ===== *)
theory B3Process
  imports B3ReduceEffects
begin

text \<open>
  \<open>ReduceStrength::process\<close> as a whole: substitution of identities, then the handler of the
  opcode. The chase through identities ends because values do not depend on themselves, and it
  keeps the value that every environment gives to the child.
\<close>

subsection \<open>Chasing identities\<close>

lemma identity_child:
  assumes "wtStore s" "s c = Some v" "m_opcode v = Identity"
  obtains d dv where "m_children v = [d]" "s d = Some dv" "m_type dv = m_type v" "(d, c) \<in> deps s"
    "\<And>env. solves env c v \<Longrightarrow> env c = env d"
proof -
  note wt = wtD [OF wtStoreD [OF assms(1,2)]]
  have n: "numChildren v = 1" "childType s v 0 = Some (m_type v)" using wt(1) assms(3) by (simp_all add: validateTypes_def)
  then obtain d where d: "m_children v = [d]" by (auto simp: numChildren_def length_Suc_conv)
  then obtain dv where "s d = Some dv" "m_type dv = m_type v" using n(2) by (auto simp: childType_def child_def)
  moreover have "(d, c) \<in> deps s" using d assms(2) by (auto simp: deps_def)
  ultimately show ?thesis using that d assms(3) by (simp add: solves_def evalValue_def args_def)
qed

lemma chaseIdentity_ends:
  assumes wt: "wtStore s" and wf: "wf (deps s)" and c: "s c = Some cv"
  shows "\<exists>d dv. chaseIdentity s c = Some d \<and> s d = Some dv \<and> m_type dv = m_type cv \<and> (d, c) \<in> (deps s)\<^sup>* \<and>
    m_opcode dv \<noteq> Identity \<and> (m_opcode cv \<noteq> Identity \<longrightarrow> d = c) \<and>
    (\<forall>env. (\<forall>j v. (j, c) \<in> (deps s)\<^sup>* \<longrightarrow> s j = Some v \<longrightarrow> solves env j v) \<longrightarrow> env d = env c)"
  using c
proof (induction c arbitrary: cv rule: wf_induct_rule [OF wf])
  case (1 c)
  show ?case
  proof (cases "m_opcode cv = Identity")
    case False
    then have "chaseIdentity s c = Some c" using 1(2) by (simp add: chaseIdentity.simps)
    then show ?thesis using 1(2) False by auto
  next
    case True
    obtain d dv where d: "m_children cv = [d]" "s d = Some dv" "m_type dv = m_type cv" "(d, c) \<in> deps s"
        "\<And>env. solves env c cv \<Longrightarrow> env c = env d"
      using identity_child [of s c cv, OF wt 1(2) True] by metis
    obtain e ev where e: "chaseIdentity s d = Some e" "s e = Some ev" "m_type ev = m_type dv" "(e, d) \<in> (deps s)\<^sup>*"
        "m_opcode ev \<noteq> Identity"
        "\<And>env. (\<And>j v. (j, d) \<in> (deps s)\<^sup>* \<Longrightarrow> s j = Some v \<Longrightarrow> solves env j v) \<Longrightarrow> env e = env d"
      using 1(1) [OF d(4,2)] by blast
    have "chaseIdentity s c = Some e" using 1(2) True d(1) e(1) by (simp add: chaseIdentity.simps [of s c])
    moreover have "(e, c) \<in> (deps s)\<^sup>*" using e(4) d(4) by (rule rtrancl_into_rtrancl)
    moreover have "env e = env c" if h: "\<And>j v. (j, c) \<in> (deps s)\<^sup>* \<Longrightarrow> s j = Some v \<Longrightarrow> solves env j v" for env
    proof -
      have "env e = env d" using h d(4) by (intro e(6)) (meson rtrancl_into_rtrancl)
      moreover have "env c = env d" using d(5) h [OF rtrancl_refl 1(2)] .
      ultimately show ?thesis by simp
    qed
    ultimately show ?thesis using e(2,3,5) d(3) True by auto
  qed
qed

lemma chaseAll_ends:
  assumes wt: "wtStore s" and wf: "wf (deps s)" and cs: "\<forall>c \<in> set cs. s c \<noteq> None"
  shows "\<exists>ds. chaseAll s cs = Some ds \<and> list_all2 (\<lambda>c d. chaseIdentity s c = Some d) cs ds"
  using cs
proof (induction cs)
  case (Cons c cs)
  then obtain ds where "chaseAll s cs = Some ds" "list_all2 (\<lambda>c d. chaseIdentity s c = Some d) cs ds" by auto
  moreover obtain d where "chaseIdentity s c = Some d" using chaseIdentity_ends [OF wt wf] Cons.prems by fastforce
  ultimately show ?case by simp
qed simp

text \<open>\<open>performSubstitution\<close> on a whole procedure.\<close>

definition substitutes :: "store \<Rightarrow> value_ptr \<Rightarrow> value_ptr \<Rightarrow> bool" where
  "substitutes s c d \<longleftrightarrow>
     (\<exists>cv dv. s c = Some cv \<and> s d = Some dv \<and> m_opcode dv \<noteq> Identity \<and> m_type dv = m_type cv \<and> (m_opcode cv \<noteq> Identity \<longrightarrow> d = c) \<and>
        (\<forall>env. solution s env \<longrightarrow> env d = env c))"

lemma performSubstitution_substitutes:
  assumes wt: "wtStore (valuesOf p)" and wf: "wf (deps (valuesOf p))" and v: "valuesOf p i = Some v"
  shows "\<exists>p' ds. performSubstitution i p = Some p' \<and> valuesOf p' = (valuesOf p)(i \<mapsto> v\<lparr>m_children := ds\<rparr>) \<and>
    list_all2 (substitutes (valuesOf p)) (m_children v) ds"
proof -
  have kids: "\<forall>c \<in> set (m_children v). valuesOf p c \<noteq> None"
    using wtStoreD [OF wt v] by (auto simp: wtValue_def validateChildren_def split: option.splits)
  then obtain ds where ds: "chaseAll (valuesOf p) (m_children v) = Some ds"
      "list_all2 (\<lambda>c d. chaseIdentity (valuesOf p) c = Some d) (m_children v) ds"
    using chaseAll_ends [OF wt wf] by blast
  have one: "substitutes (valuesOf p) c d" if c: "c \<in> set (m_children v)" "chaseIdentity (valuesOf p) c = Some d" for c d
  proof -
    obtain cv where cv: "valuesOf p c = Some cv" using kids c(1) by blast
    obtain e ev where "chaseIdentity (valuesOf p) c = Some e" "valuesOf p e = Some ev" "m_type ev = m_type cv" "m_opcode ev \<noteq> Identity"
        "m_opcode cv \<noteq> Identity \<longrightarrow> e = c"
        "\<forall>env. (\<forall>j v. (j, c) \<in> (deps (valuesOf p))\<^sup>* \<longrightarrow> valuesOf p j = Some v \<longrightarrow> solves env j v) \<longrightarrow> env e = env c"
      using chaseIdentity_ends [OF wt wf cv] by blast
    then show ?thesis using cv c(2) by (simp add: substitutes_def solution_def)
  qed
  have "list_all2 (substitutes (valuesOf p)) (m_children v) ds"
    using ds(2) one by (simp add: list_all2_conv_all_nth)
  moreover have "performSubstitution i p = Some (setValue i (v\<lparr>m_children := ds\<rparr>) p)" using v ds(1) by (simp add: performSubstitution_def)
  ultimately show ?thesis using valuesOf_setValue [of p i] v by auto
qed

subsection \<open>Substituting the children of a value\<close>

lemma children_fields [simp]:
  "memOffset (v\<lparr>m_children := ds\<rparr>) = memOffset v" "memRange (v\<lparr>m_children := ds\<rparr>) = memRange v"
  "successors (v\<lparr>m_children := ds\<rparr>) = successors v" "caseValues (v\<lparr>m_children := ds\<rparr>) = caseValues v"
  "upsilonPhi (v\<lparr>m_children := ds\<rparr>) = upsilonPhi v" "stackmapReps (v\<lparr>m_children := ds\<rparr>) = stackmapReps v"
  "constrainedRep (v\<lparr>m_children := ds\<rparr>) k = constrainedRep v k"
  by (simp_all add: memOffset_def memRange_def successors_def caseValues_def upsilonPhi_def stackmapReps_def
      constrainedRep_def)

lemma substituted_eval:
  assumes "args env (v\<lparr>m_children := ds\<rparr>) = args env v"
  shows "evalValue env (v\<lparr>m_children := ds\<rparr>) = evalValue env v"
    "observe env i (v\<lparr>m_children := ds\<rparr>) = observe env i v"
  using assms
  by (simp add: evalValue_def) (cases "m_opcode v", simp_all add: observe_def observeAccess_def assms split: list.splits)

lemma substituted_wt:
  assumes wt: "wtValue s v" and ds: "\<forall>d \<in> set ds. \<exists>dv. s d = Some dv \<and> m_type dv \<noteq> Void"
    and ct: "\<And>k. childType s (v\<lparr>m_children := ds\<rparr>) k = childType s v k" and n: "length ds = length (m_children v)"
  shows "wtValue s (v\<lparr>m_children := ds\<rparr>)"
proof -
  let ?v = "v\<lparr>m_children := ds\<rparr>"
  have num: "numChildren ?v = numChildren v" using n by (simp add: numChildren_def)
  have int: "childIsInt s ?v k = childIsInt s v k" for k by (simp add: childIsInt_def ct)
  have map: "validateStackmap s ?v = validateStackmap s v"
    by (simp only: validateStackmap_def children_fields num int ct)
  note eqs = ct num int map validateMath_def validateCompare_def validateCheckMath_def
  have "validateOpcode (m_opcode v) s ?v = validateOpcode (m_opcode v) s v"
    by (cases "m_opcode v") (simp_all add: eqs split: payload.splits option.splits)
  then have "validateTypes s ?v" using wtD(1) [OF wt] by (simp add: validateTypes_def)
  moreover have "validateChildren s ?v" using ds by (auto simp: validateChildren_def)
  ultimately show ?thesis using wt by (simp add: wtValue_def ct)
qed

text \<open>What the chase makes of a child of the current value.\<close>

lemma chased_operand:
  assumes rs: "ready rs" "cur rs = Some v" and c: "c \<in> set (m_children v)" and d: "chaseIdentity (lookup rs) c = Some d"
  obtains cv dv where "operand rs c cv" "operand rs d dv" "m_type dv = m_type cv"
    "\<And>env. holds (lookup rs) (m_value rs) env \<Longrightarrow> env d = env c"
proof -
  let ?s = "lookup rs" and ?i = "m_value rs"
  have wt: "wtStore ?s" and wf: "wf (deps ?s)" using rs(1) by (simp_all add: ready_def)
  obtain cv where cv: "operand rs c cv" using cur_operand [OF rs c] by blast
  obtain dv where dv: "?s d = Some dv" "m_type dv = m_type cv" "(d, c) \<in> (deps ?s)\<^sup>*"
      "\<And>env. (\<And>j v. (j, c) \<in> (deps ?s)\<^sup>* \<Longrightarrow> ?s j = Some v \<Longrightarrow> solves env j v) \<Longrightarrow> env d = env c"
    using chaseIdentity_ends [OF wt wf operandD(1) [OF cv]] d by auto
  have ci: "(c, ?i) \<in> deps ?s" using c rs(2) by (auto simp: deps_def cur_def)
  have below: "j \<in> below ?s {} ?i" if "(j, c) \<in> (deps ?s)\<^sup>*" for j
    using that ci by (simp add: below_def depsFor_def rtrancl_into_trancl1)
  have "env d = env c" if h: "holds ?s ?i env" for env
  proof (rule dv(4))
    fix j w assume j: "(j, c) \<in> (deps ?s)\<^sup>*" "?s j = Some w"
    have "j \<noteq> ?i" using below [OF j(1)] below_irrefl [of ?s "{}" ?i j] wf by (simp add: depsFor_def)
    then show "solves env j w" using holds_solves [OF h j(2)] by simp
  qed
  moreover have "operand rs d dv"
    using below_operand [OF rs(1) below [OF dv(3)] dv(1)] dv(2) operandD(3) [OF cv] by simp
  ultimately show ?thesis using that cv dv(2) by blast
qed

lemma performSubstitution_reduces:
  assumes rs: "ready rs" "cur rs = Some v"
  shows "\<exists>p ds. performSubstitution (m_value rs) (m_proc rs) = Some p \<and>
    chaseAll (lookup rs) (m_children v) = Some ds \<and>
    reduced rs (rs\<lparr>m_proc := p\<rparr>) [] \<and> cur (rs\<lparr>m_proc := p\<rparr>) = Some (v\<lparr>m_children := ds\<rparr>) \<and>
    lookup (rs\<lparr>m_proc := p\<rparr>) = (lookup rs)(m_value rs \<mapsto> v\<lparr>m_children := ds\<rparr>)"
proof -
  let ?s = "lookup rs" and ?i = "m_value rs"
  have wt: "wtStore ?s" and wf: "wf (deps ?s)" using rs(1) by (simp_all add: ready_def)
  have "\<forall>c \<in> set (m_children v). ?s c \<noteq> None" using cur_operand [OF rs] operandD(1) by blast
  then obtain ds where ds: "chaseAll ?s (m_children v) = Some ds"
      "list_all2 (\<lambda>c d. chaseIdentity ?s c = Some d) (m_children v) ds"
    using chaseAll_ends [OF wt wf] by blast
  have len: "length ds = length (m_children v)" using ds(2) by (simp add: list_all2_lengthD)
  have nth: "chaseIdentity ?s (m_children v ! k) = Some (ds ! k)" "m_children v ! k \<in> set (m_children v)"
    if "k < length ds" for k using ds(2) that len by (simp_all add: list_all2_conv_all_nth)
  let ?v = "v\<lparr>m_children := ds\<rparr>"
  have "childType ?s ?v k = childType ?s v k" for k
  proof (cases "k < length ds")
    case True
    show ?thesis
      by (rule chased_operand [OF rs nth(2,1) [OF True]])
        (use True len in \<open>simp add: childType_def child_def at_def operandD\<close>)
  qed (simp add: childType_def child_def at_def len)
  moreover have ops: "\<exists>dv. operand rs d dv" if "d \<in> set ds" for d
    using that chased_operand [OF rs nth(2,1)] by (metis in_set_conv_nth)
  ultimately have "wtValue ?s ?v"
    using operandD(1,3) len by (intro substituted_wt [OF ready_cur_wt [OF rs]]) (metis | simp)+
  moreover have "set (m_children ?v) \<subseteq> below ?s {} ?i" using ops operandD(4) by auto
  moreover have "args env ?v = args env v" if h: "holds ?s ?i env" for env
  proof (rule nth_equalityI)
    show "length (args env ?v) = length (args env v)" using len by (simp add: args_def)
    fix k assume "k < length (args env ?v)"
    then have k: "k < length ds" by (simp add: args_def)
    have "env (ds ! k) = env (m_children v ! k)"
      by (rule chased_operand [OF rs nth(2,1) [OF k]]) (use h in blast)
    then show "args env ?v ! k = args env v ! k" using k len by (simp add: args_def)
  qed
  ultimately have "reduced rs (changed (setCur ?v rs)) []" "cur (changed (setCur ?v rs)) = Some ?v"
    by (intro setCur_sound [OF rs]; simp add: substituted_eval solves_def)+
  then have r: "reduced rs (setCur ?v rs) []" "cur (setCur ?v rs) = Some ?v" by simp_all
  have i: "valuesOf (m_proc rs) ?i = Some v" using rs(2) by (simp add: cur_def lookup_def)
  have "performSubstitution ?i (m_proc rs) = Some (setValue ?i ?v (m_proc rs))"
    using i ds(1) by (simp add: performSubstitution_def lookup_def)
  moreover have "rs\<lparr>m_proc := setValue ?i ?v (m_proc rs)\<rparr> = setCur ?v rs" by (simp add: setCur_def)
  moreover have "lookup (setCur ?v rs) = ?s(?i \<mapsto> ?v)"
    using valuesOf_setValue [of "m_proc rs" ?i] i by (simp add: lookup_def setCur_def)
  ultimately show ?thesis using r ds(1) by auto
qed

subsection \<open>One value\<close>

text \<open>
  The one case that is left out: a \<open>NotEqual\<close> whose operands are, through identities, a boolean and the constant 1.
\<close>

definition miscompares :: "store \<Rightarrow> Value \<Rightarrow> bool" where
  "miscompares s v \<longleftrightarrow>
     (case chaseAll s (m_children v) of Some ds \<Rightarrow> comparesWithOne s (v\<lparr>m_children := ds\<rparr>) | None \<Rightarrow> False)"

lemma process_reduces:
  assumes i: "at (valuesIn (m_proc rs) (m_block rs)) (m_index rs) = Some i"
    and ready: "ready (rs\<lparr>m_value := i\<rparr>)" and v: "lookup rs i = Some v" and sane: "\<not> miscompares (lookup rs) v"
  shows "\<exists>rs' js. process rs = Some rs' \<and> reduced (rs\<lparr>m_value := i\<rparr>) rs' js"
proof -
  let ?rs = "rs\<lparr>m_value := i\<rparr>"
  have l: "lookup ?rs = lookup rs" by (simp add: lookup_def)
  have cur: "cur ?rs = Some v" using v l by (simp add: cur_def)
  obtain p ds where p: "performSubstitution i (m_proc rs) = Some p" "chaseAll (lookup rs) (m_children v) = Some ds"
      "reduced ?rs (?rs\<lparr>m_proc := p\<rparr>) []" "cur (?rs\<lparr>m_proc := p\<rparr>) = Some (v\<lparr>m_children := ds\<rparr>)"
      "lookup (?rs\<lparr>m_proc := p\<rparr>) = (lookup rs)(i \<mapsto> v\<lparr>m_children := ds\<rparr>)"
    using performSubstitution_reduces [OF ready cur] l by auto
  let ?rs' = "?rs\<lparr>m_proc := p\<rparr>" and ?v = "v\<lparr>m_children := ds\<rparr>"
  have ready': "ready ?rs'" using p(3) by (simp add: reduced_def)
  have "\<not> comparesWithOne (lookup ?rs') ?v"
  proof
    assume c: "comparesWithOne (lookup ?rs') ?v"
    then obtain a b av bv where ab: "m_opcode v = NotEqual" "ds = [a, b]" "lookup ?rs' a = Some av" "lookup ?rs' b = Some bv"
        "boolAndOne (lookup ?rs') av bv"
      by (auto simp: comparesWithOne_def split: list.splits option.splits)
    have "d \<noteq> i" if d: "d \<in> set ds" for d
    proof -
      obtain dv where "operand ?rs' d dv" using cur_operand [OF ready' p(4), of d] d by auto
      from operandD(5) [OF this] show ?thesis by simp
    qed
    then have "lookup rs a = Some av" "lookup rs b = Some bv" using ab p(5) by auto
    moreover have "returnsBool (lookup ?rs') w = returnsBool (lookup rs) w" for w
      unfolding p(5) by (rule returnsBool_update [where u = v]) (use v in \<open>simp_all add: ab(1)\<close>)
    ultimately have "comparesWithOne (lookup rs) ?v" using ab by (simp add: comparesWithOne_def boolAndOne_def)
    then show False using sane p(2) by (simp add: miscompares_def)
  qed
  from reduceOpcode_sound [OF ready' p(4) this] obtain broke rs'' js where
    r: "reduceOpcode (m_opcode v) ?rs' = Some (broke, rs'')" "reduced ?rs' rs'' js"
    by (auto simp: achieves_def)
  have "process rs = Some rs''" using i p(1,4) r(1) by (simp add: process_def)
  moreover have "reduced ?rs rs'' js" using reduced_trans [OF p(3) r(2)] by simp
  ultimately show ?thesis by blast
qed

subsection \<open>One block\<close>

text \<open>The loop \<open>for (m_index = 0; m_index < block->size(); ++m_index) process();\<close> of \<open>run\<close>.\<close>

partial_function (option) processLoop :: "ReduceStrength \<Rightarrow> ReduceStrength option" where
  "processLoop rs =
     (if m_index rs < length (valuesIn (m_proc rs) (m_block rs))
      then case process rs of
             None \<Rightarrow> None
           | Some rs' \<Rightarrow> processLoop (rs'\<lparr>m_index := m_index rs' + 1\<rparr>)
      else Some rs)"

declare processLoop.simps [code]

definition processBlock :: "block_ptr \<Rightarrow> ReduceStrength \<Rightarrow> ReduceStrength option" where
  "processBlock b rs = do {
     rs' \<leftarrow> processLoop (rs\<lparr>m_block := b, m_index := 0\<rparr>);
     Some (rs'\<lparr>m_proc := executeInsertionSet (m_insertionSet rs') (m_block rs') (m_proc rs'), m_insertionSet := []\<rparr>) }"

text \<open>The states in which the loop starts an iteration.\<close>

inductive visits :: "ReduceStrength \<Rightarrow> ReduceStrength \<Rightarrow> bool" where
  visits_here: "visits rs rs"
| visits_next: "visits (rs'\<lparr>m_index := m_index rs' + 1\<rparr>) a \<Longrightarrow> process rs = Some rs' \<Longrightarrow> visits rs a"

definition phaseInv :: "ReduceStrength \<Rightarrow> bool" where
  "phaseInv rs \<longleftrightarrow> procInv (m_proc rs) \<and> wtStore (lookup rs) \<and> wf (deps (lookup rs))"

text \<open>
  What a run over part of a block achieves: the invariants hold, the new store refines the old
  one, and \<open>new\<close> lists the values that were added with the index at which they are to be inserted.
\<close>

definition advanced :: "ReduceStrength \<Rightarrow> ReduceStrength \<Rightarrow> Insertion list \<Rightarrow> bool" where
  "advanced rs rs' new \<longleftrightarrow>
     phaseInv rs' \<and> refines (lookup rs) (lookup rs') \<and> typeExt (lookup rs) (lookup rs') \<and>
     dom (lookup rs') = dom (lookup rs) \<union> snd ` set new \<and> distinct (map snd new) \<and>
     snd ` set new \<inter> dom (lookup rs) = {} \<and> m_block rs' = m_block rs \<and>
     m_blocks (m_proc rs') = m_blocks (m_proc rs) \<and> (\<forall>b. valuesIn (m_proc rs') b = valuesIn (m_proc rs) b) \<and>
     m_insertionSet rs' = m_insertionSet rs @ new \<and>
     (\<forall>k \<in> fst ` set new. k < length (valuesIn (m_proc rs) (m_block rs)))"

lemma advanced_refl: "phaseInv rs \<Longrightarrow> advanced rs rs []"
  by (simp add: advanced_def)

lemma advanced_trans:
  assumes ab: "advanced a b new1" and bc: "advanced b c new2"
  shows "advanced a c (new1 @ new2)"
  using ab bc refines_trans [of "lookup a" "lookup b" "lookup c"] typeExt_trans [of "lookup a" "lookup b" "lookup c"]
  unfolding advanced_def by (auto simp: disjoint_iff)

lemma advanced_reduced:
  assumes "reduced (rs\<lparr>m_value := i\<rparr>) rs' js" "m_index rs < length (valuesIn (m_proc rs) (m_block rs))"
  shows "advanced rs (rs'\<lparr>m_index := n\<rparr>) (map (Pair (m_index rs)) js)" "m_index rs' = m_index rs"
  using assms
  by (auto simp: advanced_def reduced_def ready_def phaseInv_def frame_def lookup_def comp_def image_image)

lemma processLoop_advances:
  assumes "phaseInv rs" "set (valuesIn (m_proc rs) (m_block rs)) \<subseteq> dom (lookup rs)"
    and "\<And>a i v. visits rs a \<Longrightarrow> at (valuesIn (m_proc a) (m_block a)) (m_index a) = Some i \<Longrightarrow>
           lookup a i = Some v \<Longrightarrow> \<not> miscompares (lookup a) v"
  shows "\<exists>rs' new. processLoop rs = Some rs' \<and> advanced rs rs' new"
  using assms
proof (induction "length (valuesIn (m_proc rs) (m_block rs)) - m_index rs" arbitrary: rs)
  case 0
  then have "processLoop rs = Some rs" by (simp add: processLoop.simps [of rs])
  then show ?case using advanced_refl [OF 0(2)] by blast
next
  case (Suc n)
  let ?vs = "valuesIn (m_proc rs) (m_block rs)"
  have lt: "m_index rs < length ?vs" using Suc(2) by simp
  then obtain i where i: "at ?vs (m_index rs) = Some i" by (simp add: at_def)
  have "i \<in> dom (lookup rs)" by (rule subsetD [OF Suc.prems(2) at_in_set [OF i]])
  then obtain v where v: "lookup rs i = Some v" by auto
  have "ready (rs\<lparr>m_value := i\<rparr>)"
    using Suc.prems(1) v by (simp add: ready_def phaseInv_def lookup_def cur_def)
  moreover have "\<not> miscompares (lookup rs) v" by (rule Suc.prems(3) [OF visits_here i v])
  ultimately obtain rs1 js where p: "process rs = Some rs1" and r: "reduced (rs\<lparr>m_value := i\<rparr>) rs1 js"
    using process_reduces [OF i _ v] by blast
  let ?rs = "rs1\<lparr>m_index := m_index rs1 + 1\<rparr>"
  note adv = advanced_reduced [OF r lt]
  have a: "advanced rs ?rs (map (Pair (m_index rs)) js)" by (rule adv(1))
  then have vs: "valuesIn (m_proc ?rs) (m_block ?rs) = ?vs" and inv: "phaseInv ?rs"
    and dom: "dom (lookup rs) \<subseteq> dom (lookup ?rs)" by (simp_all add: advanced_def)
  have "\<exists>rs' new. processLoop ?rs = Some rs' \<and> advanced ?rs rs' new"
  proof (rule Suc.hyps(1))
    show "n = length (valuesIn (m_proc ?rs) (m_block ?rs)) - m_index ?rs"
      using Suc(2) vs adv(2) by simp
    show "phaseInv ?rs" by (rule inv)
    show "set (valuesIn (m_proc ?rs) (m_block ?rs)) \<subseteq> dom (lookup ?rs)" unfolding vs using Suc.prems(2) dom by blast
    show "\<not> miscompares (lookup b) w" if "visits ?rs b" "at (valuesIn (m_proc b) (m_block b)) (m_index b) = Some j"
      "lookup b j = Some w" for b j w
      by (rule Suc.prems(3) [OF visits_next [OF that(1) p] that(2,3)])
  qed
  then obtain rs' new where "processLoop ?rs = Some rs'" "advanced ?rs rs' new" by blast
  moreover from this have "processLoop rs = Some rs'" using lt p by (simp add: processLoop.simps [of rs])
  ultimately show ?case using advanced_trans [OF a] by blast
qed

subsection \<open>Where the values are\<close>

text \<open>Every live value is in exactly one block, once.\<close>

definition placement :: "Procedure \<Rightarrow> bool" where
  "placement p \<longleftrightarrow> distinct (placedValues p) \<and> set (placedValues p) = dom (valuesOf p)"

lemma mset_spliced:
  assumes "\<forall>q \<in> set ins. fst q \<le> length t"
  shows "mset (spliced t ins) = mset t + mset (map snd ins)"
proof -
  have t: "mset (concat (map (\<lambda>i. take 1 (drop i t)) [0..<length t + 1])) = mset t"
    using concat_take1_drop [of t 0] by simp
  have "mset (concat (map (\<lambda>i. map snd (filter (\<lambda>p. fst p = i) qs)) [0..<n])) = mset (map snd qs)"
    if "\<forall>q \<in> set qs. fst q < n" for qs n
    using that
  proof (induction n arbitrary: qs)
    case 0
    then have "qs = []" by (cases qs) auto
    then show ?case by simp
  next
    case (Suc n)
    let ?qs = "filter (\<lambda>p. fst p \<noteq> n) qs"
    have "\<forall>q \<in> set ?qs. fst q < n" using Suc.prems by (auto simp: less_Suc_eq)
    note IH = Suc.IH [OF this]
    have "filter (\<lambda>p. fst p = i) ?qs = filter (\<lambda>p. fst p = i) qs" if "i < n" for i
      using that by (auto intro: filter_cong)
    then have eq: "map (\<lambda>i. map snd (filter (\<lambda>p. fst p = i) ?qs)) [0..<n] = map (\<lambda>i. map snd (filter (\<lambda>p. fst p = i) qs)) [0..<n]"
      by simp
    have "mset (map snd ?qs) + mset (map snd (filter (\<lambda>p. fst p = n) qs)) = mset (map snd qs)"
      by (induction qs) auto
    then have "mset (concat (map (\<lambda>i. map snd (filter (\<lambda>p. fst p = i) qs)) [0..<n])) + mset (map snd (filter (\<lambda>p. fst p = n) qs))
        = mset (map snd qs)" using IH [unfolded eq] by metis
    then show ?case by simp
  qed
  from this [of ins "length t + 1"]
  have "mset (concat (map (\<lambda>i. map snd (filter (\<lambda>p. fst p = i) ins)) [0..<length t + 1])) = mset (map snd ins)"
    using assms by (auto simp: less_Suc_eq_le)
  moreover have "mset (concat (map (\<lambda>i. f i @ g i) xs)) = mset (concat (map f xs)) + mset (concat (map g xs))" for f g :: "nat \<Rightarrow> 'a list" and xs
    by (induction xs) (simp_all add: ac_simps)
  ultimately show ?thesis using t unfolding spliced_def by (simp del: upt_Suc)
qed

lemma mset_concat_update:
  assumes "distinct bs" "b \<in> set bs" "mset (g b) = mset (f b) + M" "\<And>c. c \<noteq> b \<Longrightarrow> g c = f c"
  shows "mset (concat (map g bs)) = mset (concat (map f bs)) + M"
  using assms(1,2)
proof (induction bs)
  case (Cons c bs)
  show ?case
  proof (cases "c = b")
    case True
    then have "g x = f x" if "x \<in> set bs" for x using that Cons.prems by (intro assms(4)) auto
    then have "map g bs = map f bs" by (rule map_cong [OF refl])
    then show ?thesis using True assms(3) by (simp del: map_eq_conv)
  next
    case False
    then show ?thesis using Cons assms(4) by simp
  qed
qed simp

lemma executeInsertionSet_other:
  "c \<noteq> b \<Longrightarrow> valuesIn (executeInsertionSet ins b p) c = valuesIn p c"
  "valuesOf (executeInsertionSet ins b p) = valuesOf p" "procInv (executeInsertionSet ins b p) = procInv p"
  "m_blocks (executeInsertionSet ins b p) = m_blocks p"
  by (simp_all add: executeInsertionSet_def valuesIn_def block_updateBlock)

text \<open>Inserted values end up in the block, whether or not there are any.\<close>

lemma executeInsertionSet_spliced:
  assumes "\<forall>k \<in> fst ` set new. k < length (valuesIn p b)"
  shows "valuesIn (executeInsertionSet new b p) b = spliced (valuesIn p b) new"
proof (cases "block p b")
  case None
  then have "valuesIn p b = []" by (simp add: valuesIn_def)
  moreover from this have "new = []" using assms by (cases new) auto
  ultimately show ?thesis using None by (simp add: executeInsertionSet_def updateBlock_def)
next
  case (Some bb)
  then show ?thesis using assms by (intro executeInsertionSet_values) (force simp: less_imp_le)+
qed

lemma placement_insert:
  assumes p: "placement p" and b: "b \<in> set (blocksOf p)" "distinct (blocksOf p)"
    and same: "m_blocks q = m_blocks p" "\<And>c. valuesIn q c = valuesIn p c"
    and new: "distinct (map snd new)" "snd ` set new \<inter> dom (valuesOf p) = {}"
      "dom (valuesOf q) = dom (valuesOf p) \<union> snd ` set new" "\<forall>k \<in> fst ` set new. k < length (valuesIn p b)"
  shows "placement (executeInsertionSet new b q)"
proof -
  let ?q = "executeInsertionSet new b q"
  have vs: "valuesIn ?q b = spliced (valuesIn p b) new"
    using executeInsertionSet_spliced [of new q b] new(4) same(2) by simp
  have "mset (valuesIn ?q b) = mset (valuesIn p b) + mset (map snd new)"
    unfolding vs using new(4) by (intro mset_spliced) (auto simp: less_imp_le)
  moreover have "valuesIn ?q c = valuesIn p c" if "c \<noteq> b" for c
    using that by (simp add: executeInsertionSet_other same)
  moreover have "blocksOf ?q = blocksOf p" by (simp add: blocksOf_def executeInsertionSet_other same)
  ultimately have m: "mset (placedValues ?q) = mset (placedValues p) + mset (map snd new)"
    unfolding placedValues_def using mset_concat_update [OF b(2,1), of "valuesIn ?q" "valuesIn p"] by simp
  have "distinct (placedValues p @ map snd new)" using p new(1,2) by (auto simp: placement_def)
  then have "distinct (placedValues ?q)" using m by (metis mset_append mset_eq_imp_distinct_iff)
  moreover have "set (placedValues ?q) = set (placedValues p) \<union> snd ` set new"
    using arg_cong [OF m, of set_mset] by simp
  ultimately show ?thesis using p new(3) by (simp add: placement_def executeInsertionSet_other)
qed

lemma processBlock_sound:
  assumes inv: "phaseInv rs" and pl: "placement (m_proc rs)"
    and b: "b \<in> set (blocksOf (m_proc rs))" "distinct (blocksOf (m_proc rs))" and empty: "m_insertionSet rs = []"
    and sane: "\<And>a i v. visits (rs\<lparr>m_block := b, m_index := 0\<rparr>) a \<Longrightarrow>
        at (valuesIn (m_proc a) (m_block a)) (m_index a) = Some i \<Longrightarrow> lookup a i = Some v \<Longrightarrow> \<not> miscompares (lookup a) v"
  shows "\<exists>rs' new. processBlock b rs = Some rs' \<and> phaseInv rs' \<and> placement (m_proc rs') \<and> refines (lookup rs) (lookup rs') \<and>
    m_insertionSet rs' = [] \<and> m_blocks (m_proc rs') = m_blocks (m_proc rs) \<and>
    valuesIn (m_proc rs') b = spliced (valuesIn (m_proc rs) b) new \<and>
    (\<forall>c. c \<noteq> b \<longrightarrow> valuesIn (m_proc rs') c = valuesIn (m_proc rs) c)"
proof -
  let ?rs = "rs\<lparr>m_block := b, m_index := 0\<rparr>"
  have l: "lookup ?rs = lookup rs" by (simp add: lookup_def)
  have "set (valuesIn (m_proc rs) b) \<subseteq> dom (lookup rs)"
    using pl b(1) by (auto simp: placement_def placedValues_def lookup_def)
  moreover have "phaseInv ?rs" using inv l by (simp add: phaseInv_def)
  ultimately obtain rs1 new where loop: "processLoop ?rs = Some rs1" and adv: "advanced ?rs rs1 new"
    using processLoop_advances [of ?rs] sane l by auto
  let ?rs' = "rs1\<lparr>m_proc := executeInsertionSet new b (m_proc rs1), m_insertionSet := []\<rparr>"
  have new: "m_insertionSet rs1 = new" "m_block rs1 = b" using adv empty by (simp_all add: advanced_def)
  have l1: "lookup ?rs' = lookup rs1" by (simp add: lookup_def executeInsertionSet_other)
  have "processBlock b rs = Some ?rs'" using loop new by (simp add: processBlock_def)
  moreover have "phaseInv ?rs'"
    using adv l1 by (simp add: advanced_def phaseInv_def executeInsertionSet_other)
  moreover have "placement (m_proc ?rs')"
    using placement_insert [OF pl b, of "m_proc rs1" new] adv by (simp add: advanced_def lookup_def)
  moreover have "refines (lookup rs) (lookup ?rs')" using adv l l1 by (simp add: advanced_def)
  moreover have "valuesIn (m_proc ?rs') b = spliced (valuesIn (m_proc rs) b) new"
    using executeInsertionSet_spliced [of new "m_proc rs1" b] adv by (simp add: advanced_def)
  moreover have "m_blocks (m_proc ?rs') = m_blocks (m_proc rs)" "\<forall>c. c \<noteq> b \<longrightarrow> valuesIn (m_proc ?rs') c = valuesIn (m_proc rs) c"
    using adv by (simp_all add: advanced_def executeInsertionSet_other)
  ultimately show ?thesis by (intro exI [of _ ?rs'] exI [of _ new]) (simp del: Procedure.simps)
qed

end
