(* ===== verification/B3DeadCode.thy ===== *)
theory B3DeadCode
  imports B3Process
begin

text \<open>
  \<open>ReduceStrength::killDeadCode\<close> (b3/B3ReduceStrength.cpp): mark what must execute, follow
  children and, for live phis, upsilons, and sweep the rest out of the blocks in place. The mark
  phase is proved to compute the least set closed under these rules.
\<close>

subsection \<open>Mark\<close>

definition mustKeep :: "Value \<Rightarrow> bool" where
  "mustKeep v = mustExecute ((effects v)\<lparr>writesSSAState := False, readsSSAState := False\<rparr>)"

definition seedValue ::
    "store \<Rightarrow> value_ptr \<Rightarrow> value_ptr GraphNodeWorklist \<times> value_ptr list \<Rightarrow>
     (value_ptr GraphNodeWorklist \<times> value_ptr list) option" where
  "seedValue s i = (\<lambda>(worklist, upsilons).
     case s i of
       None \<Rightarrow> None
     | Some v \<Rightarrow> Some (if mustKeep v then push i worklist else worklist,
                       if m_opcode v = Upsilon then upsilons @ [i] else upsilons))"

definition childrenOf :: "store \<Rightarrow> value_ptr \<Rightarrow> value_ptr list" where
  "childrenOf s i = (case s i of Some v \<Rightarrow> m_children v | None \<Rightarrow> [])"

text \<open>\<open>worklist.saw(upsilon->phi())\<close>; the theorems ask for upsilons whose phi is set.\<close>

definition sawPhi :: "store \<Rightarrow> value_ptr GraphNodeWorklist \<Rightarrow> value_ptr \<Rightarrow> bool" where
  "sawPhi s worklist u =
     (case Option.bind (s u) upsilonPhi of Some phi \<Rightarrow> saw worklist phi | None \<Rightarrow> False)"

text \<open>
  The loop over the upsilons. A pushed one is overwritten by the last one, which is taken off the
  end, and the index stays where it is.
\<close>

function scanUpsilons ::
    "store \<Rightarrow> nat \<Rightarrow> value_ptr list \<Rightarrow> value_ptr GraphNodeWorklist \<Rightarrow> bool \<Rightarrow>
     value_ptr GraphNodeWorklist \<times> value_ptr list \<times> bool" where
  "scanUpsilons s upsilonIndex upsilons worklist didPush =
     (if upsilonIndex < length upsilons
      then if sawPhi s worklist (upsilons ! upsilonIndex)
           then scanUpsilons s upsilonIndex (butlast (upsilons[upsilonIndex := last upsilons]))
                  (push (upsilons ! upsilonIndex) worklist) True
           else scanUpsilons s (upsilonIndex + 1) upsilons worklist didPush
      else (worklist, upsilons, didPush))"
  by pat_completeness auto
termination
  by (relation "measure (\<lambda>(_, i, us, _, _). length us - i)") auto

declare scanUpsilons.simps [simp del]

partial_function (option) markLoop ::
    "store \<Rightarrow> value_ptr GraphNodeWorklist \<Rightarrow> value_ptr list \<Rightarrow> value_ptr GraphNodeWorklist option" where
  "markLoop s worklist upsilons =
     (case drain (childrenOf s) worklist [] of
        None \<Rightarrow> None
      | Some (worklist', _) \<Rightarrow>
          (case scanUpsilons s 0 upsilons worklist' False of
             (worklist'', upsilons', didPush) \<Rightarrow>
               if didPush then markLoop s worklist'' upsilons' else Some worklist''))"

declare markLoop.simps [code]

subsection \<open>Sweep\<close>

text \<open>
  The compaction of one block with \<open>sourceIndex\<close> and \<open>targetIndex\<close>. The state is the vector, the
  procedure and \<open>m_changed\<close>.
\<close>

function sweepLoop ::
    "value_ptr GraphNodeWorklist \<Rightarrow> nat \<Rightarrow> nat \<Rightarrow> value_ptr list \<Rightarrow> Procedure \<Rightarrow> bool \<Rightarrow>
     value_ptr list \<times> Procedure \<times> bool" where
  "sweepLoop worklist sourceIndex targetIndex values p didChange =
     (if sourceIndex < length values
      then let value = values ! sourceIndex in
           if saw worklist value
           then sweepLoop worklist (sourceIndex + 1) (targetIndex + 1) (values[targetIndex := value]) p didChange
           else sweepLoop worklist (sourceIndex + 1) targetIndex values (deleteValue value p) True
      else (take targetIndex values, p, didChange))"
  by pat_completeness auto
termination
  by (relation "measure (\<lambda>(_, i, _, vs, _, _). length vs - i)") auto

declare sweepLoop.simps [simp del]

definition sweepBlock :: "value_ptr GraphNodeWorklist \<Rightarrow> block_ptr \<Rightarrow> Procedure \<times> bool \<Rightarrow> Procedure \<times> bool" where
  "sweepBlock worklist b = (\<lambda>(p, didChange).
     let (values, p', didChange') = sweepLoop worklist 0 0 (valuesIn p b) p didChange
     in (updateBlock b (\<lambda>bb. bb\<lparr>bb_values := values\<rparr>) p', didChange'))"

definition killDeadCode :: "Procedure \<Rightarrow> bool \<Rightarrow> (Procedure \<times> bool) option" where
  "killDeadCode p didChange = do {
     (worklist, upsilons) \<leftarrow> foldM (seedValue (valuesOf p)) (placedValues p) (emptyWorklist, []);
     worklist' \<leftarrow> markLoop (valuesOf p) worklist upsilons;
     Some (fold (sweepBlock worklist') (blocksOf p) (p, didChange)) }"

text \<open>The specification: what is live.\<close>

inductive_set live :: "store \<Rightarrow> value_ptr set" for s :: store where
  live_must: "s i = Some v \<Longrightarrow> mustKeep v \<Longrightarrow> i \<in> live s"
| live_child: "i \<in> live s \<Longrightarrow> s i = Some v \<Longrightarrow> c \<in> set (m_children v) \<Longrightarrow> c \<in> live s"
| live_upsilon: "s u = Some v \<Longrightarrow> m_opcode v = Upsilon \<Longrightarrow> upsilonPhi v = Some phi \<Longrightarrow> phi \<in> live s \<Longrightarrow> u \<in> live s"

subsection \<open>The sweep\<close>

lemma sweepLoop_filter:
  assumes "targetIndex \<le> sourceIndex" "sourceIndex \<le> length values"
  shows "sweepLoop w sourceIndex targetIndex values p didChange =
    (take targetIndex values @ filter (saw w) (drop sourceIndex values),
     fold deleteValue (filter (\<lambda>i. \<not> saw w i) (drop sourceIndex values)) p,
     didChange \<or> filter (\<lambda>i. \<not> saw w i) (drop sourceIndex values) \<noteq> [])"
  using assms
proof (induction w sourceIndex targetIndex "values" p didChange rule: sweepLoop.induct)
  case (1 w si ti vs p ch)
  show ?case
  proof (cases "si < length vs")
    case True
    then have d: "drop si vs = vs ! si # drop (Suc si) vs" by (simp add: Cons_nth_drop_Suc)
    show ?thesis
    proof (cases "saw w (vs ! si)")
      case saw: True
      have "take (ti + 1) (vs[ti := vs ! si]) = take ti vs @ [vs ! si]"
        using "1.prems" True by (simp add: take_Suc_conv_app_nth)
      then show ?thesis
        using 1(1) [OF True refl saw] "1.prems" True saw d by (subst sweepLoop.simps) (simp add: Let_def)
    next
      case False
      then show ?thesis
        using 1(2) [OF True refl False] "1.prems" True d by (subst sweepLoop.simps) (simp add: Let_def)
    qed
  next
    case False
    then show ?thesis using "1.prems" by (subst sweepLoop.simps) simp
  qed
qed

subsection \<open>The mark phase\<close>

lemma mset_swap_last:
  assumes "i < length us"
  shows "mset (butlast (us[i := last us])) + {#us ! i#} = mset us"
proof -
  obtain ys y where us: "us = ys @ [y]" using assms by (cases us rule: rev_cases) auto
  show ?thesis
  proof (cases "i < length ys")
    case True
    then have "mset (ys[i := y]) + {#ys ! i#} = mset ys + {#y#}" by (simp add: mset_update)
    then show ?thesis using True us by (simp add: list_update_append nth_append)
  next
    case False
    then have "i = length ys" using assms us by simp
    then show ?thesis using us by (simp add: list_update_append)
  qed
qed

text \<open>
  One scan: what it pushes are upsilons whose phi was seen, what it leaves on the list was not
  pushed, and it reports honestly whether it pushed anything.
\<close>

lemma scanUpsilons_spec:
  assumes "scanUpsilons s i us w d = (w', us', d')"
  shows "m_seen w \<subseteq> m_seen w'" "set us \<subseteq> set us' \<union> m_seen w'" "set us' \<subseteq> set us"
    "workInv f w \<Longrightarrow> workInv f w'"
    "m_seen w \<subseteq> live s \<Longrightarrow> (\<And>u. u \<in> set us \<Longrightarrow> \<exists>v. s u = Some v \<and> m_opcode v = Upsilon) \<Longrightarrow> m_seen w' \<subseteq> live s"
    "m_seen w' \<subseteq> m_seen w \<union> set us"
    "d \<Longrightarrow> d'" "\<not> d' \<Longrightarrow> w' = w \<and> us' = us \<and> (\<forall>u \<in> set (drop i us). \<not> sawPhi s w u)"
    "length us' \<le> length us" "d' \<Longrightarrow> \<not> d \<Longrightarrow> length us' < length us"
proof -
  have "m_seen w \<subseteq> m_seen w' \<and> set us \<subseteq> set us' \<union> m_seen w' \<and> set us' \<subseteq> set us \<and>
    (workInv f w \<longrightarrow> workInv f w') \<and>
    (m_seen w \<subseteq> live s \<longrightarrow> (\<forall>u \<in> set us. \<exists>v. s u = Some v \<and> m_opcode v = Upsilon) \<longrightarrow> m_seen w' \<subseteq> live s) \<and>
    m_seen w' \<subseteq> m_seen w \<union> set us \<and> (d \<longrightarrow> d') \<and>
    (\<not> d' \<longrightarrow> w' = w \<and> us' = us \<and> (\<forall>u \<in> set (drop i us). \<not> sawPhi s w u)) \<and>
    length us' \<le> length us \<and> (d' \<longrightarrow> \<not> d \<longrightarrow> length us' < length us)"
    using assms
  proof (induction s i us w d arbitrary: w' us' d' rule: scanUpsilons.induct)
    case (1 s i us w d)
    show ?case
    proof (cases "i < length us")
      case False
      then show ?thesis using "1.prems" by (simp add: scanUpsilons.simps [of s i])
    next
      case True
      let ?u = "us ! i" and ?us = "butlast (us[i := last us])"
      show ?thesis
      proof (cases "sawPhi s w ?u")
        case False
        then have "scanUpsilons s (i + 1) us w d = (w', us', d')"
          using "1.prems" True by (simp add: scanUpsilons.simps [of s i])
        note IH = "1.IH"(2) [OF True False this]
        have "drop i us = ?u # drop (Suc i) us" using True by (simp add: Cons_nth_drop_Suc)
        then show ?thesis using IH False by auto
      next
        case saw: True
        then have "scanUpsilons s i ?us (push ?u w) True = (w', us', d')"
          using "1.prems" True by (simp add: scanUpsilons.simps [of s i])
        note IH = "1.IH"(1) [OF True saw this]
        have set: "set us = insert ?u (set ?us)" using arg_cong [OF mset_swap_last [OF True], of set_mset] by simp
        have seen: "m_seen (push ?u w) = insert ?u (m_seen w)" by (auto simp: push_def)
        have len: "length ?us < length us" using True by simp
        have "?u \<in> live s" if "m_seen w \<subseteq> live s" "\<exists>v. s ?u = Some v \<and> m_opcode v = Upsilon"
          using saw that live_upsilon [of s ?u] by (auto simp: sawPhi_def saw_def split: option.splits bind_splits)
        then show ?thesis using IH set seen len workInv_push [of f w ?u] by auto
      qed
    qed
  qed
  then show "m_seen w \<subseteq> m_seen w'" "set us \<subseteq> set us' \<union> m_seen w'" "set us' \<subseteq> set us"
    "workInv f w \<Longrightarrow> workInv f w'"
    "m_seen w \<subseteq> live s \<Longrightarrow> (\<And>u. u \<in> set us \<Longrightarrow> \<exists>v. s u = Some v \<and> m_opcode v = Upsilon) \<Longrightarrow> m_seen w' \<subseteq> live s"
    "m_seen w' \<subseteq> m_seen w \<union> set us"
    "d \<Longrightarrow> d'" "\<not> d' \<Longrightarrow> w' = w \<and> us' = us \<and> (\<forall>u \<in> set (drop i us). \<not> sawPhi s w u)"
    "length us' \<le> length us" "d' \<Longrightarrow> \<not> d \<Longrightarrow> length us' < length us"
    by simp_all
qed

lemma value_graph:
  assumes "wtStore s" "finite (dom s)"
  shows "finite_graph (childrenOf s) (dom s)"
proof
  fix n assume "n \<in> dom s"
  then show "set (childrenOf s n) \<subseteq> dom s" using wtStore_child [OF assms(1)] by (auto simp: childrenOf_def)
qed (rule assms(2))

lemma live_edges: "(i, c) \<in> (edges (childrenOf s))\<^sup>* \<Longrightarrow> i \<in> live s \<Longrightarrow> c \<in> live s"
proof (induction rule: rtrancl_induct)
  case (step y z)
  then show ?case using live_child [of y s] by (cases "s y") (simp_all add: edges_def childrenOf_def)
qed

lemma markLoop_live:
  assumes wt: "wtStore s" "finite (dom s)"
    and "workInv (childrenOf s) w" "m_seen w \<subseteq> live s" "m_seen w \<subseteq> dom s"
    and "\<And>u. u \<in> set us \<Longrightarrow> \<exists>v. s u = Some v \<and> m_opcode v = Upsilon"
    and "\<And>u v. s u = Some v \<Longrightarrow> m_opcode v = Upsilon \<Longrightarrow> u \<in> set us \<union> m_seen w"
    and "\<And>i v. s i = Some v \<Longrightarrow> mustKeep v \<Longrightarrow> i \<in> m_seen w"
  shows "\<exists>w'. markLoop s w us = Some w' \<and> m_seen w' = live s"
  using assms(3-)
proof (induction "length us" arbitrary: w us rule: less_induct)
  case less
  obtain w1 r where d: "drain (childrenOf s) w [] = Some (w1, r)" "m_stack w1 = []"
      and seen1: "m_seen w1 = (edges (childrenOf s))\<^sup>* `` m_seen w"
    using finite_graph.drain_visits [OF value_graph [OF wt] less.prems(1,3), of "[]"] by auto
  have live1: "m_seen w1 \<subseteq> live s" using less.prems(2) live_edges by (auto simp: seen1)
  have mono1: "m_seen w \<subseteq> m_seen w1" by (auto simp: seen1)
  have dom1: "m_seen w1 \<subseteq> dom s"
    using finite_graph.reach_closed [OF value_graph [OF wt] less.prems(3)] by (simp add: seen1)
  have closed: "set (childrenOf s n) \<subseteq> m_seen w1" if "n \<in> m_seen w1" for n
    using that by (auto simp: seen1 edges_def intro: rtrancl_into_rtrancl)
  then have inv1: "workInv (childrenOf s) w1" using d(2) by (simp add: workInv_def)
  obtain w2 us2 d2 where sc: "scanUpsilons s 0 us w1 False = (w2, us2, d2)" by (metis prod_cases3)
  note spec = scanUpsilons_spec [OF sc]
  have loop: "markLoop s w us = (if d2 then markLoop s w2 us2 else Some w2)"
    using d sc by (simp add: markLoop.simps [of s w us])
  show ?case
  proof (cases d2)
    case True
    have "\<exists>w'. markLoop s w2 us2 = Some w' \<and> m_seen w' = live s"
    proof (rule less.hyps)
      show "length us2 < length us" using spec(10) True by simp
      show "workInv (childrenOf s) w2" by (rule spec(4) [OF inv1])
      show "m_seen w2 \<subseteq> live s" using spec(5) [OF live1] less.prems(4) by blast
      show "m_seen w2 \<subseteq> dom s" using spec(6) dom1 less.prems(4) by blast
      show "\<exists>v. s u = Some v \<and> m_opcode v = Upsilon" if "u \<in> set us2" for u using that spec(3) less.prems(4) by blast
      show "u \<in> set us2 \<union> m_seen w2" if "s u = Some v" "m_opcode v = Upsilon" for u v
        using less.prems(5) [OF that] spec(1,2) mono1 by blast
      show "i \<in> m_seen w2" if "s i = Some v" "mustKeep v" for i v
        using less.prems(6) [OF that] spec(1) mono1 by blast
    qed
    then show ?thesis using loop True by simp
  next
    case False
    then have w2: "w2 = w1" "\<And>u. u \<in> set us \<Longrightarrow> \<not> sawPhi s w1 u" using spec(8) by auto
    have "i \<in> m_seen w1" if "i \<in> live s" for i
      using that
    proof induction
      case (live_must i v)
      then show ?case using less.prems(6) mono1 by blast
    next
      case (live_child i v c)
      then show ?case using closed [of i] by (auto simp: childrenOf_def)
    next
      case (live_upsilon u v phi)
      then have "sawPhi s w1 u" by (simp add: sawPhi_def saw_def)
      then show ?case using w2(2) less.prems(5) [OF live_upsilon(1,2)] mono1 by blast
    qed
    then show ?thesis using loop False w2(1) live1 by auto
  qed
qed

lemma seeds:
  assumes "set xs \<subseteq> dom s"
  shows "\<exists>w. foldM (seedValue s) xs (emptyWorklist, []) =
      Some (w, filter (\<lambda>i. m_opcode (the (s i)) = Upsilon) xs) \<and>
    workInv f w \<and> m_seen w = {i \<in> set xs. mustKeep (the (s i))}"
proof -
  let ?I = "\<lambda>ys (w, us). us = filter (\<lambda>i. m_opcode (the (s i)) = Upsilon) ys \<and> workInv f w \<and>
      m_seen w = {i \<in> set ys. mustKeep (the (s i))}"
  have "\<exists>r. foldM (seedValue s) xs (emptyWorklist, []) = Some r \<and> ?I xs r"
  proof (rule foldM_invariant [of ?I])
    show "?I [] (emptyWorklist, [])" by (auto simp: emptyWorklist_def workInv_def)
    fix ys x zs and st :: "value_ptr GraphNodeWorklist \<times> value_ptr list"
    assume xs: "xs = ys @ x # zs" and I: "?I ys st"
    obtain w us where st: "st = (w, us)" by (cases st)
    obtain v where v: "s x = Some v" using xs assms by auto
    have "m_seen (push x w) = insert x (m_seen w)" by (auto simp: push_def)
    then show "\<exists>st'. seedValue s x st = Some st' \<and> ?I (ys @ [x]) st'"
      using I v st workInv_push [of f w x] by (auto simp: seedValue_def)
  qed
  then show ?thesis by (auto split: prod.splits)
qed

subsection \<open>The phase\<close>

lemma sweepBlock_eq:
  "sweepBlock w b (p, ch) =
     (updateBlock b (\<lambda>bb. bb\<lparr>bb_values := filter (saw w) (valuesIn p b)\<rparr>)
        (fold deleteValue (filter (\<lambda>i. \<not> saw w i) (valuesIn p b)) p),
      ch \<or> filter (\<lambda>i. \<not> saw w i) (valuesIn p b) \<noteq> [])"
  by (simp add: sweepBlock_def sweepLoop_filter)

lemma fold_deleteValue_blocks [simp]:
  "m_heap (fold deleteValue is p) = m_heap p" "m_blocks (fold deleteValue is p) = m_blocks p"
  "block (fold deleteValue is p) = block p"
  by (induction "is" arbitrary: p) (simp_all add: block_def fun_eq_iff)

lemma sweepBlocks:
  assumes "procInv p" "distinct bs" "distinct (concat (map (valuesIn p) bs))"
    "set (concat (map (valuesIn p) bs)) \<subseteq> dom (valuesOf p)"
  shows "\<exists>p' ch'. fold (sweepBlock w) bs (p, ch) = (p', ch') \<and> procInv p' \<and> m_blocks p' = m_blocks p \<and>
    valuesOf p' = (\<lambda>i. if i \<in> set (concat (map (valuesIn p) bs)) \<and> \<not> saw w i then None else valuesOf p i) \<and>
    (\<forall>b. valuesIn p' b = (if b \<in> set bs then filter (saw w) (valuesIn p b) else valuesIn p b)) \<and>
    (ch' \<longleftrightarrow> ch \<or> (\<exists>i \<in> set (concat (map (valuesIn p) bs)). \<not> saw w i))"
  using assms
proof (induction bs arbitrary: p ch)
  case (Cons b bs)
  let ?dead = "filter (\<lambda>i. \<not> saw w i) (valuesIn p b)"
  let ?p = "updateBlock b (\<lambda>bb. bb\<lparr>bb_values := filter (saw w) (valuesIn p b)\<rparr>) (fold deleteValue ?dead p)"
  have "distinct ?dead" "set ?dead \<subseteq> dom (valuesOf p)" using Cons.prems by auto
  note del = vals.free_all [OF Cons.prems(1) this]
  have vs: "valuesIn ?p c = (if c = b then filter (saw w) (valuesIn p b) else valuesIn p c)" for c
    by (auto simp: valuesIn_def block_updateBlock split: option.splits)
  have same: "map (valuesIn ?p) bs = map (valuesIn p) bs" using Cons.prems(2) by (intro map_cong) (auto simp: vs)
  have sub: "set (concat (map (valuesIn p) bs)) \<subseteq> dom (valuesOf ?p)"
  proof
    fix i assume i: "i \<in> set (concat (map (valuesIn p) bs))"
    then have "i \<notin> set (valuesIn p b)" using Cons.prems(3) by auto
    moreover have "i \<in> dom (valuesOf p)" by (rule subsetD [OF Cons.prems(4)]) (use i in simp)
    ultimately show "i \<in> dom (valuesOf ?p)" using del by (simp add: dom_def)
  qed
  have "procInv ?p" "distinct bs" "distinct (concat (map (valuesIn p) bs))" using Cons.prems(2,3) del by simp_all
  from Cons.IH [of ?p "ch \<or> ?dead \<noteq> []", unfolded same, OF this sub]
  obtain p' ch' where r: "fold (sweepBlock w) bs (?p, ch \<or> ?dead \<noteq> []) = (p', ch')" "procInv p'" "m_blocks p' = m_blocks ?p"
      "valuesOf p' = (\<lambda>i. if i \<in> set (concat (map (valuesIn p) bs)) \<and> \<not> saw w i then None else valuesOf ?p i)"
      "\<forall>c. valuesIn p' c = (if c \<in> set bs then filter (saw w) (valuesIn ?p c) else valuesIn ?p c)"
      "ch' \<longleftrightarrow> (ch \<or> ?dead \<noteq> []) \<or> (\<exists>i \<in> set (concat (map (valuesIn p) bs)). \<not> saw w i)"
    by blast
  have "fold (sweepBlock w) (b # bs) (p, ch) = (p', ch')" using r(1) by (simp add: sweepBlock_eq)
  moreover have "valuesOf p' = (\<lambda>i. if i \<in> set (concat (map (valuesIn p) (b # bs))) \<and> \<not> saw w i then None else valuesOf p i)"
    unfolding r(4) using del by (simp add: fun_eq_iff)
  moreover have "valuesIn p' c = (if c \<in> set (b # bs) then filter (saw w) (valuesIn p c) else valuesIn p c)" for c
    using spec [OF r(5), of c] Cons.prems(2) by (auto simp: vs)
  moreover have "ch' \<longleftrightarrow> ch \<or> (\<exists>i \<in> set (concat (map (valuesIn p) (b # bs))). \<not> saw w i)"
    unfolding r(6) by (auto simp: filter_empty_conv)
  ultimately show ?case using r(2,3) by auto
qed simp

lemma finite_values: "finite (dom (valuesOf p))"
  by (rule finite_subset [of _ "{..<length (m_values p)}"]) (auto simp: valuesOf_eq split: if_splits)

lemma killDeadCode_live:
  assumes inv: "procInv p" "wtStore (valuesOf p)" and pl: "placement p" "distinct (blocksOf p)"
  shows "\<exists>p' ch'. killDeadCode p ch = Some (p', ch') \<and> procInv p' \<and> placement p' \<and> m_blocks p' = m_blocks p \<and>
    valuesOf p' = valuesOf p |` live (valuesOf p) \<and>
    (\<forall>b \<in> set (blocksOf p). valuesIn p' b = filter (\<lambda>i. i \<in> live (valuesOf p)) (valuesIn p b)) \<and>
    (ch' \<longleftrightarrow> ch \<or> \<not> dom (valuesOf p) \<subseteq> live (valuesOf p))"
proof -
  let ?s = "valuesOf p" and ?vs = "placedValues p"
  have dom: "set ?vs = dom ?s" "distinct ?vs" using pl(1) by (simp_all add: placement_def)
  obtain w where w: "foldM (seedValue ?s) ?vs (emptyWorklist, []) =
      Some (w, filter (\<lambda>i. m_opcode (the (?s i)) = Upsilon) ?vs)" "workInv (childrenOf ?s) w"
      "m_seen w = {i \<in> set ?vs. mustKeep (the (?s i))}"
    using seeds [of ?vs ?s] dom(1) by blast
  have "\<exists>w'. markLoop ?s w (filter (\<lambda>i. m_opcode (the (?s i)) = Upsilon) ?vs) = Some w' \<and> m_seen w' = live ?s"
    by (rule markLoop_live [OF inv(2) finite_values w(2)]) (auto simp: w(3) dom(1) dom_def intro: live_must)
  then obtain w' where w': "markLoop ?s w (filter (\<lambda>i. m_opcode (the (?s i)) = Upsilon) ?vs) = Some w'"
      and saw: "saw w' = (\<lambda>i. i \<in> live ?s)" by (auto simp: saw_def fun_eq_iff)
  obtain p' ch' where p': "fold (sweepBlock w') (blocksOf p) (p, ch) = (p', ch')" "procInv p'" "m_blocks p' = m_blocks p"
      "valuesOf p' = (\<lambda>i. if i \<in> set ?vs \<and> \<not> saw w' i then None else ?s i)"
      "\<And>b. valuesIn p' b = (if b \<in> set (blocksOf p) then filter (saw w') (valuesIn p b) else valuesIn p b)"
      "ch' \<longleftrightarrow> ch \<or> (\<exists>i \<in> set ?vs. \<not> saw w' i)"
    using sweepBlocks [OF inv(1) pl(2), of w' ch] dom by (auto simp: placedValues_def)
  have bs: "blocksOf p' = blocksOf p" by (simp add: blocksOf_def p'(3))
  have "map (valuesIn p') (blocksOf p) = map (filter (saw w')) (map (valuesIn p) (blocksOf p))" by (simp add: p'(5))
  then have pv: "placedValues p' = filter (saw w') ?vs" by (simp only: placedValues_def bs filter_concat)
  have vals: "valuesOf p' = ?s |` live ?s"
    using p'(4) dom(1) saw by (auto simp: fun_eq_iff restrict_map_def dom_def)
  then have "placement p'" using pv dom saw by (auto simp: placement_def restrict_map_def dom_def split: if_splits)
  moreover have "killDeadCode p ch = Some (p', ch')" using w(1) w' p'(1) by (simp add: killDeadCode_def)
  moreover have "ch' \<longleftrightarrow> ch \<or> \<not> dom ?s \<subseteq> live ?s" unfolding p'(6) dom(1) saw by auto
  ultimately show ?thesis using p'(2,3,5) vals saw by auto
qed

subsection \<open>What is left behaves the same\<close>

lemma live_phi:
  assumes wt: "wtStore s" and u: "u \<in> live s" "s u = Some v" "m_opcode v = Upsilon"
  obtains phi where "upsilonPhi v = Some phi" "phi \<in> live s"
proof -
  have void: "m_type v = Void" using wtStoreD [OF wt u(2)] u(3) by (simp add: wtValue_def)
  show thesis
    using u(1)
  proof cases
    case (live_must w)
    then show thesis using u by (simp add: mustKeep_def effects_def mustExecute_def noEffects_def)
  next
    case (live_child i w)
    then have "validateChildren s w" using wtStoreD [OF wt] by (auto simp: wtValue_def)
    then show thesis using live_child(3) u(2) void by (auto simp: validateChildren_def)
  next
    case (live_upsilon w phi)
    then show thesis using that u(2) by simp
  qed
qed

lemma wtStore_live:
  assumes wt: "wtStore s"
  shows "wtStore (s |` live s)"
  unfolding wtStore_def
proof (intro allI impI)
  fix i v assume "(s |` live s) i = Some v"
  then have i: "i \<in> live s" "s i = Some v" by (auto simp: restrict_map_def split: if_splits)
  show "wtValue (s |` live s) v"
  proof (rule wtValue_cong [OF wtStoreD [OF wt i(2)]])
    show "(s |` live s) c = s c" if "c \<in> set (m_children v)" for c using live_child [OF i that] by simp
    show "(s |` live s) phi = s phi" if "m_opcode v = Upsilon" "upsilonPhi v = Some phi" for phi
      using live_phi [OF wt i that(1)] that(2) by (metis option.inject restrict_in)
  qed
qed

text \<open>A solution of what is left extends to the values that were removed.\<close>

lemma live_solution_extends:
  assumes wt: "wtStore s" and wf: "wf (deps s)" and sol: "solution (s |` live s) env"
  shows "\<exists>env'. solution s env' \<and> (\<forall>i \<in> live s. env' i = env i)"
proof -
  define f where "f e i = (if i \<in> live s then env i else pick s e i)" for e i
  define env' where "env' = wfrec (deps s) f"
  have env': "env' i = f env' i" for i
  proof (cases "i \<in> live s \<or> s i = None")
    case True
    then show ?thesis unfolding env'_def by (subst wfrec [OF wf]) (auto simp: f_def pick_def)
  next
    case False
    then obtain v where v: "s i = Some v" by blast
    have "evalValue (cut env' (deps s) i) v = evalValue env' v"
      by (rule evalValue_cong) (use v in \<open>auto simp: cut_def deps_def\<close>)
    then show ?thesis using v False unfolding env'_def by (subst wfrec [OF wf]) (simp add: f_def pick_def)
  qed
  have live: "env' i = env i" if "i \<in> live s" for i using that by (simp add: env' [of i] f_def)
  have "solves env' i v" if "s i = Some v" for i v
    using that
  proof (induction i arbitrary: v rule: wf_induct_rule [OF wf])
    case (1 i)
    show ?case
    proof (cases "i \<in> live s")
      case True
      have "evalValue env' v = evalValue env v"
        by (rule evalValue_cong) (use live live_child [OF True 1(2)] in auto)
      moreover have "solves env i v" using solutionD [OF sol, of i v] True 1(2) by simp
      ultimately show ?thesis using live [OF True] by (simp add: solves_def)
    next
      case False
      have "typeOf (env' c) = m_type cv" if "c \<in> set (m_children v)" "s c = Some cv" for c cv
        using 1(1) [of c cv] that 1(2) by (auto simp: deps_def solves_def)
      then have "inhabited (evalValue env' v) (m_type v)" by (rule eval_inhabited_local [OF wt 1(2)])
      then have "typeOf (env' i) = m_type v \<and> allows (evalValue env' v) (env' i)"
        unfolding env' [of i] f_def pick_def inhabited_def using 1(2) False by simp (rule someI_ex)
      then show ?thesis by (simp add: solves_def)
    qed
  qed
  then show ?thesis using live by (auto simp: solution_def)
qed

end
