(* ===== verification/B3ControlFlow.thy ===== *)
theory B3ControlFlow
  imports B3Validate
begin

text \<open>
  The control flow graph of a procedure: the graph algorithms of b3/B3BasicBlockUtils.h, proved
  over any finite graph, interpreted on the successors of the blocks a procedure owns, and what
  \<open>Procedure::resetReachability\<close> does to the procedure.
\<close>

definition closedCFG :: "Procedure \<Rightarrow> bool" where
  "closedCFG p \<longleftrightarrow> (\<forall>b \<in> set (blocksOf p). set (successorBlocks p b) \<subseteq> set (blocksOf p))"

text \<open>The successor function of a closed procedure; the empty graph stands for any other.\<close>

definition ownedSuccessors :: "Procedure \<Rightarrow> block_ptr \<Rightarrow> block_ptr list" where
  "ownedSuccessors p = (if closedCFG p then successorBlocks p else (\<lambda>_. []))"

interpretation bg: finite_graph "ownedSuccessors p" "set (blocksOf p)" for p
  by unfold_locales (auto simp: ownedSuccessors_def closedCFG_def)

lemma ownedSuccessors_closed [simp]: "closedCFG p \<Longrightarrow> ownedSuccessors p = successorBlocks p"
  by (simp add: ownedSuccessors_def)

definition flow :: "Procedure \<Rightarrow> (block_ptr \<times> block_ptr) set" where
  "flow p = edges (successorBlocks p)"

definition reachable :: "Procedure \<Rightarrow> block_ptr \<Rightarrow> block_ptr set" where
  "reachable p root = (flow p)\<^sup>* `` {root}"

lemma validateProcedure_closed: "validateProcedure p \<Longrightarrow> closedCFG p"
  unfolding closedCFG_def validateProcedure_def validateBlock_def by blast

lemma root_owned: "m_blocks p = Some root # rest \<Longrightarrow> root \<in> set (blocksOf p)"
  by (simp add: blocksOf_def)

subsection \<open>Block orders\<close>

lemma preOrder_exact:
  assumes "closedCFG p" "m_blocks p = Some root # rest"
  shows "\<exists>order. procBlocksInPreOrder p = Some order \<and> distinct order \<and> set order = reachable p root \<and>
    bg.parented p root order"
  using bg.blocksInPreOrder_exact [OF root_owned [OF assms(2)]] assms
  by (simp add: procBlocksInPreOrder_def reachable_def flow_def)

lemma postOrder_exact:
  assumes "closedCFG p" "m_blocks p = Some root # rest"
  shows "\<exists>order. procBlocksInPostOrder p = Some order \<and> distinct order \<and> set order = reachable p root"
  using bg.blocksInPostOrder_exact [OF root_owned [OF assms(2)]] assms
  by (simp add: procBlocksInPostOrder_def reachable_def flow_def)

text \<open>A block that lies on every path from the root to another comes before it in the pre-order.\<close>

definition dominates :: "Procedure \<Rightarrow> block_ptr \<Rightarrow> block_ptr \<Rightarrow> block_ptr \<Rightarrow> bool" where
  "dominates p root d b \<longleftrightarrow> d = root \<or> (root, b) \<notin> (Restr (flow p) (- {d}))\<^sup>*"

lemma preOrder_dominators:
  assumes closed: "closedCFG p" and "m_blocks p = Some root # rest" and o: "procBlocksInPreOrder p = Some (ys @ b # zs)"
    and dom: "dominates p root d b" "d \<noteq> b"
  shows "d \<in> set ys"
proof (rule ccontr)
  assume d: "d \<notin> set ys"
  have "bg.parented p root (ys @ b # zs)" using preOrder_exact [OF assms(1,2)] o by auto
  from bg.parented_path [OF this refl] have path: "(root, b) \<in> (Restr (flow p) (set (ys @ [b])))\<^sup>*"
    using closed by (simp add: flow_def)
  then have "d \<noteq> root" using d dom(2) by (auto elim: converse_rtranclE)
  moreover have "Restr (flow p) (set (ys @ [b])) \<subseteq> Restr (flow p) (- {d})" using d dom(2) by auto
  ultimately show False using path dom(1) rtrancl_mono unfolding dominates_def by blast
qed

subsection \<open>Resetting reachability\<close>

lemma setPreds_simps [simp]:
  "m_values (setPreds f p) = m_values p" "m_valueIndexFreeList (setPreds f p) = m_valueIndexFreeList p"
  "m_blocks (setPreds f p) = m_blocks p"
  "block (setPreds f p) b = map_option (\<lambda>bb. bb\<lparr>bb_predecessors := f b\<rparr>) (block p b)"
  by (auto simp: setPreds_def block_def at_def split: option.splits)

lemma setPreds_values [simp]:
  "valuesOf (setPreds f p) = valuesOf p" "procInv (setPreds f p) = procInv p" "valuesIn (setPreds f p) = valuesIn p"
  by (auto simp: valuesOf_def procInv_def valuesIn_def fun_eq_iff split: option.splits)

lemma heap_update_values [simp]:
  "valuesOf (q\<lparr>m_heap := h\<rparr>) = valuesOf q" "procInv (q\<lparr>m_heap := h\<rparr>) = procInv q"
  "valuesOf (q\<lparr>m_blocks := bs\<rparr>) = valuesOf q" "procInv (q\<lparr>m_blocks := bs\<rparr>) = procInv q"
  "block (q\<lparr>m_blocks := bs\<rparr>) b = block q b" "valuesIn (q\<lparr>m_blocks := bs\<rparr>) b = valuesIn q b"
  by (simp_all add: valuesOf_def procInv_def block_def valuesIn_def fun_eq_iff)

lemma deleteBlock_simps:
  "m_blocks (deleteBlock b p) = m_blocks p" "block (deleteBlock b p) c = (if c = b then None else block p c)"
proof -
  have h: "m_heap (fold deleteValue is q) = m_heap q" "m_blocks (fold deleteValue is q) = m_blocks q" for "is" q
    by (induction "is" arbitrary: q) simp_all
  show "m_blocks (deleteBlock b p) = m_blocks p" "block (deleteBlock b p) c = (if c = b then None else block p c)"
    by (auto simp: deleteBlock_def Let_def block_def h at_def nth_list_update split: option.splits)
qed

lemma deleteBlocks:
  assumes "procInv p" "distinct bs" "distinct (concat (map (valuesIn p) bs))"
    "set (concat (map (valuesIn p) bs)) \<subseteq> dom (valuesOf p)"
  shows "procInv (fold deleteBlock bs p) \<and> m_blocks (fold deleteBlock bs p) = m_blocks p \<and>
    valuesOf (fold deleteBlock bs p) = (\<lambda>i. if i \<in> set (concat (map (valuesIn p) bs)) then None else valuesOf p i) \<and>
    (\<forall>b. block (fold deleteBlock bs p) b = (if b \<in> set bs then None else block p b))"
  using assms
proof (induction bs arbitrary: p)
  case (Cons b bs)
  let ?p = "deleteBlock b p"
  have del: "valuesOf (fold deleteValue (valuesIn p b) p) = (\<lambda>i. if i \<in> set (valuesIn p b) then None else valuesOf p i) \<and>
      procInv (fold deleteValue (valuesIn p b) p)"
    using Cons.prems by (intro vals.free_all) auto
  have v: "valuesOf ?p = (\<lambda>i. if i \<in> set (valuesIn p b) then None else valuesOf p i)" "procInv ?p"
    using del by (simp_all add: deleteBlock_def Let_def)
  have same: "map (valuesIn ?p) bs = map (valuesIn p) bs"
    using Cons.prems(2) by (intro map_cong) (auto simp: valuesIn_def deleteBlock_simps)
  have "set (concat (map (valuesIn p) bs)) \<subseteq> dom (valuesOf ?p)"
  proof
    fix i assume i: "i \<in> set (concat (map (valuesIn p) bs))"
    then have "i \<notin> set (valuesIn p b)" using Cons.prems(3) by auto
    moreover have "i \<in> dom (valuesOf p)" by (rule subsetD [OF Cons.prems(4)]) (use i in simp)
    ultimately show "i \<in> dom (valuesOf ?p)" using v by (simp add: dom_def)
  qed
  moreover have "distinct bs" "distinct (concat (map (valuesIn p) bs))" using Cons.prems(2,3) by simp_all
  ultimately have IH: "procInv (fold deleteBlock bs ?p) \<and> m_blocks (fold deleteBlock bs ?p) = m_blocks ?p \<and>
    valuesOf (fold deleteBlock bs ?p) = (\<lambda>i. if i \<in> set (concat (map (valuesIn p) bs)) then None else valuesOf ?p i) \<and>
    (\<forall>b. block (fold deleteBlock bs ?p) b = (if b \<in> set bs then None else block ?p b))"
    using Cons.IH [of ?p, unfolded same, OF v(2)] by blast
  then show ?case unfolding v by (simp add: deleteBlock_simps fun_eq_iff)
qed simp

lemma distinct_concat_map:
  "distinct xs \<Longrightarrow> distinct (concat (map f xs)) \<longleftrightarrow>
    (\<forall>x \<in> set xs. distinct (f x)) \<and> (\<forall>x \<in> set xs. \<forall>y \<in> set xs. x \<noteq> y \<longrightarrow> set (f x) \<inter> set (f y) = {})"
  by (induction xs) (auto, blast+)

text \<open>
  \<open>resetReachability\<close> leaves the reachable blocks, with exact predecessor lists and their values
  untouched, and deletes every other block together with its values.
\<close>

lemma procResetReachability_exact:
  assumes closed: "closedCFG p" and root: "m_blocks p = Some root # rest" and once: "distinct (blocksOf p)"
    and inv: "procInv p" and placed: "distinct (placedValues p)" "set (placedValues p) \<subseteq> dom (valuesOf p)"
    and blocks: "\<And>b. b \<in> set (blocksOf p) \<Longrightarrow> block p b \<noteq> None"
  shows "\<exists>p'. procResetReachability p = Some p' \<and> procInv p' \<and> set (blocksOf p') = reachable p root \<and>
    (\<forall>b \<in> reachable p root. valuesIn p' b = valuesIn p b \<and> distinct (predsOf p' b) \<and>
       set (predsOf p' b) = {a \<in> reachable p root. b \<in> set (successorBlocks p a)}) \<and>
    valuesOf p' = (\<lambda>i. if \<exists>b \<in> set (blocksOf p) - reachable p root. i \<in> set (valuesIn p b) then None else valuesOf p i)"
proof -
  let ?R = "reachable p root"
  have nodes: "set (blocksOf p) = {b. Some b \<in> set (m_blocks p)}" by (force simp: blocksOf_def image_iff)
  have one: "Some root \<notin> set rest"
    using once root by (auto simp: blocksOf_def image_iff)
  obtain blocks' P deleted where r: "resetReachability (successorBlocks p) (m_blocks p) (predsOf p) = Some (blocks', P, deleted)"
      "{b. Some b \<in> set blocks'} = ?R" "set deleted = set (blocksOf p) - ?R"
      "\<And>b. b \<in> set (blocksOf p) \<Longrightarrow> distinct (P b) \<and> set (P b) = {a \<in> ?R. b \<in> set (successorBlocks p a)}"
    using bg.resetReachability_exact [OF root nodes one, of "predsOf p"] closed
    by (auto simp: reachable_def flow_def)
  have sub: "?R \<subseteq> set (blocksOf p)"
    using bg.reach_closed [of "{root}" p] root_owned [OF root] closed by (simp add: reachable_def flow_def)
  have del: "deleted = filter (\<lambda>b. P b = []) (map the (filter (\<lambda>ob. ob \<noteq> None) rest))"
    using r(1) root by (auto simp: resetReachability_def Let_def split: option.splits)
  have dd: "distinct deleted" unfolding del using once root by (simp add: blocksOf_def)
  let ?q = "setPreds P p"
  have sublist: "distinct (concat (map (valuesIn p) ds)) \<and> set (concat (map (valuesIn p) ds)) \<subseteq> dom (valuesOf p)"
    if "distinct ds" "set ds \<subseteq> set (blocksOf p)" for ds
    using that placed once by (simp add: placedValues_def distinct_concat_map) blast
  have "procInv ?q" "distinct (concat (map (valuesIn ?q) deleted))"
    "set (concat (map (valuesIn ?q) deleted)) \<subseteq> dom (valuesOf ?q)"
    using inv sublist [OF dd] r(3) by auto
  note db = deleteBlocks [OF this(1) dd this(2,3)]
  let ?p' = "(fold deleteBlock deleted ?q)\<lparr>m_blocks := blocks'\<rparr>"
  have "procResetReachability p = Some ?p'" using r(1) by (simp add: procResetReachability_def)
  moreover have "set (blocksOf ?p') = ?R" unfolding r(2) [symmetric] by (force simp: blocksOf_def image_iff)
  moreover have "block ?p' b = map_option (\<lambda>bb. bb\<lparr>bb_predecessors := P b\<rparr>) (block p b)" if "b \<in> ?R" for b
    using db r(3) that by simp
  then have "valuesIn ?p' b = valuesIn p b \<and> predsOf ?p' b = P b" if "b \<in> ?R" for b
    using that sub blocks [of b] by (fastforce simp: valuesIn_def predsOf_def)
  moreover have "valuesOf ?p' = (\<lambda>i. if \<exists>b \<in> set (blocksOf p) - ?R. i \<in> set (valuesIn p b) then None else valuesOf p i)"
    using db r(3) by (auto simp: fun_eq_iff)
  ultimately show ?thesis using db r(4) sub by (intro exI [of _ ?p']) auto
qed

end
