(* ===== verification/Executions.thy ===== *)
theory Executions
  imports Prelude
begin

text \<open>
  Executions of deterministic step functions, and the locale of transformations that take two steps
  at once: a client supplies the old and the new step function and a set of states closed under the
  new one, and gets that both end with the same result or do not end at all.
\<close>

inductive finishes :: "('s \<Rightarrow> 's + 'r) \<Rightarrow> 's \<Rightarrow> 'r \<Rightarrow> bool" for f where
  finishes_end: "f x = Inr r \<Longrightarrow> finishes f x r"
| finishes_step: "f x = Inl y \<Longrightarrow> finishes f y r \<Longrightarrow> finishes f x r"

inductive_cases finishesE: "finishes f x r"

lemma finishes_deterministic: "finishes f x r \<Longrightarrow> finishes f x r' \<Longrightarrow> r = r'"
proof (induction rule: finishes.induct)
  case (finishes_end x r)
  from finishes_end.prems show ?case by (rule finishesE) (use finishes_end.hyps in simp_all)
next
  case (finishes_step x y r)
  from finishes_step.prems show ?case by (rule finishesE) (use finishes_step in auto)
qed

text \<open>The number of steps.\<close>

inductive finishesIn :: "('s \<Rightarrow> 's + 'r) \<Rightarrow> nat \<Rightarrow> 's \<Rightarrow> 'r \<Rightarrow> bool" for f where
  finishesIn_end: "f x = Inr r \<Longrightarrow> finishesIn f 0 x r"
| finishesIn_step: "f x = Inl y \<Longrightarrow> finishesIn f n y r \<Longrightarrow> finishesIn f (Suc n) x r"

inductive_cases finishesInE: "finishesIn f n x r"

lemma finishes_count: "finishes f x r \<longleftrightarrow> (\<exists>n. finishesIn f n x r)"
proof
  show "\<exists>n. finishesIn f n x r" if "finishes f x r"
    using that by induction (auto intro: finishesIn.intros)
  show "finishes f x r" if "\<exists>n. finishesIn f n x r"
  proof -
    from that obtain n where "finishesIn f n x r" by blast
    then show ?thesis by induction (auto intro: finishes.intros)
  qed
qed

locale shortcut =
  fixes old new :: "'s \<Rightarrow> 's + 'r" and P :: "'s \<Rightarrow> bool"
  assumes skips: "P x \<Longrightarrow>
      new x = old x \<and> (\<forall>y. old x = Inl y \<longrightarrow> P y) \<or>
      (\<exists>y. old x = Inl y \<and> new x = old y \<and> (\<forall>z. old y = Inl z \<longrightarrow> P z))"
begin

lemma new_old: "finishes new x r \<Longrightarrow> P x \<Longrightarrow> finishes old x r"
proof (induction rule: finishes.induct)
  case (finishes_end x r)
  then consider "old x = Inr r" | y where "old x = Inl y" "old y = Inr r" using skips [of x] by auto
  then show ?case by cases (blast intro: finishes.intros)+
next
  case (finishes_step x y r)
  then consider "old x = Inl y" "finishes old y r" | z where "old x = Inl z" "old z = Inl y" "finishes old y r"
    using skips [of x] by auto
  then show ?case by cases (blast intro: finishes.intros)+
qed

lemma old_new: "finishesIn old n x r \<Longrightarrow> P x \<Longrightarrow> finishes new x r"
proof (induction n arbitrary: x rule: less_induct)
  case (less n)
  from skips [OF less.prems(2)] show ?case
  proof (elim disjE exE conjE)
    assume same: "new x = old x" "\<forall>y. old x = Inl y \<longrightarrow> P y"
    from less.prems(1) show ?thesis
    proof cases
      case finishesIn_end
      then show ?thesis using same(1) by (auto intro: finishes.intros)
    next
      case (finishesIn_step y m)
      then show ?thesis using same less.IH [of m y] by (auto intro: finishes.intros)
    qed
  next
    fix y assume y: "old x = Inl y" "new x = old y" "\<forall>z. old y = Inl z \<longrightarrow> P z"
    then obtain m where m: "n = Suc m" "finishesIn old m y r"
      using less.prems(1) by (auto elim: finishesInE)
    from m(2) show ?thesis
    proof cases
      case finishesIn_end
      then show ?thesis using y(2) by (auto intro: finishes.intros)
    next
      case (finishesIn_step z k)
      then show ?thesis using y(2,3) m(1) less.IH [of k z] by (auto intro: finishes.intros)
    qed
  qed
qed

theorem same_results: "P x \<Longrightarrow> finishes new x r \<longleftrightarrow> finishes old x r"
  using new_old old_new finishes_count by metis

end

end
