(* ===== verification/B3SimplifyCFG.thy ===== *)
theory B3SimplifyCFG
  imports B3Process B3ControlFlow Executions
begin

text \<open>
  \<open>simplifyCFG\<close> of b3/B3ReduceStrength.cpp: for each block, forwarding its successors over blocks that
  only jump, turning a terminal whose successors are all the same into a jump, and merging a block
  with a successor that has no other predecessor. The theory shows that no assertion of it fails,
  that the lists of predecessors stay complete, and that executions reach the same end with the same
  values executed, under the condition that nothing jumps to the root block.
\<close>

subsection \<open>The terminal of a block\<close>

text \<open>\<open>block->last()->as<ControlValue>()\<close>, \<^term>\<open>None\<close> for the null pointer.\<close>

definition terminalOf :: "Procedure \<Rightarrow> block_ptr \<Rightarrow> Value option" where
  "terminalOf p b = do {
     v \<leftarrow> lastValue p b;
     if acceptsControl (m_opcode v) then Some v else None }"

definition setTerminal :: "block_ptr \<Rightarrow> Value \<Rightarrow> Procedure \<Rightarrow> Procedure" where
  "setTerminal b v p = setValue (last (valuesIn p b)) v p"

subsection \<open>The three rules\<close>

text \<open>One iteration of the loop over the references to the successors of \<open>block\<close>, at index \<open>k\<close>.\<close>

definition forwardSuccessor :: "block_ptr \<Rightarrow> nat \<Rightarrow> ReduceStrength \<Rightarrow> ReduceStrength option" where
  "forwardSuccessor b k rs = do {
     v \<leftarrow> terminalOf (m_proc rs) b;
     (successor, frequency) \<leftarrow> at (successors v) k;
     if successor \<noteq> b \<and> length (valuesIn (m_proc rs) successor) = 1
     then do {
       w \<leftarrow> lastValue (m_proc rs) successor;
       if m_opcode w = Jump
       then do {
         (newSuccessor, _) \<leftarrow> at (successors w) 0;
         if newSuccessor \<noteq> successor
         then Some (rs\<lparr>m_proc :=
                setTerminal b (setSuccessors ((successors v)[k := (newSuccessor, frequency)]) v)
                  (addPredecessorTo newSuccessor b (m_proc rs)),
              m_changedCFG := True\<rparr>)
         else Some rs }
       else Some rs }
     else Some rs }"

definition convertTerminal :: "block_ptr \<Rightarrow> ReduceStrength \<Rightarrow> ReduceStrength option" where
  "convertTerminal b rs = do {
     v \<leftarrow> terminalOf (m_proc rs) b;
     (case successors v of
        first # second # rest \<Rightarrow>
          if \<not> mustExecute ((effects v)\<lparr>terminal := False\<rparr>) \<and> list_all (\<lambda>s. fst s = fst first) (second # rest)
          then Some (rs\<lparr>m_proc := setTerminal b (convertToJump (fst first) v) (m_proc rs), m_changedCFG := True\<rparr>)
          else Some rs
      | _ \<Rightarrow> Some rs) }"

definition mergeInto :: "block_ptr \<Rightarrow> block_ptr \<Rightarrow> nat \<Rightarrow> Procedure \<Rightarrow> Procedure" where
  "mergeInto b successor jumpOrigin p =
     (let p1 = removeLast b p;
          p2 = updateBlock b (\<lambda>bb. bb\<lparr>bb_values := bb_values bb @ valuesIn p1 successor\<rparr>) p1;
          p3 = updateBlock successor (\<lambda>bb. bb\<lparr>bb_values := []\<rparr>) p2;
          p4 = snd (appendNew successor (OopsValue jumpOrigin) p3)
      in fold (\<lambda>newSuccessor. replacePredecessorOf newSuccessor successor b) (successorBlocks p4 b) p4)"

definition mergeBlock :: "block_ptr \<Rightarrow> ReduceStrength \<Rightarrow> ReduceStrength option" where
  "mergeBlock b rs = do {
     v \<leftarrow> terminalOf (m_proc rs) b;
     (case successors v of
        [(successor, _)] \<Rightarrow>
          if successor \<noteq> b \<and> length (predsOf (m_proc rs) successor) = 1
          then if predsOf (m_proc rs) successor ! 0 = b
               then Some (rs\<lparr>m_proc := mergeInto b successor (m_origin v) (m_proc rs), m_changedCFG := True\<rparr>)
               else None
          else Some rs
      | _ \<Rightarrow> Some rs) }"

subsection \<open>The pass\<close>

definition checkPredecessorValidity :: "Procedure \<Rightarrow> bool" where
  "checkPredecessorValidity p \<longleftrightarrow>
     (\<forall>b \<in> set (blocksOf p). \<forall>successor \<in> set (successorBlocks p b). b \<in> set (predsOf p successor))"

text \<open>\<open>validate\<close> is the option \<open>shouldValidateIRAtEachPhase()\<close>.\<close>

definition simplifyBlock :: "bool \<Rightarrow> block_ptr \<Rightarrow> ReduceStrength \<Rightarrow> ReduceStrength option" where
  "simplifyBlock validate b rs =
     (if validate \<and> \<not> checkPredecessorValidity (m_proc rs) then None
      else do {
        v \<leftarrow> terminalOf (m_proc rs) b;
        if successors v = [] then Some rs
        else do {
          rs1 \<leftarrow> foldM (forwardSuccessor b) [0..<length (successors v)] rs;
          rs2 \<leftarrow> convertTerminal b rs1;
          mergeBlock b rs2 } })"

definition simplifyCFG :: "bool \<Rightarrow> ReduceStrength \<Rightarrow> ReduceStrength option" where
  "simplifyCFG validate rs = foldM (simplifyBlock validate) (blocksOf (m_proc rs)) rs"

subsection \<open>Where a terminal goes\<close>

lemma switchTarget_index:
  assumes "length ss = Suc (length cs)"
  obtains k where "k < length ss" "\<And>ss'. length ss' = length ss \<Longrightarrow> switchTarget x ss' cs = Some (fst (ss' ! k))"
proof -
  have "\<exists>k \<le> length cs. \<forall>ss'. length ss' = Suc (length cs) \<longrightarrow> switchTarget x ss' cs = Some (fst (ss' ! k))" for cs
  proof (induction cs)
    case Nil
    then show ?case by (auto simp: length_Suc_conv)
  next
    case (Cons c cs)
    then obtain k where k: "k \<le> length cs" "\<forall>ss'. length ss' = Suc (length cs) \<longrightarrow> switchTarget x ss' cs = Some (fst (ss' ! k))"
      by blast
    show ?case
    proof (cases "caseMatches x c")
      case True
      then show ?thesis by (intro exI [of _ 0]) (auto simp: length_Suc_conv)
    next
      case False
      then show ?thesis using k by (intro exI [of _ "Suc k"]) (auto simp: length_Suc_conv)
    qed
  qed
  from this [of cs] obtain k where "k \<le> length cs"
    "\<forall>ss'. length ss' = Suc (length cs) \<longrightarrow> switchTarget x ss' cs = Some (fst (ss' ! k))" by blast
  then show thesis using that [of k] assms by simp
qed

text \<open>The shapes of a well-typed terminal.\<close>

lemma terminal_shape:
  assumes wt: "wtValue s v" and op: "acceptsControl (m_opcode v)"
  obtains (Jump) b where "m_opcode v = Jump" "m_payload v = ControlPayload [b]" "m_children v = []"
  | (Branch) c yes no where "m_opcode v = Branch" "m_payload v = ControlPayload [yes, no]" "m_children v = [c]"
  | (Switch) c ss cs where "m_opcode v = Switch" "m_payload v = SwitchPayload ss cs" "length ss = Suc (length cs)"
      "m_children v = [c]"
  | (Return) c where "m_opcode v = Return" "m_payload v = ControlPayload []" "m_children v = [c]"
  | (Oops) "m_opcode v = Oops" "m_payload v = ControlPayload []" "m_children v = []"
proof -
  have pl: "payloadOK (m_opcode v) (m_payload v)" and ty: "validateOpcode (m_opcode v) s v"
    using wt by (simp_all add: wtValue_def validateTypes_def)
  consider "m_opcode v = Jump" | "m_opcode v = Branch" | "m_opcode v = Switch" | "m_opcode v = Return" | "m_opcode v = Oops"
    using op by (auto simp: acceptsControl_def)
  then show thesis
  proof cases
    case 1
    then obtain ss where "m_payload v = ControlPayload ss" "length ss = 1" "m_children v = []"
      using pl ty by (cases "m_payload v") (simp_all add: payloadOK_def accepts_defs numChildren_def)
    then show thesis using Jump 1 by (auto simp: length_Suc_conv)
  next
    case 2
    then obtain ss where "m_payload v = ControlPayload ss" "length ss = 2" "length (m_children v) = 1"
      using pl ty by (cases "m_payload v") (simp_all add: payloadOK_def accepts_defs numChildren_def)
    then show thesis using Branch 2 by (auto simp: length_Suc_conv numeral_2_eq_2)
  next
    case 3
    then obtain ss cs where "m_payload v = SwitchPayload ss cs" "length ss = Suc (length cs)" "length (m_children v) = 1"
      using pl ty by (cases "m_payload v") (simp_all add: payloadOK_def accepts_defs numChildren_def)
    then show thesis using Switch 3 by (auto simp: length_Suc_conv)
  next
    case 4
    then obtain ss where "m_payload v = ControlPayload ss" "length ss = 0" "length (m_children v) = 1"
      using pl ty by (cases "m_payload v") (simp_all add: payloadOK_def accepts_defs numChildren_def)
    then show thesis using Return 4 by (auto simp: length_Suc_conv)
  next
    case 5
    then obtain ss where "m_payload v = ControlPayload ss" "length ss = 0" "m_children v = []"
      using pl ty by (cases "m_payload v") (simp_all add: payloadOK_def accepts_defs numChildren_def)
    then show thesis using Oops 5 by simp
  qed
qed

text \<open>
  A well-typed terminal with successors takes one of them, whose position depends on the operand
  only; one without successors leaves the procedure.
\<close>

lemma terminal_takes:
  assumes wt: "wtValue s v" and op: "acceptsControl (m_opcode v)" and ss: "successors v \<noteq> []"
  obtains k where "k < length (successors v)"
    "\<And>ss'. length ss' = length (successors v) \<Longrightarrow> observe env i (setSuccessors ss' v) = Goto (fst (ss' ! k))"
  using wt op
proof (cases rule: terminal_shape)
  case (Jump b)
  then show thesis by (intro that [of 0]) (auto simp: observe_def setSuccessors_def successors_def length_Suc_conv)
next
  case (Branch c yes no)
  show thesis
    by (rule that [of "if truthy (env c) then 0 else 1"])
      (use Branch in \<open>auto simp: observe_def setSuccessors_def successors_def args_def length_Suc_conv numeral_2_eq_2\<close>)
next
  case (Switch c ss cs)
  obtain k where k: "k < length ss"
      "\<And>ss'. length ss' = length ss \<Longrightarrow> switchTarget (env c) ss' cs = Some (fst (ss' ! k))"
    using switchTarget_index [OF Switch(3), of "env c"] by blast
  show thesis
    by (rule that [of k]) (use Switch k in \<open>simp_all add: observe_def setSuccessors_def successors_def args_def caseValues_def\<close>)
qed (use ss in \<open>simp_all add: successors_def\<close>)

lemma setSuccessors_same:
  assumes "wtValue s v" "acceptsControl (m_opcode v)"
  shows "setSuccessors (successors v) v = v"
  using assms by (cases rule: terminal_shape) (simp_all add: setSuccessors_def successors_def)

lemma setSuccessors_simps [simp]:
  "m_opcode (setSuccessors ss v) = m_opcode v" "m_type (setSuccessors ss v) = m_type v"
  "m_children (setSuccessors ss v) = m_children v" "successors (setSuccessors ss v) = ss"
  "m_origin (setSuccessors ss v) = m_origin v"
  by (cases "m_payload v"; simp add: setSuccessors_def successors_def)+

lemma terminal_leaves:
  assumes "wtValue s v" "acceptsControl (m_opcode v)" "successors v = []"
  shows "observe env i v \<noteq> Goto c"
  using assms(1,2) by (cases rule: terminal_shape) (use assms(3) in \<open>auto simp: successors_def observe_def\<close>)

lemma terminal_observed:
  assumes "wtValue s v" "acceptsControl (m_opcode v)" "observe env i v = Goto c"
  shows "c \<in> fst ` set (successors v)"
proof (cases "successors v = []")
  case False
  obtain k where k: "k < length (successors v)"
      "\<And>ss'. length ss' = length (successors v) \<Longrightarrow> observe env i (setSuccessors ss' v) = Goto (fst (ss' ! k))"
    using terminal_takes [OF assms(1,2) False] by blast
  have "observe env i v = Goto (fst (successors v ! k))" using k(2) [of "successors v"] setSuccessors_same [OF assms(1,2)] by simp
  then show ?thesis using assms(3) k(1) by simp
qed (use assms terminal_leaves in simp)

lemma control_wt:
  assumes "validateChildren s v" "validateOpcode (m_opcode v) s v" "payloadOK (m_opcode v) (m_payload v)"
    "acceptsControl (m_opcode v)"
  shows "wtValue s v"
  using assms by (auto simp: wtValue_def validateTypes_def isCheckMath_def acceptsControl_def)

lemma terminal_wt:
  assumes "wtValue s v" "acceptsControl (m_opcode v)"
  shows "m_type v = Void" "length ss = length (successors v) \<Longrightarrow> wtValue s (setSuccessors ss v)"
proof -
  show "m_type v = Void"
    using assms by (cases rule: terminal_shape) (use assms(1) in \<open>simp_all add: wtValue_def validateTypes_def\<close>)
  assume n: "length ss = length (successors v)"
  have ch: "validateChildren s (setSuccessors ss v)" using assms(1) by (simp add: wtValue_def validateChildren_def)
  have ct: "childIsInt s (v\<lparr>m_payload := pl\<rparr>) = childIsInt s v" for pl
    by (simp add: childIsInt_def childType_def child_def fun_eq_iff)
  from assms have "validateOpcode (m_opcode v) s (setSuccessors ss v) \<and> payloadOK (m_opcode v) (m_payload (setSuccessors ss v))"
    by (cases rule: terminal_shape)
      (use assms(1) n in \<open>simp_all add: wtValue_def validateTypes_def numChildren_def ct payloadOK_def accepts_defs
        setSuccessors_def successors_def\<close>)
  then show "wtValue s (setSuccessors ss v)" using ch assms(2) by (intro control_wt) simp_all
qed

subsection \<open>The invariant\<close>

text \<open>
  What the pass needs and keeps. The last conjunct holds of the procedures that the clients build:
  their root block is only entered at the start.
\<close>

definition cfgInv :: "Procedure \<Rightarrow> block_ptr \<Rightarrow> bool" where
  "cfgInv p root \<longleftrightarrow>
     procInv p \<and> wtStore (valuesOf p) \<and> placement p \<and> distinct (blocksOf p) \<and> root \<in> set (blocksOf p) \<and>
     (\<forall>b \<in> set (blocksOf p). validateBlock p b) \<and> checkPredecessorValidity p \<and> (\<forall>b. distinct (predsOf p b)) \<and>
     (\<forall>b \<in> set (blocksOf p). root \<notin> set (successorBlocks p b))"

lemma cfgInvD:
  assumes "cfgInv p root"
  shows "procInv p" "wtStore (valuesOf p)" "placement p" "distinct (blocksOf p)" "root \<in> set (blocksOf p)"
    "b \<in> set (blocksOf p) \<Longrightarrow> validateBlock p b" "checkPredecessorValidity p" "distinct (predsOf p b)"
    "b \<in> set (blocksOf p) \<Longrightarrow> root \<notin> set (successorBlocks p b)"
  using assms by (simp_all add: cfgInv_def)

lemma cfgInv_terminal:
  assumes inv: "cfgInv p root" and b: "b \<in> set (blocksOf p)"
  obtains v where "lastValue p b = Some v" "terminalOf p b = Some v" "acceptsControl (m_opcode v)"
    "wtValue (valuesOf p) v" "valuesIn p b \<noteq> []" "valuesOf p (last (valuesIn p b)) = Some v"
    "successorBlocks p b = map fst (successors v)" "set (successorBlocks p b) \<subseteq> set (blocksOf p) - {root}"
proof -
  have vb: "validateBlock p b" by (rule cfgInvD(6) [OF inv b])
  then obtain v where v: "lastValue p b = Some v" "acceptsControl (m_opcode v)" "valuesIn p b \<noteq> []"
    by (auto simp: validateBlock_def split: option.splits)
  then have "valuesOf p (last (valuesIn p b)) = Some v" by (simp add: lastValue_def)
  with v vb show thesis
    using wtStoreD [OF cfgInvD(2) [OF inv], of _ v] cfgInvD(9) [OF inv b]
    by (intro that) (auto simp: terminalOf_def successorBlocks_def validateBlock_def)
qed

lemma placed_in_one_block:
  assumes inv: "cfgInv p root" and "b \<in> set (blocksOf p)" "c \<in> set (blocksOf p)"
    "i \<in> set (valuesIn p b)" "i \<in> set (valuesIn p c)"
  shows "b = c"
  using cfgInvD(3,4) [OF inv] assms(2-) by (auto simp: placement_def placedValues_def distinct_concat_map)

subsection \<open>Executions\<close>

text \<open>
  An execution is driven by a schedule that gives, after each sequence of executed values, the
  environment in which the next terminal is observed. A step executes the body of a block, appends
  it to the history and follows the terminal; an execution ends with its history and the
  observation of its last terminal.
\<close>

type_synonym schedule = "value_ptr list \<Rightarrow> env"

definition follow :: "value_ptr list \<Rightarrow> obs \<Rightarrow> (block_ptr \<times> value_ptr list) + (value_ptr list \<times> obs)" where
  "follow h ob = (case ob of Goto b \<Rightarrow> Inl (b, h) | _ \<Rightarrow> Inr (h, ob))"

definition stepBlock ::
    "Procedure \<Rightarrow> schedule \<Rightarrow> block_ptr \<times> value_ptr list \<Rightarrow> (block_ptr \<times> value_ptr list) + (value_ptr list \<times> obs)" where
  "stepBlock p E = (\<lambda>(b, h).
     let h' = h @ butlast (valuesIn p b)
     in case lastValue p b of
          None \<Rightarrow> Inr (h', Unreachable)
        | Some v \<Rightarrow> follow h' (observe (E h') (last (valuesIn p b)) v))"

definition sameExecutions :: "Procedure \<Rightarrow> Procedure \<Rightarrow> block_ptr \<Rightarrow> bool" where
  "sameExecutions p p' root \<longleftrightarrow>
     (\<forall>E h r. finishes (stepBlock p' E) (root, h) r \<longleftrightarrow> finishes (stepBlock p E) (root, h) r)"

lemma sameExecutions_refl [simp]: "sameExecutions p p root"
  by (simp add: sameExecutions_def)

lemma sameExecutions_trans: "sameExecutions p q root \<Longrightarrow> sameExecutions q r root \<Longrightarrow> sameExecutions p r root"
  by (simp add: sameExecutions_def)

lemma follow_simps [simp]: "follow h (Goto b) = Inl (b, h)" "follow h ob = Inl (b, h') \<longleftrightarrow> ob = Goto b \<and> h' = h"
  by (auto simp: follow_def split: obs.splits)

lemma stepBlock_target:
  assumes inv: "cfgInv p root" and b: "b \<in> set (blocksOf p)" and s: "stepBlock p E (b, h) = Inl (c, h')"
  shows "c \<in> set (successorBlocks p b)" "c \<in> set (blocksOf p)" "c \<noteq> root"
proof -
  obtain v where v: "lastValue p b = Some v" "terminalOf p b = Some v" "acceptsControl (m_opcode v)"
    "wtValue (valuesOf p) v" "valuesIn p b \<noteq> []" "valuesOf p (last (valuesIn p b)) = Some v"
    "successorBlocks p b = map fst (successors v)" "set (successorBlocks p b) \<subseteq> set (blocksOf p) - {root}"
    by (rule cfgInv_terminal [OF inv b])
  show c: "c \<in> set (successorBlocks p b)"
    using terminal_observed [OF v(4,3)] s v(1,7) by (auto simp: stepBlock_def Let_def)
  show "c \<in> set (blocksOf p)" "c \<noteq> root" using c v(8) by auto
qed

lemma step_closed:
  assumes "cfgInv p root" "fst x \<in> set (blocksOf p)" "stepBlock p E x = Inl y"
  shows "fst y \<in> set (blocksOf p)"
  using stepBlock_target(2) [OF assms(1,2), of E "snd x" "fst y" "snd y"] assms(3) by simp

subsection \<open>Changing the successors of a terminal\<close>

text \<open>
  The first two rules replace the terminal of a block in place; predecessors may be added. The
  invariant is kept if the new terminal is well-typed and its successors know the block.
\<close>

lemma retarget:
  assumes inv: "cfgInv p root" and b: "b \<in> set (blocksOf p)"
    and v': "wtValue (valuesOf p) v'" "acceptsControl (m_opcode v')"
    and st: "valuesOf p' = (valuesOf p)(last (valuesIn p b) \<mapsto> v')" "\<And>c. valuesIn p' c = valuesIn p c"
    and same: "m_blocks p' = m_blocks p" "procInv p'"
    and preds: "\<And>c. set (predsOf p c) \<subseteq> set (predsOf p' c)" "\<And>c. distinct (predsOf p' c)"
    and succs: "fst ` set (successors v') \<subseteq> set (blocksOf p) - {root}" "\<And>c. c \<in> fst ` set (successors v') \<Longrightarrow> b \<in> set (predsOf p' c)"
  shows "cfgInv p' root" "blocksOf p' = blocksOf p"
    "c \<in> set (blocksOf p) \<Longrightarrow> lastValue p' c = (if c = b then Some v' else lastValue p c)"
proof -
  obtain v where v: "lastValue p b = Some v" "terminalOf p b = Some v" "acceptsControl (m_opcode v)"
    "wtValue (valuesOf p) v" "valuesIn p b \<noteq> []" "valuesOf p (last (valuesIn p b)) = Some v"
    "successorBlocks p b = map fst (successors v)" "set (successorBlocks p b) \<subseteq> set (blocksOf p) - {root}"
    by (rule cfgInv_terminal [OF inv b])
  let ?t = "last (valuesIn p b)"
  show bs: "blocksOf p' = blocksOf p" using same(1) by (simp add: blocksOf_def)
  have t: "?t \<notin> set (valuesIn p c)" if "c \<in> set (blocksOf p)" "c \<noteq> b" for c
    using placed_in_one_block [OF inv b that(1), of ?t] v(5) that(2) by auto
  show last: "lastValue p' c = (if c = b then Some v' else lastValue p c)" if "c \<in> set (blocksOf p)" for c
  proof (cases "c = b \<or> valuesIn p c = []")
    case False
    then have "last (valuesIn p c) \<noteq> ?t" using t [OF that] by (metis last_in_set)
    then show ?thesis using False by (simp add: lastValue_def st)
  qed (use v(5) in \<open>auto simp: lastValue_def st\<close>)
  have succ: "successorBlocks p' c = (if c = b then map fst (successors v') else successorBlocks p c)"
    if "c \<in> set (blocksOf p)" for c
    using last [OF that] by (simp add: successorBlocks_def)
  have type: "m_type v' = m_type v" using terminal_wt(1) [OF v(4,3)] terminal_wt(1) [OF v'] by simp
  have "valuesIn p' = valuesIn p" using st(2) by blast
  then have "placedValues p' = placedValues p" unfolding placedValues_def bs by (rule arg_cong)
  moreover have "dom (valuesOf p') = dom (valuesOf p)" using v(6) by (auto simp: st(1))
  ultimately have placed: "placement p'" using cfgInvD(3) [OF inv] by (simp add: placement_def)
  have "validateBlock p' c" if c: "c \<in> set (blocksOf p)" for c
  proof -
    have vc: "validateBlock p c" by (rule cfgInvD(6) [OF inv c])
    have nt: "i \<noteq> ?t" if "i \<in> set (butlast (valuesIn p c))" for i
    proof (cases "c = b")
      case True
      then have "distinct (valuesIn p b)"
        using cfgInvD(3,4) [OF inv] b by (auto simp: placement_def placedValues_def distinct_concat_map)
      then have "distinct (butlast (valuesIn p b) @ [?t])" using v(5) by simp
      then show ?thesis using that True by auto
    qed (use t [OF c] that in \<open>auto dest: in_set_butlastD\<close>)
    then have "\<forall>i \<in> set (butlast (valuesIn p c)). valuesOf p' i = valuesOf p i" by (simp add: st)
    moreover have "set (successorBlocks p' c) \<subseteq> set (blocksOf p')"
      using succ [OF c] succs(1) vc bs by (auto simp: validateBlock_def)
    ultimately show ?thesis using vc last [OF c] v'(2) by (auto simp: validateBlock_def st(2))
  qed
  moreover have "checkPredecessorValidity p'"
    unfolding checkPredecessorValidity_def bs
  proof (intro ballI)
    fix c d assume c: "c \<in> set (blocksOf p)" and d: "d \<in> set (successorBlocks p' c)"
    show "c \<in> set (predsOf p' d)"
    proof (cases "c = b")
      case True
      then show ?thesis using d succ [OF c] succs(2) by simp
    next
      case False
      then show ?thesis
        using d succ [OF c] cfgInvD(7) [OF inv] c preds(1) [of d] by (auto simp: checkPredecessorValidity_def)
    qed
  qed
  moreover have "root \<notin> set (successorBlocks p' c)" if "c \<in> set (blocksOf p)" for c
    using succ [OF that] succs(1) cfgInvD(9) [OF inv that] by auto
  moreover have "wtStore (valuesOf p')"
    unfolding st(1) by (rule wtStore_update [OF cfgInvD(2) [OF inv] v(6) type v'(1)])
  ultimately show "cfgInv p' root"
    using cfgInvD(4,5) [OF inv] same(2) placed preds(2) unfolding cfgInv_def bs by auto
qed

text \<open>Blocks other than the changed one step as before.\<close>

lemma retarget_step:
  assumes "lastValue p' c = lastValue p c" "valuesIn p' c = valuesIn p c"
  shows "stepBlock p' E (c, h) = stepBlock p E (c, h)"
  using assms by (cases "lastValue p c") (simp_all add: stepBlock_def)

text \<open>
  A new procedure whose steps skip steps of the old one, on a set of blocks that both stay in.
\<close>

definition skipsOver :: "Procedure \<Rightarrow> Procedure \<Rightarrow> schedule \<Rightarrow> block_ptr set \<Rightarrow> bool" where
  "skipsOver p p' E B \<longleftrightarrow>
     (\<forall>c \<in> B. \<forall>h.
        stepBlock p' E (c, h) = stepBlock p E (c, h) \<and> (\<forall>y. stepBlock p E (c, h) = Inl y \<longrightarrow> fst y \<in> B) \<or>
        (\<exists>y. stepBlock p E (c, h) = Inl y \<and> stepBlock p' E (c, h) = stepBlock p E y \<and>
             (\<forall>z. stepBlock p E y = Inl z \<longrightarrow> fst z \<in> B)))"

interpretation skipping: shortcut "stepBlock p E" "stepBlock p' E" "\<lambda>x. skipsOver p p' E B \<and> fst x \<in> B" for p p' E B
proof
  fix x :: "block_ptr \<times> value_ptr list" assume "skipsOver p p' E B \<and> fst x \<in> B"
  moreover from this have "stepBlock p' E x = stepBlock p E x \<and> (\<forall>y. stepBlock p E x = Inl y \<longrightarrow> fst y \<in> B) \<or>
    (\<exists>y. stepBlock p E x = Inl y \<and> stepBlock p' E x = stepBlock p E y \<and> (\<forall>z. stepBlock p E y = Inl z \<longrightarrow> fst z \<in> B))"
    unfolding skipsOver_def by (metis prod.collapse)
  ultimately show "stepBlock p' E x = stepBlock p E x \<and> (\<forall>y. stepBlock p E x = Inl y \<longrightarrow> skipsOver p p' E B \<and> fst y \<in> B) \<or>
    (\<exists>y. stepBlock p E x = Inl y \<and> stepBlock p' E x = stepBlock p E y \<and>
       (\<forall>z. stepBlock p E y = Inl z \<longrightarrow> skipsOver p p' E B \<and> fst z \<in> B))"
    by auto
qed

lemma shortcut_executions:
  assumes root: "root \<in> B"
    and step: "\<And>E c h. c \<in> B \<Longrightarrow>
      stepBlock p' E (c, h) = stepBlock p E (c, h) \<and> (\<forall>y. stepBlock p E (c, h) = Inl y \<longrightarrow> fst y \<in> B) \<or>
      (\<exists>y. stepBlock p E (c, h) = Inl y \<and> stepBlock p' E (c, h) = stepBlock p E y \<and> (\<forall>z. stepBlock p E y = Inl z \<longrightarrow> fst z \<in> B))"
  shows "sameExecutions p p' root"
  unfolding sameExecutions_def
proof (intro allI)
  fix E h r
  have "skipsOver p p' E B" unfolding skipsOver_def using step by blast
  then show "finishes (stepBlock p' E) (root, h) r \<longleftrightarrow> finishes (stepBlock p E) (root, h) r"
    using skipping.same_results [of p p' E B "(root, h)"] root by simp
qed

text \<open>What each rule achieves.\<close>

definition simplified :: "block_ptr \<Rightarrow> ReduceStrength \<Rightarrow> ReduceStrength \<Rightarrow> bool" where
  "simplified root rs rs' \<longleftrightarrow>
     cfgInv (m_proc rs') root \<and> m_blocks (m_proc rs') = m_blocks (m_proc rs) \<and>
     sameExecutions (m_proc rs) (m_proc rs') root \<and> deps (valuesOf (m_proc rs')) \<subseteq> deps (valuesOf (m_proc rs)) \<and>
     m_insertionSet rs' = m_insertionSet rs \<and> m_changed rs' = m_changed rs \<and> (m_changedCFG rs \<longrightarrow> m_changedCFG rs') \<and>
     (\<not> m_changedCFG rs' \<longrightarrow> m_proc rs' = m_proc rs)"

lemma simplified_refl: "cfgInv (m_proc rs) root \<Longrightarrow> simplified root rs rs"
  by (simp add: simplified_def)

lemma simplified_trans: "simplified root a b \<Longrightarrow> simplified root b c \<Longrightarrow> simplified root a c"
  using sameExecutions_trans by (auto simp: simplified_def)

lemma simplified_inv: "simplified root rs rs' \<Longrightarrow> cfgInv (m_proc rs') root"
  by (simp add: simplified_def)

lemma simplified_blocks: "simplified root rs rs' \<Longrightarrow> blocksOf (m_proc rs') = blocksOf (m_proc rs)"
  by (simp add: simplified_def blocksOf_def)

lemma preds_simps [simp]:
  "valuesOf (addPredecessorTo c b p) = valuesOf p" "procInv (addPredecessorTo c b p) = procInv p"
  "m_blocks (addPredecessorTo c b p) = m_blocks p" "valuesIn (addPredecessorTo c b p) d = valuesIn p d"
  "valuesIn (setTerminal b v p) d = valuesIn p d" "m_blocks (setTerminal b v p) = m_blocks p"
  "predsOf (setTerminal b v p) d = predsOf p d"
proof -
  have "block (setTerminal b v p) d = block p d" by (simp add: setTerminal_def block_def)
  then show "valuesIn (setTerminal b v p) d = valuesIn p d" "predsOf (setTerminal b v p) d = predsOf p d"
    by (simp_all add: valuesIn_def predsOf_def)
qed (auto simp: addPredecessorTo_def setTerminal_def valuesIn_def block_updateBlock split: option.splits)

lemma predsOf_add:
  "block p c \<noteq> None \<Longrightarrow> predsOf (addPredecessorTo c b p) d = (if d = c then snd (addPredecessor (predsOf p c) b) else predsOf p d)"
  "block p c = None \<Longrightarrow> predsOf (addPredecessorTo c b p) d = predsOf p d"
  by (auto simp: addPredecessorTo_def predsOf_def block_updateBlock split: option.splits)

lemma setTerminal_values:
  assumes "procInv p" "valuesOf p (last (valuesIn p b)) \<noteq> None"
  shows "valuesOf (setTerminal b v p) = (valuesOf p)(last (valuesIn p b) \<mapsto> v)" "procInv (setTerminal b v p)"
  using assms by (simp_all add: setTerminal_def valuesOf_setValue procInv_setValue)

lemma owned_block: "cfgInv p root \<Longrightarrow> b \<in> set (blocksOf p) \<Longrightarrow> block p b \<noteq> None"
  using cfgInvD(6) [of p root b] by (auto simp: validateBlock_def valuesIn_def split: option.splits)

lemma forward_executions:
  assumes inv: "cfgInv p root" and b: "b \<in> set (blocksOf p)" and v: "lastValue p b = Some v"
    and k: "k < length (successors v)" and s: "successors v ! k = (s, f)"
    and w: "length (valuesIn p s) = 1" "lastValue p s = Some w" "m_opcode w = Jump" "successors w = [(n, g)]"
    and last: "\<And>c. c \<in> set (blocksOf p) \<Longrightarrow>
      lastValue p' c = (if c = b then Some (setSuccessors ((successors v)[k := (n, f)]) v) else lastValue p c)"
    and vs: "\<And>c. valuesIn p' c = valuesIn p c"
  shows "sameExecutions p p' root"
proof (rule shortcut_executions [OF cfgInvD(5) [OF inv]])
  fix E c h assume c: "c \<in> set (blocksOf p)"
  let ?h = "h @ butlast (valuesIn p b)" and ?ss = "(successors v)[k := (n, f)]"
  have u: "wtValue (valuesOf p) v" "acceptsControl (m_opcode v)"
    using cfgInv_terminal [OF inv b] v by (metis option.inject)+
  have "stepBlock p' E (c, h) = stepBlock p E (c, h) \<or>
    (\<exists>y. stepBlock p E (c, h) = Inl y \<and> stepBlock p' E (c, h) = stepBlock p E y)"
  proof (cases "c = b")
    case False
    then show ?thesis using retarget_step [of p' c p E h] last [OF c] vs by simp
  next
    case cb: True
    have "successors v \<noteq> []" using k by auto
    then obtain j where j: "j < length (successors v)" "\<And>ss'. length ss' = length (successors v) \<Longrightarrow>
        observe (E ?h) (List.last (valuesIn p b)) (setSuccessors ss' v) = Goto (fst (ss' ! j))"
      using terminal_takes [OF u] by metis
    have old: "stepBlock p E (b, h) = Inl (fst (successors v ! j), ?h)"
      using j(2) [of "successors v"] setSuccessors_same [OF u] v by (simp add: stepBlock_def)
    have new: "stepBlock p' E (b, h) = Inl (fst (?ss ! j), ?h)"
      using j(2) [of ?ss] last [OF b] vs by (simp add: stepBlock_def)
    show ?thesis
    proof (cases "j = k")
      case True
      moreover have "stepBlock p E (s, ?h) = Inl (n, ?h)"
        using w by (auto simp: stepBlock_def observe_def length_Suc_conv)
      ultimately show ?thesis using old new s k cb by simp
    qed (use old new cb in simp)
  qed
  then show "stepBlock p' E (c, h) = stepBlock p E (c, h) \<and> (\<forall>y. stepBlock p E (c, h) = Inl y \<longrightarrow> fst y \<in> set (blocksOf p)) \<or>
    (\<exists>y. stepBlock p E (c, h) = Inl y \<and> stepBlock p' E (c, h) = stepBlock p E y \<and>
       (\<forall>z. stepBlock p E y = Inl z \<longrightarrow> fst z \<in> set (blocksOf p)))"
  proof (elim disjE exE conjE)
    assume "stepBlock p' E (c, h) = stepBlock p E (c, h)"
    then show ?thesis using step_closed [OF inv, of "(c, h)"] c by simp
  next
    fix y assume y: "stepBlock p E (c, h) = Inl y" "stepBlock p' E (c, h) = stepBlock p E y"
    then show ?thesis using step_closed [OF inv, of "(c, h)" E y] step_closed [OF inv, of y E] c by auto
  qed
qed

lemma forwardSuccessor_simplifies:
  assumes inv: "cfgInv (m_proc rs) root" and b: "b \<in> set (blocksOf (m_proc rs))"
    and v: "terminalOf (m_proc rs) b = Some v" and k: "k < length (successors v)"
  shows "\<exists>rs' v'. forwardSuccessor b k rs = Some rs' \<and> simplified root rs rs' \<and>
    terminalOf (m_proc rs') b = Some v' \<and> length (successors v') = length (successors v)"
proof -
  let ?p = "m_proc rs"
  obtain s f where s: "successors v ! k = (s, f)" by fastforce
  obtain u where u: "lastValue ?p b = Some u" "terminalOf ?p b = Some u" "acceptsControl (m_opcode u)"
      "wtValue (valuesOf ?p) u" "valuesIn ?p b \<noteq> []" "valuesOf ?p (last (valuesIn ?p b)) = Some u"
      "successorBlocks ?p b = map fst (successors u)" "set (successorBlocks ?p b) \<subseteq> set (blocksOf ?p) - {root}"
    by (rule cfgInv_terminal [OF inv b])
  have uv: "u = v" using u(2) v by simp
  note u = u [unfolded uv]
  have sb: "s \<in> set (blocksOf ?p)" using u(7,8) k s by (force simp: in_set_conv_nth)
  obtain w where w: "lastValue ?p s = Some w" "terminalOf ?p s = Some w" "acceptsControl (m_opcode w)"
      "wtValue (valuesOf ?p) w" "valuesIn ?p s \<noteq> []" "valuesOf ?p (last (valuesIn ?p s)) = Some w"
      "successorBlocks ?p s = map fst (successors w)" "set (successorBlocks ?p s) \<subseteq> set (blocksOf ?p) - {root}"
    by (rule cfgInv_terminal [OF inv sb])
  have keep: ?thesis if "forwardSuccessor b k rs = Some rs"
    using that simplified_refl [OF inv] v by blast
  show ?thesis
  proof (cases "s \<noteq> b \<and> length (valuesIn ?p s) = 1 \<and> m_opcode w = Jump")
    case False
    then show ?thesis using keep v k s w(1) by (auto simp: forwardSuccessor_def at_def)
  next
    case jump: True
    obtain n g where n: "successors w = [(n, g)]" "m_children w = []"
      using w(4,3) by (cases rule: terminal_shape) (use jump in \<open>auto simp: successors_def\<close>)
    show ?thesis
    proof (cases "n = s")
      case eq: True
      then show ?thesis using keep v k s w(1) jump n by (auto simp: forwardSuccessor_def at_def)
    next
      case ns: False
      let ?v' = "setSuccessors ((successors v)[k := (n, f)]) v"
      let ?p' = "setTerminal b ?v' (addPredecessorTo n b ?p)"
      let ?rs' = "rs\<lparr>m_proc := ?p', m_changedCFG := True\<rparr>"
      have f: "forwardSuccessor b k rs = Some ?rs'"
        using v k s w(1) jump n ns by (simp add: forwardSuccessor_def at_def)
      have nb: "n \<in> set (blocksOf ?p) - {root}" using w(7,8) n by auto
      have st: "valuesOf ?p' = (valuesOf ?p)(last (valuesIn ?p b) \<mapsto> ?v')" "procInv ?p'"
        using setTerminal_values [of "addPredecessorTo n b ?p" b ?v'] cfgInvD(1) [OF inv] u(6) by simp_all
      have succs: "fst ` set ((successors v)[k := (n, f)]) \<subseteq> insert n (set (successorBlocks ?p b))"
        using set_update_subset_insert [of "successors v" k "(n, f)"] u(7) by auto
      have preds: "predsOf (addPredecessorTo n b ?p) c = (if c = n then snd (addPredecessor (predsOf ?p n) b) else predsOf ?p c)" for c
        using predsOf_add(1) [OF owned_block [OF inv, of n]] nb by simp
      have bp: "b \<in> set (predsOf ?p c)" if "c \<in> set (successorBlocks ?p b)" for c
        using cfgInvD(7) [OF inv] b that by (simp add: checkPredecessorValidity_def)
      note r = retarget [OF inv b, of ?v' ?p']
      have inv': "cfgInv ?p' root" and last: "\<And>c. c \<in> set (blocksOf ?p) \<Longrightarrow> lastValue ?p' c = (if c = b then Some ?v' else lastValue ?p c)"
      proof -
        have "wtValue (valuesOf ?p) ?v'" by (rule terminal_wt(2) [OF u(4,3)]) simp
        moreover have "fst ` set (successors ?v') \<subseteq> set (blocksOf ?p) - {root}" using succs u(8) nb by auto
        moreover have "b \<in> set (predsOf ?p' c)" if "c \<in> fst ` set (successors ?v')" for c
          using that succs bp by (auto simp: preds)
        moreover have "distinct (predsOf ?p' c)" for c using cfgInvD(8) [OF inv] by (simp add: preds)
        moreover have "set (predsOf ?p c) \<subseteq> set (predsOf ?p' c)" for c by (auto simp: preds)
        ultimately show "cfgInv ?p' root" "\<And>c. c \<in> set (blocksOf ?p) \<Longrightarrow> lastValue ?p' c = (if c = b then Some ?v' else lastValue ?p c)"
          using r [OF _ _ st(1) _ _ st(2)] u(3) by simp_all
      qed
      have same: "sameExecutions ?p ?p' root"
        by (rule forward_executions [OF inv b u(1) k s _ w(1) _ n(1) last]) (use jump in simp_all)
      have "deps (valuesOf ?p') \<subseteq> deps (valuesOf ?p)" using u(6) by (auto simp: st(1) deps_def split: if_splits)
      then have "simplified root rs ?rs'" using inv' same by (simp add: simplified_def)
      moreover have "terminalOf ?p' b = Some ?v'" using last [OF b] u(3) by (simp add: terminalOf_def)
      ultimately show ?thesis using f by (intro exI [of _ ?rs'] exI [of _ ?v']) simp
    qed
  qed
qed

subsection \<open>Turning a terminal into a jump\<close>

lemma convertTerminal_simplifies:
  assumes inv: "cfgInv (m_proc rs) root" and b: "b \<in> set (blocksOf (m_proc rs))"
  shows "\<exists>rs'. convertTerminal b rs = Some rs' \<and> simplified root rs rs'"
proof -
  let ?p = "m_proc rs"
  obtain v where v: "lastValue ?p b = Some v" "terminalOf ?p b = Some v" "acceptsControl (m_opcode v)"
      "wtValue (valuesOf ?p) v" "valuesIn ?p b \<noteq> []" "valuesOf ?p (last (valuesIn ?p b)) = Some v"
      "successorBlocks ?p b = map fst (successors v)" "set (successorBlocks ?p b) \<subseteq> set (blocksOf ?p) - {root}"
    by (rule cfgInv_terminal [OF inv b])
  show ?thesis
  proof (cases "convertTerminal b rs = Some rs")
    case False
    then obtain d rest where ss: "successors v = d # rest" "\<forall>x \<in> set (successors v). fst x = fst d"
        "convertTerminal b rs = Some (rs\<lparr>m_proc := setTerminal b (convertToJump (fst d) v) ?p, m_changedCFG := True\<rparr>)"
      using v(2) by (auto simp: convertTerminal_def list_all_iff split: list.splits if_splits)
    let ?v' = "convertToJump (fst d) v"
    let ?p' = "setTerminal b ?v' ?p"
    let ?rs' = "rs\<lparr>m_proc := ?p', m_changedCFG := True\<rparr>"
    have v': "m_opcode ?v' = Jump" "m_children ?v' = []" "successors ?v' = [(fst d, Normal)]"
      by (simp_all add: convertToJump_def mk_defs successors_def)
    have wt: "wtValue (valuesOf ?p) ?v'"
      by (rule control_wt)
        (simp_all add: convertToJump_def mk_defs validateChildren_def numChildren_def payloadOK_def accepts_defs)
    have st: "valuesOf ?p' = (valuesOf ?p)(last (valuesIn ?p b) \<mapsto> ?v')" "procInv ?p'"
      using setTerminal_values [of ?p b ?v'] cfgInvD(1) [OF inv] v(6) by simp_all
    have d: "fst d \<in> set (successorBlocks ?p b)" using ss(1) v(7) by simp
    then have "b \<in> set (predsOf ?p (fst d))" using cfgInvD(7) [OF inv] b by (simp add: checkPredecessorValidity_def)
    moreover have "fst d \<in> set (blocksOf ?p) \<and> fst d \<noteq> root" using d v(8) by auto
    ultimately have r: "cfgInv ?p' root" "\<And>c. c \<in> set (blocksOf ?p) \<Longrightarrow> lastValue ?p' c = (if c = b then Some ?v' else lastValue ?p c)"
      using retarget [OF inv b wt _ st(1) _ _ st(2)] v' cfgInvD(8) [OF inv] by (simp_all add: acceptsControl_def)
    have "sameExecutions ?p ?p' root"
    proof (rule shortcut_executions [OF cfgInvD(5) [OF inv]])
      fix E c h assume c: "c \<in> set (blocksOf ?p)"
      have "stepBlock ?p' E (c, h) = stepBlock ?p E (c, h)"
      proof (cases "c = b")
        case True
        let ?h = "h @ butlast (valuesIn ?p b)"
        obtain j where j: "j < length (successors v)" "\<And>ss'. length ss' = length (successors v) \<Longrightarrow>
            observe (E ?h) (last (valuesIn ?p b)) (setSuccessors ss' v) = Goto (fst (ss' ! j))"
          using terminal_takes [OF v(4,3)] ss(1) by (metis list.distinct(1))
        have "fst (successors v ! j) = fst d" using ss(2) j(1) by auto
        then have "stepBlock ?p E (b, h) = Inl (fst d, ?h)"
          using j(2) [of "successors v"] setSuccessors_same [OF v(4,3)] v(1) by (simp add: stepBlock_def)
        moreover have "stepBlock ?p' E (b, h) = Inl (fst d, ?h)"
          using r(2) [OF b] v' by (simp add: stepBlock_def observe_def)
        ultimately show ?thesis using True by simp
      qed (use retarget_step [of ?p' c ?p E h] r(2) [OF c] in simp)
      then show "stepBlock ?p' E (c, h) = stepBlock ?p E (c, h) \<and> (\<forall>y. stepBlock ?p E (c, h) = Inl y \<longrightarrow> fst y \<in> set (blocksOf ?p)) \<or>
        (\<exists>y. stepBlock ?p E (c, h) = Inl y \<and> stepBlock ?p' E (c, h) = stepBlock ?p E y \<and>
           (\<forall>z. stepBlock ?p E y = Inl z \<longrightarrow> fst z \<in> set (blocksOf ?p)))"
        using step_closed [OF inv, of "(c, h)"] c by simp
    qed
    moreover have "deps (valuesOf ?p') \<subseteq> deps (valuesOf ?p)" using v'(2) by (auto simp: st(1) deps_def split: if_splits)
    ultimately show ?thesis using r(1) ss(3) by (simp add: simplified_def)
  qed (use simplified_refl [OF inv] in blast)
qed

subsection \<open>Merging two blocks\<close>

lemma replacePredecessorOf_simps [simp]:
  "valuesOf (replacePredecessorOf c s b p) = valuesOf p" "procInv (replacePredecessorOf c s b p) = procInv p"
  "m_blocks (replacePredecessorOf c s b p) = m_blocks p" "valuesIn (replacePredecessorOf c s b p) d = valuesIn p d"
  by (auto simp: replacePredecessorOf_def valuesIn_def block_updateBlock split: option.splits)

lemma predsOf_replace:
  "block p c \<noteq> None \<Longrightarrow> predsOf (replacePredecessorOf c s b p) d =
     (if d = c then snd (replacePredecessor (predsOf p c) s b) else predsOf p d)"
  by (auto simp: replacePredecessorOf_def predsOf_def block_updateBlock split: option.splits)

text \<open>\<open>q\<close> is \<open>p\<close> with \<open>b\<close> in the place of \<open>s\<close> among the predecessors of the blocks \<open>ns\<close>.\<close>

definition repointed :: "Procedure \<Rightarrow> block_ptr set \<Rightarrow> block_ptr \<Rightarrow> block_ptr \<Rightarrow> Procedure \<Rightarrow> bool" where
  "repointed p ns s b q \<longleftrightarrow>
     valuesOf q = valuesOf p \<and> (procInv p \<longrightarrow> procInv q) \<and> m_blocks q = m_blocks p \<and> (\<forall>c. valuesIn q c = valuesIn p c) \<and>
     (\<forall>c. distinct (predsOf q c)) \<and>
     (\<forall>c. set (predsOf q c) = (if c \<in> ns then insert b (set (predsOf p c) - {s}) else set (predsOf p c)))"

lemma replacePredecessors:
  assumes "\<And>c. c \<in> set ns \<Longrightarrow> block p c \<noteq> None" "\<And>c. distinct (predsOf p c)"
  shows "repointed p (set ns) s b (fold (\<lambda>n. replacePredecessorOf n s b) ns p)"
  using assms
proof (induction ns arbitrary: p)
  case (Cons n ns)
  let ?p = "replacePredecessorOf n s b p"
  have n: "predsOf ?p d = (if d = n then snd (replacePredecessor (predsOf p n) s b) else predsOf p d)" for d
    using Cons.prems(1) [of n] by (simp add: predsOf_replace)
  have "block ?p c \<noteq> None" if "c \<in> set ns" for c
    using Cons.prems(1) [of c] that by (auto simp: replacePredecessorOf_def block_updateBlock)
  moreover have "distinct (predsOf ?p c)" for c
    using Cons.prems(2) replacePredecessor_set(2) [OF Cons.prems(2)] by (simp add: n)
  ultimately have "repointed ?p (set ns) s b (fold (\<lambda>n. replacePredecessorOf n s b) ns ?p)" by (rule Cons.IH)
  then show ?case
    using Cons.prems(2) replacePredecessor_set(1) [of "predsOf p n" s b] by (auto simp: repointed_def n)
qed (simp add: repointed_def)

lemma block_simps:
  "block (deleteValue i p) c = block p c"
  "valuesIn p b \<noteq> [] \<Longrightarrow> block (removeLast b p) c =
     (if c = b then map_option (\<lambda>bb. bb\<lparr>bb_values := butlast (bb_values bb)\<rparr>) (block p b) else block p c)"
  "add v p = (i, p') \<Longrightarrow> block p' c = block p c"
proof -
  show d: "block (deleteValue i p) c = block p c" for i p by (simp add: block_def)
  show "valuesIn p b \<noteq> [] \<Longrightarrow> block (removeLast b p) c =
     (if c = b then map_option (\<lambda>bb. bb\<lparr>bb_values := butlast (bb_values bb)\<rparr>) (block p b) else block p c)"
    by (simp add: removeLast_def d block_updateBlock)
  show "add v p = (i, p') \<Longrightarrow> block p' c = block p c" using add_blocks by (simp add: block_def)
qed

text \<open>
  \<open>p'\<close> is \<open>p\<close> with the block \<open>s\<close>, whose terminal is \<open>w\<close>, merged into \<open>b\<close>, which ended in \<open>t\<close>. The index
  of the deleted jump is free again, and the new terminal may get it.
\<close>

definition merged ::
    "Procedure \<Rightarrow> block_ptr \<Rightarrow> block_ptr \<Rightarrow> value_ptr list \<Rightarrow> value_ptr \<Rightarrow> Value \<Rightarrow> nat \<Rightarrow> value_ptr \<Rightarrow> Procedure \<Rightarrow> bool" where
  "merged p b s body t w org i p' \<longleftrightarrow>
     (i = t \<or> valuesOf p i = None) \<and> procInv p' \<and>
     valuesOf p' = (valuesOf p)(t := None, i \<mapsto> OopsValue org) \<and>
     m_blocks p' = m_blocks p \<and>
     (\<forall>c. valuesIn p' c = (if c = b then body @ valuesIn p s else if c = s then [i] else valuesIn p c)) \<and>
     (\<forall>c. distinct (predsOf p' c)) \<and>
     (\<forall>c. set (predsOf p' c) =
        (if c \<in> fst ` set (successors w) then insert b (set (predsOf p c) - {s}) else set (predsOf p c)))"

lemma mergeInto_spec:
  assumes inv: "procInv p" and blocks: "block p b \<noteq> None" "block p s \<noteq> None" "s \<noteq> b"
    and t: "valuesIn p b = body @ [t]" "valuesOf p t \<noteq> None"
    and vs: "valuesIn p s \<noteq> []" "last (valuesIn p s) \<noteq> t" "valuesOf p (last (valuesIn p s)) = Some w"
    and ns: "\<And>n. n \<in> fst ` set (successors w) \<Longrightarrow> block p n \<noteq> None" and d: "\<And>c. distinct (predsOf p c)"
  shows "\<exists>i. merged p b s body t w org i (mergeInto b s org p)"
proof -
  define p1 where "p1 = removeLast b p"
  define p2 where "p2 = updateBlock b (\<lambda>bb. bb\<lparr>bb_values := bb_values bb @ valuesIn p1 s\<rparr>) p1"
  define p3 where "p3 = updateBlock s (\<lambda>bb. bb\<lparr>bb_values := []\<rparr>) p2"
  obtain i p4' where add: "add (OopsValue org) p3 = (i, p4')" by fastforce
  define p4 where "p4 = appendValue s i p4'"
  have m: "mergeInto b s org p = fold (\<lambda>n. replacePredecessorOf n s b) (successorBlocks p4 b) p4"
    unfolding mergeInto_def Let_def appendNew_def p1_def [symmetric] p2_def [symmetric] p3_def [symmetric] add p4_def by simp
  obtain bb sb where bs: "block p b = Some bb" "block p s = Some sb" using blocks by auto
  have vals: "bb_values bb = body @ [t]" "bb_values sb = valuesIn p s" "bb_predecessors bb = predsOf p b" "bb_predecessors sb = predsOf p s"
    using t(1) bs by (simp_all add: valuesIn_def predsOf_def)
  have nb: "valuesIn p b \<noteq> []" using t(1) by simp
  have b1: "block p1 c = (if c = b then Some (bb\<lparr>bb_values := body\<rparr>) else block p c)" for c
    using bs by (simp add: p1_def block_simps(2) [OF nb] vals)
  have "valuesIn p1 s = valuesIn p s" using b1 [of s] blocks(3) by (simp add: valuesIn_def)
  then have b3: "block p3 c = (if c = b then Some (bb\<lparr>bb_values := body @ valuesIn p s\<rparr>) else
      if c = s then Some (sb\<lparr>bb_values := []\<rparr>) else block p c)" for c
    using bs blocks(3) by (auto simp: p3_def p2_def block_updateBlock b1)
  have b4: "block p4 c = (if c = b then Some (bb\<lparr>bb_values := body @ valuesIn p s\<rparr>) else
      if c = s then Some (sb\<lparr>bb_values := [i]\<rparr>) else block p c)" for c
    using blocks(3) by (simp add: p4_def appendValue_def block_updateBlock block_simps(3) [OF add] b3)
  have v4: "valuesIn p4 c = (if c = b then body @ valuesIn p s else if c = s then [i] else valuesIn p c)"
    "predsOf p4 c = predsOf p c" for c
    using bs by (simp_all add: valuesIn_def predsOf_def b4)
  have s3: "valuesOf p3 = (valuesOf p)(t := None)" "procInv p3" "m_blocks p3 = m_blocks p"
    using inv t by (simp_all add: p3_def p2_def p1_def removeLast_def valuesOf_deleteValue procInv_deleteValue)
  have s4: "valuesOf p3 i = None" "valuesOf p4 = (valuesOf p)(t := None, i \<mapsto> OopsValue org)" "procInv p4" "m_blocks p4 = m_blocks p"
    using add_fresh [OF s3(2) add] add_blocks [OF add] s3 by (simp_all add: p4_def appendValue_def)
  have i: "i = t \<or> valuesOf p i = None" using s4(1) s3(1) by (simp split: if_splits)
  have "lastValue p4 b = Some w"
    using vs i by (auto simp: lastValue_def v4 s4(2))
  then have succ: "successorBlocks p4 b = map fst (successors w)" by (simp add: successorBlocks_def)
  have "repointed p4 (fst ` set (successors w)) s b (mergeInto b s org p)"
    unfolding m succ using replacePredecessors [of "map fst (successors w)" p4 s b] ns d bs
    by (simp add: v4(2) b4)
  then show ?thesis using i s4 by (intro exI [of _ i]) (simp add: repointed_def merged_def v4)
qed

text \<open>What the merge rule finds, and the facts its proofs share.\<close>

definition mergeable :: "Procedure \<Rightarrow> block_ptr \<Rightarrow> block_ptr \<Rightarrow> block_ptr \<Rightarrow> value_ptr list \<Rightarrow> value_ptr \<Rightarrow> Value \<Rightarrow> Value \<Rightarrow> bool" where
  "mergeable p root b s body t v w \<longleftrightarrow>
     cfgInv p root \<and> b \<in> set (blocksOf p) \<and> s \<in> set (blocksOf p) \<and> s \<noteq> b \<and> s \<noteq> root \<and> predsOf p s = [b] \<and>
     valuesIn p b = body @ [t] \<and> valuesOf p t = Some v \<and> wtValue (valuesOf p) v \<and> acceptsControl (m_opcode v) \<and>
     map fst (successors v) = [s] \<and> lastValue p b = Some v \<and> lastValue p s = Some w \<and> valuesIn p s \<noteq> [] \<and>
     valuesOf p (last (valuesIn p s)) = Some w \<and> acceptsControl (m_opcode w) \<and> wtValue (valuesOf p) w \<and>
     successorBlocks p s = map fst (successors w) \<and> fst ` set (successors w) \<subseteq> set (blocksOf p) - {root, s}"

lemma mergeable_jumps:
  assumes m: "mergeable p root b s body t v w" and c: "c \<in> set (blocksOf p)" "s \<in> set (successorBlocks p c)"
  shows "c = b"
proof -
  have "cfgInv p root" using m by (simp add: mergeable_def)
  then have "c \<in> set (predsOf p s)" using c cfgInvD(7) [of p root] by (simp add: checkPredecessorValidity_def)
  then show ?thesis using m by (simp add: mergeable_def)
qed

lemma mergeableI:
  assumes inv: "cfgInv p root" and b: "b \<in> set (blocksOf p)" and v: "terminalOf p b = Some v" "map fst (successors v) = [s]"
    and s: "s \<noteq> b" "length (predsOf p s) = 1"
  obtains body t w where "mergeable p root b s body t v w"
proof -
  obtain u where u: "lastValue p b = Some u" "terminalOf p b = Some u" "acceptsControl (m_opcode u)"
      "wtValue (valuesOf p) u" "valuesIn p b \<noteq> []" "valuesOf p (last (valuesIn p b)) = Some u"
      "successorBlocks p b = map fst (successors u)" "set (successorBlocks p b) \<subseteq> set (blocksOf p) - {root}"
    by (rule cfgInv_terminal [OF inv b])
  have uv: "u = v" using u(2) v(1) by simp
  note u = u [unfolded uv]
  have sb: "s \<in> set (blocksOf p)" "s \<noteq> root" using u(7,8) v(2) by auto
  obtain w where w: "lastValue p s = Some w" "terminalOf p s = Some w" "acceptsControl (m_opcode w)"
      "wtValue (valuesOf p) w" "valuesIn p s \<noteq> []" "valuesOf p (last (valuesIn p s)) = Some w"
      "successorBlocks p s = map fst (successors w)" "set (successorBlocks p s) \<subseteq> set (blocksOf p) - {root}"
    by (rule cfgInv_terminal [OF inv sb(1)])
  have know: "a \<in> set (predsOf p c)" if "a \<in> set (blocksOf p)" "c \<in> set (successorBlocks p a)" for a c
    using cfgInvD(7) [OF inv] that by (simp add: checkPredecessorValidity_def)
  have preds: "predsOf p s = [b]" using know [OF b, of s] u(7) v(2) s(2) by (auto simp: length_Suc_conv)
  have "s \<notin> set (successorBlocks p s)" using know [OF sb(1), of s] preds s(1) by auto
  then have "fst ` set (successors w) \<subseteq> set (blocksOf p) - {root, s}" using w(7,8) by auto
  then have "mergeable p root b s (butlast (valuesIn p b)) (last (valuesIn p b)) v w"
    unfolding mergeable_def using inv b sb s(1) preds u v(2) w by simp
  then show thesis by (rule that)
qed

lemma merge_last:
  assumes m: "mergeable p root b s body t v w" and m': "merged p b s body t w org i p'"
  shows "blocksOf p' = blocksOf p"
    and "c \<in> set (blocksOf p) \<Longrightarrow> j \<in> set (valuesIn p c) \<Longrightarrow> (c \<noteq> b \<or> j \<in> set body) \<Longrightarrow> valuesOf p' j = valuesOf p j"
    and "c \<in> set (blocksOf p) \<Longrightarrow>
      lastValue p' c = (if c = b then Some w else if c = s then Some (OopsValue org) else lastValue p c)"
proof -
  have inv: "cfgInv p root" and b: "b \<in> set (blocksOf p)" "valuesIn p b = body @ [t]" and sb: "s \<in> set (blocksOf p)" "s \<noteq> b"
    and w: "valuesIn p s \<noteq> []" "valuesOf p (last (valuesIn p s)) = Some w" "lastValue p s = Some w" and t: "valuesOf p t = Some v"
    using m by (simp_all add: mergeable_def)
  show "blocksOf p' = blocksOf p" using m' by (simp add: merged_def blocksOf_def)
  have st: "valuesOf p' = (valuesOf p)(t := None, i \<mapsto> OopsValue org)" "i = t \<or> valuesOf p i = None"
    and vs: "\<And>c. valuesIn p' c = (if c = b then body @ valuesIn p s else if c = s then [i] else valuesIn p c)"
    using m' by (simp_all add: merged_def)
  show keep: "valuesOf p' j = valuesOf p j"
    if "c \<in> set (blocksOf p)" "j \<in> set (valuesIn p c)" "c \<noteq> b \<or> j \<in> set body" for c j
  proof -
    have "distinct (valuesIn p b)"
      using cfgInvD(3,4) [OF inv] b(1) by (auto simp: placement_def placedValues_def distinct_concat_map)
    then have "j \<noteq> t" using placed_in_one_block [OF inv b(1) that(1), of t] that(2,3) b(2) by auto
    moreover have "valuesOf p j \<noteq> None"
      using cfgInvD(3) [OF inv] that(1,2) by (auto simp: placement_def placedValues_def)
    ultimately show ?thesis using st by auto
  qed
  show "lastValue p' c = (if c = b then Some w else if c = s then Some (OopsValue org) else lastValue p c)"
    if c: "c \<in> set (blocksOf p)"
  proof -
    have "valuesOf p' (last (valuesIn p s)) = Some w"
      using keep [OF sb(1), of "last (valuesIn p s)"] w sb(2) by simp
    moreover have "valuesOf p' (last (valuesIn p c)) = valuesOf p (last (valuesIn p c))" if "c \<noteq> b" "valuesIn p c \<noteq> []"
      using keep [OF c last_in_set [OF that(2)]] that(1) by simp
    ultimately show ?thesis using w(1) st(1) by (auto simp: lastValue_def vs)
  qed
qed

lemma merge_placement:
  assumes m: "mergeable p root b s body t v w" and m': "merged p b s body t w org i p'"
  shows "placement p'"
proof -
  have inv: "cfgInv p root" and b: "b \<in> set (blocksOf p)" "valuesIn p b = body @ [t]" and sb: "s \<in> set (blocksOf p)" "s \<noteq> b"
    using m by (simp_all add: mergeable_def)
  have st: "valuesOf p' = (valuesOf p)(t := None, i \<mapsto> OopsValue org)" "i = t \<or> valuesOf p i = None"
    and vs: "\<And>c. valuesIn p' c = (if c = b then body @ valuesIn p s else if c = s then [i] else valuesIn p c)"
    using m' by (simp_all add: merged_def)
  note bs = merge_last(1) [OF m m']
  have one: "c = d" if "c \<in> set (blocksOf p)" "d \<in> set (blocksOf p)" "j \<in> set (valuesIn p c)" "j \<in> set (valuesIn p d)" for c d j
    by (rule placed_in_one_block [OF inv that])
  have ds: "distinct (valuesIn p c)" and dm: "set (valuesIn p c) \<subseteq> dom (valuesOf p)" if "c \<in> set (blocksOf p)" for c
    using cfgInvD(3,4) [OF inv] that by (auto simp: placement_def placedValues_def distinct_concat_map)
  have all: "dom (valuesOf p) = (\<Union>c \<in> set (blocksOf p). set (valuesIn p c))"
    using cfgInvD(3) [OF inv] by (auto simp: placement_def placedValues_def)
  have t: "t \<notin> set body" "t \<in> set (valuesIn p b)" using ds [OF b(1)] b(2) by simp_all
  have tc: "t \<notin> set (valuesIn p c)" if "c \<in> set (blocksOf p)" "c \<noteq> b" for c using one [OF b(1) that(1) t(2)] that(2) by blast
  have ic: "i \<notin> set (valuesIn p c)" if "c \<in> set (blocksOf p)" "c \<noteq> b" for c using st(2) dm [OF that(1)] tc [OF that] by auto
  have ib: "i \<notin> set body" using st(2) dm [OF b(1)] t(1) b(2) by auto
  have bc: "j \<notin> set (valuesIn p c)" if "j \<in> set body" "c \<in> set (blocksOf p)" "c \<noteq> b" for c j
    using one [OF b(1) that(2), of j] that b(2) by auto
  have "distinct (valuesIn p' c)" if "c \<in> set (blocksOf p)" for c
    using ds [OF that] ds [OF sb(1)] ds [OF b(1)] b(2) sb(2) bc [OF _ sb] by (auto simp: vs)
  moreover have "c = d" if cd: "c \<in> set (blocksOf p)" "d \<in> set (blocksOf p)" "j \<in> set (valuesIn p' c)" "j \<in> set (valuesIn p' d)" for c d j
  proof -
    have from_p: "c = s \<and> j = i \<or> j \<noteq> i \<and> (\<exists>a \<in> set (blocksOf p). j \<in> set (valuesIn p a) \<and> c = (if a = s then b else a))"
      if j: "j \<in> set (valuesIn p' c)" and c: "c \<in> set (blocksOf p)" for c
    proof -
      consider "c = b" "j \<in> set body" | "c = b" "j \<in> set (valuesIn p s)" | "c = s" "j = i" | "c \<noteq> b" "c \<noteq> s" "j \<in> set (valuesIn p c)"
        using j by (auto simp: vs split: if_splits)
      then show ?thesis
      proof cases
        case 1
        then have "j \<noteq> i" "j \<in> set (valuesIn p b)" using ib b(2) by auto
        then show ?thesis using 1 b(1) sb(2) by auto
      next
        case 2
        then show ?thesis using ic [OF sb] sb by auto
      next
        case 4
        then show ?thesis using ic [OF c] c by auto
      qed simp
    qed
    show ?thesis
    proof (cases "j = i")
      case False
      then obtain a a' where a: "a \<in> set (blocksOf p)" "j \<in> set (valuesIn p a)" "c = (if a = s then b else a)"
          and a': "a' \<in> set (blocksOf p)" "j \<in> set (valuesIn p a')" "d = (if a' = s then b else a')"
        using from_p [OF cd(3,1)] from_p [OF cd(4,2)] by blast
      show ?thesis using one [OF a(1) a'(1) a(2) a'(2)] a(3) a'(3) by simp
    qed (use from_p [OF cd(3,1)] from_p [OF cd(4,2)] in simp)
  qed
  then have "set (valuesIn p' c) \<inter> set (valuesIn p' d) = {}" if "c \<in> set (blocksOf p)" "d \<in> set (blocksOf p)" "c \<noteq> d" for c d
    using that by blast
  ultimately have "distinct (placedValues p')"
    unfolding placedValues_def bs by (simp add: distinct_concat_map [OF cfgInvD(4) [OF inv]])
  moreover have "(\<Union>c \<in> set (blocksOf p). set (valuesIn p' c)) = insert i (dom (valuesOf p) - {t})"
  proof -
    let ?rest = "set (blocksOf p) - {b, s}"
    have B: "set (blocksOf p) = insert b (insert s ?rest)" using b(1) sb(1) by blast
    define X where "X = (\<Union>c \<in> ?rest. set (valuesIn p c))"
    have "(\<Union>c \<in> ?rest. set (valuesIn p' c)) = X" by (auto simp: vs X_def)
    then have "(\<Union>c \<in> set (blocksOf p). set (valuesIn p' c)) = set body \<union> set (valuesIn p s) \<union> {i} \<union> X"
      by (subst B) (use sb(2) in \<open>auto simp: vs\<close>)
    moreover have "dom (valuesOf p) = set body \<union> {t} \<union> set (valuesIn p s) \<union> X"
      unfolding all X_def by (subst B) (use b(2) in auto)
    moreover have "t \<notin> X" "t \<notin> set (valuesIn p s)" using tc sb by (auto simp: X_def)
    ultimately show ?thesis using t(1) by auto
  qed
  ultimately show ?thesis using st(1) by (auto simp: placement_def placedValues_def bs)
qed

lemma merge_cfgInv:
  assumes m: "mergeable p root b s body t v w" and m': "merged p b s body t w org i p'"
  shows "cfgInv p' root"
proof -
  have inv: "cfgInv p root" and b: "b \<in> set (blocksOf p)" "valuesIn p b = body @ [t]" and sb: "s \<in> set (blocksOf p)" "s \<noteq> b" "s \<noteq> root"
    and w: "valuesIn p s \<noteq> []" "acceptsControl (m_opcode w)" "successorBlocks p s = map fst (successors w)" "lastValue p s = Some w"
      "fst ` set (successors w) \<subseteq> set (blocksOf p) - {root, s}"
    and t: "valuesOf p t = Some v" "wtValue (valuesOf p) v" "acceptsControl (m_opcode v)" and pb: "predsOf p s = [b]"
    using m by (simp_all add: mergeable_def)
  have st: "valuesOf p' = (valuesOf p)(t := None, i \<mapsto> OopsValue org)" "i = t \<or> valuesOf p i = None"
    and vs: "\<And>c. valuesIn p' c = (if c = b then body @ valuesIn p s else if c = s then [i] else valuesIn p c)"
    and ps: "\<And>c. distinct (predsOf p' c)" "\<And>c. set (predsOf p' c) =
        (if c \<in> fst ` set (successors w) then insert b (set (predsOf p c) - {s}) else set (predsOf p c))" "procInv p'"
    using m' by (simp_all add: merged_def)
  note bs = merge_last(1) [OF m m'] and keep = merge_last(2) [OF m m'] and last = merge_last(3) [OF m m']
  have succ: "successorBlocks p' c = (if c = b then successorBlocks p s else if c = s then [] else successorBlocks p c)"
    if "c \<in> set (blocksOf p)" for c
    using last [OF that] w(3) by (simp add: successorBlocks_def mk_defs successors_def)
  have "wtStore (valuesOf p')"
  proof -
    have "wtStore ((valuesOf p)(t := None))"
      by (rule wtStore_delete [OF cfgInvD(2) [OF inv] t(1) terminal_wt(1) [OF t(2,3)]])
    moreover have "wtValue ((valuesOf p)(t := None)) (OopsValue org)"
      by (rule control_wt) (simp_all add: mk_defs validateChildren_def numChildren_def payloadOK_def accepts_defs)
    ultimately show ?thesis unfolding st(1) using st(2) by (intro wtStore_add) auto
  qed
  moreover have "placement p'" by (rule merge_placement [OF m m'])
  moreover have "validateBlock p' c" if c: "c \<in> set (blocksOf p)" for c
  proof -
    have vc: "validateBlock p c" "validateBlock p b" "validateBlock p s" using cfgInvD(6) [OF inv] c b sb by simp_all
    have k: "valuesOf p' j = valuesOf p j" if "j \<in> set body \<or> j \<in> set (butlast (valuesIn p s))" for j
      using that keep [OF b(1), of j] keep [OF sb(1), of j] b(2) sb(2) by (auto dest: in_set_butlastD)
    have k': "valuesOf p' j = valuesOf p j" if "j \<in> set (butlast (valuesIn p c))" "c \<noteq> b" for j
      using that keep [OF c, of j] by (auto dest: in_set_butlastD)
    have "set (successorBlocks p' c) \<subseteq> set (blocksOf p')" using succ [OF c] vc by (auto simp: bs validateBlock_def)
    then show ?thesis
      using vc last [OF c] k k' b(2) w(1,2) unfolding validateBlock_def vs
      by (auto simp: butlast_append mk_defs acceptsControl_def)
  qed
  moreover have "checkPredecessorValidity p'"
    unfolding checkPredecessorValidity_def bs
  proof (intro ballI)
    fix c d assume c: "c \<in> set (blocksOf p)" and d: "d \<in> set (successorBlocks p' c)"
    show "c \<in> set (predsOf p' d)"
    proof (cases "c = b")
      case True
      then show ?thesis using d succ [OF c] w(3) by (simp add: ps(2))
    next
      case False
      then have "c \<noteq> s" "d \<in> set (successorBlocks p c)" using d succ [OF c] by (auto split: if_splits)
      then show ?thesis using cfgInvD(7) [OF inv] c by (simp add: ps(2) checkPredecessorValidity_def)
    qed
  qed
  moreover have "root \<notin> set (successorBlocks p' c)" if "c \<in> set (blocksOf p)" for c
    using succ [OF that] cfgInvD(9) [OF inv that] cfgInvD(9) [OF inv sb(1)] by auto
  ultimately show ?thesis using ps(1,3) cfgInvD(4,5) [OF inv] unfolding cfgInv_def bs by auto
qed

lemma merge_executions:
  assumes m: "mergeable p root b s body t v w" and m': "merged p b s body t w org i p'"
  shows "sameExecutions p p' root"
proof -
  have inv: "cfgInv p root" and b: "b \<in> set (blocksOf p)" "valuesIn p b = body @ [t]" "lastValue p b = Some v"
    and sb: "s \<in> set (blocksOf p)" "s \<noteq> b" "s \<noteq> root" and w: "valuesIn p s \<noteq> []" "lastValue p s = Some w"
      "fst ` set (successors w) \<subseteq> set (blocksOf p) - {root, s}" "successorBlocks p s = map fst (successors w)"
    and v: "wtValue (valuesOf p) v" "acceptsControl (m_opcode v)" "map fst (successors v) = [s]"
    using m by (simp_all add: mergeable_def)
  have vs: "\<And>c. valuesIn p' c = (if c = b then body @ valuesIn p s else if c = s then [i] else valuesIn p c)"
    using m' by (simp add: merged_def)
  note last = merge_last(3) [OF m m']
  let ?B = "set (blocksOf p) - {s}"
  have tgt: "fst y \<in> ?B" if "c \<in> set (blocksOf p)" "c \<noteq> b" "stepBlock p E (c, h) = Inl y" for E c h y
    using stepBlock_target(1,2) [OF inv that(1), of E h "fst y" "snd y"] mergeable_jumps [OF m that(1)] that(2,3) by auto
  show ?thesis
  proof (rule shortcut_executions [of _ ?B])
    fix E c h assume c: "c \<in> ?B"
    show "stepBlock p' E (c, h) = stepBlock p E (c, h) \<and> (\<forall>y. stepBlock p E (c, h) = Inl y \<longrightarrow> fst y \<in> ?B) \<or>
      (\<exists>y. stepBlock p E (c, h) = Inl y \<and> stepBlock p' E (c, h) = stepBlock p E y \<and> (\<forall>z. stepBlock p E y = Inl z \<longrightarrow> fst z \<in> ?B))"
    proof (cases "c = b")
      case False
      then have "stepBlock p' E (c, h) = stepBlock p E (c, h)"
        using c last [of c] by (intro retarget_step) (auto simp: vs)
      then show ?thesis using tgt [of c E h] c False by blast
    next
      case True
      have ne: "successors v \<noteq> []" using v(3) by auto
      obtain j where j: "j < length (successors v)" "\<And>ss'. length ss' = length (successors v) \<Longrightarrow>
          observe (E (h @ body)) t (setSuccessors ss' v) = Goto (fst (ss' ! j))"
        using terminal_takes [OF v(1,2) ne] by metis
      have "fst (successors v ! j) = s" using v(3) j(1) by (cases "successors v") auto
      then have "observe (E (h @ body)) t v = Goto s" using j(2) [of "successors v"] setSuccessors_same [OF v(1,2)] by simp
      then have old: "stepBlock p E (b, h) = Inl (s, h @ body)" using b by (simp add: stepBlock_def)
      have new: "stepBlock p' E (b, h) = stepBlock p E (s, h @ body)"
        using last [OF b(1)] w(1,2) by (simp add: stepBlock_def vs butlast_append)
      show ?thesis using old new tgt [OF sb(1,2), of E "h @ body"] True by blast
    qed
  qed (use cfgInvD(5) [OF inv] sb(3) in simp)
qed

lemma mergeBlock_simplifies:
  assumes inv: "cfgInv (m_proc rs) root" and b: "b \<in> set (blocksOf (m_proc rs))"
  shows "\<exists>rs'. mergeBlock b rs = Some rs' \<and> simplified root rs rs'"
proof -
  let ?p = "m_proc rs"
  obtain v where v: "terminalOf ?p b = Some v" by (rule cfgInv_terminal [OF inv b])
  show ?thesis
  proof (cases "\<exists>s f. successors v = [(s, f)] \<and> s \<noteq> b \<and> length (predsOf ?p s) = 1")
    case False
    then have "mergeBlock b rs = Some rs" using v by (auto simp: mergeBlock_def split: list.splits)
    then show ?thesis using simplified_refl [OF inv] by blast
  next
    case True
    then obtain s f where s: "successors v = [(s, f)]" "s \<noteq> b" "length (predsOf ?p s) = 1" by blast
    obtain body t w where m: "mergeable ?p root b s body t v w"
      using mergeableI [OF inv b v _ s(2,3)] s(1) by auto
    let ?p' = "mergeInto b s (m_origin v) ?p" and ?rs' = "rs\<lparr>m_proc := mergeInto b s (m_origin v) ?p, m_changedCFG := True\<rparr>"
    have "last (valuesIn ?p s) \<noteq> t"
      using placed_in_one_block [OF inv b, of s t] m by (auto simp: mergeable_def)
    moreover have "fst ` set (successors w) \<subseteq> set (blocksOf ?p)" using m by (auto simp: mergeable_def)
    ultimately obtain i where m': "merged ?p b s body t w (m_origin v) i ?p'"
      using mergeInto_spec [of ?p b s body t w] m owned_block [OF inv] cfgInvD(1,8) [OF inv]
      unfolding mergeable_def by (metis option.distinct(1) subsetD)
    have "mergeBlock b rs = Some ?rs'" using v s m by (simp add: mergeBlock_def mergeable_def)
    moreover have "deps (valuesOf ?p') \<subseteq> deps (valuesOf ?p)"
      using m' by (auto simp: merged_def deps_def mk_defs split: if_splits)
    ultimately show ?thesis
      using merge_cfgInv [OF m m'] merge_executions [OF m m'] m' by (auto simp: simplified_def merged_def)
  qed
qed

subsection \<open>The pass\<close>

lemma simplifyBlock_simplifies:
  assumes inv: "cfgInv (m_proc rs) root" and b: "b \<in> set (blocksOf (m_proc rs))"
  shows "\<exists>rs'. simplifyBlock validate b rs = Some rs' \<and> simplified root rs rs'"
proof -
  obtain v where v: "terminalOf (m_proc rs) b = Some v" by (rule cfgInv_terminal [OF inv b])
  let ?n = "length (successors v)"
  have "\<exists>rs1. foldM (forwardSuccessor b) [0..<?n] rs = Some rs1 \<and> simplified root rs rs1 \<and>
    (\<exists>v1. terminalOf (m_proc rs1) b = Some v1 \<and> length (successors v1) = ?n)"
  proof (rule foldM_invariant)
    fix ys k zs r assume split: "[0..<?n] = ys @ k # zs" and "simplified root rs r \<and> (\<exists>v1. terminalOf (m_proc r) b = Some v1 \<and> length (successors v1) = ?n)"
    then obtain v1 where r: "simplified root rs r" "terminalOf (m_proc r) b = Some v1" "length (successors v1) = ?n" by blast
    have "k < ?n" using arg_cong [OF split, of set] by auto
    then show "\<exists>r'. forwardSuccessor b k r = Some r' \<and> simplified root rs r' \<and>
        (\<exists>v1. terminalOf (m_proc r') b = Some v1 \<and> length (successors v1) = ?n)"
      using forwardSuccessor_simplifies [OF simplified_inv [OF r(1)] _ r(2), of k] b r(3) simplified_blocks [OF r(1)]
        simplified_trans [OF r(1)] by fastforce
  qed (use simplified_refl [OF inv] v in simp)
  then obtain rs1 where rs1: "foldM (forwardSuccessor b) [0..<?n] rs = Some rs1" "simplified root rs rs1" by blast
  have "cfgInv (m_proc rs1) root" "b \<in> set (blocksOf (m_proc rs1))"
    using simplified_inv [OF rs1(2)] simplified_blocks [OF rs1(2)] b by simp_all
  then obtain rs2 where rs2: "convertTerminal b rs1 = Some rs2" "simplified root rs1 rs2"
    using convertTerminal_simplifies by blast
  have "cfgInv (m_proc rs2) root" "b \<in> set (blocksOf (m_proc rs2))"
    using simplified_inv [OF rs2(2)] simplified_blocks [OF rs1(2)] simplified_blocks [OF rs2(2)] b by simp_all
  then obtain rs3 where rs3: "mergeBlock b rs2 = Some rs3" "simplified root rs2 rs3"
    using mergeBlock_simplifies by blast
  have "simplified root rs rs3" using rs1(2) rs2(2) rs3(2) simplified_trans by blast
  then show ?thesis
    using v rs1(1) rs2(1) rs3(1) cfgInvD(7) [OF inv] simplified_refl [OF inv] by (auto simp: simplifyBlock_def)
qed

theorem simplifyCFG_simplifies:
  assumes inv: "cfgInv (m_proc rs) root"
  shows "\<exists>rs'. simplifyCFG validate rs = Some rs' \<and> simplified root rs rs'"
  unfolding simplifyCFG_def
proof (rule foldM_invariant)
  show "simplified root rs rs" by (rule simplified_refl [OF inv])
  fix ys b zs r assume split: "blocksOf (m_proc rs) = ys @ b # zs" and r: "simplified root rs r"
  have "cfgInv (m_proc r) root" "b \<in> set (blocksOf (m_proc r))"
    using simplified_inv [OF r] split simplified_blocks [OF r] by simp_all
  then show "\<exists>r'. simplifyBlock validate b r = Some r' \<and> simplified root rs r'"
    using simplifyBlock_simplifies simplified_trans [OF r] by blast
qed

end
