(* ===== verification/B3ReduceRun.thy ===== *)
theory B3ReduceRun
  imports B3SimplifyCFG B3DeadCode
begin

text \<open>
  \<open>ReduceStrength::run\<close> of b3/B3ReduceStrength.cpp: the pass over all blocks in pre-order, the iteration of the passes, and the
  loop that repeats them until nothing changes. Logging is left out.
\<close>

subsection \<open>The run\<close>

definition processPass :: "ReduceStrength \<Rightarrow> ReduceStrength option" where
  "processPass rs = do {
     order \<leftarrow> procBlocksInPreOrder (m_proc rs);
     foldM processBlock order rs }"

definition reduceOnce :: "bool \<Rightarrow> ReduceStrength \<Rightarrow> ReduceStrength option" where
  "reduceOnce validate rs = do {
     rs \<leftarrow> processPass (rs\<lparr>m_changed := False, m_changedCFG := False\<rparr>);
     rs \<leftarrow> simplifyCFG validate rs;
     rs \<leftarrow> (if m_changedCFG rs
            then map_option (\<lambda>p. rs\<lparr>m_proc := p, m_changed := True\<rparr>) (procResetReachability (m_proc rs))
            else Some rs);
     (p, didChange) \<leftarrow> killDeadCode (m_proc rs) (m_changed rs);
     Some (rs\<lparr>m_proc := p, m_changed := didChange\<rparr>) }"

partial_function (option) reduceLoop :: "bool \<Rightarrow> bool \<Rightarrow> ReduceStrength \<Rightarrow> (bool \<times> ReduceStrength) option" where
  "reduceLoop validate result rs =
     (case reduceOnce validate rs of
        None \<Rightarrow> None
      | Some rs' \<Rightarrow> if m_changed rs' then reduceLoop validate True rs' else Some (result, rs'))"

declare reduceLoop.simps [code]

definition initialState :: "Procedure \<Rightarrow> ReduceStrength" where
  "initialState p =
     \<lparr>m_proc = p, m_insertionSet = [], m_block = 0, m_index = 0, m_value = 0, m_changed = False, m_changedCFG = False\<rparr>"

definition reduceStrength :: "bool \<Rightarrow> Procedure \<Rightarrow> (bool \<times> Procedure) option" where
  "reduceStrength validate p = map_option (\<lambda>(result, rs). (result, m_proc rs)) (reduceLoop validate False (initialState p))"

subsection \<open>The pass over all blocks\<close>

text \<open>No block of the list meets the wrong rewrite of \<open>NotEqual\<close> when the blocks before it have been processed.\<close>

definition saneBlock :: "ReduceStrength \<Rightarrow> block_ptr \<Rightarrow> bool" where
  "saneBlock rs b \<longleftrightarrow>
     (\<forall>a i v. visits (rs\<lparr>m_block := b, m_index := 0\<rparr>) a \<longrightarrow>
        at (valuesIn (m_proc a) (m_block a)) (m_index a) = Some i \<longrightarrow> lookup a i = Some v \<longrightarrow> \<not> miscompares (lookup a) v)"

primrec sanePass :: "block_ptr list \<Rightarrow> ReduceStrength \<Rightarrow> bool" where
  "sanePass [] rs = True"
| "sanePass (b # bs) rs = (saneBlock rs b \<and> (\<forall>rs'. processBlock b rs = Some rs' \<longrightarrow> sanePass bs rs'))"

lemma saneBlockD:
  "saneBlock rs b \<Longrightarrow> visits (rs\<lparr>m_block := b, m_index := 0\<rparr>) a \<Longrightarrow> at (valuesIn (m_proc a) (m_block a)) (m_index a) = Some i \<Longrightarrow>
     lookup a i = Some v \<Longrightarrow> \<not> miscompares (lookup a) v"
  by (simp add: saneBlock_def)

lemma processBlock_sane:
  assumes "phaseInv rs" "placement (m_proc rs)" "b \<in> set (blocksOf (m_proc rs))" "distinct (blocksOf (m_proc rs))" "m_insertionSet rs = []"
    and sane: "saneBlock rs b"
  shows "\<exists>rs' new. processBlock b rs = Some rs' \<and> phaseInv rs' \<and> placement (m_proc rs') \<and> refines (lookup rs) (lookup rs') \<and>
    m_insertionSet rs' = [] \<and> m_blocks (m_proc rs') = m_blocks (m_proc rs) \<and>
    valuesIn (m_proc rs') b = spliced (valuesIn (m_proc rs) b) new \<and>
    (\<forall>c. c \<noteq> b \<longrightarrow> valuesIn (m_proc rs') c = valuesIn (m_proc rs) c)"
  by (rule processBlock_sound [OF assms(1-5)]) (rule saneBlockD [OF sane])

lemma processBlocks_refine:
  assumes "phaseInv rs" "placement (m_proc rs)" "set bs \<subseteq> set (blocksOf (m_proc rs))" "distinct (blocksOf (m_proc rs))" "distinct bs"
    and "m_insertionSet rs = []" "sanePass bs rs"
  shows "\<exists>rs' ins. foldM processBlock bs rs = Some rs' \<and> phaseInv rs' \<and> placement (m_proc rs') \<and> refines (lookup rs) (lookup rs') \<and>
    m_insertionSet rs' = [] \<and> m_blocks (m_proc rs') = m_blocks (m_proc rs) \<and>
    (\<forall>b. valuesIn (m_proc rs') b = (if b \<in> set bs then spliced (valuesIn (m_proc rs) b) (ins b) else valuesIn (m_proc rs) b))"
  using assms
proof (induction bs arbitrary: rs)
  case Nil
  then show ?case by auto
next
  case (Cons b bs)
  have b: "b \<in> set (blocksOf (m_proc rs))" "saneBlock rs b" "b \<notin> set bs" using Cons.prems by simp_all
  obtain rs1 new where rs1: "processBlock b rs = Some rs1" "phaseInv rs1" "placement (m_proc rs1)" "refines (lookup rs) (lookup rs1)"
      "m_insertionSet rs1 = []" "m_blocks (m_proc rs1) = m_blocks (m_proc rs)" "valuesIn (m_proc rs1) b = spliced (valuesIn (m_proc rs) b) new"
      "\<And>c. c \<noteq> b \<Longrightarrow> valuesIn (m_proc rs1) c = valuesIn (m_proc rs) c"
    using processBlock_sane [OF Cons.prems(1,2) b(1) Cons.prems(4,6) b(2)] by blast
  have bs: "blocksOf (m_proc rs1) = blocksOf (m_proc rs)" using rs1(6) by (simp add: blocksOf_def)
  have "\<exists>rs' ins. foldM processBlock bs rs1 = Some rs' \<and> phaseInv rs' \<and> placement (m_proc rs') \<and> refines (lookup rs1) (lookup rs') \<and>
      m_insertionSet rs' = [] \<and> m_blocks (m_proc rs') = m_blocks (m_proc rs1) \<and>
      (\<forall>c. valuesIn (m_proc rs') c = (if c \<in> set bs then spliced (valuesIn (m_proc rs1) c) (ins c) else valuesIn (m_proc rs1) c))"
    by (rule Cons.IH [OF rs1(2,3)]) (use Cons.prems bs rs1(1,5) in simp_all)
  then obtain rs' ins where rs': "foldM processBlock bs rs1 = Some rs'" "phaseInv rs'" "placement (m_proc rs')" "refines (lookup rs1) (lookup rs')"
      "m_insertionSet rs' = []" "m_blocks (m_proc rs') = m_blocks (m_proc rs1)"
      "\<And>c. valuesIn (m_proc rs') c = (if c \<in> set bs then spliced (valuesIn (m_proc rs1) c) (ins c) else valuesIn (m_proc rs1) c)" by blast
  have "valuesIn (m_proc rs') c = (if c \<in> set (b # bs) then spliced (valuesIn (m_proc rs) c) ((ins(b := new)) c) else valuesIn (m_proc rs) c)" for c
    using rs'(7) [of c] rs1(7) rs1(8) [of c] b(3) by (cases "c = b") auto
  moreover have "foldM processBlock (b # bs) rs = Some rs'" using rs1(1) rs'(1) by simp
  ultimately show ?case
    using rs'(2-6) rs1(6) refines_trans [OF rs1(4) rs'(4)] by (intro exI [of _ rs'] exI [of _ "ins(b := new)"]) simp
qed

lemma processPass_refine:
  assumes inv: "phaseInv rs" "placement (m_proc rs)" "distinct (blocksOf (m_proc rs))" "m_insertionSet rs = []"
    and cfg: "closedCFG (m_proc rs)" "m_blocks (m_proc rs) = Some root # rest"
    and sane: "\<forall>order. procBlocksInPreOrder (m_proc rs) = Some order \<longrightarrow> sanePass order rs"
  shows "\<exists>rs' ins. processPass rs = Some rs' \<and> phaseInv rs' \<and> placement (m_proc rs') \<and> refines (lookup rs) (lookup rs') \<and>
    m_insertionSet rs' = [] \<and> m_blocks (m_proc rs') = m_blocks (m_proc rs) \<and>
    (\<forall>b. valuesIn (m_proc rs') b =
       (if b \<in> reachable (m_proc rs) root then spliced (valuesIn (m_proc rs) b) (ins b) else valuesIn (m_proc rs) b))"
proof -
  obtain order where o: "procBlocksInPreOrder (m_proc rs) = Some order" "distinct order" "set order = reachable (m_proc rs) root"
    using preOrder_exact [OF cfg] by blast
  have "set order \<subseteq> set (blocksOf (m_proc rs))" unfolding o(3)
    using bg.reach_closed [of "{root}" "m_proc rs"] root_owned [OF cfg(2)] cfg(1) by (simp add: reachable_def flow_def)
  then show ?thesis
    using processBlocks_refine [OF inv(1,2) _ inv(3) o(2) inv(4)] sane o unfolding processPass_def by fastforce
qed

subsection \<open>The loop\<close>

text \<open>
  The loop returns exactly when some iteration reports no change; it reports a change unless this is the first one.
\<close>

inductive iterations :: "bool \<Rightarrow> ReduceStrength \<Rightarrow> nat \<Rightarrow> ReduceStrength \<Rightarrow> bool" for validate where
  last_iteration: "reduceOnce validate rs = Some rs' \<Longrightarrow> \<not> m_changed rs' \<Longrightarrow> iterations validate rs 0 rs'"
| more_iterations: "reduceOnce validate rs = Some rs1 \<Longrightarrow> m_changed rs1 \<Longrightarrow> iterations validate rs1 n rs' \<Longrightarrow> iterations validate rs (Suc n) rs'"

lemma iterations_loop: "iterations validate rs n rs' \<Longrightarrow> reduceLoop validate result rs = Some (result \<or> 0 < n, rs')"
proof (induction arbitrary: result rule: iterations.induct)
  case (last_iteration rs rs')
  then show ?case by (simp add: reduceLoop.simps [of _ _ rs])
next
  case (more_iterations rs rs1 n rs')
  then show ?case using more_iterations.IH [of True] by (simp add: reduceLoop.simps [of _ _ rs])
qed

lemma loop_iterations:
  assumes "reduceLoop validate result rs = Some y"
  shows "\<exists>n rs'. iterations validate rs n rs' \<and> y = (result \<or> 0 < n, rs')"
proof (rule reduceLoop.raw_induct [where P = "\<lambda>validate result rs y. \<exists>n rs'. iterations validate rs n rs' \<and> y = (result \<or> 0 < n, rs')", OF _ assms])
  fix f :: "bool \<Rightarrow> bool \<Rightarrow> ReduceStrength \<Rightarrow> (bool \<times> ReduceStrength) option" and validate result rs y
  assume IH: "\<And>validate result rs y. f validate result rs = Some y \<Longrightarrow> \<exists>n rs'. iterations validate rs n rs' \<and> y = (result \<or> 0 < n, rs')"
    and step: "(case reduceOnce validate rs of None \<Rightarrow> None
      | Some rs' \<Rightarrow> if m_changed rs' then f validate True rs' else Some (result, rs')) = Some y"
  obtain rs1 where rs1: "reduceOnce validate rs = Some rs1" using step by (cases "reduceOnce validate rs") simp_all
  show "\<exists>n rs'. iterations validate rs n rs' \<and> y = (result \<or> 0 < n, rs')"
  proof (cases "m_changed rs1")
    case True
    then obtain n rs' where "iterations validate rs1 n rs'" "y = (True \<or> 0 < n, rs')" using IH [of validate True rs1 y] step rs1 by auto
    then show ?thesis using more_iterations [OF rs1 True] by (intro exI [of _ "Suc n"] exI [of _ rs']) simp
  next
    case False
    then show ?thesis using last_iteration [OF rs1 False] step rs1 by (intro exI [of _ 0] exI [of _ rs1]) simp
  qed
qed

end
