(* ===== verification/B3Example.thy ===== *)
theory B3Example
  imports B3ReduceRun
begin

text \<open>
  A small procedure, built with the operations of b3/B3Procedure.h and b3/B3BasicBlock.h, on which
  the theorems of the development are exercised: a branch on \<open>5 + 7\<close> with a return on one side and
  a jump to another block on the other, a dead multiplication in the first block and a block that
  is not reachable.
\<close>

definition sampleBlocks :: Procedure where
  "sampleBlocks =
     snd (addBlock 0 (snd (addBlock 0 (snd (addBlock 0 (snd (addBlock 0 (snd (addBlock 0 emptyProcedure)))))))))"

definition sampleValues :: "(block_ptr \<times> Value) list" where
  "sampleValues =
     [(0, Const32Value 0 5), (0, Const32Value 0 7), (0, mkValue Add Int32 0 [0, 1] NoPayload),
      (0, mkValue Mul Int32 0 [2, 0] NoPayload), (0, BranchValue 0 2 (1, Normal) (2, Rare)),
      (1, ReturnValue 0 2), (2, JumpValue 0 (3, Normal)), (3, ReturnValue 0 2),
      (4, JumpValue 0 (3, Normal))]"

definition sampleProcedure :: Procedure where
  "sampleProcedure =
     addPredecessorTo 3 4 (addPredecessorTo 3 2 (addPredecessorTo 2 0 (addPredecessorTo 1 0
       (fold (\<lambda>(b, v) p. snd (appendNew b v p)) sampleValues sampleBlocks))))"

subsection \<open>The sample satisfies the invariants\<close>

text \<open>An executable form of the invariants of a procedure.\<close>

definition checkStore :: "Procedure \<Rightarrow> (Value \<Rightarrow> bool) \<Rightarrow> bool" where
  "checkStore p P \<longleftrightarrow> (\<forall>ov \<in> set (m_values p). case ov of Some v \<Rightarrow> P v | None \<Rightarrow> True)"

lemma checkStoreD: "checkStore p P \<Longrightarrow> valuesOf p i = Some v \<Longrightarrow> P v"
  by (auto simp: checkStore_def valuesOf_eq split: if_splits) (metis nth_mem option.simps(5))

definition childrenDecrease :: "Procedure \<Rightarrow> bool" where
  "childrenDecrease p \<longleftrightarrow>
     (\<forall>i \<in> set [0..<length (m_values p)]. case valuesOf p i of Some v \<Rightarrow> \<forall>c \<in> set (m_children v). c < i | None \<Rightarrow> True)"

lemma childrenDecrease_wf: "childrenDecrease p \<Longrightarrow> wf (deps (valuesOf p))"
proof (rule wf_subset [OF wf_less])
  assume *: "childrenDecrease p"
  have "c < i" if "valuesOf p i = Some v" "c \<in> set (m_children v)" for i v c
  proof -
    have "i < length (m_values p)" using that(1) by (simp add: valuesOf_eq split: if_splits)
    then show ?thesis using * that by (force simp: childrenDecrease_def)
  qed
  then show "deps (valuesOf p) \<subseteq> {(x, y). x < y}" by (auto simp: deps_def)
qed

lemma procInv_iff:
  "procInv p \<longleftrightarrow> distinct (m_valueIndexFreeList p) \<and>
     set (m_valueIndexFreeList p) = set (filter (\<lambda>i. m_values p ! i = None) [0..<length (m_values p)])"
  by (auto simp: procInv_def)

lemma distinct_count_list: "(\<And>x. x \<in> set xs \<Longrightarrow> count_list xs x \<le> 1) \<Longrightarrow> distinct xs"
proof (induction xs)
  case (Cons y ys)
  have "count_list ys y = 0" using Cons.prems [of y] by simp
  moreover have "count_list ys x \<le> 1" if "x \<in> set ys" for x
    using Cons.prems [of x] that by (simp split: if_splits)
  ultimately show ?case using Cons.IH by (simp add: count_list_0_iff)
qed simp

lemma validateProcedure_placement:
  assumes "validateProcedure p"
  shows "placement p"
proof -
  have "\<forall>i \<in> set (placedValues p). count_list (placedValues p) i = 1" "set (placedValues p) = set (liveValues p)"
    using assms unfolding validateProcedure_def by blast+
  moreover have "set (liveValues p) = dom (valuesOf p)" by (auto simp: liveValues_def valuesOf_eq split: if_splits)
  ultimately show ?thesis
    using distinct_count_list [of "placedValues p"] by (simp add: placement_def)
qed

lemma sampleProcedure_validates: "validateProcedure sampleProcedure"
  by code_simp

lemma sampleProcedure_constructed: "checkStore sampleProcedure (constructedOK (valuesOf sampleProcedure))"
  by code_simp

lemma sampleProcedure_procInv: "procInv sampleProcedure"
  unfolding procInv_iff by code_simp

lemma sampleProcedure_wtStore: "wtStore (valuesOf sampleProcedure)"
  by (rule validateProcedure_wtStore [OF sampleProcedure_validates]) (rule checkStoreD [OF sampleProcedure_constructed])

lemma sampleProcedure_wf: "wf (deps (valuesOf sampleProcedure))"
  by (rule childrenDecrease_wf) code_simp

lemma sampleProcedure_blocks: "m_blocks sampleProcedure = [Some 0, Some 1, Some 2, Some 3, Some 4]"
  by code_simp

lemma sampleProcedure_distinct: "distinct (blocksOf sampleProcedure)"
  by (simp add: blocksOf_def sampleProcedure_blocks)

lemmas sampleProcedure_inv =
  sampleProcedure_procInv sampleProcedure_wtStore sampleProcedure_wf sampleProcedure_distinct
  validateProcedure_placement [OF sampleProcedure_validates] validateProcedure_closed [OF sampleProcedure_validates]

lemma phaseInv_initial: "phaseInv (initialState sampleProcedure)"
  using sampleProcedure_inv by (simp add: phaseInv_def initialState_def lookup_def)

lemma sample_successors: "successorBlocks sampleProcedure 0 = [1, 2]" "successorBlocks sampleProcedure 1 = []"
  by code_simp+

lemma sample_dominates: "dominates sampleProcedure 0 2 3"
proof -
  have "b \<in> {0, 1}" if "(0, b) \<in> (Restr (flow sampleProcedure) (- {2}))\<^sup>*" for b
    using that
  proof induction
    case (step b c)
    then consider "b = 0" | "b = 1" by blast
    then show ?case using step(2) sample_successors by cases (auto simp: flow_def edges_def)
  qed simp
  from this [of 3] show ?thesis by (auto simp: dominates_def)
qed

subsection \<open>Running the phase on it\<close>

text \<open>An executable check of the premise on comparisons with one, with the number of values as fuel.\<close>

fun saneRun :: "nat \<Rightarrow> ReduceStrength \<Rightarrow> bool" where
  "saneRun 0 rs = (at (valuesIn (m_proc rs) (m_block rs)) (m_index rs) = None)"
| "saneRun (Suc n) rs =
     (case at (valuesIn (m_proc rs) (m_block rs)) (m_index rs) of
        None \<Rightarrow> True
      | Some i \<Rightarrow>
          (case lookup rs i of None \<Rightarrow> True | Some v \<Rightarrow> \<not> miscompares (lookup rs) v) \<and>
          (case process rs of None \<Rightarrow> True | Some rs' \<Rightarrow> saneRun n (rs'\<lparr>m_index := m_index rs' + 1\<rparr>)))"

lemma saneRun_visits:
  assumes "visits rs a" "saneRun n rs" "at (valuesIn (m_proc a) (m_block a)) (m_index a) = Some i" "lookup a i = Some v"
  shows "\<not> miscompares (lookup a) v"
  using assms
proof (induction arbitrary: n rule: visits.induct)
  case (visits_here rs)
  then show ?case by (cases n) simp_all
next
  case (visits_next rs' a rs)
  have "at (valuesIn (m_proc rs) (m_block rs)) (m_index rs) \<noteq> None"
    using visits_next.hyps(2) by (cases "at (valuesIn (m_proc rs) (m_block rs)) (m_index rs)") (simp_all add: process_def)
  then obtain m where "saneRun m (rs'\<lparr>m_index := m_index rs' + 1\<rparr>)"
    using visits_next.prems(1) visits_next.hyps(2) by (cases n) auto
  then show ?case by (rule visits_next.IH [OF _ visits_next.prems(2,3)])
qed

lemma sample_saneRun: "saneRun 5 ((initialState sampleProcedure)\<lparr>m_block := 0, m_index := 0\<rparr>)"
  by code_simp

primrec checkPass :: "nat \<Rightarrow> block_ptr list \<Rightarrow> ReduceStrength \<Rightarrow> bool" where
  "checkPass n [] rs = True"
| "checkPass n (b # bs) rs =
     (saneRun n (rs\<lparr>m_block := b, m_index := 0\<rparr>) \<and> (case processBlock b rs of None \<Rightarrow> True | Some rs' \<Rightarrow> checkPass n bs rs'))"

lemma checkPass_sane: "checkPass n bs rs \<Longrightarrow> sanePass bs rs"
proof (induction bs arbitrary: rs)
  case (Cons b bs)
  then have "saneBlock rs b" using saneRun_visits unfolding saneBlock_def by fastforce
  then show ?case using Cons by (simp split: option.splits)
qed simp

lemma sample_pass: "procBlocksInPreOrder sampleProcedure = Some [0, 2, 3, 1]" "checkPass 5 [0, 2, 3, 1] (initialState sampleProcedure)"
  by code_simp+

subsection \<open>Checking solutions\<close>

definition checkSolution :: "Procedure \<Rightarrow> env \<Rightarrow> bool" where
  "checkSolution p env \<longleftrightarrow>
     (\<forall>i \<in> set [0..<length (m_values p)]. case valuesOf p i of Some v \<Rightarrow> solves env i v | None \<Rightarrow> True)"

lemma checkSolution_solution: "solution (valuesOf p) env \<longleftrightarrow> checkSolution p env"
proof
  show "checkSolution p env" if "solution (valuesOf p) env"
    using that by (auto simp: checkSolution_def solution_def split: option.splits)
  show "solution (valuesOf p) env" if c: "checkSolution p env"
    unfolding solution_def
  proof (intro allI impI)
    fix i v assume v: "valuesOf p i = Some v"
    then have "i \<in> set [0..<length (m_values p)]" by (simp add: valuesOf_eq split: if_splits)
    then show "solves env i v" using bspec [OF c [unfolded checkSolution_def]] v by fastforce
  qed
qed

text \<open>The procedure \<open>return (argument == 0) != 1\<close>.\<close>

definition boolProcedure :: Procedure where
  "boolProcedure =
     fold (\<lambda>v p. snd (appendNew 0 v p))
       [mkValue ArgumentReg Int64 0 [] (ArgumentRegPayload 0), Const64Value 0 0, mkValue Equal Int32 0 [0, 1] NoPayload,
        Const32Value 0 1, mkValue NotEqual Int32 0 [2, 3] NoPayload, ReturnValue 0 4]
       (snd (addBlock 0 emptyProcedure))"

lemma boolProcedure_validates: "validateProcedure boolProcedure"
  by code_simp

lemma boolProcedure_constructed: "checkStore boolProcedure (constructedOK (valuesOf boolProcedure))"
  by code_simp

lemma boolProcedure_procInv: "procInv boolProcedure"
  unfolding procInv_iff by code_simp

lemma boolProcedure_wf: "wf (deps (valuesOf boolProcedure))"
  by (rule childrenDecrease_wf) code_simp

lemma validated_phaseInv:
  assumes "validateProcedure p" "checkStore p (constructedOK (valuesOf p))" "procInv p" "wf (deps (valuesOf p))"
  shows "phaseInv (initialState p)"
proof -
  have "wtStore (valuesOf p)"
    by (rule validateProcedure_wtStore [OF assms(1)]) (rule checkStoreD [OF assms(2)])
  then show ?thesis using assms(3,4) by (simp add: phaseInv_def initialState_def lookup_def)
qed

text \<open>The processed store says one where the procedure computes zero, for the argument zero.\<close>

definition boolEnv :: env where
  "boolEnv i = (if i \<le> 1 then V64 0 else if i = 5 then VVoid else V32 1)"

definition boolValues :: "Value list" where
  "boolValues =
     [mkValue ArgumentReg Int64 0 [] (ArgumentRegPayload 0), Const64Value 0 0, mkValue Equal Int32 0 [0, 1] NoPayload,
      Const32Value 0 1]"

lemma boolProcedure_values:
  "m_values boolProcedure = map Some (boolValues @ [mkValue NotEqual Int32 0 [2, 3] NoPayload, ReturnValue 0 4])"
  "map_option (\<lambda>rs. m_values (m_proc rs)) (process ((initialState boolProcedure)\<lparr>m_index := 4\<rparr>)) =
     Some (map Some (boolValues @ [mkValue Identity Int32 0 [6] NoPayload, ReturnValue 0 4, mkValue Equal Int32 0 [2, 3] NoPayload]))"
  by code_simp+

lemmas solution_eval = checkSolution_def boolValues_def valuesOf_eq upt_rec solves_def evalValue_def args_def mk_defs boolEnv_def
  compare_def binary_def rbool_def

lemma boolProcedure_unsolved: "\<not> checkSolution boolProcedure boolEnv"
  by (simp add: solution_eval boolProcedure_values(1))

lemma boolProcedure_miscompiled:
  "map_option (\<lambda>rs. checkSolution (m_proc rs) boolEnv) (process ((initialState boolProcedure)\<lparr>m_index := 4\<rparr>)) = Some True"
proof -
  obtain rs where rs: "process ((initialState boolProcedure)\<lparr>m_index := 4\<rparr>) = Some rs"
      "m_values (m_proc rs) = map Some (boolValues @ [mkValue Identity Int32 0 [6] NoPayload, ReturnValue 0 4, mkValue Equal Int32 0 [2, 3] NoPayload])"
    using boolProcedure_values(2) by (cases "process ((initialState boolProcedure)\<lparr>m_index := 4\<rparr>)") simp_all
  have "checkSolution (m_proc rs) boolEnv" by (simp add: solution_eval rs(2))
  then show ?thesis by (simp add: rs(1))
qed

subsection \<open>A jump to the root block\<close>

text \<open>A loop whose header is the root block: the branch in the root leaves the loop or goes to a block that jumps back.\<close>

definition loopProcedure :: Procedure where
  "loopProcedure =
     addPredecessorTo 2 0 (addPredecessorTo 1 0 (addPredecessorTo 0 1
       (fold (\<lambda>(b, v) p. snd (appendNew b v p))
          [(0, mkValue ArgumentReg Int64 0 [] (ArgumentRegPayload 0)), (0, BranchValue 0 0 (1, Normal) (2, Normal)), (1, Const32Value 0 7),
           (1, JumpValue 0 (0, Normal)), (2, ReturnValue 0 0)]
          (snd (addBlock 0 (snd (addBlock 0 (snd (addBlock 0 emptyProcedure)))))))))"

definition loopEnv :: env where
  "loopEnv i = (if i = 0 then V64 0 else if i = 2 then V32 7 else VVoid)"

lemma loopProcedure_validates: "validateProcedure loopProcedure"
  by code_simp

lemma loopProcedure_constructed: "checkStore loopProcedure (constructedOK (valuesOf loopProcedure))"
  by code_simp

lemma loopProcedure_procInv: "procInv loopProcedure"
  unfolding procInv_iff by code_simp

lemma loopProcedure_blocks: "m_blocks loopProcedure = [Some 0, Some 1, Some 2]"
  by code_simp

lemma loopProcedure_preds: "checkPredecessorValidity loopProcedure"
    "\<forall>ob \<in> set (m_heap loopProcedure). case ob of Some bb \<Rightarrow> distinct (bb_predecessors bb) | None \<Rightarrow> True"
  by code_simp+

lemma loopProcedure_successors: "successorBlocks loopProcedure 0 = [1, 2]" "successorBlocks loopProcedure 1 = [0]"
  by code_simp+

lemma loopProcedure_back: "1 \<in> reachable loopProcedure 0"
proof -
  have "(0, 1) \<in> flow loopProcedure" using loopProcedure_successors(1) by (simp add: flow_def edges_def)
  then show ?thesis by (auto simp: reachable_def)
qed

lemma loopProcedure_root:
  "valuesIn loopProcedure 0 = [0, 1]" "lastValue loopProcedure 0 = Some (BranchValue 0 0 (1, Normal) (2, Normal))"
  "valuesIn loopProcedure 2 = [4]" "lastValue loopProcedure 2 = Some (ReturnValue 0 0)"
  by code_simp+

lemma loopProcedure_values:
  "m_values loopProcedure =
     map Some [mkValue ArgumentReg Int64 0 [] (ArgumentRegPayload 0), BranchValue 0 0 (1, Normal) (2, Normal), Const32Value 0 7,
       JumpValue 0 (0, Normal), ReturnValue 0 0]"
  by code_simp

lemma loopEnv_solution: "solution (valuesOf loopProcedure) loopEnv"
  unfolding checkSolution_solution
  by (simp add: checkSolution_def loopProcedure_values valuesOf_eq upt_rec solves_def evalValue_def args_def mk_defs loopEnv_def)

lemma loopProcedure_simplified:
  "map_option (\<lambda>rs. (valuesIn (m_proc rs) 0, valuesIn (m_proc rs) 1, lastValue (m_proc rs) 0)) (simplifyCFG True (initialState loopProcedure)) =
     Some ([3], [2, 0, 1], Some (OopsValue 0))"
  by code_simp

subsection \<open>A chain of identities\<close>

definition chainProcedure :: Procedure where
  "chainProcedure =
     fold (\<lambda>v p. snd (appendNew 0 v p))
       [Const32Value 0 5, mkValue Identity Int32 0 [0] NoPayload, mkValue Identity Int32 0 [1] NoPayload,
        mkValue Add Int32 0 [2, 0] NoPayload, ReturnValue 0 3]
       (snd (addBlock 0 emptyProcedure))"

lemma chainProcedure_validates: "validateProcedure chainProcedure"
  by code_simp

lemma chainProcedure_constructed: "checkStore chainProcedure (constructedOK (valuesOf chainProcedure))"
  by code_simp

lemma chainProcedure_wtStore: "wtStore (valuesOf chainProcedure)"
  by (rule validateProcedure_wtStore [OF chainProcedure_validates]) (rule checkStoreD [OF chainProcedure_constructed])

lemma chainProcedure_wf: "wf (deps (valuesOf chainProcedure))"
  by (rule childrenDecrease_wf) code_simp

subsection \<open>Running the whole phase\<close>

text \<open>
  The phase folds the sum and the branch on it, merges the block with the return into the root and deletes the rest: what is left
  returns 12.
\<close>

lemma sample_reduced:
  "map_option (\<lambda>(result, p). (result, m_blocks p, valuesIn p 0, m_values p)) (reduceStrength True sampleProcedure) =
     Some (True, [Some 0, None, None, None, None], [9, 5],
       [None, None, None, None, None, Some (ReturnValue 0 9), None, None, None, Some (Const32Value 0 12), None])"
  by code_simp

subsection \<open>The sample satisfies the invariant of the control flow graph\<close>

lemma cfgInv_intro:
  assumes "validateProcedure p" "checkStore p (constructedOK (valuesOf p))" "procInv p" "distinct (blocksOf p)"
    "root \<in> set (blocksOf p)" "checkPredecessorValidity p" "\<forall>ob \<in> set (m_heap p). case ob of Some bb \<Rightarrow> distinct (bb_predecessors bb) | None \<Rightarrow> True"
    "\<forall>b \<in> set (blocksOf p). root \<notin> set (successorBlocks p b)"
  shows "cfgInv p root"
proof -
  have "distinct (predsOf p b)" for b
    using assms(7) by (auto simp: predsOf_def block_def at_def split: option.splits) (metis nth_mem option.simps(5))
  moreover have "\<forall>b \<in> set (blocksOf p). validateBlock p b" using assms(1) unfolding validateProcedure_def by blast
  moreover have "wtStore (valuesOf p)"
    by (rule validateProcedure_wtStore [OF assms(1)]) (rule checkStoreD [OF assms(2)])
  ultimately show ?thesis
    using assms validateProcedure_placement [OF assms(1)] by (simp add: cfgInv_def)
qed

lemma sampleProcedure_cfgInv: "cfgInv sampleProcedure 0"
proof (rule cfgInv_intro [OF sampleProcedure_validates sampleProcedure_constructed sampleProcedure_procInv sampleProcedure_distinct])
  show "0 \<in> set (blocksOf sampleProcedure)" "checkPredecessorValidity sampleProcedure"
    "\<forall>ob \<in> set (m_heap sampleProcedure). case ob of Some bb \<Rightarrow> distinct (bb_predecessors bb) | None \<Rightarrow> True"
    "\<forall>b \<in> set (blocksOf sampleProcedure). 0 \<notin> set (successorBlocks sampleProcedure b)"
    by code_simp+
qed

end

