(* ===== verification/B3BlockInsertionSet.thy ===== *)
theory B3BlockInsertionSet
  imports B3SimplifyCFG
begin

text \<open>
  \<open>BlockInsertionSet\<close> of b3/B3BlockInsertionSet.h and .cpp, and the operations of \<open>SwitchValue\<close>
  (b3/B3SwitchValue.cpp). A block that waits for insertion is owned by the set: it is on the heap of
  blocks, but not yet in \<open>m_blocks\<close>.
\<close>

subsection \<open>SwitchValue\<close>

type_synonym SwitchCase = "int64 \<times> FrequentedBlock"

text \<open>\<open>removeCase\<close> returns the removed case; \<^term>\<open>None\<close> is an index out of range.\<close>

definition removeCase :: "nat \<Rightarrow> FrequentedBlock list \<times> int64 list \<Rightarrow> (SwitchCase \<times> FrequentedBlock list \<times> int64 list) option" where
  "removeCase index = (\<lambda>(ss, vs). do {
     resultBlock \<leftarrow> at ss index;
     resultValue \<leftarrow> at vs index;
     Some ((resultValue, resultBlock), butlast (ss[index := last ss]), butlast (vs[index := last vs])) })"

definition appendCase :: "SwitchCase \<Rightarrow> FrequentedBlock list \<times> int64 list \<Rightarrow> FrequentedBlock list \<times> int64 list" where
  "appendCase c = (\<lambda>(ss, vs).
     let ss' = ss @ [last ss] in (ss'[length ss' - 2 := snd c], vs @ [fst c]))"

definition switchCases :: "Value \<Rightarrow> SwitchCase list" where
  "switchCases v = zip (caseValues v) (successors v)"

definition fallThrough :: "Value \<Rightarrow> FrequentedBlock" where
  "fallThrough v = last (successors v)"

subsection \<open>Inserting blocks\<close>

type_synonym BlockInsertion = "nat \<times> block_ptr"

definition PNaN :: double where
  "PNaN = 0x7ff8000000000000"

lemma PNaN_NaN [simp]: "isNaN PNaN"
  by (simp add: PNaN_def isNaN_def dmag_def infMag_def)

definition UINT_MAX :: nat where
  "UINT_MAX = 4294967295"

text \<open>The operations work on the procedure and the list of insertions.\<close>

definition insertBlock ::
    "nat \<Rightarrow> double \<Rightarrow> Procedure \<times> BlockInsertion list \<Rightarrow> block_ptr \<times> Procedure \<times> BlockInsertion list" where
  "insertBlock index frequency = (\<lambda>(p, insertions).
     let result = length (m_heap p)
     in (result, p\<lparr>m_heap := m_heap p @ [Some (mkBasicBlock UINT_MAX frequency)]\<rparr>, insertions @ [(index, result)]))"

definition insertBefore ::
    "block_ptr \<Rightarrow> double \<Rightarrow> Procedure \<times> BlockInsertion list \<Rightarrow> (block_ptr \<times> Procedure \<times> BlockInsertion list) option" where
  "insertBefore beforeBlock frequency s = do {
     bb \<leftarrow> block (fst s) beforeBlock;
     Some (insertBlock (bb_index bb) (if \<not> isNaN frequency then frequency else bb_frequency bb) s) }"

definition insertAfter ::
    "block_ptr \<Rightarrow> double \<Rightarrow> Procedure \<times> BlockInsertion list \<Rightarrow> (block_ptr \<times> Procedure \<times> BlockInsertion list) option" where
  "insertAfter after frequency s = do {
     bb \<leftarrow> block (fst s) after;
     Some (insertBlock (bb_index bb + 1) (if \<not> isNaN frequency then frequency else bb_frequency bb) s) }"

subsection \<open>Splitting a block\<close>

text \<open>\<open>predecessor->replaceSuccessor(block, result)\<close>.\<close>

definition replaceSuccessorOf :: "block_ptr \<Rightarrow> block_ptr \<Rightarrow> block_ptr \<Rightarrow> Procedure \<Rightarrow> Procedure option" where
  "replaceSuccessorOf from to b p = do {
     v \<leftarrow> terminalOf p b;
     Some (setTerminal b (replaceSuccessor from to v) p) }"

text \<open>
  \<open>splitForward(block, valueIndex, &insertionSet)\<close>. It returns the new block; the caller's index
  becomes 0 and its insertion set is left empty.
\<close>

definition splitForward ::
    "block_ptr \<Rightarrow> nat \<Rightarrow> Insertion list \<Rightarrow> double \<Rightarrow> Procedure \<times> BlockInsertion list \<Rightarrow>
     (block_ptr \<times> Procedure \<times> BlockInsertion list) option" where
  "splitForward b valueIndex insertions frequency s = do {
     i \<leftarrow> at (valuesIn (fst s) b) valueIndex;
     v \<leftarrow> valuesOf (fst s) i;
     (result, p, blockInsertions) \<leftarrow> insertBefore b frequency s;
     (let (jump, p) = add (JumpValue (m_origin v) (b, Normal)) p;
          p = updateBlock result (\<lambda>bb. bb\<lparr>bb_values := take valueIndex (valuesIn p b) @ [jump]\<rparr>) p;
          p = executeInsertionSet insertions result p;
          p = updateBlock b (\<lambda>bb. bb\<lparr>bb_values := drop valueIndex (bb_values bb)\<rparr>) p;
          preds = predsOf p b;
          p = updateBlock result (\<lambda>bb. bb\<lparr>bb_predecessors := preds\<rparr>) p;
          p = updateBlock b (\<lambda>bb. bb\<lparr>bb_predecessors := []\<rparr>) p;
          p = addPredecessorTo b result p
      in do {
        p \<leftarrow> foldM (replaceSuccessorOf b result) preds p;
        Some (result, p, blockInsertions) }) }"

subsection \<open>Executing the insertions\<close>

text \<open>The insertions are sorted and spliced into \<open>m_blocks\<close>, null entries go and the blocks are numbered again.\<close>

definition renumber :: "Procedure \<Rightarrow> Procedure" where
  "renumber p =
     fold (\<lambda>i. updateBlock (the (m_blocks p ! i)) (\<lambda>bb. bb\<lparr>bb_index := i\<rparr>)) [0..<length (m_blocks p)] p"

definition executeBlockInsertions :: "Procedure \<times> BlockInsertion list \<Rightarrow> bool \<times> Procedure" where
  "executeBlockInsertions = (\<lambda>(p, insertions).
     if insertions = [] then (False, p)
     else
       let sorted = bubbleSort (\<lambda>x y. fst x < fst y) insertions;
           blocks = map the (executeInsertions (m_blocks p) (map (\<lambda>(i, b). (i, Some b)) sorted));
           p = p\<lparr>m_blocks := filter (\<lambda>ob. ob \<noteq> None) blocks\<rparr>
       in (True, renumber p))"

lemma renumber_blocks:
  assumes d: "distinct (m_blocks p)" "None \<notin> set (m_blocks p)"
  shows "m_blocks (renumber p) = m_blocks p" "valuesOf (renumber p) = valuesOf p" "procInv (renumber p) = procInv p"
    "length (m_heap (renumber p)) = length (m_heap p)"
    "i < length (m_blocks p) \<Longrightarrow> block (renumber p) (the (m_blocks p ! i)) = map_option (bb_index_update (\<lambda>_. i)) (block p (the (m_blocks p ! i)))"
    "Some b \<notin> set (m_blocks p) \<Longrightarrow> block (renumber p) b = block p b"
proof -
  define bs where "bs = m_blocks p"
  define q where "q n = fold (\<lambda>i. updateBlock (the (bs ! i)) (\<lambda>bb. bb\<lparr>bb_index := i\<rparr>)) [0..<n] p" for n
  have step: "q (Suc n) = updateBlock (the (bs ! n)) (\<lambda>bb. bb\<lparr>bb_index := n\<rparr>) (q n)" for n by (simp add: q_def)
  have same: "m_blocks (q n) = m_blocks p \<and> valuesOf (q n) = valuesOf p \<and> procInv (q n) = procInv p \<and> length (m_heap (q n)) = length (m_heap p)" for n
    by (induction n) (simp add: q_def, simp add: step updateBlock_def setBlock_def split: option.splits)
  have ne: "the (bs ! i) \<noteq> the (bs ! j)" if "i < length bs" "j < length bs" "i \<noteq> j" for i j
    using that d nth_eq_iff_index_eq [of bs i j] nth_mem [of i bs] nth_mem [of j bs]
    unfolding bs_def by (metis option.expand)
  have "(\<forall>i < n. block (q n) (the (bs ! i)) = map_option (bb_index_update (\<lambda>_. i)) (block p (the (bs ! i)))) \<and>
      (\<forall>b. Some b \<notin> set bs \<longrightarrow> block (q n) b = block p b) \<and> (\<forall>i. n \<le> i \<longrightarrow> i < length bs \<longrightarrow> block (q n) (the (bs ! i)) = block p (the (bs ! i)))"
    if "n \<le> length bs" for n
    using that
  proof (induction n)
    case 0
    then show ?case by (simp add: q_def)
  next
    case (Suc n)
    have n: "bs ! n \<in> set bs" using Suc.prems by simp
    then have "bs ! n \<noteq> None" using d(2) unfolding bs_def by metis
    then have "Some (the (bs ! n)) \<in> set bs" using n by simp
    then show ?case using Suc ne by (auto simp: step block_updateBlock less_Suc_eq)
  qed
  from this [of "length bs"] have r: "\<forall>i < length bs. block (q (length bs)) (the (bs ! i)) = map_option (bb_index_update (\<lambda>_. i)) (block p (the (bs ! i)))"
      "\<forall>b. Some b \<notin> set bs \<longrightarrow> block (q (length bs)) b = block p b" by simp_all
  have R: "renumber p = q (length bs)" by (simp add: renumber_def q_def bs_def)
  show "m_blocks (renumber p) = m_blocks p" "valuesOf (renumber p) = valuesOf p" "procInv (renumber p) = procInv p"
    "length (m_heap (renumber p)) = length (m_heap p)"
    using same [of "length bs"] by (simp_all add: R)
  show "i < length (m_blocks p) \<Longrightarrow> block (renumber p) (the (m_blocks p ! i)) = map_option (bb_index_update (\<lambda>_. i)) (block p (the (m_blocks p ! i)))"
    "Some b \<notin> set (m_blocks p) \<Longrightarrow> block (renumber p) b = block p b"
    using r by (simp_all add: R bs_def)
qed

text \<open>What the list of blocks is afterwards.\<close>

definition splicedBlocks :: "Procedure \<Rightarrow> BlockInsertion list \<Rightarrow> block_ptr option list" where
  "splicedBlocks p insertions = filter (\<lambda>ob. ob \<noteq> None) (spliced (m_blocks p) (map (\<lambda>(i, b). (i, Some b)) insertions))"

lemma executeBlockInsertions_renumber:
  assumes "insertions \<noteq> []" "\<forall>(i, b) \<in> set insertions. i \<le> length (m_blocks p)"
  shows "executeBlockInsertions (p, insertions) = (True, renumber (p\<lparr>m_blocks := splicedBlocks p insertions\<rparr>))"
proof -
  let ?f = "\<lambda>(i, b). (i, Some b)" and ?s = "sort_key fst insertions"
  have "\<forall>q \<in> set (map ?f ?s). fst q \<le> length (m_blocks p)" "sorted (map fst (map ?f ?s))"
    using assms(2) by (auto simp: comp_def case_prod_beta)
  then have e: "executeInsertions (m_blocks p) (map ?f ?s) = map Some (spliced (m_blocks p) (map ?f ?s))"
    using executeInsertions_spliced by blast
  have f: "filter (\<lambda>q. fst q = i) (map ?f xs) = map ?f (filter (\<lambda>q. fst q = i) xs)" for i and xs :: "BlockInsertion list"
    by (induction xs) (auto simp: case_prod_beta)
  have "spliced (m_blocks p) (map ?f ?s) = spliced (m_blocks p) (map ?f insertions)"
    unfolding spliced_def f by (simp only: sort_key_stable)
  then show ?thesis
    using assms(1) bubbleSort_sort_key [where key = fst and xs = insertions] e
    by (simp add: executeBlockInsertions_def Let_def splicedBlocks_def comp_def)
qed

end
