(* ===== verification/B3LowerMacros.thy ===== *)
theory B3LowerMacros
  imports B3BlockInsertionSet
begin

text \<open>
  The phase \<open>lowerMacros\<close> of b3/B3LowerMacros.cpp, which replaces \<open>ChillDiv\<close> by a division behind
  branches that keep it from trapping, and \<open>Switch\<close> by a binary search of branches. \<^term>\<open>None\<close> is a null
  dereference, an index out of range or a failed assertion.
\<close>

record LowerMacros =
  lm_proc :: Procedure
  lm_blockInsertions :: "BlockInsertion list"
  lm_insertionSet :: "Insertion list"
  lm_block :: block_ptr
  lm_index :: nat
  lm_value :: value_ptr
  lm_changed :: bool

subsection \<open>Creating values and blocks\<close>

text \<open>\<open>new Value(opcode, origin, children)\<close>, with the type that \<open>typeFor\<close> gives it.\<close>

definition opValue :: "store \<Rightarrow> opcode \<Rightarrow> nat \<Rightarrow> value_ptr list \<Rightarrow> Value option" where
  "opValue s opcode origin cs =
     (let ty = (\<lambda>k. case at cs k of None \<Rightarrow> Void | Some c \<Rightarrow> (case s c of Some v \<Rightarrow> m_type v | None \<Rightarrow> Void))
      in map_option (\<lambda>t. mkValue opcode t origin cs NoPayload) (typeFor opcode (ty 0) (ty 1)))"

definition lmAppend :: "block_ptr \<Rightarrow> Value \<Rightarrow> LowerMacros \<Rightarrow> value_ptr \<times> LowerMacros" where
  "lmAppend b v lm = (let (i, p) = appendNew b v (lm_proc lm) in (i, lm\<lparr>lm_proc := p\<rparr>))"

definition lmAppendOp ::
    "block_ptr \<Rightarrow> opcode \<Rightarrow> nat \<Rightarrow> value_ptr list \<Rightarrow> LowerMacros \<Rightarrow> (value_ptr \<times> LowerMacros) option" where
  "lmAppendOp b opcode origin cs lm =
     map_option (\<lambda>v. lmAppend b v lm) (opValue (valuesOf (lm_proc lm)) opcode origin cs)"

definition lmAppendIntConstant ::
    "block_ptr \<Rightarrow> nat \<Rightarrow> b3type \<Rightarrow> int64 \<Rightarrow> LowerMacros \<Rightarrow> (value_ptr \<times> LowerMacros) option" where
  "lmAppendIntConstant b origin type value lm =
     map_option (\<lambda>(i, p). (i, lm\<lparr>lm_proc := p\<rparr>)) (appendIntConstant b origin type value (lm_proc lm))"

text \<open>\<open>m_insertionSet.insert(m_index, ...)\<close>.\<close>

definition lmInsert :: "Value \<Rightarrow> LowerMacros \<Rightarrow> value_ptr \<times> LowerMacros" where
  "lmInsert v lm =
     (let (i, p) = add v (lm_proc lm)
      in (i, lm\<lparr>lm_proc := p, lm_insertionSet := lm_insertionSet lm @ [(lm_index lm, i)]\<rparr>))"

definition lmInsertOp :: "opcode \<Rightarrow> nat \<Rightarrow> value_ptr list \<Rightarrow> LowerMacros \<Rightarrow> (value_ptr \<times> LowerMacros) option" where
  "lmInsertOp opcode origin cs lm =
     map_option (\<lambda>v. lmInsert v lm) (opValue (valuesOf (lm_proc lm)) opcode origin cs)"

definition lmInsertIntConstant :: "nat \<Rightarrow> b3type \<Rightarrow> int64 \<Rightarrow> LowerMacros \<Rightarrow> (value_ptr \<times> LowerMacros) option" where
  "lmInsertIntConstant origin type value lm = map_option (\<lambda>v. lmInsert v lm) (intConstant origin type value)"

definition lmInsertBefore :: "block_ptr \<Rightarrow> LowerMacros \<Rightarrow> (block_ptr \<times> LowerMacros) option" where
  "lmInsertBefore b lm =
     map_option (\<lambda>(r, p, bs). (r, lm\<lparr>lm_proc := p, lm_blockInsertions := bs\<rparr>))
       (insertBefore b PNaN (lm_proc lm, lm_blockInsertions lm))"

definition lmInsertAfter :: "block_ptr \<Rightarrow> LowerMacros \<Rightarrow> (block_ptr \<times> LowerMacros) option" where
  "lmInsertAfter b lm =
     map_option (\<lambda>(r, p, bs). (r, lm\<lparr>lm_proc := p, lm_blockInsertions := bs\<rparr>))
       (insertAfter b PNaN (lm_proc lm, lm_blockInsertions lm))"

definition lmSplitForward :: "LowerMacros \<Rightarrow> (block_ptr \<times> LowerMacros) option" where
  "lmSplitForward lm =
     map_option (\<lambda>(r, p, bs). (r, lm\<lparr>lm_proc := p, lm_blockInsertions := bs, lm_insertionSet := [], lm_index := 0\<rparr>))
       (splitForward (lm_block lm) (lm_index lm) (lm_insertionSet lm) PNaN (lm_proc lm, lm_blockInsertions lm))"

definition lmUpdateValue :: "value_ptr \<Rightarrow> (Value \<Rightarrow> Value) \<Rightarrow> LowerMacros \<Rightarrow> LowerMacros option" where
  "lmUpdateValue i f lm =
     map_option (\<lambda>v. lm\<lparr>lm_proc := setValue i (f v) (lm_proc lm)\<rparr>) (valuesOf (lm_proc lm) i)"

text \<open>\<open>block->updatePredecessorsAfter()\<close>.\<close>

definition lmUpdatePredecessorsAfter :: "block_ptr \<Rightarrow> LowerMacros \<Rightarrow> LowerMacros option" where
  "lmUpdatePredecessorsAfter b lm =
     map_option (\<lambda>preds. lm\<lparr>lm_proc := setPreds preds (lm_proc lm)\<rparr>)
       (updatePredecessorsAfter (successorBlocks (lm_proc lm)) b (predsOf (lm_proc lm)))"

subsection \<open>ChillDiv\<close>

definition badNumeratorConst :: "b3type \<Rightarrow> int64 option" where
  "badNumeratorConst type =
     (case type of Int32 \<Rightarrow> Some (word_of_int (smin TYPE(32))) | Int64 \<Rightarrow> Some (word_of_int (smin TYPE(64))) | _ \<Rightarrow> None)"

text \<open>The test that is inserted in front of the division: \<open>den + 1\<close> is above one unless \<open>den\<close> is \<open>0\<close> or \<open>-1\<close>.\<close>

definition denominatorTest :: "Value \<Rightarrow> value_ptr \<Rightarrow> LowerMacros \<Rightarrow> (value_ptr \<times> LowerMacros) option" where
  "denominatorTest v den lm = do {
     (one, lm) \<leftarrow> lmInsertIntConstant (m_origin v) (m_type v) 1 lm;
     (sum, lm) \<leftarrow> lmInsertOp Add (m_origin v) [den, one] lm;
     lmInsertOp Above (m_origin v) [sum, one] lm }"

text \<open>
  The function in three parts: the split in front of the division with the new blocks and the branch
  to them, the code of the new blocks, and the phi that takes the place of the division.
\<close>

record ChillCases =
  before_block :: block_ptr
  normalDivCase :: block_ptr
  shadyDenCase :: block_ptr
  zeroDenCase :: block_ptr
  neg1DenCase :: block_ptr
  intMinCase :: block_ptr

definition chillFork :: "Value \<Rightarrow> value_ptr \<Rightarrow> LowerMacros \<Rightarrow> (ChillCases \<times> LowerMacros) option" where
  "chillFork v den lm = do {
     (isDenOK, lm) \<leftarrow> denominatorTest v den lm;
     (beforeBlock, lm) \<leftarrow> lmSplitForward lm;
     (normal, lm) \<leftarrow> lmInsertBefore (lm_block lm) lm;
     (shady, lm) \<leftarrow> lmInsertBefore (lm_block lm) lm;
     (zero, lm) \<leftarrow> lmInsertBefore (lm_block lm) lm;
     (neg1, lm) \<leftarrow> lmInsertBefore (lm_block lm) lm;
     (intMin, lm) \<leftarrow> lmInsertBefore (lm_block lm) lm;
     Some (\<lparr>before_block = beforeBlock, normalDivCase = normal, shadyDenCase = shady, zeroDenCase = zero,
             neg1DenCase = neg1, intMinCase = intMin\<rparr>,
           lm\<lparr>lm_proc := snd (replaceLastWithNew beforeBlock
             (BranchValue (m_origin v) isDenOK (normal, Normal) (shady, Rare)) (lm_proc lm))\<rparr>) }"

definition chillFill ::
    "Value \<Rightarrow> value_ptr \<Rightarrow> value_ptr \<Rightarrow> ChillCases \<Rightarrow> LowerMacros \<Rightarrow> ((value_ptr \<times> value_ptr \<times> value_ptr) \<times> LowerMacros) option" where
  "chillFill v num den bs lm = (let org = m_origin v; rest = (lm_block lm, Normal) in do {
     (quotient, lm) \<leftarrow> lmAppendOp (normalDivCase bs) Div org [num, den] lm;
     (normalResult, lm) \<leftarrow> Some (lmAppend (normalDivCase bs) (UpsilonValue org quotient None) lm);
     (_, lm) \<leftarrow> Some (lmAppend (normalDivCase bs) (JumpValue org rest) lm);
     (_, lm) \<leftarrow> Some (lmAppend (shadyDenCase bs) (BranchValue org den (neg1DenCase bs, Normal) (zeroDenCase bs, Rare)) lm);
     (zero, lm) \<leftarrow> lmAppendIntConstant (zeroDenCase bs) org (m_type v) 0 lm;
     (zeroResult, lm) \<leftarrow> Some (lmAppend (zeroDenCase bs) (UpsilonValue org zero None) lm);
     (_, lm) \<leftarrow> Some (lmAppend (zeroDenCase bs) (JumpValue org rest) lm);
     bad \<leftarrow> badNumeratorConst (m_type v);
     (badNumerator, lm) \<leftarrow> lmAppendIntConstant (neg1DenCase bs) org (m_type v) bad lm;
     (isBad, lm) \<leftarrow> lmAppendOp (neg1DenCase bs) Equal org [num, badNumerator] lm;
     (_, lm) \<leftarrow> Some (lmAppend (neg1DenCase bs) (BranchValue org isBad (intMinCase bs, Rare) (normalDivCase bs, Normal)) lm);
     (intMinResult, lm) \<leftarrow> Some (lmAppend (intMinCase bs) (UpsilonValue org badNumerator None) lm);
     (_, lm) \<leftarrow> Some (lmAppend (intMinCase bs) (JumpValue org rest) lm);
     Some ((normalResult, zeroResult, intMinResult), lm) })"

definition chillPhi :: "Value \<Rightarrow> value_ptr \<times> value_ptr \<times> value_ptr \<Rightarrow> LowerMacros \<Rightarrow> LowerMacros option" where
  "chillPhi v = (\<lambda>(normalResult, zeroResult, intMinResult) lm. do {
     (phi, lm) \<leftarrow> Some (lmInsert (mkValue Phi (m_type v) (m_origin v) [] NoPayload) lm);
     lm \<leftarrow> lmUpdateValue normalResult (setPhi phi) lm;
     lm \<leftarrow> lmUpdateValue zeroResult (setPhi phi) lm;
     lm \<leftarrow> lmUpdateValue intMinResult (setPhi phi) lm;
     w \<leftarrow> replaceWithIdentity (m_type v) phi v;
     lmUpdateValue (lm_value lm) (\<lambda>_. w) lm })"

definition lowerChillDiv :: "Value \<Rightarrow> LowerMacros \<Rightarrow> LowerMacros option" where
  "lowerChillDiv v lm = do {
     num \<leftarrow> at (m_children v) 0;
     den \<leftarrow> at (m_children v) 1;
     (bs, lm) \<leftarrow> chillFork v den (lm\<lparr>lm_changed := True\<rparr>);
     (results, lm) \<leftarrow> chillFill v num den bs lm;
     lm \<leftarrow> chillPhi v results lm;
     lmUpdatePredecessorsAfter (before_block bs) lm }"

subsection \<open>Switch\<close>

text \<open>
  \<open>before->appendNew<ControlValue>(m_proc, Branch, m_origin, before->appendNew<Value>(m_proc, opcode, m_origin,
  m_value->child(0), before->appendIntConstant(...)), taken, notTaken)\<close>, which is written out twice.
\<close>

definition lmAppendTest ::
    "block_ptr \<Rightarrow> opcode \<Rightarrow> nat \<Rightarrow> value_ptr \<Rightarrow> b3type \<Rightarrow> int64 \<Rightarrow> FrequentedBlock \<Rightarrow> FrequentedBlock \<Rightarrow>
     LowerMacros \<Rightarrow> LowerMacros option" where
  "lmAppendTest b opcode org x type caseValue taken notTaken lm = do {
     (k, lm) \<leftarrow> lmAppendIntConstant b org type caseValue lm;
     (t, lm) \<leftarrow> lmAppendOp b opcode org [x, k] lm;
     Some (snd (lmAppend b (BranchValue org t taken notTaken) lm)) }"

text \<open>
  The test for a leaf whose cases fill the interval between the bounds that the search has already
  established, so that the last comparison is not needed.
\<close>

definition allConsecutive :: "SwitchCase list \<Rightarrow> nat \<Rightarrow> bool \<Rightarrow> nat \<Rightarrow> bool" where
  "allConsecutive cases start hardStart end0 \<longleftrightarrow>
     (hardStart \<or> start \<noteq> 0 \<and> fst (cases ! (start - 1)) = fst (cases ! start) - 1) \<and>
     end0 < length cases \<and> fst (cases ! (end0 - 1)) = fst (cases ! end0) - 1 \<and>
     (\<forall>i \<in> set [0..<end0 - start - 1]. fst (cases ! (start + i)) + 1 = fst (cases ! (start + i + 1)))"

text \<open>The loop that appends one comparison per case; it returns the block after the last one.\<close>

fun buildLeaf ::
    "nat \<Rightarrow> value_ptr \<Rightarrow> b3type \<Rightarrow> SwitchCase list \<Rightarrow> block_ptr \<Rightarrow> LowerMacros \<Rightarrow> (block_ptr \<times> LowerMacros) option" where
  "buildLeaf org x type [] beforeBlock lm = Some (beforeBlock, lm)"
| "buildLeaf org x type (c # cs) beforeBlock lm = do {
     (nextCheck, lm) \<leftarrow> lmInsertAfter (lm_block lm) lm;
     lm \<leftarrow> lmAppendTest beforeBlock Equal org x type (fst c) (snd c) (nextCheck, Normal) lm;
     buildLeaf org x type cs nextCheck lm }"

function recursivelyBuildSwitch ::
    "nat \<Rightarrow> value_ptr \<Rightarrow> b3type \<Rightarrow> FrequentedBlock \<Rightarrow> SwitchCase list \<Rightarrow> nat \<Rightarrow> bool \<Rightarrow> nat \<Rightarrow> block_ptr \<Rightarrow>
     LowerMacros \<Rightarrow> LowerMacros option" where
  "recursivelyBuildSwitch org x type fall cases start hardStart end0 beforeBlock lm =
     (if end0 - start \<le> 3
      then
        let consecutive = allConsecutive cases start hardStart end0;
            limit = (if consecutive then end0 - start - 1 else end0 - start)
        in do {
          (beforeBlock, lm) \<leftarrow> buildLeaf org x type (take limit (drop start cases)) beforeBlock lm;
          Some (snd (lmAppend beforeBlock (JumpValue org (if consecutive then snd (cases ! (end0 - 1)) else fall)) lm)) }
      else
        let medianIndex = (start + end0) div 2
        in do {
          (left, lm) \<leftarrow> lmInsertAfter (lm_block lm) lm;
          (right, lm) \<leftarrow> lmInsertAfter (lm_block lm) lm;
          lm \<leftarrow> lmAppendTest beforeBlock LessThan org x type (fst (cases ! medianIndex)) (left, Normal) (right, Normal) lm;
          lm \<leftarrow> recursivelyBuildSwitch org x type fall cases start hardStart medianIndex left lm;
          recursivelyBuildSwitch org x type fall cases medianIndex True end0 right lm })"
  by pat_completeness auto
termination
  by (relation "measure (\<lambda>(_, _, _, _, _, start, _, end0, _, _). end0 - start)") auto

declare recursivelyBuildSwitch.simps [simp del]

text \<open>
  \<open>std::sort\<close> by case value. It need not be stable, but case values that a client gives are distinct,
  and then there is only one sorted arrangement.
\<close>

definition lowerSwitch :: "Value \<Rightarrow> LowerMacros \<Rightarrow> LowerMacros option" where
  "lowerSwitch v lm = do {
     x \<leftarrow> at (m_children v) 0;
     xv \<leftarrow> valuesOf (lm_proc lm) x;
     (let cases = sort_key (\<lambda>c. sint (fst c)) (switchCases v);
          lm1 = lm\<lparr>lm_proc := updateBlock (lm_block lm) (\<lambda>bb. bb\<lparr>bb_values := butlast (bb_values bb)\<rparr>) (lm_proc lm)\<rparr>
      in do {
        lm2 \<leftarrow> recursivelyBuildSwitch (m_origin v) x (m_type xv) (fallThrough v) cases 0 False (length cases) (lm_block lm) lm1;
        lm3 \<leftarrow> lmUpdatePredecessorsAfter (lm_block lm2) (lm2\<lparr>lm_proc := deleteValue (lm_value lm) (lm_proc lm2)\<rparr>);
        Some (lm3\<lparr>lm_changed := True\<rparr>) }) }"

subsection \<open>The phase\<close>

definition lowerValue :: "LowerMacros \<Rightarrow> LowerMacros option" where
  "lowerValue lm = do {
     i \<leftarrow> at (valuesIn (lm_proc lm) (lm_block lm)) (lm_index lm);
     v \<leftarrow> valuesOf (lm_proc lm) i;
     (if m_opcode v = ChillDiv then lowerChillDiv v (lm\<lparr>lm_value := i\<rparr>)
      else if m_opcode v = Switch then lowerSwitch v (lm\<lparr>lm_value := i\<rparr>)
      else Some (lm\<lparr>lm_value := i\<rparr>)) }"

partial_function (option) lowerLoop :: "LowerMacros \<Rightarrow> LowerMacros option" where
  "lowerLoop lm =
     (if lm_index lm < length (valuesIn (lm_proc lm) (lm_block lm))
      then case lowerValue lm of
             None \<Rightarrow> None
           | Some lm' \<Rightarrow> lowerLoop (lm'\<lparr>lm_index := lm_index lm' + 1\<rparr>)
      else Some lm)"

declare lowerLoop.simps [code]

definition processCurrentBlock :: "block_ptr \<Rightarrow> LowerMacros \<Rightarrow> LowerMacros option" where
  "processCurrentBlock b lm = do {
     lm \<leftarrow> lowerLoop (lm\<lparr>lm_block := b, lm_index := 0\<rparr>);
     Some (lm\<lparr>lm_proc := executeInsertionSet (lm_insertionSet lm) (lm_block lm) (lm_proc lm), lm_insertionSet := []\<rparr>) }"

definition lowerMacrosImpl :: "Procedure \<Rightarrow> (bool \<times> Procedure) option" where
  "lowerMacrosImpl p = do {
     lm \<leftarrow> foldM processCurrentBlock (blocksOf p)
       \<lparr>lm_proc = p, lm_blockInsertions = [], lm_insertionSet = [], lm_block = 0, lm_index = 0, lm_value = 0, lm_changed = False\<rparr>;
     (let (inserted, p') = executeBlockInsertions (lm_proc lm, lm_blockInsertions lm);
          didChange = lm_changed lm \<or> inserted
      in if didChange then map_option (Pair didChange) (procResetReachability p') else Some (didChange, p')) }"

text \<open>\<open>validate\<close> is the option \<open>shouldValidateIR()\<close>: the phase must find nothing left to lower.\<close>

definition lowerMacros :: "bool \<Rightarrow> Procedure \<Rightarrow> (bool \<times> Procedure) option" where
  "lowerMacros validate p = do {
     (result, p) \<leftarrow> lowerMacrosImpl p;
     if validate
     then do {
       (again, p) \<leftarrow> lowerMacrosImpl p;
       if again then None else Some (result, p) }
     else Some (result, p) }"

end
