(* ===== verification/B3Grow.thy ===== *)
theory B3Grow
  imports B3LowerMacros
begin

text \<open>
  How a lowering adds to a procedure: values under fresh indices and blocks at the end of the heap.
  Whatever is added is well-typed and needs no lowering itself, and a solution of the old values
  extends to the new ones.
\<close>

definition isLowered :: "Value \<Rightarrow> bool" where
  "isLowered v \<longleftrightarrow> m_opcode v \<notin> {ChillDiv, Switch}"

text \<open>For stores: what is there stays, and a solution extends.\<close>

definition storeGrows :: "store \<Rightarrow> store \<Rightarrow> bool" where
  "storeGrows s s' \<longleftrightarrow>
     wtStore s' \<and> s \<subseteq>\<^sub>m s' \<and>
     (\<forall>env. solution s env \<longrightarrow> (\<exists>env'. solution s' env' \<and> (\<forall>i \<in> dom s. env' i = env i)))"

lemma storeGrows_refl: "wtStore s \<Longrightarrow> storeGrows s s"
  by (auto simp: storeGrows_def)

lemma storeGrows_trans:
  assumes ab: "storeGrows a b" and bc: "storeGrows b c"
  shows "storeGrows a c"
  unfolding storeGrows_def
proof (intro conjI allI impI)
  show "wtStore c" using bc by (simp add: storeGrows_def)
  have le: "a \<subseteq>\<^sub>m b" "b \<subseteq>\<^sub>m c" using ab bc by (simp_all add: storeGrows_def)
  then show "a \<subseteq>\<^sub>m c" by (rule map_le_trans)
  fix env assume "solution a env"
  then obtain env1 where 1: "solution b env1" "\<forall>i \<in> dom a. env1 i = env i" using ab by (auto simp: storeGrows_def)
  then obtain env2 where 2: "solution c env2" "\<forall>i \<in> dom b. env2 i = env1 i" using bc by (auto simp: storeGrows_def)
  then have "\<forall>i \<in> dom a. env2 i = env i" using 1(2) 2(2) map_le_implies_dom_le [OF le(1)] by (metis subsetD)
  then show "\<exists>env'. solution c env' \<and> (\<forall>i \<in> dom a. env' i = env i)" using 2(1) by blast
qed

lemma wt_children: "wtValue s v \<Longrightarrow> c \<in> set (m_children v) \<Longrightarrow> s c \<noteq> None"
  by (auto simp: wtValue_def validateChildren_def split: option.splits)

lemma solution_extends_with:
  assumes wt: "wtStore s" "wtValue s v" and i: "s i = None" and sol: "solution s env"
    and x: "typeOf x = m_type v" "allows (evalValue env v) x"
  shows "solution (s(i \<mapsto> v)) (env(i := x))"
  unfolding solution_def
proof (intro allI impI)
  fix j w assume jw: "(s(i \<mapsto> v)) j = Some w"
  have same: "evalValue (env(i := x)) w = evalValue env w" if "wtValue s w" for w
    by (rule evalValue_cong) (use wt_children [OF that, of i] i in auto)
  show "solves (env(i := x)) j w"
  proof (cases "j = i")
    case True
    then show ?thesis using jw x same [OF wt(2)] by (simp add: solves_def)
  next
    case False
    then have "s j = Some w" using jw by simp
    then show ?thesis using solutionD [OF sol] same [OF wtStoreD [OF wt(1)]] False by (auto simp: solves_def)
  qed
qed

lemma storeGrows_add:
  assumes wt: "wtStore s" "wtValue s v" and i: "s i = None"
  shows "storeGrows s (s(i \<mapsto> v))"
  unfolding storeGrows_def
proof (intro conjI allI impI)
  show wt': "wtStore (s(i \<mapsto> v))" by (rule wtStore_add [OF wt(1) i wt(2)])
  show "s \<subseteq>\<^sub>m s(i \<mapsto> v)" using i by (auto simp: map_le_def)
  fix env assume sol: "solution s env"
  have "inhabited (evalValue env v) (m_type v)"
  proof (rule eval_inhabited_local [OF wt', of i])
    show "typeOf (env c) = m_type cv" if "c \<in> set (m_children v)" "(s(i \<mapsto> v)) c = Some cv" for c cv
      using that wt_children [OF wt(2) that(1)] i solutionD [OF sol, of c cv] by (auto simp: solves_def split: if_splits)
  qed simp
  then obtain x where x: "typeOf x = m_type v" "allows (evalValue env v) x" by (auto simp: inhabited_def)
  show "\<exists>env'. solution (s(i \<mapsto> v)) env' \<and> (\<forall>j \<in> dom s. env' j = env j)"
    using solution_extends_with [OF wt i sol x] i by (intro exI [of _ "env(i := x)"]) auto
qed

text \<open>For procedures.\<close>

definition grows :: "Procedure \<Rightarrow> Procedure \<Rightarrow> bool" where
  "grows p p' \<longleftrightarrow>
     procInv p' \<and> storeGrows (valuesOf p) (valuesOf p') \<and> m_blocks p' = m_blocks p \<and>
     (\<forall>i v. valuesOf p i = None \<longrightarrow> valuesOf p' i = Some v \<longrightarrow> isLowered v)"

lemma growsD:
  assumes "grows p p'"
  shows "procInv p'" "wtStore (valuesOf p')" "valuesOf p \<subseteq>\<^sub>m valuesOf p'" "m_blocks p' = m_blocks p"
    "valuesOf p i = None \<Longrightarrow> valuesOf p' i = Some v \<Longrightarrow> isLowered v"
    "solution (valuesOf p) env \<Longrightarrow> \<exists>env'. solution (valuesOf p') env' \<and> (\<forall>i \<in> dom (valuesOf p). env' i = env i)"
    "valuesOf p i = Some v \<Longrightarrow> valuesOf p' i = Some v" "storeGrows (valuesOf p) (valuesOf p')"
proof -
  show "valuesOf p i = Some v \<Longrightarrow> valuesOf p' i = Some v"
    using assms by (auto simp: grows_def storeGrows_def map_le_def) (metis domI)
qed (use assms in \<open>auto simp: grows_def storeGrows_def\<close>)

lemma grows_refl: "procInv p \<Longrightarrow> wtStore (valuesOf p) \<Longrightarrow> grows p p"
  by (simp add: grows_def storeGrows_refl)

lemma grows_trans [trans]:
  assumes ab: "grows a b" and bc: "grows b c"
  shows "grows a c"
  unfolding grows_def
proof (intro conjI allI impI)
  show "procInv c" by (rule growsD [OF bc])
  show "storeGrows (valuesOf a) (valuesOf c)" by (rule storeGrows_trans [OF growsD(8) [OF ab] growsD(8) [OF bc]])
  show "m_blocks c = m_blocks a" using growsD(4) [OF ab] growsD(4) [OF bc] by simp
  show "isLowered v" if "valuesOf a i = None" "valuesOf c i = Some v" for i v
  proof (cases "valuesOf b i")
    case (Some w)
    then show ?thesis using growsD(5) [OF ab that(1) Some] growsD(7) [OF bc Some] that(2) by simp
  qed (rule growsD(5) [OF bc _ that(2)])
qed

text \<open>Only the store and the order of the blocks matter.\<close>

lemma grows_same:
  assumes "grows p p'" "valuesOf q = valuesOf p'" "procInv q = procInv p'" "m_blocks q = m_blocks p'"
  shows "grows p q"
  using assms by (simp add: grows_def)

lemma grows_heap:
  assumes "procInv p" "wtStore (valuesOf p)" "valuesOf q = valuesOf p" "procInv q = procInv p" "m_blocks q = m_blocks p"
  shows "grows p q"
  using grows_same [OF grows_refl] assms by blast

lemma grows_add:
  assumes "procInv p" "wtStore (valuesOf p)" "wtValue (valuesOf p) v" "isLowered v" "add v p = (i, p')"
  shows "grows p p'"
proof -
  note f = add_fresh [OF assms(1,5)]
  have "storeGrows (valuesOf p) (valuesOf p')" unfolding f(2) by (rule storeGrows_add [OF assms(2,3) f(1)])
  then show ?thesis using f(3) add_blocks [OF assms(5)] assms(4) by (simp add: grows_def f(2))
qed

subsection \<open>Appending to a block\<close>

definition appends :: "block_ptr \<Rightarrow> value_ptr list \<Rightarrow> Procedure \<Rightarrow> Procedure \<Rightarrow> bool" where
  "appends b is p p' \<longleftrightarrow>
     (\<forall>c. block p' c = (if c = b then map_option (\<lambda>bb. bb\<lparr>bb_values := bb_values bb @ is\<rparr>) (block p b) else block p c)) \<and>
     length (m_heap p') = length (m_heap p)"

lemma appends_trans: "appends b is p q \<Longrightarrow> appends b js q r \<Longrightarrow> appends b (is @ js) p r"
  by (auto simp: appends_def option.map_comp comp_def)

lemma appends_values:
  "appends b is p p' \<Longrightarrow> block p b \<noteq> None \<Longrightarrow> valuesIn p' c = (if c = b then valuesIn p b @ is else valuesIn p c)"
  by (auto simp: appends_def valuesIn_def)

lemma appends_block: "appends b is p p' \<Longrightarrow> block p' c = None \<longleftrightarrow> block p c = None"
  by (auto simp: appends_def)

lemma length_updateBlock [simp]: "length (m_heap (updateBlock b f p)) = length (m_heap p)"
  by (simp add: updateBlock_def setBlock_def split: option.splits)

lemma appendNew_grows:
  assumes "procInv p" "wtStore (valuesOf p)" "wtValue (valuesOf p) v" "isLowered v" "appendNew b v p = (i, p')"
  shows "grows p p'" "valuesOf p i = None" "valuesOf p' = (valuesOf p)(i \<mapsto> v)" "appends b [i] p p'"
proof -
  obtain q where q: "add v p = (i, q)" "p' = appendValue b i q"
    using assms(5) by (auto simp: appendNew_def split: prod.splits)
  note f = add_fresh [OF assms(1) q(1)] add_blocks [OF q(1)]
  show "grows p p'" by (rule grows_same [OF grows_add [OF assms(1-4) q(1)]]) (simp_all add: q(2) appendValue_def)
  show "valuesOf p i = None" "valuesOf p' = (valuesOf p)(i \<mapsto> v)" using f by (simp_all add: q(2) appendValue_def)
  have "block q c = block p c" for c using f(4) by (simp add: block_def)
  then show "appends b [i] p p'" using f(4) by (simp add: appends_def q(2) appendValue_def block_updateBlock)
qed

text \<open>A block ends in a terminal.\<close>

definition endsInTerminal :: "Procedure \<Rightarrow> block_ptr \<Rightarrow> bool" where
  "endsInTerminal p b \<longleftrightarrow> terminalOf p b \<noteq> None"

lemma endsInTerminal_iff:
  "endsInTerminal p b \<longleftrightarrow> valuesIn p b \<noteq> [] \<and> (\<exists>v. valuesOf p (last (valuesIn p b)) = Some v \<and> acceptsControl (m_opcode v))"
  by (auto simp: endsInTerminal_def terminalOf_def lastValue_def split: if_splits option.splits bind_splits)

text \<open>Every value is in at most one block, once, and it is live.\<close>

definition placedOnce :: "Procedure \<Rightarrow> bool" where
  "placedOnce p \<longleftrightarrow>
     (\<forall>b. distinct (valuesIn p b) \<and> set (valuesIn p b) \<subseteq> dom (valuesOf p)) \<and>
     (\<forall>b c. b \<noteq> c \<longrightarrow> set (valuesIn p b) \<inter> set (valuesIn p c) = {})"

subsection \<open>Building\<close>

text \<open>
  What a build that starts in a block does: it adds blocks at the end of the heap, each of which is
  handed to the block insertion set once, and touches no other block.
\<close>

definition added :: "Procedure \<Rightarrow> Procedure \<Rightarrow> value_ptr set" where
  "added p p' = dom (valuesOf p') - dom (valuesOf p)"

definition builds :: "block_ptr \<Rightarrow> Procedure \<Rightarrow> Procedure \<Rightarrow> bool" where
  "builds b p p' \<longleftrightarrow>
     grows p p' \<and> length (m_heap p) \<le> length (m_heap p') \<and>
     (\<forall>c < length (m_heap p). c \<noteq> b \<longrightarrow> block p' c = block p c) \<and>
     (\<forall>c. set (valuesIn p' c) \<subseteq> set (valuesIn p c) \<union> added p p') \<and>
     (\<forall>c < length (m_heap p). map_option bb_index (block p' c) = map_option bb_index (block p c)) \<and>
     (\<forall>c \<ge> length (m_heap p). c < length (m_heap p') \<longrightarrow> block p' c \<noteq> None) \<and>
     (\<forall>c. predsOf p' c = predsOf p c) \<and> (placedOnce p \<longrightarrow> placedOnce p')"

lemma buildsD:
  assumes "builds b p p'"
  shows "grows p p'" "length (m_heap p) \<le> length (m_heap p')"
    "c < length (m_heap p) \<Longrightarrow> c \<noteq> b \<Longrightarrow> block p' c = block p c"
    "set (valuesIn p' c) \<subseteq> set (valuesIn p c) \<union> added p p'"
    "c < length (m_heap p) \<Longrightarrow> map_option bb_index (block p' c) = map_option bb_index (block p c)"
    "length (m_heap p) \<le> c \<Longrightarrow> c < length (m_heap p') \<Longrightarrow> block p' c \<noteq> None"
    "predsOf p' c = predsOf p c" "placedOnce p \<Longrightarrow> placedOnce p'"
  using assms by (simp_all add: builds_def)

lemma block_bound: "block p b \<noteq> None \<Longrightarrow> b < length (m_heap p)"
  by (auto simp: block_def at_def split: if_splits)

lemma valuesIn_unallocated: "length (m_heap p) \<le> b \<Longrightarrow> valuesIn p b = []"
  using block_bound [of p b] by (cases "block p b") (auto simp: valuesIn_def)

lemma builds_values: "builds b p p' \<Longrightarrow> c < length (m_heap p) \<Longrightarrow> c \<noteq> b \<Longrightarrow> valuesIn p' c = valuesIn p c"
  by (simp add: valuesIn_def buildsD(3))

lemma added_trans:
  assumes "grows a b" "grows b c"
  shows "added a c = added a b \<union> added b c"
  using map_le_implies_dom_le [OF growsD(3) [OF assms(1)]] map_le_implies_dom_le [OF growsD(3) [OF assms(2)]]
  by (auto simp: added_def)

lemma builds_trans:
  assumes ab: "builds x a b" and bc: "builds y b c" and y: "y = x \<or> length (m_heap a) \<le> y"
  shows "builds x a c"
proof -
  have len: "length (m_heap a) \<le> length (m_heap b)" "length (m_heap b) \<le> length (m_heap c)"
    by (rule buildsD [OF ab] buildsD [OF bc])+
  have "block c d = block a d" if "d < length (m_heap a)" "d \<noteq> x" for d
    using buildsD(3) [OF ab that] buildsD(3) [OF bc, of d] that y len by auto
  moreover have "map_option bb_index (block c d) = map_option bb_index (block a d)" if "d < length (m_heap a)" for d
    using buildsD(5) [OF ab that] buildsD(5) [OF bc, of d] that len by simp
  moreover have "block c d \<noteq> None" if "length (m_heap a) \<le> d" "d < length (m_heap c)" for d
  proof (cases "d < length (m_heap b)")
    case True
    then show ?thesis using buildsD(6) [OF ab that(1)] buildsD(5) [OF bc, of d] by auto
  qed (use buildsD(6) [OF bc _ that(2)] in simp)
  moreover have "set (valuesIn c d) \<subseteq> set (valuesIn a d) \<union> added a c" for d
    using buildsD(4) [OF ab, of d] buildsD(4) [OF bc, of d] added_trans [OF buildsD(1) [OF ab] buildsD(1) [OF bc]] by blast
  ultimately show ?thesis
    using len grows_trans [OF buildsD(1) [OF ab] buildsD(1) [OF bc]] buildsD(7,8) [OF ab] buildsD(7,8) [OF bc] by (simp add: builds_def)
qed

lemma builds_appends:
  assumes g: "grows p p'" and a: "appends b is p p'" and i: "set is \<subseteq> added p p'" "distinct is"
  shows "builds b p p'"
proof -
  have "predsOf p' c = predsOf p c" for c using a by (auto simp: appends_def predsOf_def split: option.splits)
  moreover have "placedOnce p'" if "placedOnce p"
  proof -
    have sub: "dom (valuesOf p) \<subseteq> dom (valuesOf p')" by (rule map_le_implies_dom_le [OF growsD(3) [OF g]])
    have vs: "valuesIn p' c = valuesIn p c \<or> c = b \<and> valuesIn p' c = valuesIn p c @ is" for c
      using a by (cases "block p b") (auto simp: appends_def valuesIn_def)
    have old: "distinct (valuesIn p c)" "set (valuesIn p c) \<subseteq> dom (valuesOf p)"
        "c \<noteq> d \<Longrightarrow> set (valuesIn p c) \<inter> set (valuesIn p d) = {}" for c d
      using that by (simp_all add: placedOnce_def)
    have new: "set is \<subseteq> dom (valuesOf p')" "set is \<inter> set (valuesIn p c) = {}" for c
      using i(1) old(2) [of c] unfolding added_def by blast+
    show ?thesis
      unfolding placedOnce_def
    proof (intro conjI allI impI)
      show "distinct (valuesIn p' c)" for c using vs [of c] new(2) [of c] old(1) [of c] i(2)
        by (elim disjE conjE) (simp, simp add: Int_commute)
      show "set (valuesIn p' c) \<subseteq> dom (valuesOf p')" for c using vs [of c] new(1) old(2) [of c] sub
        by (elim disjE conjE) (simp_all only: set_append Un_subset_iff subset_trans [OF old(2) sub] simp_thms)
      show "set (valuesIn p' c) \<inter> set (valuesIn p' d) = {}" if "c \<noteq> d" for c d
      proof -
        have "set (valuesIn p' x) \<subseteq> set (valuesIn p x) \<union> (if x = b then set is else {})" for x using vs [of x] by auto
        from this [of c] this [of d] show ?thesis using new(2) [of c] new(2) [of d] old(3) [OF that] that
          by (cases "c = b"; cases "d = b"; simp; blast)
      qed
    qed
  qed
  moreover
  have "set (valuesIn p' c) \<subseteq> set (valuesIn p c) \<union> added p p'" for c
    using a i by (cases "block p b") (auto simp: appends_def valuesIn_def split: option.splits if_splits)
  moreover have "length (m_heap p') = length (m_heap p)" "c \<noteq> b \<Longrightarrow> block p' c = block p c"
      "map_option bb_index (block p' c) = map_option bb_index (block p c)" for c
    using a by (simp_all add: appends_def option.map_comp comp_def)
  ultimately show ?thesis unfolding builds_def using g by simp
qed

text \<open>The same for the state of the phase.\<close>

definition built :: "block_ptr \<Rightarrow> LowerMacros \<Rightarrow> LowerMacros \<Rightarrow> bool" where
  "built b lm lm' \<longleftrightarrow>
     builds b (lm_proc lm) (lm_proc lm') \<and>
     (\<exists>ins. lm' = lm\<lparr>lm_proc := lm_proc lm', lm_blockInsertions := lm_blockInsertions lm @ ins\<rparr> \<and>
        map snd ins = [length (m_heap (lm_proc lm))..<length (m_heap (lm_proc lm'))] \<and>
        (\<forall>i \<in> set (map fst ins). map_option bb_index (block (lm_proc lm) (lm_block lm)) = Some (i - 1)))"

lemma builtD:
  assumes "built b lm lm'"
  shows "builds b (lm_proc lm) (lm_proc lm')" "lm_block lm' = lm_block lm"
proof -
  show "builds b (lm_proc lm) (lm_proc lm')" using assms by (simp add: built_def)
  obtain ins where "lm' = lm\<lparr>lm_proc := lm_proc lm', lm_blockInsertions := lm_blockInsertions lm @ ins\<rparr>"
    using assms unfolding built_def by blast
  then have "lm_block lm' = lm_block (lm\<lparr>lm_proc := lm_proc lm', lm_blockInsertions := lm_blockInsertions lm @ ins\<rparr>)" by (rule arg_cong)
  then show "lm_block lm' = lm_block lm" by simp
qed

lemma upt_split: "i \<le> j \<Longrightarrow> j \<le> k \<Longrightarrow> [i..<k] = [i..<j] @ [j..<k]"
  by (metis le_add_diff_inverse upt_add_eq_append)

lemma built_trans:
  assumes ab: "built x a b" and bc: "built y b c" and y: "y = x \<or> length (m_heap (lm_proc a)) \<le> y"
    and blk: "block (lm_proc a) (lm_block a) \<noteq> None"
  shows "built x a c"
proof -
  note B = builds_trans [OF builtD(1) [OF ab] builtD(1) [OF bc] y]
  obtain i1 where i1: "b = a\<lparr>lm_proc := lm_proc b, lm_blockInsertions := lm_blockInsertions a @ i1\<rparr>"
      "map snd i1 = [length (m_heap (lm_proc a))..<length (m_heap (lm_proc b))]"
      "\<forall>i \<in> set (map fst i1). map_option bb_index (block (lm_proc a) (lm_block a)) = Some (i - 1)"
    using ab unfolding built_def by blast
  obtain i2 where i2: "c = b\<lparr>lm_proc := lm_proc c, lm_blockInsertions := lm_blockInsertions b @ i2\<rparr>"
      "map snd i2 = [length (m_heap (lm_proc b))..<length (m_heap (lm_proc c))]"
      "\<forall>i \<in> set (map fst i2). map_option bb_index (block (lm_proc b) (lm_block b)) = Some (i - 1)"
    using bc unfolding built_def by blast
  have "lm_blockInsertions b = lm_blockInsertions a @ i1" by (subst i1(1)) simp
  then have "b\<lparr>lm_proc := r, lm_blockInsertions := lm_blockInsertions b @ i2\<rparr>
      = a\<lparr>lm_proc := r, lm_blockInsertions := lm_blockInsertions a @ (i1 @ i2)\<rparr>" for r
    by (subst i1(1)) simp
  then have "c = a\<lparr>lm_proc := lm_proc c, lm_blockInsertions := lm_blockInsertions a @ (i1 @ i2)\<rparr>"
    using i2(1) by metis
  moreover have "map snd (i1 @ i2) = [length (m_heap (lm_proc a))..<length (m_heap (lm_proc c))]"
    using i1(2) i2(2) buildsD(2) [OF builtD(1) [OF ab]] buildsD(2) [OF builtD(1) [OF bc]]
    by (simp add: upt_split [of "length (m_heap (lm_proc a))" "length (m_heap (lm_proc b))" "length (m_heap (lm_proc c))"])
  moreover have "map_option bb_index (block (lm_proc b) (lm_block b)) = map_option bb_index (block (lm_proc a) (lm_block a))"
    using builtD(2) [OF ab] buildsD(5) [OF builtD(1) [OF ab] block_bound [OF blk]] by simp
  ultimately show ?thesis using B i1(3) i2(3) unfolding built_def by (intro conjI exI [of _ "i1 @ i2"]) auto
qed

lemma insertBlock_builds:
  assumes inv: "procInv p" "wtStore (valuesOf p)" and i: "insertBlock n frequency (p, bs) = (r, p', bs')"
  shows "r = length (m_heap p)" "builds b p p'" "valuesIn p' r = []" "length (m_heap p') = Suc (length (m_heap p))"
    "valuesOf p' = valuesOf p" "bs' = bs @ [(n, r)]" "block p' c = (if c = r then Some (mkBasicBlock UINT_MAX frequency) else block p c)"
proof -
  show r: "r = length (m_heap p)" and len: "length (m_heap p') = Suc (length (m_heap p))"
    and "bs' = bs @ [(n, r)]" and vals: "valuesOf p' = valuesOf p"
    using i by (auto simp: insertBlock_def Let_def)
  show blk: "block p' c = (if c = r then Some (mkBasicBlock UINT_MAX frequency) else block p c)" for c
    using i r by (auto simp: insertBlock_def Let_def block_def at_def nth_append)
  then show vr: "valuesIn p' r = []" by (simp add: valuesIn_def mkBasicBlock_def)
  have "grows p p'" by (rule grows_heap [OF inv vals]) (use i in \<open>auto simp: insertBlock_def Let_def\<close>)
  moreover have "set (valuesIn p' c) \<subseteq> set (valuesIn p c)" for c using blk [of c] vr by (cases "c = r") (simp_all add: valuesIn_def)
  moreover have "predsOf p' c = predsOf p c" for c using blk [of c] block_bound [of p c] r by (auto simp: predsOf_def mkBasicBlock_def split: option.splits)
  moreover have "valuesIn p' c = valuesIn p c" for c
    using blk [of c] vr valuesIn_unallocated [of p r] r by (cases "c = r") (simp_all add: valuesIn_def)
  then have "placedOnce p \<Longrightarrow> placedOnce p'" by (simp add: placedOnce_def vals)
  moreover have "block p' c = block p c" if "c < length (m_heap p)" for c using blk [of c] that r by simp
  ultimately show "builds b p p'" unfolding builds_def using blk r len by (auto simp: added_def vals less_Suc_eq)
qed

lemma lmInsertAfter_spec:
  assumes inv: "procInv (lm_proc lm)" "wtStore (valuesOf (lm_proc lm))" and blk: "block (lm_proc lm) (lm_block lm) \<noteq> None"
  obtains lm' where "lmInsertAfter (lm_block lm) lm = Some (length (m_heap (lm_proc lm)), lm')" "\<And>b. built b lm lm'"
    "valuesIn (lm_proc lm') (length (m_heap (lm_proc lm))) = []" "length (m_heap (lm_proc lm')) = Suc (length (m_heap (lm_proc lm)))"
    "valuesOf (lm_proc lm') = valuesOf (lm_proc lm)"
proof -
  let ?p = "lm_proc lm"
  obtain bb where bb: "block ?p (lm_block lm) = Some bb" using blk by blast
  obtain r p' bs' where i: "insertBlock (Suc (bb_index bb)) (bb_frequency bb) (?p, lm_blockInsertions lm) = (r, p', bs')"
    by (metis prod_cases3)
  note I = insertBlock_builds [OF inv i]
  have e: "lmInsertAfter (lm_block lm) lm = Some (r, lm\<lparr>lm_proc := p', lm_blockInsertions := bs'\<rparr>)"
    by (simp add: lmInsertAfter_def insertAfter_def bb i)
  have "built b lm (lm\<lparr>lm_proc := p', lm_blockInsertions := bs'\<rparr>)" for b
    unfolding built_def
    by (intro conjI exI [of _ "[(Suc (bb_index bb), r)]"]) (use I(1,4,6) I(2) [of b] bb in \<open>simp_all\<close>)
  then show thesis using that [of "lm\<lparr>lm_proc := p', lm_blockInsertions := bs'\<rparr>"] e I(1,3,4,5) by simp
qed

subsection \<open>Updating the predecessors after a block\<close>

text \<open>
  \<open>updatePredecessorsAfter\<close> on lists that are not empty: it ends, it only adds true predecessors, and
  a block that it discovers becomes known to its successors.
\<close>

context finite_graph
begin

definition known :: "'n predMap \<Rightarrow> 'n \<Rightarrow> bool" where
  "known P a \<longleftrightarrow> (\<forall>b \<in> set (succs a). a \<in> set (P b))"

definition updated :: "'n predMap \<Rightarrow> 'n predMap \<Rightarrow> bool" where
  "updated P P' \<longleftrightarrow>
     (\<forall>b. set (P b) \<subseteq> set (P' b) \<and> set (P' b) \<subseteq> set (P b) \<union> {a. b \<in> set (succs a)} \<and> (distinct (P b) \<longrightarrow> distinct (P' b)))"

lemma updated_trans: "updated P Q \<Longrightarrow> updated Q R \<Longrightarrow> updated P R"
  unfolding updated_def by blast

lemma update_step:
  assumes a: "a \<in> nodes" and new: "set new = {s \<in> set (succs a). a \<notin> set (P s)}" "distinct new"
    and P': "P' = (\<lambda>b. if b \<in> set new then P b @ [a] else P b)"
  shows "updated P P'" "known P' a" "P' b = P b \<or> b \<in> set new"
    "2 * card (missing P') + length (wl @ new) < 2 * card (missing P) + length (wl @ [a])"
proof -
  show "updated P P'" using new(1) by (auto simp: updated_def P')
  show "known P' a" using new(1) by (auto simp: known_def P')
  show "P' b = P b \<or> b \<in> set new" by (simp add: P')
  have "missing P = missing P' \<union> (\<lambda>b. (a, b)) ` set new" "missing P' \<inter> (\<lambda>b. (a, b)) ` set new = {}"
    using a new(1) by (auto simp: missing_def P' split: if_splits)
  then have "card (missing P) = card (missing P') + length new"
    using finite_missing new(2) by (simp add: card_Un_disjoint card_image inj_on_def distinct_card)
  then show "2 * card (missing P') + length (wl @ new) < 2 * card (missing P) + length (wl @ [a])" by simp
qed

lemma updatePredecessorsLoop_total:
  assumes "set wl \<subseteq> nodes"
  shows "\<exists>P'. updatePredecessorsLoop succs wl P = Some P' \<and> updated P P' \<and> (\<forall>a \<in> set wl. known P' a) \<and>
    (\<forall>a. P' a = P a \<or> known P' a)"
  using assms
proof (induction "2 * card (missing P) + length wl" arbitrary: wl P rule: less_induct)
  case less
  show ?case
  proof (cases "wl = []")
    case True
    then show ?thesis by (simp add: updatePredecessorsLoop.simps [of succs "[]"] updated_def)
  next
    case False
    define a where "a = last wl"
    have wl: "wl = butlast wl @ [a]" using False by (simp add: a_def)
    then have a: "a \<in> nodes" using less.prems by (metis in_set_conv_decomp subsetD)
    obtain new where new: "fold (visitSuccessor a) (succs a) (butlast wl, P) = (butlast wl @ new, \<lambda>b. if b \<in> set new then P b @ [a] else P b)"
        "set new = {s \<in> set (succs a). a \<notin> set (P s)}" "distinct new"
      using visitSuccessors_spec [of a "succs a" "butlast wl" P] by blast
    define Q where "Q = (\<lambda>b. if b \<in> set new then P b @ [a] else P b)"
    note st = update_step [OF a new(2,3) Q_def]
    have "set (butlast wl @ new) \<subseteq> nodes" using less.prems new(2) succs_closed [OF a] by (auto dest: in_set_butlastD)
    with less.hyps [of Q "butlast wl @ new"] st(4) [of "butlast wl"] wl obtain P' where
      P': "updatePredecessorsLoop succs (butlast wl @ new) Q = Some P'" "updated Q P'" "\<forall>a \<in> set (butlast wl @ new). known P' a"
        "\<forall>a. P' a = Q a \<or> known P' a" by auto
    have mono: "known P' c" if "known Q c" for c using that P'(2) by (auto simp: known_def updated_def)
    have "updatePredecessorsLoop succs wl P = Some P'"
      using P'(1) new(1) False by (simp add: updatePredecessorsLoop.simps [of succs wl] a_def [symmetric] Q_def)
    moreover have "\<forall>c \<in> set wl. known P' c" using P'(3) mono [OF st(2)] by (subst wl) simp
    moreover have "P' c = P c \<or> known P' c" for c using P'(3) spec [OF P'(4), of c] st(3) [of c] by auto
    ultimately show ?thesis using updated_trans [OF st(1) P'(2)] by blast
  qed
qed

lemma updatePredecessorsAfter_total:
  assumes "root \<in> nodes"
  shows "\<exists>P'. updatePredecessorsAfter succs root P = Some P' \<and> updated P P' \<and> known P' root \<and> (\<forall>a. P' a = P a \<or> known P' a)"
  using updatePredecessorsLoop_total [of "[root]" P] assms by (auto simp: updatePredecessorsAfter_def)

end

text \<open>The blocks on the heap and those that terminals mention.\<close>

definition heapNodes :: "Procedure \<Rightarrow> block_ptr set" where
  "heapNodes p = {..<length (m_heap p)} \<union> fst ` (\<Union>ov \<in> set (m_values p). case ov of Some v \<Rightarrow> set (successors v) | None \<Rightarrow> {})"

lemma valuesOf_mem: "valuesOf p i = Some v \<Longrightarrow> Some v \<in> set (m_values p)"
  by (auto simp: valuesOf_eq split: if_splits) (metis nth_mem)

interpretation hg: finite_graph "successorBlocks p" "heapNodes p" for p
proof
  show "finite (heapNodes p)" by (auto simp: heapNodes_def split: option.splits)
  show "set (successorBlocks p b) \<subseteq> heapNodes p" for b
  proof (cases "lastValue p b")
    case (Some v)
    then have "Some v \<in> set (m_values p)" by (auto simp: lastValue_def split: if_splits intro: valuesOf_mem)
    then show ?thesis using Some by (force simp: successorBlocks_def heapNodes_def)
  qed (simp add: successorBlocks_def)
qed

lemma lmUpdatePredecessorsAfter_total:
  assumes "block (lm_proc lm) b \<noteq> None"
  obtains P where "lmUpdatePredecessorsAfter b lm = Some (lm\<lparr>lm_proc := setPreds P (lm_proc lm)\<rparr>)"
    "hg.updated (lm_proc lm) (predsOf (lm_proc lm)) P" "hg.known (lm_proc lm) P b"
    "\<And>a. P a = predsOf (lm_proc lm) a \<or> hg.known (lm_proc lm) P a"
proof -
  have "b \<in> heapNodes (lm_proc lm)" using assms by (auto simp: heapNodes_def block_def at_def split: if_splits)
  from hg.updatePredecessorsAfter_total [OF this, of "predsOf (lm_proc lm)"] show thesis
    using that by (auto simp: lmUpdatePredecessorsAfter_def)
qed

end
