(* ===== verification/B3LowerSwitch.thy ===== *)
theory B3LowerSwitch
  imports B3Grow
begin

text \<open>
  The correctness of the binary search that \<open>lowerSwitch\<close> builds: executing it from the block of the
  switch reaches the block that the switch would have gone to.
\<close>

subsection \<open>One test\<close>

lemma appendIntConstant_new:
  "appendIntConstant b org type c p = map_option (\<lambda>v. appendNew b v p) (intConstant org type c)"
  by (cases "intConstant org type c") (simp_all add: appendIntConstant_def addIntConstant_def appendNew_def split: prod.splits)

lemma intConstant_int:
  assumes "isInt type"
  obtains kv where "intConstant org type c = Some kv" "m_type kv = type" "wtValue s kv" "isLowered kv"
proof (cases type)
  case Int32
  then show thesis
    by (intro that [of "Const32Value org (ucast c)"]) (simp_all add: intConstant_def mk_defs wtValue_def payloadOK_def
      validateChildren_def validateTypes_def numChildren_def isCheckMath_def isLowered_def)
next
  case Int64
  then show thesis
    by (intro that [of "Const64Value org c"]) (simp_all add: intConstant_def mk_defs wtValue_def payloadOK_def
      validateChildren_def validateTypes_def numChildren_def isCheckMath_def isLowered_def)
qed (use assms in \<open>simp_all add: isInt_def\<close>)

lemma caseTest_wt:
  assumes "s x = Some xv" "s k = Some kv" "m_type kv = m_type xv" "isInt (m_type xv)" "opcode \<in> {Equal, LessThan}"
  shows "wtValue s (mkValue opcode Int32 org [x, k] NoPayload)"
  using assms by (auto simp: wtValue_def mkValue_def payloadOK_def accepts_defs validateChildren_def validateTypes_def
      validateCompare_def numChildren_def childType_def child_def isCheckMath_def isInt_def)

lemma branch_wt:
  assumes "s t = Some tv" "isInt (m_type tv)"
  shows "wtValue s (BranchValue org t yes no)"
  using assms by (auto simp: wtValue_def mk_defs payloadOK_def accepts_defs validateChildren_def validateTypes_def
      numChildren_def childIsInt_def childType_def child_def isCheckMath_def isInt_def)

lemma jump_wt: "wtValue s (JumpValue org target)"
  by (simp add: wtValue_def mk_defs payloadOK_def accepts_defs validateChildren_def validateTypes_def numChildren_def isCheckMath_def)

definition testBlock ::
    "Procedure \<Rightarrow> block_ptr \<Rightarrow> opcode \<Rightarrow> value_ptr \<Rightarrow> b3type \<Rightarrow> int64 \<Rightarrow> FrequentedBlock \<Rightarrow> FrequentedBlock \<Rightarrow>
     value_ptr list \<Rightarrow> Procedure \<Rightarrow> bool" where
  "testBlock p b opcode x type c yes no is p' \<longleftrightarrow>
     (\<exists>k t j org kv. is = [k, t, j] \<and> distinct [k, t, j] \<and> {k, t, j} \<inter> dom (valuesOf p) = {} \<and> intConstant org type c = Some kv \<and>
        valuesOf p' k = Some kv \<and> valuesOf p' t = Some (mkValue opcode Int32 org [x, k] NoPayload) \<and>
        valuesOf p' j = Some (BranchValue org t yes no))"

lemma lmAppendTest_spec:
  assumes inv: "procInv (lm_proc lm)" "wtStore (valuesOf (lm_proc lm))"
    and x: "valuesOf (lm_proc lm) x = Some xv" "isInt (m_type xv)" and op: "opcode \<in> {Equal, LessThan}"
  obtains p' "is" where "lmAppendTest b opcode org x (m_type xv) c yes no lm = Some (lm\<lparr>lm_proc := p'\<rparr>)"
    "grows (lm_proc lm) p'" "appends b is (lm_proc lm) p'" "testBlock (lm_proc lm) b opcode x (m_type xv) c yes no is p'"
proof -
  let ?p = "lm_proc lm" and ?cmp = "\<lambda>k. mkValue opcode Int32 org [x, k] NoPayload"
  obtain kv where kv: "intConstant org (m_type xv) c = Some kv" "m_type kv = m_type xv" "wtValue (valuesOf ?p) kv" "isLowered kv"
    by (rule intConstant_int [OF x(2)])
  obtain k p1 where 1: "appendNew b kv ?p = (k, p1)" by fastforce
  note g1 = appendNew_grows [OF inv kv(3,4) 1]
  note i1 = growsD(1,2) [OF g1(1)]
  have k: "valuesOf p1 k = Some kv" and x1: "valuesOf p1 x = Some xv" using g1(2,3) x(1) by auto
  have op1: "opValue (valuesOf p1) opcode org [x, k] = Some (?cmp k)"
    using op k x1 by (auto simp: opValue_def typeFor_def)
  obtain t p2 where 2: "appendNew b (?cmp k) p1 = (t, p2)" by fastforce
  have "isLowered (?cmp k)" using op by (auto simp: isLowered_def mkValue_def)
  note g2 = appendNew_grows [OF i1 caseTest_wt [OF x1 k kv(2) x(2) op] this 2]
  note i2 = growsD(1,2) [OF g2(1)]
  have t: "valuesOf p2 t = Some (?cmp k)" using g2(3) by simp
  obtain j p3 where 3: "appendNew b (BranchValue org t yes no) p2 = (j, p3)" by fastforce
  have wt: "wtValue (valuesOf p2) (BranchValue org t yes no)" by (rule branch_wt [of "valuesOf p2" t "?cmp k"]) (simp_all add: t mkValue_def)
  have "isLowered (BranchValue org t yes no)" by (simp add: isLowered_def mk_defs)
  note g3 = appendNew_grows [OF i2 wt this 3]
  show thesis
  proof
    show "lmAppendTest b opcode org x (m_type xv) c yes no lm = Some (lm\<lparr>lm_proc := p3\<rparr>)"
      by (simp add: lmAppendTest_def lmAppendIntConstant_def appendIntConstant_new kv(1) 1 lmAppendOp_def op1 lmAppend_def 2 3)
    show "grows ?p p3" using grows_trans [OF g1(1) grows_trans [OF g2(1) g3(1)]] .
    show "appends b [k, t, j] ?p p3" using appends_trans [OF g1(4) appends_trans [OF g2(4) g3(4)]] by simp
    have "k \<notin> dom (valuesOf ?p)" "t \<notin> dom (valuesOf ?p)" "j \<notin> dom (valuesOf ?p)" "distinct [k, t, j]"
      using g1(2,3) g2(2,3) g3(2) by (auto split: if_splits)
    then show "testBlock ?p b opcode x (m_type xv) c yes no [k, t, j] p3"
      unfolding testBlock_def using kv(1) growsD(7) [OF g2(1) k] growsD(7) [OF g3(1)] t g3(3)
      by (intro exI [of _ k] exI [of _ t] exI [of _ j] exI [of _ org] exI [of _ kv]) simp
  qed
qed

subsection \<open>What a test decides\<close>

definition intOf :: "val \<Rightarrow> int" where
  "intOf x = (case x of V32 a \<Rightarrow> sint a | V64 a \<Rightarrow> sint a | _ \<Rightarrow> 0)"

text \<open>A case value that the type of the switched value can represent.\<close>

definition caseFits :: "b3type \<Rightarrow> int64 \<Rightarrow> bool" where
  "caseFits type c \<longleftrightarrow> (type = Int32 \<longrightarrow> inSigned TYPE(32) (sint c))"

lemma sint_ucast_fits: "inSigned TYPE(32) (sint (c :: int64)) \<Longrightarrow> sint (ucast c :: int32) = sint c"
proof -
  assume "inSigned TYPE(32) (sint c)"
  moreover have "(ucast c :: int32) = scast c" by transfer (simp add: take_bit_signed_take_bit)
  then have "sint (ucast c :: int32) = signed_take_bit 31 (sint c)" by (simp only: scast_eq sint_sbintrunc') simp
  ultimately show ?thesis by (simp add: signed_take_bit_int_eq_self inSigned_def smin_def smax_def)
qed

lemma test_outcome:
  assumes kv: "intConstant org (typeOf x) c = Some kv" and k: "allows (evalValue env kv) k" "typeOf k = typeOf x"
    and ty: "isInt (typeOf x)" "caseFits (typeOf x) c" and op: "opcode \<in> {Equal, LessThan}"
    and t: "allows (evalOp opcode NoPayload [x, k]) r"
  shows "truthy r \<longleftrightarrow> (if opcode = Equal then intOf x = sint c else intOf x < sint c)"
proof (cases x)
  case (V32 a)
  then have k32: "k = V32 (ucast c)" using kv k by (auto simp: intConstant_def mk_defs evalValue_def)
  have c: "sint (ucast c :: int32) = sint c" using ty(2) V32 by (intro sint_ucast_fits) (simp add: caseFits_def)
  then have "a = ucast c \<longleftrightarrow> sint a = sint c" by (metis sint_inject)
  then show ?thesis using t op V32 k32 c by (auto simp: compare_def binary_def rbool_def intOf_def split: if_splits)
next
  case (V64 a)
  then have k64: "k = V64 c" using kv k by (auto simp: intConstant_def mk_defs evalValue_def)
  then show ?thesis using t op V64 by (auto simp: compare_def binary_def rbool_def intOf_def sint_inject split: if_splits)
qed (use ty in simp_all)

definition silent :: "Procedure \<Rightarrow> env \<Rightarrow> value_ptr list \<Rightarrow> bool" where
  "silent q env is \<longleftrightarrow> (\<forall>i \<in> set is. \<exists>v. valuesOf q i = Some v \<and> observe env i v = Silent)"

lemma test_step:
  assumes test: "testBlock p b opcode x (typeOf (env x)) c yes no is p'" and op: "opcode \<in> {Equal, LessThan}"
    and ty: "isInt (typeOf (env x))" "caseFits (typeOf (env x)) c"
    and q: "valuesIn q b = vs @ is" "\<And>i. i \<in> set is \<Longrightarrow> valuesOf q i = valuesOf p' i"
    and sol: "\<And>i. i \<in> set is \<Longrightarrow> solves env i (the (valuesOf q i))"
  shows "stepBlock q (\<lambda>_. env) (b, h) =
      Inl (fst (if if opcode = Equal then intOf (env x) = sint c else intOf (env x) < sint c then yes else no), h @ vs @ butlast is)"
    "silent q env (butlast is)"
proof -
  obtain k t j org kv where "is": "is = [k, t, j]" and kv: "intConstant org (typeOf (env x)) c = Some kv"
    and v': "valuesOf p' k = Some kv" "valuesOf p' t = Some (mkValue opcode Int32 org [x, k] NoPayload)"
      "valuesOf p' j = Some (BranchValue org t yes no)"
    using test unfolding testBlock_def by (elim exE conjE) (rule that)
  have v: "valuesOf q k = Some kv" "valuesOf q t = Some (mkValue opcode Int32 org [x, k] NoPayload)"
      "valuesOf q j = Some (BranchValue org t yes no)"
    using q(2) [of k] q(2) [of t] q(2) [of j] v' "is" by simp_all
  have const: "m_type kv = typeOf (env x)" "observe env k kv = Silent"
    using kv ty(1) by (cases "typeOf (env x)"; simp add: intConstant_def mk_defs observe_def; elim subst; simp)+
  have "truthy (env t) \<longleftrightarrow> (if opcode = Equal then intOf (env x) = sint c else intOf (env x) < sint c)"
  proof (rule test_outcome [OF kv _ _ ty op])
    show "allows (evalValue env kv) (env k)" "typeOf (env k) = typeOf (env x)"
      using sol [of k] v const "is" by (simp_all add: solves_def)
    show "allows (evalOp opcode NoPayload [env x, env k]) (env t)"
      using sol [of t] v "is" by (simp add: solves_def evalValue_def mkValue_def args_def)
  qed
  then show "stepBlock q (\<lambda>_. env) (b, h) =
      Inl (fst (if if opcode = Equal then intOf (env x) = sint c else intOf (env x) < sint c then yes else no), h @ vs @ butlast is)"
    using v by (simp add: stepBlock_def lastValue_def q(1) "is" observe_def mk_defs args_def successors_def butlast_append)
  show "silent q env (butlast is)" using v const(2) op by (auto simp: silent_def "is" observe_def mkValue_def)
qed

subsection \<open>What a build decides\<close>

text \<open>A later procedure that leaves the values and blocks of a build alone.\<close>

definition keeps :: "block_ptr \<Rightarrow> Procedure \<Rightarrow> Procedure \<Rightarrow> Procedure \<Rightarrow> bool" where
  "keeps b p p' q \<longleftrightarrow>
     (\<forall>c. c = b \<or> length (m_heap p) \<le> c \<and> c < length (m_heap p') \<longrightarrow> valuesIn q c = valuesIn p' c) \<and>
     (\<forall>i \<in> added p p'. valuesOf q i = valuesOf p' i)"

lemma keeps_sub:
  assumes q: "keeps b p p' q" and c: "c = b \<or> length (m_heap p) \<le> c" "c < length (m_heap p2)"
    and g: "grows p p1" "grows p1 p2" "grows p2 p'"
    and len: "length (m_heap p) \<le> length (m_heap p1)" "length (m_heap p2) \<le> length (m_heap p')"
    and same: "\<And>d. d = c \<or> length (m_heap p1) \<le> d \<and> d < length (m_heap p2) \<Longrightarrow> valuesIn p' d = valuesIn p2 d"
  shows "keeps c p1 p2 q"
  unfolding keeps_def
proof (intro conjI allI impI ballI)
  fix d assume d: "d = c \<or> length (m_heap p1) \<le> d \<and> d < length (m_heap p2)"
  then have "d = b \<or> length (m_heap p) \<le> d \<and> d < length (m_heap p')" using c len by auto
  then show "valuesIn q d = valuesIn p2 d" using q same [OF d] by (auto simp: keeps_def)
next
  fix i assume i: "i \<in> added p1 p2"
  then have "i \<in> added p p'" using added_trans [OF g(1) grows_trans [OF g(2,3)]] added_trans [OF g(2,3)] by auto
  then have "valuesOf q i = valuesOf p' i" using q by (simp add: keeps_def)
  moreover obtain v where "valuesOf p2 i = Some v" using i by (auto simp: added_def)
  ultimately show "valuesOf q i = valuesOf p2 i" using growsD(7) [OF g(3)] by metis
qed

definition runsTo :: "Procedure \<Rightarrow> env \<Rightarrow> block_ptr \<times> value_ptr list \<Rightarrow> block_ptr \<times> value_ptr list \<Rightarrow> bool" where
  "runsTo q env = (\<lambda>x y. stepBlock q (\<lambda>_. env) x = Inl y)\<^sup>*\<^sup>*"

lemma runsTo_step: "stepBlock q (\<lambda>_. env) x = Inl y \<Longrightarrow> runsTo q env y z \<Longrightarrow> runsTo q env x z"
  by (simp add: runsTo_def converse_rtranclp_into_rtranclp)

lemma runsTo_refl [simp]: "runsTo q env x x"
  by (simp add: runsTo_def)

definition selects ::
    "block_ptr \<Rightarrow> value_ptr \<Rightarrow> b3type \<Rightarrow> (int \<Rightarrow> bool) \<Rightarrow> (int \<Rightarrow> block_ptr) \<Rightarrow> Procedure \<Rightarrow> Procedure \<Rightarrow> bool" where
  "selects b x type P f p p' \<longleftrightarrow>
     (\<forall>q env h. keeps b p p' q \<longrightarrow> (\<forall>i \<in> added p p'. solves env i (the (valuesOf q i))) \<longrightarrow>
        typeOf (env x) = type \<longrightarrow> P (intOf (env x)) \<longrightarrow>
        (\<exists>is. runsTo q env (b, h) (f (intOf (env x)), h @ valuesIn p b @ is) \<and> silent q env is))"

lemma selectsD:
  assumes "selects b x type P f p p'" "keeps b p p' q" "\<forall>i \<in> added p p'. solves env i (the (valuesOf q i))"
    "typeOf (env x) = type" "P (intOf (env x))"
  obtains "is" where "runsTo q env (b, h) (f (intOf (env x)), h @ valuesIn p b @ is)" "silent q env is"
  using assms unfolding selects_def by blast

definition lookupCase :: "int \<Rightarrow> SwitchCase list \<Rightarrow> FrequentedBlock \<Rightarrow> block_ptr" where
  "lookupCase n cs fall = (case find (\<lambda>c. sint (fst c) = n) cs of Some c \<Rightarrow> fst (snd c) | None \<Rightarrow> fst fall)"

lemma lookupCase_simps [simp]:
  "lookupCase n [] fall = fst fall"
  "lookupCase n (c # cs) fall = (if sint (fst c) = n then fst (snd c) else lookupCase n cs fall)"
  by (simp_all add: lookupCase_def)

text \<open>
  A test in a block, followed by the builds in new blocks to which it branches; a branch may also
  leave the build.
\<close>

lemma selects_jump:
  assumes g: "grows p p'" and a: "appends b [j] p p'" and blk: "block p b \<noteq> None"
    and j: "valuesOf p j = None" "valuesOf p' j = Some (JumpValue org target)"
  shows "builds b p p'" "selects b x type P (\<lambda>_. fst target) p p'"
proof -
  have jj: "j \<in> added p p'" using j by (auto simp: added_def)
  then show "builds b p p'" by (intro builds_appends [OF g a]) simp_all
  show "selects b x type P (\<lambda>_. fst target) p p'"
    unfolding selects_def
  proof (intro allI impI)
    fix q env h assume q: "keeps b p p' q"
    have "valuesIn q b = valuesIn p b @ [j]" "valuesOf q j = Some (JumpValue org target)"
      using q jj j(2) appends_values [OF a blk, of b] by (simp_all add: keeps_def)
    then have "stepBlock q (\<lambda>_. env) (b, h) = Inl (fst target, h @ valuesIn p b)"
      by (simp add: stepBlock_def lastValue_def observe_def mk_defs successors_def split: prod.splits)
    then show "\<exists>is. runsTo q env (b, h) (fst target, h @ valuesIn p b @ is) \<and> silent q env is"
      by (intro exI [of _ "[]"]) (simp add: silent_def runsTo_step)
  qed
qed

lemma testBlock_added: "testBlock p b opcode x type c yes no is p' \<Longrightarrow> set is \<subseteq> added p p'"
  by (auto simp: testBlock_def added_def)

lemma testBlock_distinct: "testBlock p b opcode x type c yes no is p' \<Longrightarrow> distinct is"
  by (auto simp: testBlock_def)

text \<open>The blocks of a build end in terminals, and those go to live blocks or to given targets.\<close>

definition emits :: "block_ptr \<Rightarrow> block_ptr set \<Rightarrow> Procedure \<Rightarrow> Procedure \<Rightarrow> bool" where
  "emits b T p p' \<longleftrightarrow>
     (\<forall>c. c = b \<or> length (m_heap p) \<le> c \<and> c < length (m_heap p') \<longrightarrow>
        endsInTerminal p' c \<and> set (successorBlocks p' c) \<subseteq> T \<union> {d. block p' d \<noteq> None})"

lemma emits_jump:
  assumes a: "appends b [j] p p'" and blk: "block p b \<noteq> None" and j: "valuesOf p' j = Some (JumpValue org target)" and T: "fst target \<in> T"
  shows "emits b T p p'"
proof -
  have v: "valuesIn p' b = valuesIn p b @ [j]" and len: "length (m_heap p') = length (m_heap p)"
    using appends_values [OF a blk, of b] a by (simp_all add: appends_def)
  have "endsInTerminal p' b" "set (successorBlocks p' b) \<subseteq> T"
    using v j T by (auto simp: endsInTerminal_iff successorBlocks_def lastValue_def successors_def mk_defs acceptsControl_def)
  then show ?thesis using len by (auto simp: emits_def)
qed

lemma test_ends:
  assumes a: "appends b is p p'" and blk: "block p b \<noteq> None" and t: "testBlock p b opcode x type c yes no is p'"
  shows "endsInTerminal p' b" "successorBlocks p' b = [fst yes, fst no]"
proof -
  obtain k t j org where "is": "is = [k, t, j]" and j: "valuesOf p' j = Some (BranchValue org t yes no)"
    using t unfolding testBlock_def by blast
  have v: "valuesIn p' b = valuesIn p b @ [k, t, j]" using appends_values [OF a blk, of b] "is" by simp
  show "endsInTerminal p' b" "successorBlocks p' b = [fst yes, fst no]"
    using v j by (simp_all add: endsInTerminal_iff successorBlocks_def lastValue_def successors_def mk_defs acceptsControl_def)
qed

lemma builds_ends:
  assumes "builds y p p'" "endsInTerminal p c" "c < length (m_heap p)" "c \<noteq> y"
  shows "endsInTerminal p' c" "successorBlocks p' c = successorBlocks p c"
proof -
  have v: "valuesIn p' c = valuesIn p c" by (rule builds_values [OF assms(1,3,4)])
  obtain w where w: "valuesIn p c \<noteq> []" "valuesOf p (last (valuesIn p c)) = Some w" "acceptsControl (m_opcode w)"
    using assms(2) by (auto simp: endsInTerminal_iff)
  then have "valuesOf p' (last (valuesIn p c)) = Some w" using growsD(7) [OF buildsD(1) [OF assms(1)]] by blast
  then show "endsInTerminal p' c" "successorBlocks p' c = successorBlocks p c"
    using v w by (simp_all add: endsInTerminal_iff successorBlocks_def lastValue_def)
qed

lemma builds_live: "builds y p p' \<Longrightarrow> block p d \<noteq> None \<Longrightarrow> block p' d \<noteq> None"
  using buildsD(5) [OF _ block_bound] by (metis option.map_disc_iff)

lemma emits_later:
  assumes e: "emits x T p p'" and b: "builds y p' q" and c: "c = x \<or> length (m_heap p) \<le> c" "c < length (m_heap p')" "c \<noteq> y"
  shows "endsInTerminal q c \<and> set (successorBlocks q c) \<subseteq> T \<union> {d. block q d \<noteq> None}"
proof -
  have "endsInTerminal p' c" "set (successorBlocks p' c) \<subseteq> T \<union> {d. block p' d \<noteq> None}" using e c by (auto simp: emits_def)
  then show ?thesis using builds_ends [OF b _ c(2,3)] builds_live [OF b] by auto
qed

lemma build_test_step:
  assumes g: "grows p0 p" "valuesIn p b = valuesIn p0 b" "block p b \<noteq> None"
    and t: "grows p p1" "appends b is p p1" "testBlock p b opcode x (typeOf (env x)) c yes no is p1" "opcode \<in> {Equal, LessThan}"
    and rest: "grows p1 p'" "valuesIn p' b = valuesIn p1 b"
    and ty: "isInt (typeOf (env x))" "caseFits (typeOf (env x)) c"
    and q: "keeps b p0 p' q" and sol: "\<forall>i \<in> added p0 p'. solves env i (the (valuesOf q i))"
  shows "stepBlock q (\<lambda>_. env) (b, h) =
      Inl (fst (if if opcode = Equal then intOf (env x) = sint c else intOf (env x) < sint c then yes else no),
        h @ valuesIn p0 b @ butlast is)"
    "silent q env (butlast is)"
proof -
  have i: "i \<in> added p p1 \<and> i \<in> added p0 p'" if "i \<in> set is" for i
    using testBlock_added [OF t(3)] that added_trans [OF g(1) grows_trans [OF t(1) rest(1)]] added_trans [OF t(1) rest(1)] by auto
  have vq: "valuesOf q i = valuesOf p1 i" if "i \<in> set is" for i
  proof -
    have a: "i \<in> added p p1 \<and> i \<in> added p0 p'" by (rule i [OF that])
    then obtain v where "valuesOf p1 i = Some v" by (auto simp: added_def)
    moreover have "valuesOf q i = valuesOf p' i" using q a by (simp add: keeps_def)
    ultimately show ?thesis using growsD(7) [OF rest(1)] by simp
  qed
  have "valuesIn q b = valuesIn p' b" using q by (auto simp: keeps_def)
  then have vb: "valuesIn q b = valuesIn p0 b @ is" using rest(2) appends_values [OF t(2) g(3), of b] g(2) by simp
  have s: "solves env i (the (valuesOf q i))" if "i \<in> set is" for i using sol i [OF that] by simp
  note st = test_step [OF t(3,4) ty vb vq s]
  show "stepBlock q (\<lambda>_. env) (b, h) =
      Inl (fst (if if opcode = Equal then intOf (env x) = sint c else intOf (env x) < sint c then yes else no),
        h @ valuesIn p0 b @ butlast is)" "silent q env (butlast is)"
    by (rule st(1), assumption+) (rule st(2), assumption+)
qed

lemma lm_update_id: "lm\<lparr>lm_proc := lm_proc lm, lm_blockInsertions := lm_blockInsertions lm @ []\<rparr> = lm"
  by simp

lemma built_append:
  assumes "builds b (lm_proc lm) p'" "length (m_heap p') = length (m_heap (lm_proc lm))"
  shows "built b lm (lm\<lparr>lm_proc := p'\<rparr>)"
  unfolding built_def using assms by (intro conjI exI [of _ "[]"]) simp_all

text \<open>One comparison of a leaf, in front of what the rest of the leaf selects.\<close>

lemma case_selects:
  assumes p: "grows p0 p" "valuesIn p b = valuesIn p0 b" "block p b \<noteq> None" "b < r" "r = length (m_heap p0)" "valuesIn p r = []"
    and t: "grows p p2" "appends b is p p2" "testBlock p b Equal x type (fst c) (snd c) (r, Normal) is p2" "isInt type" "caseFits type (fst c)"
      "length (m_heap p2) = Suc r"
    and rest: "builds r p2 p3" "selects r x type (\<lambda>_. True) (\<lambda>n. lookupCase n cs target) p2 p3"
  shows "selects b x type (\<lambda>_. True) (\<lambda>n. lookupCase n (c # cs) target) p0 p3"
  unfolding selects_def
proof (intro allI impI)
  fix q env h
  assume q: "keeps b p0 p3 q" and sol: "\<forall>i \<in> added p0 p3. solves env i (the (valuesOf q i))" and ty: "typeOf (env x) = type"
  note g3 = buildsD(1) [OF rest(1)]
  have vb3: "valuesIn p3 b = valuesIn p2 b" using builds_values [OF rest(1), of b] p(4) t(6) by simp
  have "isInt (typeOf (env x))" "caseFits (typeOf (env x)) (fst c)" using ty t(4,5) by simp_all
  note step = build_test_step [OF p(1-3) t(1,2) t(3) [folded ty] _ g3 vb3 this q sol]
  have k: "keeps r p2 p3 q"
    by (rule keeps_sub [OF q _ _ grows_trans [OF p(1) t(1)]]) (use buildsD(1,2) [OF rest(1)] t(6) p(5) in \<open>auto intro: grows_refl growsD\<close>)
  have sol': "\<forall>i \<in> added p2 p3. solves env i (the (valuesOf q i))"
    using sol added_trans [OF grows_trans [OF p(1) t(1)] g3] by auto
  have v2: "valuesIn p2 r = []" using appends_values [OF t(2) p(3), of r] p(4,6) by simp
  obtain js where js: "runsTo q env (r, h @ valuesIn p0 b @ butlast is)
      (lookupCase (intOf (env x)) cs target, h @ valuesIn p0 b @ butlast is @ valuesIn p2 r @ js)" "silent q env js"
    using selectsD [OF rest(2) k sol' ty, where h = "h @ valuesIn p0 b @ butlast is"] by auto
  show "\<exists>is. runsTo q env (b, h) (lookupCase (intOf (env x)) (c # cs) target, h @ valuesIn p0 b @ is) \<and> silent q env is"
  proof (cases "intOf (env x) = sint (fst c)")
    case True
    then show ?thesis using step(1) [of h] step(2) by (intro exI [of _ "butlast is"]) (simp add: runsTo_step)
  next
    case False
    have "silent q env (butlast is @ js)" using step(2) js(2) by (auto simp: silent_def)
    then show ?thesis using step(1) [of h] js(1) False v2
      by (intro exI [of _ "butlast is @ js"]) (auto intro: runsTo_step)
  qed
qed

lemma emits_case:
  assumes a: "appends b is p p2" "block p b \<noteq> None" "testBlock p b opcode x type c yes (r, Normal) is p2" "block p2 r \<noteq> None" "fst yes \<in> T"
    and len: "length (m_heap p2) = Suc r" "b < r" "r = length (m_heap p0)" and rest: "builds r p2 p3" "emits r T p2 p3"
  shows "emits b T p0 p3"
proof -
  note t = test_ends [OF a(1-3)]
  have "endsInTerminal p3 b" "successorBlocks p3 b = [fst yes, r]"
    using builds_ends [OF rest(1) t(1)] t(2) len by simp_all
  moreover have "block p3 r \<noteq> None" by (rule builds_live [OF rest(1) a(4)])
  moreover have "endsInTerminal p3 d \<and> set (successorBlocks p3 d) \<subseteq> T \<union> {d. block p3 d \<noteq> None}"
    if "r \<le> d" "d < length (m_heap p3)" for d
  proof -
    have "d = r \<or> length (m_heap p2) \<le> d" using that len by auto
    then show ?thesis using rest(2) that(2) by (auto simp: emits_def)
  qed
  ultimately show ?thesis using a(5) len(3) unfolding emits_def by auto
qed

lemma leaf_selects:
  assumes inv: "procInv (lm_proc lm)" "wtStore (valuesOf (lm_proc lm))"
    and blk: "block (lm_proc lm) (lm_block lm) \<noteq> None" "block (lm_proc lm) b \<noteq> None"
    and x: "valuesOf (lm_proc lm) x = Some xv" "isInt (m_type xv)" and fits: "\<forall>c \<in> set cs. caseFits (m_type xv) (fst c)"
    and T: "\<forall>c \<in> set cs. fst (snd c) \<in> T" "fst target \<in> T"
  shows "\<exists>lm'. do { (b', lm) \<leftarrow> buildLeaf org x (m_type xv) cs b lm; Some (snd (lmAppend b' (JumpValue org target) lm)) } = Some lm' \<and>
    built b lm lm' \<and> selects b x (m_type xv) (\<lambda>_. True) (\<lambda>n. lookupCase n cs target) (lm_proc lm) (lm_proc lm') \<and>
    emits b T (lm_proc lm) (lm_proc lm')"
  using assms
proof (induction cs arbitrary: b lm)
  case Nil
  obtain j p' where j: "appendNew b (JumpValue org target) (lm_proc lm) = (j, p')" by fastforce
  have "isLowered (JumpValue org target)" by (simp add: isLowered_def mk_defs)
  note a = appendNew_grows [OF Nil.prems(1,2) jump_wt this j]
  have jv: "valuesOf p' j = Some (JumpValue org target)" by (simp add: a(3))
  note sj = selects_jump [OF a(1,4) Nil.prems(4) a(2) jv] and ej = emits_jump [OF a(4) Nil.prems(4) jv Nil.prems(9)]
  have "built b lm (lm\<lparr>lm_proc := p'\<rparr>)" by (rule built_append [OF sj(1)]) (use a(4) in \<open>simp add: appends_def\<close>)
  then show ?case using sj(2) ej by (simp add: lmAppend_def j)
next
  case (Cons c cs)
  let ?p = "lm_proc lm" and ?r = "length (m_heap (lm_proc lm))"
  obtain lm1 where 1: "lmInsertAfter (lm_block lm) lm = Some (?r, lm1)" "\<And>b. built b lm lm1"
    "valuesIn (lm_proc lm1) ?r = []" "length (m_heap (lm_proc lm1)) = Suc ?r" "valuesOf (lm_proc lm1) = valuesOf ?p"
    by (rule lmInsertAfter_spec [OF Cons.prems(1-3)]) blast
  note B1 = builtD [OF 1(2) [of b]]
  note G1 = buildsD [OF B1(1)]
  have x1: "valuesOf (lm_proc lm1) x = Some xv" using Cons.prems(5) 1(5) by simp
  obtain p2 "is" where 2: "lmAppendTest b Equal org x (m_type xv) (fst c) (snd c) (?r, Normal) lm1 = Some (lm1\<lparr>lm_proc := p2\<rparr>)"
    "grows (lm_proc lm1) p2" "appends b is (lm_proc lm1) p2" "testBlock (lm_proc lm1) b Equal x (m_type xv) (fst c) (snd c) (?r, Normal) is p2"
    by (rule lmAppendTest_spec [OF growsD(1,2) [OF G1(1)] x1 Cons.prems(6)]) auto
  let ?lm2 = "lm1\<lparr>lm_proc := p2\<rparr>"
  have b: "b < ?r" "b \<noteq> ?r" using block_bound [OF Cons.prems(4)] by auto
  have len2: "length (m_heap p2) = Suc ?r" using 2(3) 1(4) by (simp add: appends_def)
  have blk1: "block (lm_proc lm1) c \<noteq> None" if "block ?p c \<noteq> None" for c
    using G1(5) [of c] block_bound [OF that] that by (metis option.map_disc_iff)
  have blk2: "block p2 c \<noteq> None" if "block ?p c \<noteq> None" for c using blk1 [OF that] appends_block [OF 2(3)] by simp
  have r2: "block p2 ?r \<noteq> None" using G1(6) [of ?r] 1(4) appends_block [OF 2(3)] by simp
  have B2: "built b lm1 ?lm2"
    by (rule built_append [OF builds_appends [OF 2(2,3) testBlock_added [OF 2(4)] testBlock_distinct [OF 2(4)]]]) (simp add: len2 1(4))
  obtain lm3 where 3: "do { (b', lm) \<leftarrow> buildLeaf org x (m_type xv) cs ?r ?lm2; Some (snd (lmAppend b' (JumpValue org target) lm)) } = Some lm3"
    "built ?r ?lm2 lm3" "selects ?r x (m_type xv) (\<lambda>_. True) (\<lambda>n. lookupCase n cs target) (lm_proc ?lm2) (lm_proc lm3)"
    "emits ?r T (lm_proc ?lm2) (lm_proc lm3)"
    using Cons.IH [of ?lm2 ?r] growsD(1,2) [OF 2(2)] blk2 [OF Cons.prems(3)] r2 growsD(7) [OF 2(2) x1] Cons.prems(6-9) B1(2) by auto
  note B3 = builtD(1) [OF 3(2)]
  have g3: "grows p2 (lm_proc lm3)" using buildsD(1) [OF B3] by simp
  have "built b lm ?lm2" by (rule built_trans [OF 1(2) B2]) (use Cons.prems(3) in simp_all)
  then have B: "built b lm lm3" by (rule built_trans [OF _ 3(2)]) (use Cons.prems(3) in simp_all)
  have vb: "valuesIn (lm_proc lm1) b = valuesIn ?p b" using builds_values [OF builtD(1) [OF 1(2) [of ?r]] b] .
  have B3': "builds ?r p2 (lm_proc lm3)" using B3 by simp
  have "selects b x (m_type xv) (\<lambda>_. True) (\<lambda>n. lookupCase n (c # cs) target) ?p (lm_proc lm3)"
    by (rule case_selects [OF G1(1) vb blk1 [OF Cons.prems(4)] b(1) refl 1(3) 2(2-4) Cons.prems(6) _ len2 B3'])
      (use Cons.prems(7) 3(3) in simp_all)
  moreover have "emits b T ?p (lm_proc lm3)"
    by (rule emits_case [OF 2(3) blk1 [OF Cons.prems(4)] 2(4) r2 _ len2 b(1) refl B3']) (use Cons.prems(8) 3(4) in simp_all)
  ultimately show ?case using B 1(1) 2(1) 3(1) by simp
qed

subsection \<open>Sorted cases\<close>

definition caseKey :: "SwitchCase \<Rightarrow> int" where
  "caseKey c = sint (fst c)"

definition sortedCases :: "SwitchCase list \<Rightarrow> bool" where
  "sortedCases cs \<longleftrightarrow> sorted_wrt (\<lambda>a b. caseKey a < caseKey b) cs"

definition caseSlice :: "SwitchCase list \<Rightarrow> nat \<Rightarrow> nat \<Rightarrow> SwitchCase list" where
  "caseSlice cs start end0 = take (end0 - start) (drop start cs)"

lemma sortedCasesD: "sortedCases cs \<Longrightarrow> i < j \<Longrightarrow> j < length cs \<Longrightarrow> caseKey (cs ! i) < caseKey (cs ! j)"
  by (simp add: sortedCases_def sorted_wrt_iff_nth_less)

lemma caseSlice_split: "start \<le> m \<Longrightarrow> m \<le> end0 \<Longrightarrow> caseSlice cs start end0 = caseSlice cs start m @ caseSlice cs m end0"
proof -
  assume le: "start \<le> m" "m \<le> end0"
  have "caseSlice cs start end0 = take ((m - start) + (end0 - m)) (drop start cs)" using le by (simp add: caseSlice_def)
  also have "\<dots> = caseSlice cs start m @ take (end0 - m) (drop (m - start) (drop start cs))" by (simp only: take_add caseSlice_def)
  also have "drop (m - start) (drop start cs) = drop m cs" using le by simp
  finally show ?thesis by (simp add: caseSlice_def)
qed

lemma caseSlice_nth: "c \<in> set (caseSlice cs start end0) \<Longrightarrow> \<exists>i. start \<le> i \<and> i < end0 \<and> i < length cs \<and> c = cs ! i"
  by (auto simp: caseSlice_def in_set_conv_nth) (metis add.commute le_add1 less_diff_conv)

lemma lookupCase_append:
  "lookupCase n (xs @ ys) fall = (if n \<in> caseKey ` set xs then lookupCase n xs fall else lookupCase n ys fall)"
  by (induction xs) (auto simp: caseKey_def)

lemma lookupCase_fall: "n \<in> caseKey ` set xs \<Longrightarrow> lookupCase n xs a = lookupCase n xs b"
  by (induction xs) (auto simp: caseKey_def)

lemma lookupCase_none: "n \<notin> caseKey ` set xs \<Longrightarrow> lookupCase n xs fall = fst fall"
  by (induction xs) (auto simp: caseKey_def)

lemma lookup_median:
  assumes "sortedCases cs" "start \<le> m" "m < end0" "end0 \<le> length cs"
  shows "lookupCase n (caseSlice cs start end0) fall =
    (if n < caseKey (cs ! m) then lookupCase n (caseSlice cs start m) fall else lookupCase n (caseSlice cs m end0) fall)"
proof -
  have left: "caseKey c < caseKey (cs ! m)" if "c \<in> set (caseSlice cs start m)" for c
    using caseSlice_nth [OF that] sortedCasesD [OF assms(1), of _ m] assms by auto
  have right: "caseKey (cs ! m) \<le> caseKey c" if c: "c \<in> set (caseSlice cs m end0)" for c
  proof -
    obtain i where i: "m \<le> i" "i < length cs" "c = cs ! i" using caseSlice_nth [OF c] by blast
    then show ?thesis using sortedCasesD [OF assms(1), of m i] by (cases "i = m") auto
  qed
  have split: "lookupCase n (caseSlice cs start end0) fall =
      (if n \<in> caseKey ` set (caseSlice cs start m) then lookupCase n (caseSlice cs start m) fall else lookupCase n (caseSlice cs m end0) fall)"
    using caseSlice_split [of start m end0 cs] assms by (simp add: lookupCase_append)
  show ?thesis
  proof (cases "n < caseKey (cs ! m)")
    case True
    then have "lookupCase n (caseSlice cs m end0) fall = fst fall" by (intro lookupCase_none) (use right in force)
    then show ?thesis using True split lookupCase_none [of n "caseSlice cs start m" fall] by simp
  next
    case False
    then have "n \<notin> caseKey ` set (caseSlice cs start m)" using left by force
    then show ?thesis using False split by simp
  qed
qed

lemma sint_succ:
  assumes "sint (w :: 'a::len word) < sint (w + 1)"
  shows "sint (w + 1) = sint w + 1"
proof -
  have "sint w < smax TYPE('a)" using assms sint_inSigned(2) [of "w + 1"] by simp
  then have "sint (word_of_int (sint w + 1) :: 'a word) = sint w + 1"
    unfolding sint_sbintrunc' using sint_inSigned(1) [of w]
    by (intro signed_take_bit_int_eq_self) (simp_all add: smin_def smax_def)
  then show ?thesis by simp
qed

text \<open>Consecutive cases between two established bounds: the operand is one of them.\<close>

lemma consecutive_hits:
  assumes s: "sortedCases cs" and c: "allConsecutive cs start hardStart end0" and lt: "start < end0"
    and n: "caseKey (cs ! start) \<le> n" "n < caseKey (cs ! end0)"
  shows "n \<in> caseKey ` set (caseSlice cs start end0)"
proof -
  have len: "end0 < length cs" and last: "fst (cs ! (end0 - 1)) + 1 = fst (cs ! end0)"
    and nxt: "\<And>i. i < end0 - start - 1 \<Longrightarrow> fst (cs ! (start + i)) + 1 = fst (cs ! (start + i + 1))"
    using c by (auto simp: allConsecutive_def)
  have succ: "caseKey (cs ! (i + 1)) = caseKey (cs ! i) + 1" if "start \<le> i" "i < end0" for i
  proof -
    have "fst (cs ! i) + 1 = fst (cs ! (i + 1))"
    proof (cases "i = end0 - 1")
      case False
      then show ?thesis using nxt [of "i - start"] that by simp
    qed (use last lt in simp)
    moreover from this have "sint (fst (cs ! i)) < sint (fst (cs ! i) + 1)"
      using sortedCasesD [OF s, of i "i + 1"] that len by (simp add: caseKey_def)
    ultimately show ?thesis using sint_succ by (metis caseKey_def)
  qed
  have key: "caseKey (cs ! (start + i)) = caseKey (cs ! start) + int i" if "start + i \<le> end0" for i
    using that by (induction i) (use succ in \<open>auto simp: algebra_simps\<close>)
  let ?i = "nat (n - caseKey (cs ! start))"
  have i: "start + ?i < end0" using n key [of "end0 - start"] lt by simp
  then have "caseKey (cs ! (start + ?i)) = n" using key [of ?i] n by simp
  moreover have "cs ! (start + ?i) \<in> set (caseSlice cs start end0)"
    using i len by (auto simp: caseSlice_def in_set_conv_nth intro!: exI [of _ ?i])
  ultimately show ?thesis by force
qed

subsection \<open>The search tree\<close>

definition inBounds :: "SwitchCase list \<Rightarrow> nat \<Rightarrow> bool \<Rightarrow> nat \<Rightarrow> int \<Rightarrow> bool" where
  "inBounds cs start hardStart end0 n \<longleftrightarrow>
     (hardStart \<longrightarrow> caseKey (cs ! start) \<le> n) \<and> (end0 < length cs \<longrightarrow> n < caseKey (cs ! end0))"

text \<open>The last comparison of a leaf can be left out if the cases are consecutive.\<close>

lemma leaf_limit:
  assumes s: "sortedCases cs" and hs: "start \<noteq> 0 \<longrightarrow> hardStart" "hardStart \<longrightarrow> start < end0" and le: "start \<le> end0" "end0 \<le> length cs"
    and n: "inBounds cs start hardStart end0 n"
  shows "lookupCase n (take (if allConsecutive cs start hardStart end0 then end0 - start - 1 else end0 - start) (drop start cs))
      (if allConsecutive cs start hardStart end0 then snd (cs ! (end0 - 1)) else fall) = lookupCase n (caseSlice cs start end0) fall"
proof (cases "allConsecutive cs start hardStart end0")
  case True
  then have hard: "hardStart" and len: "end0 < length cs" using hs(1) by (auto simp: allConsecutive_def)
  then have lt: "start < end0" using hs(2) by simp
  have hit: "n \<in> caseKey ` set (caseSlice cs start end0)"
    by (rule consecutive_hits [OF s True lt]) (use n hard len in \<open>simp_all add: inBounds_def\<close>)
  let ?ys = "take (end0 - start - 1) (drop start cs)" and ?z = "cs ! (end0 - 1)"
  have sl: "caseSlice cs start end0 = ?ys @ [?z]"
  proof -
    have "end0 - start - 1 < length (drop start cs)" "Suc (end0 - start - 1) = end0 - start" using lt le by auto
    then show ?thesis using take_Suc_conv_app_nth [of "end0 - start - 1" "drop start cs"] lt by (simp add: caseSlice_def)
  qed
  have "lookupCase n ?ys (snd ?z) = lookupCase n (?ys @ [?z]) fall"
  proof (cases "n \<in> caseKey ` set ?ys")
    case True
    then show ?thesis using lookupCase_fall [OF True] by (simp add: lookupCase_append)
  next
    case False
    then have "caseKey ?z = n" using hit sl by auto
    then show ?thesis using False lookupCase_none [OF False] by (simp add: lookupCase_append caseKey_def)
  qed
  then show ?thesis using True sl by simp
qed (simp add: caseSlice_def)

lemma node_selects:
  assumes p: "grows p0 p" "valuesIn p b = valuesIn p0 b" "block p b \<noteq> None" "b < length (m_heap p0)"
      "length (m_heap p) = length (m_heap p0) + 2" "left = length (m_heap p0)" "right = Suc left"
      "valuesIn p left = []" "valuesIn p right = []"
    and t: "grows p p1" "appends b is p p1" "testBlock p b LessThan x type c (left, Normal) (right, Normal) is p1"
      "isInt type" "caseFits type c"
    and l: "builds left p1 p2" "selects left x type PL fL p1 p2" and r: "builds right p2 p3" "selects right x type PR fR p2 p3"
    and P: "\<And>n. P n \<Longrightarrow> if n < sint c then PL n \<and> f n = fL n else PR n \<and> f n = fR n"
  shows "selects b x type P f p0 p3"
  unfolding selects_def
proof (intro allI impI)
  fix q env h
  assume q: "keeps b p0 p3 q" and sol: "\<forall>i \<in> added p0 p3. solves env i (the (valuesOf q i))"
    and ty: "typeOf (env x) = type" and n: "P (intOf (env x))"
  have len: "length (m_heap p1) = length (m_heap p0) + 2" "length (m_heap p1) \<le> length (m_heap p2)" "length (m_heap p2) \<le> length (m_heap p3)"
    using t(2) p(5) buildsD(2) [OF l(1)] buildsD(2) [OF r(1)] by (simp_all add: appends_def)
  note gl = buildsD(1) [OF l(1)] and gr = buildsD(1) [OF r(1)]
  have b: "b \<noteq> left" "b \<noteq> right" "b < length (m_heap p1)" using p(4,6,7) len by auto
  have v1: "valuesIn p1 left = []" "valuesIn p1 right = []" using appends_values [OF t(2) p(3)] b p(8,9) by simp_all
  have v2: "valuesIn p2 right = []" using builds_values [OF l(1), of right] v1 p(6,7) len by simp
  have vb: "valuesIn p3 b = valuesIn p1 b"
    using builds_values [OF r(1), of b] builds_values [OF l(1), of b] b len by simp
  have ty': "isInt (typeOf (env x))" "caseFits (typeOf (env x)) c" using t(4,5) ty by simp_all
  note step = build_test_step [OF p(1-3) t(1,2) t(3) [folded ty] _ grows_trans [OF gl gr] vb ty' q sol]
  let ?h = "h @ valuesIn p0 b @ butlast is"
  have kl: "keeps left p1 p2 q"
    by (rule keeps_sub [OF q _ _ grows_trans [OF p(1) t(1)] gl gr])
      (use p(6,7) len builds_values [OF r(1)] in auto)
  have kr: "keeps right p2 p3 q"
    by (rule keeps_sub [OF q _ _ grows_trans [OF p(1) grows_trans [OF t(1) gl]] gr grows_refl [OF growsD(1,2) [OF gr]]])
      (use p(6,7) len in auto)
  have sub: "added p1 p2 \<subseteq> added p0 p3" "added p2 p3 \<subseteq> added p0 p3"
    using added_trans [OF grows_trans [OF p(1) t(1)] grows_trans [OF gl gr]] added_trans [OF gl gr] by auto
  have sl: "\<forall>i \<in> added p1 p2. solves env i (the (valuesOf q i))" and sr: "\<forall>i \<in> added p2 p3. solves env i (the (valuesOf q i))"
    using sol sub by auto
  show "\<exists>is. runsTo q env (b, h) (f (intOf (env x)), h @ valuesIn p0 b @ is) \<and> silent q env is"
  proof (cases "intOf (env x) < sint c")
    case True
    then obtain js where js: "runsTo q env (left, ?h) (fL (intOf (env x)), ?h @ valuesIn p1 left @ js)" "silent q env js"
      using selectsD [OF l(2) kl sl ty, where h = ?h] P [OF n] by auto
    show ?thesis
      by (rule exI [of _ "butlast is @ js"])
        (use step js v1 P [OF n] True in \<open>auto intro: runsTo_step simp: silent_def\<close>)
  next
    case False
    then obtain js where js: "runsTo q env (right, ?h) (fR (intOf (env x)), ?h @ valuesIn p2 right @ js)" "silent q env js"
      using selectsD [OF r(2) kr sr ty, where h = ?h] P [OF n] by auto
    show ?thesis
      by (rule exI [of _ "butlast is @ js"])
        (use step js v2 P [OF n] False in \<open>auto intro: runsTo_step simp: silent_def\<close>)
  qed
qed

lemma built_live: "built d lm lm' \<Longrightarrow> block (lm_proc lm) c \<noteq> None \<Longrightarrow> block (lm_proc lm') c \<noteq> None"
  using buildsD(5) [OF builtD(1) block_bound] by (metis option.map_disc_iff)

text \<open>The two new blocks of a node and the test that branches to them.\<close>

lemma node_setup:
  assumes inv: "procInv (lm_proc lm)" "wtStore (valuesOf (lm_proc lm))"
    and blk: "block (lm_proc lm) (lm_block lm) \<noteq> None" "block (lm_proc lm) b \<noteq> None"
    and x: "valuesOf (lm_proc lm) x = Some xv" "isInt (m_type xv)"
  defines "l \<equiv> length (m_heap (lm_proc lm))"
  obtains lm1 lm2 p3 "is" where "lmInsertAfter (lm_block lm) lm = Some (l, lm1)" "lmInsertAfter (lm_block lm1) lm1 = Some (Suc l, lm2)"
    "lmAppendTest b LessThan org x (m_type xv) c (l, Normal) (Suc l, Normal) lm2 = Some (lm2\<lparr>lm_proc := p3\<rparr>)"
    "\<And>d. built d lm lm2" "valuesIn (lm_proc lm2) l = []" "valuesIn (lm_proc lm2) (Suc l) = []" "length (m_heap (lm_proc lm2)) = l + 2"
    "grows (lm_proc lm2) p3" "appends b is (lm_proc lm2) p3" "testBlock (lm_proc lm2) b LessThan x (m_type xv) c (l, Normal) (Suc l, Normal) is p3"
    "built b lm (lm2\<lparr>lm_proc := p3\<rparr>)" "length (m_heap p3) = l + 2"
proof -
  obtain lm1 where 1: "lmInsertAfter (lm_block lm) lm = Some (l, lm1)" "\<And>b. built b lm lm1"
    "valuesIn (lm_proc lm1) l = []" "length (m_heap (lm_proc lm1)) = Suc l" "valuesOf (lm_proc lm1) = valuesOf (lm_proc lm)"
    unfolding l_def by (rule lmInsertAfter_spec [OF inv blk(1)]) blast
  note B1 = builtD [OF 1(2)]
  obtain lm2 where 2: "lmInsertAfter (lm_block lm1) lm1 = Some (Suc l, lm2)" "\<And>b. built b lm1 lm2"
    "valuesIn (lm_proc lm2) (Suc l) = []" "length (m_heap (lm_proc lm2)) = l + 2" "valuesOf (lm_proc lm2) = valuesOf (lm_proc lm1)"
    using lmInsertAfter_spec [of lm1] growsD(1,2) [OF buildsD(1) [OF B1(1)]] built_live [OF 1(2) blk(1)] B1(2) 1(4)
    by (metis add_2_eq_Suc')
  have L2: "built d lm lm2" for d by (rule built_trans [OF 1(2) 2(2) [of d]]) (use blk(1) in simp_all)
  note G2 = buildsD [OF builtD(1) [OF L2]]
  have x2: "valuesOf (lm_proc lm2) x = Some xv" using x(1) 1(5) 2(5) by simp
  have v2: "valuesIn (lm_proc lm2) l = []" using builds_values [OF builtD(1) [OF 2(2) [of "Suc l"]], of l] 1(3,4) by simp
  obtain p3 "is" where 3: "lmAppendTest b LessThan org x (m_type xv) c (l, Normal) (Suc l, Normal) lm2 = Some (lm2\<lparr>lm_proc := p3\<rparr>)"
    "grows (lm_proc lm2) p3" "appends b is (lm_proc lm2) p3" "testBlock (lm_proc lm2) b LessThan x (m_type xv) c (l, Normal) (Suc l, Normal) is p3"
    by (rule lmAppendTest_spec [OF growsD(1,2) [OF G2(1)] x2 x(2), where opcode = LessThan]) auto
  have len3: "length (m_heap p3) = l + 2" using 3(3) 2(4) by (simp add: appends_def)
  have "built b lm2 (lm2\<lparr>lm_proc := p3\<rparr>)"
    by (rule built_append [OF builds_appends [OF 3(2,3) testBlock_added [OF 3(4)] testBlock_distinct [OF 3(4)]]]) (simp add: len3 2(4))
  then have "built b lm (lm2\<lparr>lm_proc := p3\<rparr>)" by (rule built_trans [OF L2]) (use blk(1) in simp_all)
  then show thesis by (rule that [OF 1(1) 2(1) 3(1) L2 v2 2(3,4) 3(2-4) _ len3])
qed

lemma emits_node:
  assumes a: "appends b is p p3" and t: "testBlock p b opcode x type c (l, Normal) (Suc l, Normal) is p3" and blk: "block p b \<noteq> None"
    and len: "length (m_heap p3) = l + 2" "b < l" and 4: "builds l p3 p4" "emits l T p3 p4" and 5: "builds (Suc l) p4 p5" "emits (Suc l) T p4 p5"
    and l: "l = length (m_heap p0)"
  shows "emits b T p0 p5"
  unfolding emits_def
proof (intro allI impI)
  note te = test_ends [OF a blk t]
  have le: "l + 2 \<le> length (m_heap p4)" using buildsD(2) [OF 4(1)] len by simp
  have b4: "endsInTerminal p4 b" "successorBlocks p4 b = [l, Suc l]" using builds_ends [OF 4(1) te(1)] te(2) len by simp_all
  have b5: "endsInTerminal p5 b" "successorBlocks p5 b = [l, Suc l]" using builds_ends [OF 5(1) b4(1)] b4(2) len le by simp_all
  have live: "block p5 d \<noteq> None" if "d \<in> {l, Suc l}" for d
  proof -
    have "endsInTerminal p5 d" using emits_later [OF 4(2) 5(1), of l] 5(2) le that by (auto simp: emits_def)
    then show ?thesis by (auto simp: endsInTerminal_iff valuesIn_def split: option.splits)
  qed
  fix c assume "c = b \<or> length (m_heap p0) \<le> c \<and> c < length (m_heap p5)"
  then consider "c = b" | "c = l \<or> l + 2 \<le> c" "c < length (m_heap p4)" "c \<noteq> Suc l" | "c = Suc l \<or> length (m_heap p4) \<le> c" "c < length (m_heap p5)"
    using l le by linarith
  then show "endsInTerminal p5 c \<and> set (successorBlocks p5 c) \<subseteq> T \<union> {d. block p5 d \<noteq> None}"
  proof cases
    case 1
    then show ?thesis using b5 live by auto
  next
    case 2
    then show ?thesis using emits_later [OF 4(2) 5(1), of c] len by simp
  next
    case 3
    then show ?thesis using 5(2) by (auto simp: emits_def)
  qed
qed

lemma build_selects:
  assumes s: "sortedCases cases" "\<forall>c \<in> set cases. caseFits (m_type xv) (fst c)" and int: "isInt (m_type xv)"
    and "start \<le> end0" "end0 \<le> length cases" "start \<noteq> 0 \<longrightarrow> hardStart" "hardStart \<longrightarrow> start < end0"
    and "procInv (lm_proc lm)" "wtStore (valuesOf (lm_proc lm))" "block (lm_proc lm) (lm_block lm) \<noteq> None"
      "block (lm_proc lm) b \<noteq> None" "valuesOf (lm_proc lm) x = Some xv"
    and T: "\<forall>c \<in> set cases. fst (snd c) \<in> T" "fst fall \<in> T"
  shows "\<exists>lm'. recursivelyBuildSwitch org x (m_type xv) fall cases start hardStart end0 b lm = Some lm' \<and> built b lm lm' \<and>
    selects b x (m_type xv) (inBounds cases start hardStart end0) (\<lambda>n. lookupCase n (caseSlice cases start end0) fall) (lm_proc lm) (lm_proc lm') \<and>
    emits b T (lm_proc lm) (lm_proc lm')"
  using assms(4-12)
proof (induction "end0 - start" arbitrary: start hardStart end0 b lm rule: less_induct)
  case less
  note le = less.prems(1,2) and hs = less.prems(3,4) and inv = less.prems(5,6) and blk = less.prems(7,8) and x = less.prems(9)
  show ?case
  proof (cases "end0 - start \<le> 3")
    case True
    let ?con = "allConsecutive cases start hardStart end0"
    let ?limit = "if ?con then end0 - start - 1 else end0 - start" and ?target = "if ?con then snd (cases ! (end0 - 1)) else fall"
    have fit: "\<forall>c \<in> set (take ?limit (drop start cases)). caseFits (m_type xv) (fst c)"
      using s(2) by (meson in_set_dropD in_set_takeD)
    have fitT: "\<forall>c \<in> set (take ?limit (drop start cases)). fst (snd c) \<in> T"
      using T(1) by (meson in_set_dropD in_set_takeD)
    have targetT: "fst ?target \<in> T" using T hs(2) le by (auto simp: allConsecutive_def)
    obtain lm' where lm': "do { (b', lm) \<leftarrow> buildLeaf org x (m_type xv) (take ?limit (drop start cases)) b lm;
          Some (snd (lmAppend b' (JumpValue org ?target) lm)) } = Some lm'" "built b lm lm'"
        "selects b x (m_type xv) (\<lambda>_. True) (\<lambda>n. lookupCase n (take ?limit (drop start cases)) ?target) (lm_proc lm) (lm_proc lm')"
        "emits b T (lm_proc lm) (lm_proc lm')"
      using leaf_selects [OF inv blk x int fit fitT targetT] by blast
    have "selects b x (m_type xv) (inBounds cases start hardStart end0) (\<lambda>n. lookupCase n (caseSlice cases start end0) fall) (lm_proc lm) (lm_proc lm')"
      using lm'(3) leaf_limit [OF s(1) hs le, of _ fall] unfolding selects_def by fastforce
    moreover have "recursivelyBuildSwitch org x (m_type xv) fall cases start hardStart end0 b lm = Some lm'"
      using lm'(1) True by (subst recursivelyBuildSwitch.simps) (simp only: if_True Let_def)
    ultimately show ?thesis using lm'(2,4) by blast
  next
    case False
    define m where "m = (start + end0) div 2"
    have m: "start < m" "m < end0" "m - start < end0 - start" "end0 - m < end0 - start" using False by (auto simp: m_def)
    let ?p = "lm_proc lm" and ?l = "length (m_heap (lm_proc lm))" and ?c = "fst (cases ! m)"
    obtain lm1 lm2 p3 "is" where 1: "lmInsertAfter (lm_block lm) lm = Some (?l, lm1)" "lmInsertAfter (lm_block lm1) lm1 = Some (Suc ?l, lm2)"
        "lmAppendTest b LessThan org x (m_type xv) ?c (?l, Normal) (Suc ?l, Normal) lm2 = Some (lm2\<lparr>lm_proc := p3\<rparr>)"
      and L2: "\<And>d. built d lm lm2"
      and v2: "valuesIn (lm_proc lm2) ?l = []" "valuesIn (lm_proc lm2) (Suc ?l) = []" "length (m_heap (lm_proc lm2)) = ?l + 2"
      and 3: "grows (lm_proc lm2) p3" "appends b is (lm_proc lm2) p3" "testBlock (lm_proc lm2) b LessThan x (m_type xv) ?c (?l, Normal) (Suc ?l, Normal) is p3"
      and L3: "built b lm (lm2\<lparr>lm_proc := p3\<rparr>)" and len3: "length (m_heap p3) = ?l + 2"
      by (rule node_setup [OF inv blk x int]) blast
    let ?lm3 = "lm2\<lparr>lm_proc := p3\<rparr>"
    note live = built_live [OF _ blk(1)] and G2 = buildsD [OF builtD(1) [OF L2]]
    note G3 = buildsD [OF builtD(1) [OF L3]]
    have "block (lm_proc ?lm3) ?l \<noteq> None" "block (lm_proc ?lm3) (Suc ?l) \<noteq> None" using G3(6) len3 by simp_all
    then obtain lm4 where 4: "recursivelyBuildSwitch org x (m_type xv) fall cases start hardStart m ?l ?lm3 = Some lm4" "built ?l ?lm3 lm4"
      "selects ?l x (m_type xv) (inBounds cases start hardStart m) (\<lambda>n. lookupCase n (caseSlice cases start m) fall) p3 (lm_proc lm4)"
      "emits ?l T p3 (lm_proc lm4)"
      using less.hyps [OF m(3), of hardStart ?lm3 ?l] growsD(1,2,7) [OF G3(1)] live [OF L3] builtD(2) [OF L3] x m le hs by auto
    have L4: "built b lm lm4" by (rule built_trans [OF L3 4(2)]) (use blk(1) in simp_all)
    note G4 = buildsD [OF builtD(1) [OF L4]]
    have len4: "Suc ?l < length (m_heap (lm_proc lm4))" using buildsD(2) [OF builtD(1) [OF 4(2)]] len3 by simp
    then have "block (lm_proc lm4) (Suc ?l) \<noteq> None" using G4(6) by simp
    then obtain lm5 where 5: "recursivelyBuildSwitch org x (m_type xv) fall cases m True end0 (Suc ?l) lm4 = Some lm5" "built (Suc ?l) lm4 lm5"
      "selects (Suc ?l) x (m_type xv) (inBounds cases m True end0) (\<lambda>n. lookupCase n (caseSlice cases m end0) fall) (lm_proc lm4) (lm_proc lm5)"
      "emits (Suc ?l) T (lm_proc lm4) (lm_proc lm5)"
      using less.hyps [OF m(4), of True lm4 "Suc ?l"] growsD(1,2,7) [OF G4(1)] live [OF L4] builtD(2) [OF L4] x m le hs by auto
    have L5: "built b lm lm5" by (rule built_trans [OF L4 5(2)]) (use blk(1) in simp_all)
    have b: "b < ?l" by (rule block_bound [OF blk(2)])
    have "selects b x (m_type xv) (inBounds cases start hardStart end0) (\<lambda>n. lookupCase n (caseSlice cases start end0) fall) ?p (lm_proc lm5)"
    proof (rule node_selects [OF G2(1) _ built_live [OF L2 blk(2)] b v2(3) refl refl v2(1,2) 3 int])
      show "valuesIn (lm_proc lm2) b = valuesIn ?p b" using builds_values [OF builtD(1) [OF L2 [of ?l]] b] b by simp
      show "caseFits (m_type xv) ?c" using s(2) m(2) le by simp
      show "builds ?l p3 (lm_proc lm4)" using builtD(1) [OF 4(2)] by simp
      show "builds (Suc ?l) (lm_proc lm4) (lm_proc lm5)" by (rule builtD(1) [OF 5(2)])
      fix n assume n: "inBounds cases start hardStart end0 n"
      show "if n < sint ?c then inBounds cases start hardStart m n \<and>
          lookupCase n (caseSlice cases start end0) fall = lookupCase n (caseSlice cases start m) fall
        else inBounds cases m True end0 n \<and> lookupCase n (caseSlice cases start end0) fall = lookupCase n (caseSlice cases m end0) fall"
        using n lookup_median [OF s(1) less_imp_le [OF m(1)] m(2) le(2), of n fall] by (simp add: inBounds_def caseKey_def)
    qed (rule 4(3) 5(3))+
    moreover have "recursivelyBuildSwitch org x (m_type xv) fall cases start hardStart end0 b lm = Some lm5"
      using False 1 4(1) 5(1) builtD(2) [OF L2]
      by (subst recursivelyBuildSwitch.simps) (simp add: Let_def m_def [symmetric])
    moreover have "emits b T ?p (lm_proc lm5)"
      by (rule emits_node [OF 3(2,3) built_live [OF L2 blk(2)] len3 b _ 4(4) builtD(1) [OF 5(2)] 5(4)])
        (use builtD(1) [OF 4(2)] in simp_all)
    ultimately show ?thesis using L5 by blast
  qed
qed

subsection \<open>From the switch to its cases\<close>

lemma caseMatches_int:
  assumes "isInt (typeOf x)" "caseFits (typeOf x) c"
  shows "caseMatches x c \<longleftrightarrow> sint c = intOf x"
proof (cases x)
  case (V32 a)
  then have "sint (ucast c :: int32) = sint c" using assms by (intro sint_ucast_fits) (simp add: caseFits_def)
  then show ?thesis using V32 by (auto simp: caseMatches_def intOf_def) (metis sint_inject)
next
  case (V64 a)
  then show ?thesis by (auto simp: caseMatches_def intOf_def sint_inject)
qed (use assms in simp_all)

lemma switchTarget_lookup:
  assumes "length ss = Suc (length vs)" "isInt (typeOf x)" "\<forall>c \<in> set vs. caseFits (typeOf x) c"
  shows "switchTarget x ss vs = Some (lookupCase (intOf x) (zip vs ss) (last ss))"
  using assms
proof (induction vs arbitrary: ss)
  case Nil
  then show ?case by (auto simp: length_Suc_conv)
next
  case (Cons c vs)
  then obtain s rest where ss: "ss = s # rest" "length rest = Suc (length vs)" by (auto simp: length_Suc_conv)
  then have "last ss = last rest" by auto
  then show ?case using ss Cons.IH [OF ss(2)] Cons.prems caseMatches_int [of x c] by simp
qed

lemma lookupCase_sort:
  assumes "distinct (map fst cs)"
  shows "lookupCase n (sort_key caseKey cs) fall = lookupCase n cs fall"
proof -
  have one: "lookupCase n xs fall = fst (snd c)" if "c \<in> set xs" "caseKey c = n" "distinct (map fst xs)" for xs c
    using that by (induction xs) (auto simp: caseKey_def sint_inject)
  have d: "distinct (map fst (sort_key caseKey cs))" using assms by (simp add: distinct_map)
  show ?thesis
  proof (cases "n \<in> caseKey ` set cs")
    case True
    then obtain c where "c \<in> set cs" "caseKey c = n" by blast
    then show ?thesis using one [of c cs] one [of c "sort_key caseKey cs"] assms d by simp
  qed (simp add: lookupCase_none)
qed

lemma sorted_cases:
  assumes "distinct (map fst cs)"
  shows "sortedCases (sort_key caseKey cs)"
proof -
  have "inj_on caseKey (set cs)" "distinct cs"
    using assms by (auto simp: distinct_map inj_on_def caseKey_def sint_inject)
  then have "distinct (map caseKey (sort_key caseKey cs))" by (simp add: distinct_map)
  then have "sorted_wrt (<) (map caseKey (sort_key caseKey cs))" by (simp add: strict_sorted_iff)
  then show ?thesis by (simp add: sortedCases_def sorted_wrt_map)
qed

text \<open>
  A switch that a client may lower: an integer operand, and distinct case values that the type of the
  operand represents.
\<close>

definition lowerableSwitch :: "store \<Rightarrow> Value \<Rightarrow> bool" where
  "lowerableSwitch s v \<longleftrightarrow>
     m_opcode v = Switch \<and> distinct (caseValues v) \<and> (\<forall>c \<in> set (caseValues v). \<forall>t. childType s v 0 = Some t \<longrightarrow> caseFits t c)"

lemma lowerable_shape:
  assumes wt: "wtValue s v" and sw: "lowerableSwitch s v"
  obtains x xv where "m_children v = [x]" "s x = Some xv" "isInt (m_type xv)" "distinct (map fst (switchCases v))"
    "\<forall>c \<in> set (switchCases v). caseFits (m_type xv) (fst c)"
    "\<And>env i. typeOf (env x) = m_type xv \<Longrightarrow> observe env i v = Goto (lookupCase (intOf (env x)) (switchCases v) (fallThrough v))"
    "m_type v = Void" "successors v \<noteq> []"
proof -
  have op: "m_opcode v = Switch" using sw by (simp add: lowerableSwitch_def)
  have ac: "acceptsControl (m_opcode v)" by (simp add: op acceptsControl_def)
  obtain x ss cs where v: "m_payload v = SwitchPayload ss cs" "length ss = Suc (length cs)" "m_children v = [x]"
    using wt ac by (cases rule: terminal_shape) (simp_all add: op)
  obtain xv where xv: "s x = Some xv" "isInt (m_type xv)"
    using wt v(3) by (auto simp: wtValue_def op validateTypes_def childIsInt_def childType_def child_def isInt_def)
  have sel: "successors v = ss" "caseValues v = cs" using v(1) by (simp_all add: successors_def caseValues_def)
  have fits: "\<forall>c \<in> set cs. caseFits (m_type xv) c" and d: "distinct cs"
    using sw sel v(3) xv(1) by (simp_all add: lowerableSwitch_def childType_def child_def)
  have keys: "map fst (switchCases v) = cs" using v(2) by (simp add: switchCases_def sel map_fst_zip_take)
  have "observe env i v = Goto (lookupCase (intOf (env x)) (switchCases v) (fallThrough v))" if "typeOf (env x) = m_type xv" for env i
    using switchTarget_lookup [OF v(2), of "env x"] xv(2) fits that
    by (simp add: observe_def op args_def v(3) sel switchCases_def fallThrough_def)
  moreover have "\<forall>c \<in> set (switchCases v). caseFits (m_type xv) (fst c)" using fits keys by (metis image_eqI list.set_map)
  moreover have "successors v \<noteq> []" using sel(1) v(2) by auto
  ultimately show thesis using that [OF v(3) xv] keys d terminal_wt(1) [OF wt ac] by simp
qed

subsection \<open>The lowering of a switch\<close>

lemma caseKey_sort: "sort_key (\<lambda>c. sint (fst c)) cs = sort_key caseKey cs"
  by (simp add: caseKey_def [abs_def])

text \<open>
  What lowering a switch does to the procedure: its block goes where the switch went and executes
  nothing else than comparisons on the way; the blocks, the other values and their solutions stay.
\<close>

definition switchLowered :: "value_ptr \<Rightarrow> Value \<Rightarrow> block_ptr \<Rightarrow> Procedure \<Rightarrow> Procedure \<Rightarrow> bool" where
  "switchLowered i v b p p' \<longleftrightarrow>
     procInv p' \<and> wtStore (valuesOf p') \<and> m_blocks p' = m_blocks p \<and> valuesOf p' i = None \<and>
     (\<forall>j w. j \<noteq> i \<longrightarrow> valuesOf p j = Some w \<longrightarrow> valuesOf p' j = Some w) \<and>
     (\<forall>j w. valuesOf p j = None \<longrightarrow> valuesOf p' j = Some w \<longrightarrow> isLowered w) \<and>
     (\<forall>c. c \<noteq> b \<longrightarrow> c < length (m_heap p) \<longrightarrow> valuesIn p' c = valuesIn p c) \<and>
     (\<forall>env. solution (valuesOf p) env \<longrightarrow> (\<exists>env'. solution (valuesOf p') env' \<and> (\<forall>j \<in> dom (valuesOf p). env' j = env j))) \<and>
     (\<forall>env h. solution (valuesOf p') env \<longrightarrow>
        (\<exists>target is. observe env i v = Goto target \<and>
           runsTo p' env (b, h) (target, h @ butlast (valuesIn p b) @ is) \<and> silent p' env is))"

lemma switchLoweredI:
  assumes wt: "wtStore (valuesOf p)" and i: "valuesOf p i = Some v" "m_type v = Void"
    and x: "valuesOf p x = Some xv" "isInt (m_type xv)" "distinct (map fst (switchCases v))"
      "\<And>env. typeOf (env x) = m_type xv \<Longrightarrow> observe env i v = Goto (lookupCase (intOf (env x)) (switchCases v) (fallThrough v))"
    and p1: "valuesOf p1 = valuesOf p" "m_blocks p1 = m_blocks p" "length (m_heap p1) = length (m_heap p)"
      "valuesIn p1 b = butlast (valuesIn p b)" "\<And>c. c \<noteq> b \<Longrightarrow> valuesIn p1 c = valuesIn p c"
    and b: "builds b p1 p2" "selects b x (m_type xv) (inBounds cs 0 False (length cs)) (\<lambda>n. lookupCase n (caseSlice cs 0 (length cs)) (fallThrough v)) p1 p2"
    and cs: "cs = sort_key caseKey (switchCases v)"
    and q: "valuesOf q = (valuesOf p2)(i := None)" "procInv q" "m_blocks q = m_blocks p2" "\<And>c. valuesIn q c = valuesIn p2 c"
  shows "switchLowered i v b p q"
  unfolding switchLowered_def
proof (intro conjI allI impI)
  note G = growsD [OF buildsD(1) [OF b(1)]]
  have i2: "valuesOf p2 i = Some v" using G(7) i(1) p1(1) by simp
  show "procInv q" by (rule q(2))
  show "wtStore (valuesOf q)" unfolding q(1) by (rule wtStore_delete [OF G(2) i2 i(2)])
  show "m_blocks q = m_blocks p" using G(4) p1(2) q(3) by simp
  show "valuesOf q i = None" by (simp add: q(1))
  show "valuesOf q j = Some w" if "j \<noteq> i" "valuesOf p j = Some w" for j w using that G(7) p1(1) by (simp add: q(1))
  show "isLowered w" if "valuesOf p j = None" "valuesOf q j = Some w" for j w
    using that G(5) [of j w] p1(1) by (simp add: q(1) split: if_splits)
  show "valuesIn q c = valuesIn p c" if "c \<noteq> b" "c < length (m_heap p)" for c
    using builds_values [OF b(1), of c] that p1(3,5) q(4) by simp
  fix env
  show "\<exists>env'. solution (valuesOf q) env' \<and> (\<forall>j \<in> dom (valuesOf p). env' j = env j)" if "solution (valuesOf p) env"
    using G(6) [of env] that p1(1) unfolding q(1) solution_def by (metis fun_upd_apply option.distinct(1))
  fix h assume sol: "solution (valuesOf q) env"
  have "x \<noteq> i" using x(1,2) i by auto
  then have ty: "typeOf (env x) = m_type xv"
    using solutionD [OF sol, of x xv] G(7) x(1) p1(1) by (simp add: q(1) solves_def)
  have new: "valuesOf q j = valuesOf p2 j \<and> solves env j (the (valuesOf q j))" if "j \<in> added p1 p2" for j
  proof -
    have "j \<noteq> i" "valuesOf p2 j \<noteq> None" using that i(1) p1(1) by (auto simp: added_def)
    then show ?thesis using sol by (auto simp: q(1) solution_def)
  qed
  have k: "keeps b p1 p2 q" using new q(4) by (auto simp: keeps_def)
  have sol': "\<forall>j \<in> added p1 p2. solves env j (the (valuesOf q j))" using new by blast
  obtain "is" where "runsTo q env (b, h) (lookupCase (intOf (env x)) (caseSlice cs 0 (length cs)) (fallThrough v), h @ valuesIn p1 b @ is)"
      "silent q env is"
    by (rule selectsD [where env = env, OF b(2) k sol' ty]) (auto simp: inBounds_def)
  then show "\<exists>target is. observe env i v = Goto target \<and> runsTo q env (b, h) (target, h @ butlast (valuesIn p b) @ is) \<and> silent q env is"
    using x(4) [of env, OF ty] lookupCase_sort [OF x(3)] p1(4) by (auto simp: caseSlice_def cs)
qed

text \<open>How the result is built, for what it does to the shape of the procedure.\<close>

definition switchBuilt :: "value_ptr \<Rightarrow> Value \<Rightarrow> LowerMacros \<Rightarrow> LowerMacros \<Rightarrow> Procedure \<Rightarrow> bool" where
  "switchBuilt i v lm lm2 q \<longleftrightarrow>
     (\<exists>p1 P. p1 = updateBlock (lm_block lm) (\<lambda>bb. bb\<lparr>bb_values := butlast (bb_values bb)\<rparr>) (lm_proc lm) \<and>
        built (lm_block lm) (lm\<lparr>lm_proc := p1\<rparr>) lm2 \<and> emits (lm_block lm) (fst ` set (successors v)) p1 (lm_proc lm2) \<and>
        q = setPreds P (deleteValue i (lm_proc lm2)) \<and>
        hg.updated (deleteValue i (lm_proc lm2)) (predsOf (deleteValue i (lm_proc lm2))) P)"

lemma lowerSwitch_lowers:
  assumes inv: "procInv (lm_proc lm)" "wtStore (valuesOf (lm_proc lm))" and blk: "block (lm_proc lm) (lm_block lm) \<noteq> None"
    and i: "valuesOf (lm_proc lm) (lm_value lm) = Some v" and sw: "lowerableSwitch (valuesOf (lm_proc lm)) v"
  obtains lm2 q where "lowerSwitch v lm = Some (lm2\<lparr>lm_proc := q, lm_changed := True\<rparr>)"
    "switchLowered (lm_value lm) v (lm_block lm) (lm_proc lm) q" "switchBuilt (lm_value lm) v lm lm2 q"
proof -
  let ?p = "lm_proc lm" and ?b = "lm_block lm" and ?i = "lm_value lm" and ?cs = "sort_key caseKey (switchCases v)"
  obtain x xv where v: "m_children v = [x]" "valuesOf ?p x = Some xv" "isInt (m_type xv)" "distinct (map fst (switchCases v))"
    "\<forall>c \<in> set (switchCases v). caseFits (m_type xv) (fst c)"
    "\<And>env i. typeOf (env x) = m_type xv \<Longrightarrow> observe env i v = Goto (lookupCase (intOf (env x)) (switchCases v) (fallThrough v))"
    "m_type v = Void" "successors v \<noteq> []"
    by (rule lowerable_shape [OF wtStoreD [OF inv(2) i] sw]) blast
  define p1 where "p1 = updateBlock ?b (\<lambda>bb. bb\<lparr>bb_values := butlast (bb_values bb)\<rparr>) ?p"
  have p1: "valuesOf p1 = valuesOf ?p" "m_blocks p1 = m_blocks ?p" "length (m_heap p1) = length (m_heap ?p)"
    "valuesIn p1 ?b = butlast (valuesIn ?p ?b)" "\<And>c. c \<noteq> ?b \<Longrightarrow> valuesIn p1 c = valuesIn ?p c"
    "procInv p1" "wtStore (valuesOf p1)" "block p1 ?b \<noteq> None"
    using inv blk by (auto simp: p1_def block_updateBlock valuesIn_def)
  have targets: "fst (snd c) \<in> fst ` set (successors v)" if "c \<in> set ?cs" for c
    using that set_zip_rightD [of "fst c" "snd c"] by (simp add: switchCases_def)
  have fall: "fst (fallThrough v) \<in> fst ` set (successors v)" unfolding fallThrough_def by (rule imageI, rule last_in_set) (rule v(8))
  obtain lm2 where 2: "recursivelyBuildSwitch (m_origin v) x (m_type xv) (fallThrough v) ?cs 0 False (length ?cs) ?b (lm\<lparr>lm_proc := p1\<rparr>) = Some lm2"
    "built ?b (lm\<lparr>lm_proc := p1\<rparr>) lm2" "selects ?b x (m_type xv) (inBounds ?cs 0 False (length ?cs))
      (\<lambda>n. lookupCase n (caseSlice ?cs 0 (length ?cs)) (fallThrough v)) p1 (lm_proc lm2)"
    "emits ?b (fst ` set (successors v)) p1 (lm_proc lm2)"
    using build_selects [OF sorted_cases [OF v(4)], of xv 0 "length ?cs" False "lm\<lparr>lm_proc := p1\<rparr>" ?b x "fst ` set (successors v)" "fallThrough v" "m_origin v"]
      v(2,3,5) p1 targets fall by auto
  have B: "builds ?b p1 (lm_proc lm2)" "lm_block lm2 = ?b" using builtD [OF 2(2)] by simp_all
  let ?p3 = "deleteValue ?i (lm_proc lm2)"
  have i2: "valuesOf (lm_proc lm2) ?i = Some v" using growsD(7) [OF buildsD(1) [OF B(1)]] i p1(1) by simp
  have blk3: "block ?p3 ?b \<noteq> None" using built_live [OF 2(2), of ?b] p1(8) by (simp add: block_def)
  obtain P where P: "lmUpdatePredecessorsAfter ?b (lm2\<lparr>lm_proc := ?p3\<rparr>) = Some (lm2\<lparr>lm_proc := setPreds P ?p3\<rparr>)"
      and upd: "hg.updated ?p3 (predsOf ?p3) P"
    using lmUpdatePredecessorsAfter_total [of "lm2\<lparr>lm_proc := ?p3\<rparr>" ?b] blk3 by auto
  have "switchLowered ?i v ?b ?p (setPreds P ?p3)"
  proof (rule switchLoweredI [OF inv(2) i v(7) v(2-4) v(6) p1(1-5) B(1) 2(3) refl])
    show "valuesOf (setPreds P ?p3) = (valuesOf (lm_proc lm2))(?i := None)" by (simp add: valuesOf_deleteValue)
    show "procInv (setPreds P ?p3)" using procInv_deleteValue [OF growsD(1) [OF buildsD(1) [OF B(1)]]] i2 by simp
  qed (simp_all add: valuesIn_def block_def)
  moreover have "switchBuilt ?i v lm lm2 (setPreds P ?p3)" unfolding switchBuilt_def using p1_def 2(2,4) upd by blast
  ultimately show thesis
    by (rule that [rotated]) (use 2(1) P B(2) in \<open>simp add: lowerSwitch_def v(1,2) caseKey_sort p1_def\<close>)
qed

end
