(* ===== verification/B3SplitBlock.thy ===== *)
theory B3SplitBlock
  imports B3Grow
begin

text \<open>
  What \<open>splitForward\<close> of b3/B3BlockInsertionSet.cpp does: the values in front of the split, with the
  pending insertions, move to a new block that jumps to the rest, and every predecessor goes to the
  new block.
\<close>

lemma setSuccessors_twice [simp]: "setSuccessors ss (setSuccessors ss' v) = setSuccessors ss v"
  by (cases "m_payload v") (simp_all add: setSuccessors_def)

lemma replaceSuccessor_simps [simp]:
  "m_opcode (replaceSuccessor b r v) = m_opcode v" "m_type (replaceSuccessor b r v) = m_type v"
  "m_children (replaceSuccessor b r v) = m_children v"
  "successors (replaceSuccessor b r v) = map (\<lambda>(c, f). (if c = b then r else c, f)) (successors v)"
  by (auto simp: replaceSuccessor_def)

lemma replaceSuccessor_twice: "b \<noteq> r \<Longrightarrow> replaceSuccessor b r (replaceSuccessor b r v) = replaceSuccessor b r v"
proof -
  assume "b \<noteq> r"
  then have "map (\<lambda>(c, f). if c = b then (r, f) else (c, f)) (map (\<lambda>(c, f). if c = b then (r, f) else (c, f)) ss)
      = map (\<lambda>(c, f). if c = b then (r, f) else (c, f)) ss" for ss :: "FrequentedBlock list"
    by auto
  then show ?thesis by (simp only: replaceSuccessor_def setSuccessors_simps setSuccessors_twice)
qed

lemma replaceSuccessor_wt:
  "wtValue s v \<Longrightarrow> acceptsControl (m_opcode v) \<Longrightarrow> wtValue s (replaceSuccessor b r v)"
  by (simp add: replaceSuccessor_def terminal_wt(2))

definition redirected :: "block_ptr \<Rightarrow> block_ptr \<Rightarrow> value_ptr set \<Rightarrow> store \<Rightarrow> store" where
  "redirected b r T s j = (if j \<in> T then map_option (replaceSuccessor b r) (s j) else s j)"

lemma replaceSuccessors_spec:
  assumes "procInv p" "b \<noteq> r" "\<forall>c \<in> set cs. endsInTerminal p c"
  shows "\<exists>p'. foldM (replaceSuccessorOf b r) cs p = Some p' \<and> procInv p' \<and> m_heap p' = m_heap p \<and> m_blocks p' = m_blocks p \<and>
    valuesOf p' = redirected b r ((\<lambda>c. last (valuesIn p c)) ` set cs) (valuesOf p)"
  using assms
proof (induction cs arbitrary: p)
  case Nil
  then show ?case by (simp add: redirected_def [abs_def])
next
  case (Cons c cs)
  let ?t = "last (valuesIn p c)"
  obtain v where v: "valuesIn p c \<noteq> []" "valuesOf p ?t = Some v" "acceptsControl (m_opcode v)"
    using Cons.prems(3) by (auto simp: endsInTerminal_iff)
  define q where "q = setTerminal c (replaceSuccessor b r v) p"
  have 1: "replaceSuccessorOf b r c p = Some q"
    using v by (simp add: replaceSuccessorOf_def terminalOf_def lastValue_def q_def)
  have q: "procInv q" "valuesOf q = (valuesOf p)(?t \<mapsto> replaceSuccessor b r v)" "m_heap q = m_heap p" "m_blocks q = m_blocks p"
    "\<And>d. valuesIn q d = valuesIn p d"
    using setTerminal_values [OF Cons.prems(1)] v by (auto simp: q_def setTerminal_def valuesIn_def block_def)
  have "\<forall>d \<in> set cs. endsInTerminal q d"
    using Cons.prems(3) v by (auto simp: endsInTerminal_iff q(2,5))
  from Cons.IH [OF q(1) Cons.prems(2) this] obtain p' where
    p': "foldM (replaceSuccessorOf b r) cs q = Some p'" "procInv p'" "m_heap p' = m_heap q" "m_blocks p' = m_blocks q"
      "valuesOf p' = redirected b r ((\<lambda>c. last (valuesIn q c)) ` set cs) (valuesOf q)" by blast
  have "valuesOf p' = redirected b r ((\<lambda>c. last (valuesIn p c)) ` set (c # cs)) (valuesOf p)"
    unfolding p'(5) using v(2) replaceSuccessor_twice [OF Cons.prems(2)]
    by (auto simp: redirected_def fun_eq_iff q(2,5))
  then show ?case using 1 p' q by simp
qed

lemma spliced_append1:
  assumes "\<forall>q \<in> set ins. fst q \<le> length t"
  shows "spliced (t @ [y]) ins = spliced t ins @ [y]"
proof -
  have none: "filter (\<lambda>p. fst p = Suc (length t)) ins = []" using assms by (auto simp: filter_empty_conv)
  then show ?thesis by (simp add: spliced_def) (intro arg_cong [of _ _ concat] map_cong, auto)
qed

definition splitResult ::
    "block_ptr \<Rightarrow> nat \<Rightarrow> Insertion list \<Rightarrow> block_ptr \<Rightarrow> value_ptr \<Rightarrow> Procedure \<Rightarrow> Procedure \<Rightarrow> bool" where
  "splitResult b k ins r j p p' \<longleftrightarrow>
     procInv p' \<and> m_blocks p' = m_blocks p \<and> r = length (m_heap p) \<and> length (m_heap p') = Suc r \<and>
     valuesOf p j = None \<and>
     (\<exists>org. valuesOf p' = (redirected b r ((\<lambda>c. last (valuesIn p c)) ` set (predsOf p b)) (valuesOf p))(j \<mapsto> JumpValue org (b, Normal))) \<and>
     valuesIn p' r = spliced (take k (valuesIn p b)) ins @ [j] \<and> valuesIn p' b = drop k (valuesIn p b) \<and>
     (\<forall>c. c \<noteq> r \<longrightarrow> c \<noteq> b \<longrightarrow> block p' c = block p c) \<and>
     predsOf p' r = predsOf p b \<and> predsOf p' b = [r] \<and>
     map_option bb_index (block p' b) = map_option bb_index (block p b) \<and> block p' r \<noteq> None"

text \<open>The procedure in which the predecessors still go to the old block.\<close>

lemma splitForward_moves:
  assumes inv: "procInv p" and bb: "block p b = Some bb" and k: "at (valuesIn p b) k = Some i" "valuesOf p i = Some v"
    and ins: "\<forall>q \<in> set ins. fst q \<le> k"
  defines "r \<equiv> length (m_heap p)"
  obtains p8 j where "splitForward b k ins PNaN (p, bs) =
      do { p' \<leftarrow> foldM (replaceSuccessorOf b r) (predsOf p b) p8; Some (r, p', bs @ [(bb_index bb, r)]) }"
    "b \<noteq> r" "valuesOf p j = None" "valuesOf p8 = (valuesOf p)(j \<mapsto> JumpValue (m_origin v) (b, Normal))" "procInv p8" "m_blocks p8 = m_blocks p"
    "length (m_heap p8) = Suc r" "valuesIn p8 b = drop k (valuesIn p b)" "valuesIn p8 r = spliced (take k (valuesIn p b)) ins @ [j]"
    "\<And>c. c \<noteq> b \<Longrightarrow> c \<noteq> r \<Longrightarrow> block p8 c = block p c" "predsOf p8 r = predsOf p b" "predsOf p8 b = [r]"
    "map_option bb_index (block p8 b) = Some (bb_index bb)" "block p8 r \<noteq> None"
proof -
  have kl: "k < length (valuesIn p b)" using k(1) by (simp add: at_Some_iff)
  have br: "b \<noteq> r" using block_bound bb by (fastforce simp: r_def)
  obtain p1 where 1: "insertBlock (bb_index bb) (bb_frequency bb) (p, bs) = (r, p1, bs @ [(bb_index bb, r)])"
    and b1: "\<And>c. block p1 c = (if c = r then Some (mkBasicBlock UINT_MAX (bb_frequency bb)) else block p c)"
    and h1: "length (m_heap p1) = Suc r" "valuesOf p1 = valuesOf p" "procInv p1" "m_blocks p1 = m_blocks p"
    using inv by (auto simp: r_def insertBlock_def Let_def block_def at_def nth_append)
  obtain j p2 where 2: "add (JumpValue (m_origin v) (b, Normal)) p1 = (j, p2)" by fastforce
  note a = add_fresh [OF h1(3) 2] add_blocks [OF 2]
  have b2: "block p2 c = block p1 c" for c using a(4) by (simp add: block_def)
  define p3 where "p3 = updateBlock r (\<lambda>bb. bb\<lparr>bb_values := take k (valuesIn p2 b) @ [j]\<rparr>) p2"
  define p4 where "p4 = executeInsertionSet ins r p3"
  define p5 where "p5 = updateBlock b (\<lambda>bb. bb\<lparr>bb_values := drop k (bb_values bb)\<rparr>) p4"
  define p8 where "p8 = addPredecessorTo b r (updateBlock b (\<lambda>bb. bb\<lparr>bb_predecessors := []\<rparr>)
      (updateBlock r (\<lambda>bb. bb\<lparr>bb_predecessors := predsOf p5 b\<rparr>) p5))"
  have vb2: "valuesIn p2 b = valuesIn p b" using b2 b1 br by (simp add: valuesIn_def)
  have blk3: "block p3 r \<noteq> None" and v3: "valuesIn p3 r = take k (valuesIn p b) @ [j]"
    using b2 b1 vb2 by (simp_all add: p3_def block_updateBlock valuesIn_def)
  have "\<forall>(n, _) \<in> set ins. n \<le> length (valuesIn p3 r)" using ins v3 kl by fastforce
  then have "valuesIn p4 r = spliced (take k (valuesIn p b) @ [j]) ins"
    using executeInsertionSet_values [OF blk3, of ins] v3 by (simp add: p4_def)
  then have v4: "valuesIn p4 r = spliced (take k (valuesIn p b)) ins @ [j]" using spliced_append1 [of ins] ins kl by simp
  have b5: "block p5 c = (if c = b then Some (bb\<lparr>bb_values := drop k (bb_values bb)\<rparr>) else if c = r then block p4 r else block p c)" for c
    using b2 b1 bb br by (auto simp: p5_def p4_def p3_def executeInsertionSet_def block_updateBlock)
  have blk4: "block p4 r \<noteq> None" using blk3 by (simp add: p4_def executeInsertionSet_def block_updateBlock)
  have pr5: "predsOf p5 b = predsOf p b" using b5 bb by (simp add: predsOf_def)
  have b8: "block p8 c = (if c = b then Some (bb\<lparr>bb_values := drop k (bb_values bb), bb_predecessors := [r]\<rparr>)
      else if c = r then map_option (\<lambda>bb. bb\<lparr>bb_predecessors := predsOf p b\<rparr>) (block p4 r) else block p c)" for c
    using b5 br by (simp add: p8_def addPredecessorTo_def block_updateBlock addPredecessor_def pr5)
  have vals8: "valuesOf p8 = (valuesOf p)(j \<mapsto> JumpValue (m_origin v) (b, Normal))" "procInv p8" "m_blocks p8 = m_blocks p" "length (m_heap p8) = Suc r"
    using a h1 by (simp_all add: p8_def p5_def p4_def p3_def executeInsertionSet_def addPredecessorTo_def)
  have v8: "valuesIn p8 b = drop k (valuesIn p b)" "valuesIn p8 r = spliced (take k (valuesIn p b)) ins @ [j]"
    using b8 bb br blk4 v4 by (auto simp: valuesIn_def)
  have "splitForward b k ins PNaN (p, bs) = do { p' \<leftarrow> foldM (replaceSuccessorOf b r) (predsOf p b) p8; Some (r, p', bs @ [(bb_index bb, r)]) }"
    using k bb 1 2 by (simp add: splitForward_def insertBefore_def p3_def [symmetric] p4_def [symmetric] p5_def [symmetric] Let_def p8_def pr5)
  moreover have "valuesOf p j = None" using a(1) h1(2) by simp
  ultimately show thesis
    by (rule that [OF _ br _ vals8 v8(1,2)]) (use b8 bb br blk4 in \<open>auto simp: predsOf_def\<close>)
qed

lemma splitForward_spec:
  assumes inv: "procInv p" and bb: "block p b = Some bb" and k: "at (valuesIn p b) k = Some i" "valuesOf p i \<noteq> None"
    and preds: "\<forall>c \<in> set (predsOf p b). endsInTerminal p c" and ins: "\<forall>q \<in> set ins. fst q \<le> k"
  defines "r \<equiv> length (m_heap p)"
  obtains p' j where "splitForward b k ins PNaN (p, bs) = Some (r, p', bs @ [(bb_index bb, r)])" "splitResult b k ins r j p p'"
proof -
  obtain v where v: "valuesOf p i = Some v" using k(2) by blast
  obtain p8 j where e: "splitForward b k ins PNaN (p, bs) =
      do { p' \<leftarrow> foldM (replaceSuccessorOf b r) (predsOf p b) p8; Some (r, p', bs @ [(bb_index bb, r)]) }"
    and br: "b \<noteq> r" and j: "valuesOf p j = None" and vals: "valuesOf p8 = (valuesOf p)(j \<mapsto> JumpValue (m_origin v) (b, Normal))" "procInv p8"
    and h: "m_blocks p8 = m_blocks p" "length (m_heap p8) = Suc r"
    and vin: "valuesIn p8 b = drop k (valuesIn p b)" "valuesIn p8 r = spliced (take k (valuesIn p b)) ins @ [j]"
    and same: "\<And>c. c \<noteq> b \<Longrightarrow> c \<noteq> r \<Longrightarrow> block p8 c = block p c"
    and preds8: "predsOf p8 r = predsOf p b" "predsOf p8 b = [r]" "map_option bb_index (block p8 b) = Some (bb_index bb)" "block p8 r \<noteq> None"
    unfolding r_def by (rule splitForward_moves [OF inv bb k(1) v ins]) blast
  have last8: "last (valuesIn p8 c) = last (valuesIn p c) \<and> endsInTerminal p8 c" if "c \<in> set (predsOf p b)" for c
  proof -
    have t: "endsInTerminal p c" using preds that by blast
    then have "c \<noteq> r" using block_bound [of p c] by (auto simp: r_def endsInTerminal_iff valuesIn_def split: option.splits)
    then have "valuesIn p8 c \<noteq> [] \<and> last (valuesIn p8 c) = last (valuesIn p c)"
      using vin(1) same [of c] t k(1) by (cases "c = b") (simp_all add: endsInTerminal_iff last_drop at_Some_iff valuesIn_def)
    then show ?thesis using t j by (auto simp: endsInTerminal_iff vals(1))
  qed
  from replaceSuccessors_spec [OF vals(2) br] last8 obtain p' where
    p': "foldM (replaceSuccessorOf b r) (predsOf p b) p8 = Some p'" "procInv p'" "m_heap p' = m_heap p8" "m_blocks p' = m_blocks p8"
      "valuesOf p' = redirected b r ((\<lambda>c. last (valuesIn p8 c)) ` set (predsOf p b)) (valuesOf p8)" by blast
  have T: "(\<lambda>c. last (valuesIn p8 c)) ` set (predsOf p b) = (\<lambda>c. last (valuesIn p c)) ` set (predsOf p b)" (is "_ = ?T")
    using last8 by (intro image_cong) auto
  have "j \<notin> ?T" using preds j by (auto simp: endsInTerminal_iff)
  then have "valuesOf p' = (redirected b r ?T (valuesOf p))(j \<mapsto> JumpValue (m_origin v) (b, Normal))"
    unfolding p'(5) T vals(1) by (auto simp: redirected_def fun_eq_iff)
  moreover have "block p' c = block p8 c" for c using p'(3) by (simp add: block_def)
  ultimately have "splitResult b k ins r j p p'"
    using p'(2-4) h vin same preds8 bb j unfolding splitResult_def by (auto simp: valuesIn_def predsOf_def r_def)
  then show thesis using that e p'(1) by simp
qed

end
