(* ===== verification/B3LowerChillDiv.thy ===== *)
theory B3LowerChillDiv
  imports B3SplitBlock B3LowerSwitch
begin

text \<open>
  The correctness of the code that \<open>lowerChillDiv\<close> emits: whatever the operands, it reaches the rest of
  the block after setting the phi once, to the value of the \<open>ChillDiv\<close>.
\<close>

subsection \<open>The four cases\<close>

lemma above_one: "1 < LENGTH('a) \<Longrightarrow> 1 < (d :: 'a::len word) + 1 \<longleftrightarrow> d \<noteq> 0 \<and> d \<noteq> - 1"
proof -
  assume "1 < LENGTH('a)"
  then have one: "unat (1 :: 'a word) = 1" by simp
  have "1 < w \<longleftrightarrow> w \<noteq> 0 \<and> w \<noteq> 1" for w :: "'a word"
  proof -
    have "1 < w \<longleftrightarrow> 1 < unat w" by (simp only: word_less_nat_alt one)
    also have "\<dots> \<longleftrightarrow> unat w \<noteq> unat (0 :: 'a word) \<and> unat w \<noteq> unat (1 :: 'a word)" by (simp only: one unat_0) auto
    finally show ?thesis by (simp only: word_unat_eq_iff)
  qed
  from this [of "d + 1"] show ?thesis by (metis add.commute add_cancel_right_left add_eq_0_iff2)
qed

lemma chillQuotient_cases:
  fixes num den :: "'a::len word"
  shows "den = 0 \<Longrightarrow> chillQuotient num den = 0"
    "den = - 1 \<Longrightarrow> sint num = smin TYPE('a) \<Longrightarrow> chillQuotient num den = num"
    "den \<noteq> 0 \<Longrightarrow> \<not> (den = - 1 \<and> sint num = smin TYPE('a)) \<Longrightarrow> sdivDefined num den \<and> chillQuotient num den = word_of_int (sint num sdiv sint den)"
  using chillQuotient_min [of num] by (auto simp: sdivDefined_def chillQuotient_def)

lemma smin_word: "sint (word_of_int (smin TYPE('a)) :: 'a::len word) = smin TYPE('a)"
  unfolding sint_sbintrunc' by (rule signed_take_bit_int_eq_self) (simp_all add: smin_def)

lemma smin_num: "(num :: 'a::len word) = word_of_int (smin TYPE('a)) \<longleftrightarrow> sint num = smin TYPE('a)"
  using smin_word [where 'a = 'a] sint_inject by metis

lemma smin_trunc: "(ucast (word_of_int (smin TYPE(32)) :: int64) :: int32) = word_of_int (smin TYPE(32))"
  by (simp add: smin_def)

lemma chill_values:
  assumes ty: "typeOf a = type" "typeOf d = type" "isInt type"
    and one: "intConstant org type 1 = Some onev" "allows (evalValue env onev) one"
    and next1: "allows (evalOp Add NoPayload [d, one]) next1" and ok: "allows (evalOp Above NoPayload [next1, one]) ok"
    and zero: "intConstant org type 0 = Some zerov" "allows (evalValue env zerov) zero"
    and bad: "badNumeratorConst type = Some bc" "intConstant org type bc = Some badv" "allows (evalValue env badv) bad"
    and isBad: "allows (evalOp Equal NoPayload [a, bad]) isBad" and q: "allows (evalOp Div NoPayload [a, d]) q"
  shows "evalOp ChillDiv pl [a, d] = Exactly (if truthy ok then q else if truthy d then if truthy isBad then bad else q else zero)"
proof (cases a)
  case (V32 num)
  then obtain den where d: "d = V32 den" using ty typeOf_cases(1) [of d] by auto
  have t: "type = Int32" using ty V32 by simp
  have c: "one = V32 1" "zero = V32 0" "bad = V32 (word_of_int (smin TYPE(32)))"
    using one zero bad t by (auto simp: intConstant_def badNumeratorConst_def evalValue_def mk_defs smin_trunc)
  have "next1 = V32 (den + 1)" using next1 c d by (simp add: op_defs)
  then have "ok = V32 (if den \<noteq> 0 \<and> den \<noteq> - 1 then 1 else 0)" using ok c by (simp add: op_defs rbool_def above_one)
  moreover have "isBad = V32 (if sint num = smin TYPE(32) then 1 else 0)"
    using isBad c V32 by (simp add: op_defs rbool_def smin_num)
  moreover have "q = V32 (word_of_int (sint num sdiv sint den))" if "sdivDefined num den" using q V32 d that by (simp add: op_defs)
  ultimately show ?thesis using chillQuotient_cases [of den num] V32 d c by (auto simp: op_defs smin_num)
next
  case (V64 num)
  then obtain den where d: "d = V64 den" using ty typeOf_cases(2) [of d] by auto
  have t: "type = Int64" using ty V64 by simp
  have c: "one = V64 1" "zero = V64 0" "bad = V64 (word_of_int (smin TYPE(64)))"
    using one zero bad t by (auto simp: intConstant_def badNumeratorConst_def evalValue_def mk_defs)
  have "next1 = V64 (den + 1)" using next1 c d by (simp add: op_defs)
  then have "ok = V32 (if den \<noteq> 0 \<and> den \<noteq> - 1 then 1 else 0)" using ok c by (simp add: op_defs rbool_def above_one)
  moreover have "isBad = V32 (if sint num = smin TYPE(64) then 1 else 0)"
    using isBad c V64 by (simp add: op_defs rbool_def smin_num)
  moreover have "q = V64 (word_of_int (sint num sdiv sint den))" if "sdivDefined num den" using q V64 d that by (simp add: op_defs)
  ultimately show ?thesis using chillQuotient_cases [of den num] V64 d c by (auto simp: op_defs smin_num)
qed (use ty in auto)

subsection \<open>The emitted code\<close>

text \<open>The blocks and values that stand for \<open>ChillDiv(num, den)\<close> in a procedure.\<close>

record ChillCode =
  cc_one :: value_ptr
  cc_sum :: value_ptr
  cc_ok :: value_ptr
  cc_quotient :: value_ptr
  cc_zero :: value_ptr
  cc_bad :: value_ptr
  cc_isBad :: value_ptr
  cc_normalResult :: value_ptr
  cc_zeroResult :: value_ptr
  cc_intMinResult :: value_ptr
  cc_phi :: value_ptr

definition chillValues :: "nat \<Rightarrow> b3type \<Rightarrow> value_ptr \<Rightarrow> value_ptr \<Rightarrow> ChillCode \<Rightarrow> store \<Rightarrow> bool" where
  "chillValues org type num den cc s \<longleftrightarrow>
     s (cc_one cc) \<noteq> None \<and> s (cc_one cc) = intConstant org type 1 \<and>
     s (cc_sum cc) = Some (mkValue Add type org [den, cc_one cc] NoPayload) \<and>
     s (cc_ok cc) = Some (mkValue Above Int32 org [cc_sum cc, cc_one cc] NoPayload) \<and>
     s (cc_quotient cc) = Some (mkValue Div type org [num, den] NoPayload) \<and>
     s (cc_zero cc) \<noteq> None \<and> s (cc_zero cc) = intConstant org type 0 \<and>
     s (cc_bad cc) \<noteq> None \<and> s (cc_bad cc) = Option.bind (badNumeratorConst type) (intConstant org type) \<and>
     s (cc_isBad cc) = Some (mkValue Equal Int32 org [num, cc_bad cc] NoPayload) \<and>
     s (cc_normalResult cc) = Some (UpsilonValue org (cc_quotient cc) (Some (cc_phi cc))) \<and>
     s (cc_zeroResult cc) = Some (UpsilonValue org (cc_zero cc) (Some (cc_phi cc))) \<and>
     s (cc_intMinResult cc) = Some (UpsilonValue org (cc_bad cc) (Some (cc_phi cc))) \<and>
     s (cc_phi cc) = Some (mkValue Phi type org [] NoPayload)"

definition branchBlock :: "Procedure \<Rightarrow> block_ptr \<Rightarrow> value_ptr list \<Rightarrow> value_ptr \<Rightarrow> block_ptr \<Rightarrow> block_ptr \<Rightarrow> bool" where
  "branchBlock q b body x yes no \<longleftrightarrow>
     (\<exists>t org f g. valuesIn q b = body @ [t] \<and> valuesOf q t = Some (BranchValue org x (yes, f) (no, g)))"

definition jumpBlock :: "Procedure \<Rightarrow> block_ptr \<Rightarrow> value_ptr list \<Rightarrow> block_ptr \<Rightarrow> bool" where
  "jumpBlock q b body target \<longleftrightarrow>
     (\<exists>t org f. valuesIn q b = body @ [t] \<and> valuesOf q t = Some (JumpValue org (target, f)))"

text \<open>The new blocks follow each other on the heap: the block in front, then the normal, shady, zero, minus one and minimum cases.\<close>

definition chillBlocks :: "block_ptr \<Rightarrow> block_ptr \<Rightarrow> value_ptr list \<Rightarrow> value_ptr \<Rightarrow> ChillCode \<Rightarrow> Procedure \<Rightarrow> bool" where
  "chillBlocks b r front den cc q \<longleftrightarrow>
     branchBlock q r (front @ [cc_one cc, cc_sum cc, cc_ok cc]) (cc_ok cc) (r + 1) (r + 2) \<and>
     jumpBlock q (r + 1) [cc_quotient cc, cc_normalResult cc] b \<and>
     branchBlock q (r + 2) [] den (r + 4) (r + 3) \<and>
     jumpBlock q (r + 3) [cc_zero cc, cc_zeroResult cc] b \<and>
     branchBlock q (r + 4) [cc_bad cc, cc_isBad cc] (cc_isBad cc) (r + 5) (r + 1) \<and>
     jumpBlock q (r + 5) [cc_intMinResult cc] b"

lemma branchBlock_step:
  "branchBlock q b body x yes no \<Longrightarrow> stepBlock q (\<lambda>_. env) (b, h) = Inl (if truthy (env x) then yes else no, h @ body)"
  by (auto simp: branchBlock_def stepBlock_def lastValue_def observe_def mk_defs args_def successors_def butlast_append)

lemma jumpBlock_step: "jumpBlock q b body target \<Longrightarrow> stepBlock q (\<lambda>_. env) (b, h) = Inl (target, h @ body)"
  by (auto simp: jumpBlock_def stepBlock_def lastValue_def observe_def mk_defs args_def successors_def butlast_append)

definition observed :: "Procedure \<Rightarrow> env \<Rightarrow> value_ptr list \<Rightarrow> obs list" where
  "observed q env is = filter (\<lambda>ob. ob \<noteq> Silent) (map (\<lambda>i. observe env i (the (valuesOf q i))) is)"

lemma chill_observed:
  assumes "chillValues org type num den cc (valuesOf q)" "isInt type"
  shows "observed q env [cc_one cc, cc_sum cc, cc_ok cc] = []" "observed q env [cc_bad cc, cc_isBad cc] = []"
    "observed q env [cc_quotient cc, cc_normalResult cc] = [SetPhi (Some (cc_phi cc)) [env (cc_quotient cc)]]"
    "observed q env [cc_zero cc, cc_zeroResult cc] = [SetPhi (Some (cc_phi cc)) [env (cc_zero cc)]]"
    "observed q env [cc_intMinResult cc] = [SetPhi (Some (cc_phi cc)) [env (cc_bad cc)]]"
  using assms
  by (cases type; auto simp: chillValues_def observed_def observe_def mk_defs intConstant_def badNumeratorConst_def upsilonPhi_def args_def; fail)+

lemma observed_append: "observed q env (xs @ ys) = observed q env xs @ observed q env ys"
  by (simp add: observed_def)

lemma chill_result:
  assumes cv: "chillValues org type num den cc s" and int: "isInt type" and sol: "solution s env"
    and ty: "typeOf (env num) = type" "typeOf (env den) = type"
  shows "evalOp ChillDiv pl [env num, env den] = Exactly (if truthy (env (cc_ok cc)) then env (cc_quotient cc)
    else if truthy (env den) then if truthy (env (cc_isBad cc)) then env (cc_bad cc) else env (cc_quotient cc) else env (cc_zero cc))"
proof -
  obtain onev zerov badv where v: "s (cc_one cc) = Some onev" "intConstant org type 1 = Some onev"
      "s (cc_zero cc) = Some zerov" "intConstant org type 0 = Some zerov"
      "s (cc_bad cc) = Some badv" "Option.bind (badNumeratorConst type) (intConstant org type) = Some badv"
    using cv by (auto simp: chillValues_def)
  then obtain bc where bc: "badNumeratorConst type = Some bc" "intConstant org type bc = Some badv"
    by (cases "badNumeratorConst type") simp_all
  have e: "allows (evalValue env w) (env i)" if "s i = Some w" for i w using solutionD [OF sol that] by (simp add: solves_def)
  have ops: "allows (evalOp Add NoPayload [env den, env (cc_one cc)]) (env (cc_sum cc))"
      "allows (evalOp Above NoPayload [env (cc_sum cc), env (cc_one cc)]) (env (cc_ok cc))"
      "allows (evalOp Equal NoPayload [env num, env (cc_bad cc)]) (env (cc_isBad cc))"
      "allows (evalOp Div NoPayload [env num, env den]) (env (cc_quotient cc))"
    using cv e [of "cc_sum cc"] e [of "cc_ok cc"] e [of "cc_isBad cc"] e [of "cc_quotient cc"]
    by (simp_all add: chillValues_def evalValue_def mkValue_def args_def)
  show ?thesis by (rule chill_values [OF ty int v(2) e [OF v(1)] ops(1,2) v(4) e [OF v(3)] bc e [OF v(5)] ops(3,4)])
qed

text \<open>From the block in front of the division, execution reaches the rest of the block with the phi set to the result.\<close>

theorem chill_runs:
  assumes cv: "chillValues org type num den cc (valuesOf q)" and cb: "chillBlocks b r front den cc q"
    and int: "isInt type" and sol: "solution (valuesOf q) env" and ty: "typeOf (env num) = type" "typeOf (env den) = type"
  shows "\<exists>is x. runsTo q env (r, h) (b, h @ front @ is) \<and> observed q env is = [SetPhi (Some (cc_phi cc)) [x]] \<and>
    evalOp ChillDiv pl [env num, env den] = Exactly x"
proof -
  note blocks = cb [unfolded chillBlocks_def]
  have step: "stepBlock q (\<lambda>_. env) (r, h) = Inl (if truthy (env (cc_ok cc)) then r + 1 else r + 2, h @ front @ [cc_one cc, cc_sum cc, cc_ok cc])"
      "\<And>h. stepBlock q (\<lambda>_. env) (r + 1, h) = Inl (b, h @ [cc_quotient cc, cc_normalResult cc])"
      "\<And>h. stepBlock q (\<lambda>_. env) (r + 2, h) = Inl (if truthy (env den) then r + 4 else r + 3, h)"
      "\<And>h. stepBlock q (\<lambda>_. env) (r + 3, h) = Inl (b, h @ [cc_zero cc, cc_zeroResult cc])"
      "\<And>h. stepBlock q (\<lambda>_. env) (r + 4, h) = Inl (if truthy (env (cc_isBad cc)) then r + 5 else r + 1, h @ [cc_bad cc, cc_isBad cc])"
      "\<And>h. stepBlock q (\<lambda>_. env) (r + 5, h) = Inl (b, h @ [cc_intMinResult cc])"
    using blocks branchBlock_step jumpBlock_step by fastforce+
  note ob = chill_observed [OF cv int, of env]
  let ?test = "[cc_one cc, cc_sum cc, cc_ok cc]" and ?isBad = "[cc_bad cc, cc_isBad cc]"
  let ?is = "?test @ (if truthy (env (cc_ok cc)) then [cc_quotient cc, cc_normalResult cc]
      else if truthy (env den) then ?isBad @ (if truthy (env (cc_isBad cc)) then [cc_intMinResult cc] else [cc_quotient cc, cc_normalResult cc])
      else [cc_zero cc, cc_zeroResult cc])"
  have leaf: "runsTo q env (r + 1, k) (b, k @ [cc_quotient cc, cc_normalResult cc])" "runsTo q env (r + 3, k) (b, k @ [cc_zero cc, cc_zeroResult cc])"
      "runsTo q env (r + 5, k) (b, k @ [cc_intMinResult cc])" for k
    by (rule runsTo_step [OF step(2)] runsTo_step [OF step(4)] runsTo_step [OF step(6)], simp)+
  have minusOne: "runsTo q env (r + 4, k) (b, k @ ?isBad @ (if truthy (env (cc_isBad cc)) then [cc_intMinResult cc] else [cc_quotient cc, cc_normalResult cc]))" for k
    by (rule runsTo_step [OF step(5)]) (use leaf(1,3) [of "k @ ?isBad"] in simp)
  have shady: "runsTo q env (r + 2, k) (b, k @ (if truthy (env den)
      then ?isBad @ (if truthy (env (cc_isBad cc)) then [cc_intMinResult cc] else [cc_quotient cc, cc_normalResult cc])
      else [cc_zero cc, cc_zeroResult cc]))" for k
    by (rule runsTo_step [OF step(3)]) (use leaf(2) [of k] minusOne [of k] in simp)
  have "runsTo q env (r, h) (b, h @ front @ ?is)"
    by (rule runsTo_step [OF step(1)]) (use leaf(1) [of "h @ front @ ?test"] shady [of "h @ front @ ?test"] in simp)
  moreover have "observed q env ?is = [SetPhi (Some (cc_phi cc)) [if truthy (env (cc_ok cc)) then env (cc_quotient cc)
      else if truthy (env den) then if truthy (env (cc_isBad cc)) then env (cc_bad cc) else env (cc_quotient cc) else env (cc_zero cc)]]"
    by (simp only: observed_append ob if_distrib [of "observed q env"] append_Nil split: if_splits) simp
  ultimately show ?thesis using chill_result [OF cv int sol ty, of pl] by blast
qed

end
