(* ===== verification/B3ChillBuild.thy ===== *)
theory B3ChillBuild
  imports B3LowerChillDiv
begin

text \<open>Executing \<open>lowerChillDiv\<close> symbolically: the state after each of its operations.\<close>

subsection \<open>Single operations\<close>

definition appended :: "block_ptr \<Rightarrow> Value \<Rightarrow> value_ptr \<Rightarrow> Procedure \<Rightarrow> Procedure \<Rightarrow> bool" where
  "appended b v i p p' \<longleftrightarrow>
     procInv p' \<and> valuesOf p i = None \<and> valuesOf p' = (valuesOf p)(i \<mapsto> v) \<and> appends b [i] p p' \<and> m_blocks p' = m_blocks p"

lemma lmAppend_spec:
  assumes "procInv (lm_proc lm)"
  obtains i p' where "lmAppend b v lm = (i, lm\<lparr>lm_proc := p'\<rparr>)" "appended b v i (lm_proc lm) p'"
proof -
  obtain i q where q: "add v (lm_proc lm) = (i, q)" by fastforce
  note f = add_fresh [OF assms q] add_blocks [OF q]
  have "block q c = block (lm_proc lm) c" for c using f(4) by (simp add: block_def)
  then have "appended b v i (lm_proc lm) (appendValue b i q)"
    using f by (simp add: appended_def appends_def appendValue_def block_updateBlock)
  then show thesis using that q by (simp add: lmAppend_def appendNew_def)
qed

lemma lmAppendOp_append:
  "opValue (valuesOf (lm_proc lm)) opcode org cs = Some v \<Longrightarrow> lmAppendOp b opcode org cs lm = Some (lmAppend b v lm)"
  by (simp add: lmAppendOp_def)

lemma lmAppendIntConstant_append:
  "intConstant org type c = Some v \<Longrightarrow> lmAppendIntConstant b org type c lm = Some (lmAppend b v lm)"
  by (simp add: lmAppendIntConstant_def appendIntConstant_new lmAppend_def split: prod.splits)

lemma lmInsertBefore_spec:
  assumes "block (lm_proc lm) (lm_block lm) = Some bb"
  obtains p' where "lmInsertBefore (lm_block lm) lm = Some (length (m_heap (lm_proc lm)),
      lm\<lparr>lm_proc := p', lm_blockInsertions := lm_blockInsertions lm @ [(bb_index bb, length (m_heap (lm_proc lm)))]\<rparr>)"
    "valuesOf p' = valuesOf (lm_proc lm)" "procInv p' = procInv (lm_proc lm)" "m_blocks p' = m_blocks (lm_proc lm)"
    "length (m_heap p') = Suc (length (m_heap (lm_proc lm)))"
    "\<And>c. block p' c = (if c = length (m_heap (lm_proc lm)) then Some (mkBasicBlock UINT_MAX (bb_frequency bb)) else block (lm_proc lm) c)"
proof -
  obtain p' where i: "insertBlock (bb_index bb) (bb_frequency bb) (lm_proc lm, lm_blockInsertions lm) =
      (length (m_heap (lm_proc lm)), p', lm_blockInsertions lm @ [(bb_index bb, length (m_heap (lm_proc lm)))])"
    and p': "valuesOf p' = valuesOf (lm_proc lm)" "procInv p' = procInv (lm_proc lm)" "m_blocks p' = m_blocks (lm_proc lm)"
      "length (m_heap p') = Suc (length (m_heap (lm_proc lm)))"
      "\<And>c. block p' c = (if c = length (m_heap (lm_proc lm)) then Some (mkBasicBlock UINT_MAX (bb_frequency bb)) else block (lm_proc lm) c)"
    by (auto simp: insertBlock_def Let_def block_def at_def nth_append)
  show thesis by (rule that [OF _ p']) (simp add: lmInsertBefore_def insertBefore_def assms i)
qed

lemma replaceLastWithNew_spec:
  assumes inv: "procInv p" and r: "valuesIn p r = front @ [j]" "valuesOf p j \<noteq> None"
  obtains i p' where "replaceLastWithNew r w p = (i, p')" "procInv p'" "valuesOf p i = None" "valuesOf p' = (valuesOf p)(i \<mapsto> w, j := None)"
    "m_blocks p' = m_blocks p" "length (m_heap p') = length (m_heap p)"
    "\<And>c. block p' c = (if c = r then map_option (\<lambda>bb. bb\<lparr>bb_values := front @ [i]\<rparr>) (block p r) else block p c)"
proof -
  obtain i q where q: "add w p = (i, q)" by fastforce
  note f = add_fresh [OF inv q] add_blocks [OF q]
  have bq: "block q c = block p c" for c using f(4) by (simp add: block_def)
  then have vq: "valuesIn q r = front @ [j]" using r(1) by (simp add: valuesIn_def)
  have ij: "i \<noteq> j" using f(1) r(2) by auto
  let ?q1 = "updateBlock r (\<lambda>bb. bb\<lparr>bb_values := butlast (bb_values bb)\<rparr>) q"
  have rl: "removeLast r q = deleteValue j ?q1" using vq by (simp add: removeLast_def)
  have "procInv (removeLast r q)" unfolding rl using f r(2) by (intro procInv_deleteValue) (auto split: if_splits)
  moreover obtain bb where bb: "block p r = Some bb" "bb_values bb = front @ [j]"
    using r(1) by (auto simp: valuesIn_def split: option.splits)
  moreover have "block (deleteValue j p') c = block p' c" for p' c by (simp add: block_def)
  ultimately show thesis
    by (intro that [of i "appendValue r i (removeLast r q)"])
      (use q f ij bq in \<open>auto simp: replaceLastWithNew_def replaceLast_def rl appendValue_def valuesOf_deleteValue block_updateBlock\<close>)
qed

subsection \<open>The fork\<close>

text \<open>A \<open>ChillDiv\<close> that the validator accepts.\<close>

lemma chill_shape:
  assumes "wtValue s v" "m_opcode v = ChillDiv"
  obtains num den nv dv where "m_children v = [num, den]" "s num = Some nv" "s den = Some dv" "m_type nv = m_type v" "m_type dv = m_type v"
    "isInt (m_type v)"
proof -
  have "validateMath s v" "isInt (m_type v)" using assms by (simp_all add: wtValue_def validateTypes_def)
  then show thesis
    using that by (auto simp: validateMath_def numChildren_def childType_def child_def length_Suc_conv numeral_2_eq_2 split: option.splits)
qed

lemma lmInsert_spec:
  assumes "procInv (lm_proc lm)"
  obtains i p' where "lmInsert v lm = (i, lm\<lparr>lm_proc := p', lm_insertionSet := lm_insertionSet lm @ [(lm_index lm, i)]\<rparr>)"
    "add v (lm_proc lm) = (i, p')"
  by (cases "add v (lm_proc lm)") (simp add: lmInsert_def)

lemma math_wt:
  assumes "s a = Some av" "s b = Some bv" "m_type av = type" "m_type bv = type" "isInt type" "opcode \<in> {Add, Div}"
  shows "wtValue s (mkValue opcode type org [a, b] NoPayload)"
  using assms by (auto simp: wtValue_def mkValue_def payloadOK_def accepts_defs validateChildren_def validateTypes_def
      validateMath_def numChildren_def childType_def child_def isCheckMath_def isInt_def)

lemma above_wt:
  assumes "s a = Some av" "s b = Some bv" "m_type av = m_type bv" "isInt (m_type bv)"
  shows "wtValue s (mkValue Above Int32 org [a, b] NoPayload)"
  using assms by (auto simp: wtValue_def mkValue_def payloadOK_def accepts_defs validateChildren_def validateTypes_def
      validateCompare_def numChildren_def childType_def child_def childIsInt_def isCheckMath_def isInt_def)

lemma denominatorTest_spec:
  assumes inv: "procInv (lm_proc lm)" "wtStore (valuesOf (lm_proc lm))"
    and den: "valuesOf (lm_proc lm) den = Some dv" "m_type dv = m_type v" "isInt (m_type v)"
  obtains one sum0 ok p' where "denominatorTest v den lm = Some (ok, lm\<lparr>lm_proc := p',
      lm_insertionSet := lm_insertionSet lm @ [(lm_index lm, one), (lm_index lm, sum0), (lm_index lm, ok)]\<rparr>)"
    "grows (lm_proc lm) p'" "m_heap p' = m_heap (lm_proc lm)" "valuesOf p' one \<noteq> None" "valuesOf p' one = intConstant (m_origin v) (m_type v) 1"
    "valuesOf p' sum0 = Some (mkValue Add (m_type v) (m_origin v) [den, one] NoPayload)"
    "valuesOf p' ok = Some (mkValue Above Int32 (m_origin v) [sum0, one] NoPayload)"
    "{one, sum0, ok} \<inter> dom (valuesOf (lm_proc lm)) = {}"
proof -
  let ?p = "lm_proc lm" and ?ty = "m_type v" and ?org = "m_origin v"
  obtain kv where kv: "intConstant ?org ?ty 1 = Some kv" "m_type kv = ?ty" "wtValue (valuesOf ?p) kv" "isLowered kv"
    by (rule intConstant_int [OF den(3)])
  obtain one p1 where 1: "add kv ?p = (one, p1)" by fastforce
  note g1 = grows_add [OF inv kv(3,4) 1] add_fresh [OF inv(1) 1] add_blocks [OF 1]
  have s1: "valuesOf p1 one = Some kv" "valuesOf p1 den = Some dv" using g1(2,3) den(1) by auto
  let ?add = "mkValue Add ?ty ?org [den, one] NoPayload"
  obtain sum0 p2 where 2: "add ?add p1 = (sum0, p2)" by fastforce
  have "isLowered ?add" "wtValue (valuesOf p1) ?add" using math_wt [OF s1(2,1) den(2) kv(2) den(3)] by (simp_all add: isLowered_def mkValue_def)
  note g2 = grows_add [OF growsD(1,2) [OF g1(1)] this(2,1) 2] add_fresh [OF growsD(1) [OF g1(1)] 2] add_blocks [OF 2]
  have s2: "valuesOf p2 sum0 = Some ?add" "valuesOf p2 one = Some kv" using g2(2,3) s1 by auto
  let ?ab = "mkValue Above Int32 ?org [sum0, one] NoPayload"
  obtain ok p3 where 3: "add ?ab p2 = (ok, p3)" by fastforce
  have "isLowered ?ab" "wtValue (valuesOf p2) ?ab" using above_wt [of "valuesOf p2" sum0 ?add one kv] s2 kv(2) den(3) by (simp_all add: isLowered_def mkValue_def)
  note g3 = grows_add [OF growsD(1,2) [OF g2(1)] this(2,1) 3] add_fresh [OF growsD(1) [OF g2(1)] 3] add_blocks [OF 3]
  have op: "opValue (valuesOf p1) Add ?org [den, one] = Some ?add" "opValue (valuesOf p2) Above ?org [sum0, one] = Some ?ab"
    using s1 den(2) by (simp_all add: opValue_def typeFor_def)
  show thesis
  proof (rule that)
    show "denominatorTest v den lm = Some (ok, lm\<lparr>lm_proc := p3,
        lm_insertionSet := lm_insertionSet lm @ [(lm_index lm, one), (lm_index lm, sum0), (lm_index lm, ok)]\<rparr>)"
      using kv(1) 1 2 3 op by (simp add: denominatorTest_def lmInsertIntConstant_def lmInsert_def lmInsertOp_def)
    show "grows ?p p3" by (rule grows_trans [OF g1(1) grows_trans [OF g2(1) g3(1)]])
    show "m_heap p3 = m_heap ?p" using g1 g2 g3 by simp
    show "{one, sum0, ok} \<inter> dom (valuesOf ?p) = {}" using g1(2,3) g2(2,3) g3(2) by (auto split: if_splits)
    show "valuesOf p3 sum0 = Some ?add" "valuesOf p3 ok = Some ?ab" using growsD(7) [OF g3(1) s2(1)] g3(3) by simp_all
    show "valuesOf p3 one = intConstant ?org ?ty 1" "valuesOf p3 one \<noteq> None" using growsD(7) [OF g3(1) s2(2)] kv(1) by simp_all
  qed
qed

text \<open>Five empty blocks at the end of the heap.\<close>

definition freshBlocks :: "nat \<Rightarrow> Procedure \<Rightarrow> Procedure \<Rightarrow> bool" where
  "freshBlocks n p p' \<longleftrightarrow>
     valuesOf p' = valuesOf p \<and> procInv p' = procInv p \<and> m_blocks p' = m_blocks p \<and> length (m_heap p') = length (m_heap p) + n \<and>
     (\<forall>c < length (m_heap p). block p' c = block p c) \<and>
     (\<forall>c \<ge> length (m_heap p). c < length (m_heap p) + n \<longrightarrow> block p' c \<noteq> None \<and> valuesIn p' c = [] \<and> predsOf p' c = [])"

lemma freshBlocks_step:
  assumes f: "freshBlocks n p (lm_proc lm)" and b: "lm_block lm < length (m_heap p)" "block p (lm_block lm) = Some bb"
  obtains p' where "lmInsertBefore (lm_block lm) lm = Some (length (m_heap p) + n,
      lm\<lparr>lm_proc := p', lm_blockInsertions := lm_blockInsertions lm @ [(bb_index bb, length (m_heap p) + n)]\<rparr>)" "freshBlocks (Suc n) p p'"
proof -
  have bb: "block (lm_proc lm) (lm_block lm) = Some bb" and len: "length (m_heap (lm_proc lm)) = length (m_heap p) + n"
    using f b by (simp_all add: freshBlocks_def)
  obtain p' where p': "lmInsertBefore (lm_block lm) lm = Some (length (m_heap (lm_proc lm)),
      lm\<lparr>lm_proc := p', lm_blockInsertions := lm_blockInsertions lm @ [(bb_index bb, length (m_heap (lm_proc lm)))]\<rparr>)"
    "valuesOf p' = valuesOf (lm_proc lm)" "procInv p' = procInv (lm_proc lm)" "m_blocks p' = m_blocks (lm_proc lm)"
    "length (m_heap p') = Suc (length (m_heap (lm_proc lm)))"
    "\<And>c. block p' c = (if c = length (m_heap (lm_proc lm)) then Some (mkBasicBlock UINT_MAX (bb_frequency bb)) else block (lm_proc lm) c)"
    by (rule lmInsertBefore_spec [OF bb]) blast
  have "freshBlocks (Suc n) p p'"
    using f p'(2-6) len by (auto simp: freshBlocks_def valuesIn_def predsOf_def mkBasicBlock_def)
  then show thesis using that p'(1) len by simp
qed

lemma freshBlocks_0: "freshBlocks 0 p p"
  by (simp add: freshBlocks_def)

definition chillCasesAt :: "block_ptr \<Rightarrow> ChillCases" where
  "chillCasesAt r = \<lparr>before_block = r, normalDivCase = r + 1, shadyDenCase = r + 2, zeroDenCase = r + 3,
     neg1DenCase = r + 4, intMinCase = r + 5\<rparr>"

definition forkedFrom :: "Value \<Rightarrow> value_ptr \<Rightarrow> LowerMacros \<Rightarrow> Procedure \<Rightarrow> value_ptr \<Rightarrow> value_ptr \<Rightarrow> value_ptr \<Rightarrow> bool" where
  "forkedFrom v den lm p1 one sum0 ok \<longleftrightarrow>
     grows (lm_proc lm) p1 \<and> m_heap p1 = m_heap (lm_proc lm) \<and>
     valuesOf p1 one \<noteq> None \<and> valuesOf p1 one = intConstant (m_origin v) (m_type v) 1 \<and>
     valuesOf p1 sum0 = Some (mkValue Add (m_type v) (m_origin v) [den, one] NoPayload) \<and>
     valuesOf p1 ok = Some (mkValue Above Int32 (m_origin v) [sum0, one] NoPayload) \<and>
     {one, sum0, ok} \<inter> dom (valuesOf (lm_proc lm)) = {}"

definition retargeted :: "Procedure \<Rightarrow> block_ptr \<Rightarrow> value_ptr set" where
  "retargeted p b = (\<lambda>c. last (valuesIn p c)) ` set (predsOf p b)"

definition forked :: "Value \<Rightarrow> block_ptr \<Rightarrow> nat \<Rightarrow> Insertion list \<Rightarrow> Procedure \<Rightarrow> Procedure \<Rightarrow> value_ptr list \<Rightarrow> value_ptr \<Rightarrow> Procedure \<Rightarrow> bool" where
  "forked v b k ins p p1 tests br p' \<longleftrightarrow>
     (let r = length (m_heap p) in
      procInv p' \<and> m_blocks p' = m_blocks p \<and> length (m_heap p') = r + 6 \<and> valuesOf p1 br = None \<and>
      valuesOf p' = (redirected b r (retargeted p b) (valuesOf p1))
        (br \<mapsto> BranchValue (m_origin v) (last tests) (r + 1, Normal) (r + 2, Rare)) \<and>
      valuesIn p' r = spliced (take k (valuesIn p b)) ins @ tests @ [br] \<and> valuesIn p' b = drop k (valuesIn p b) \<and>
      (\<forall>c < r. c \<noteq> b \<longrightarrow> block p' c = block p c) \<and>
      (\<forall>c \<in> {r + 1..r + 5}. block p' c \<noteq> None \<and> valuesIn p' c = [] \<and> predsOf p' c = []) \<and>
      block p' r \<noteq> None \<and> predsOf p' r = predsOf p b \<and> predsOf p' b = [r] \<and>
      map_option bb_index (block p' b) = map_option bb_index (block p b))"

lemma spliced_end:
  assumes "\<forall>q \<in> set ins. fst q \<le> length t"
  shows "spliced t (ins @ [(length t, x), (length t, y), (length t, z)]) = spliced t ins @ [x, y, z]"
proof -
  have one: "spliced t (is @ [(length t, x)]) = spliced t is @ [x]" if "\<forall>q \<in> set is. fst q \<le> length t" for "is" x
    using spliced_snoc [OF _ that, of t x] by simp
  have "spliced t (((ins @ [(length t, x)]) @ [(length t, y)]) @ [(length t, z)]) = spliced t ins @ [x, y, z]"
    using assms by (subst one, simp, subst one, simp, subst one) simp_all
  then show ?thesis by simp
qed

lemma endsInTerminal_grows:
  assumes "grows p p1" "m_heap p1 = m_heap p" "endsInTerminal p c"
  shows "endsInTerminal p1 c"
proof -
  have "valuesIn p1 c = valuesIn p c" using assms(2) by (simp add: valuesIn_def block_def)
  then show ?thesis using assms(3) growsD(7) [OF assms(1)] by (auto simp: endsInTerminal_iff)
qed

lemma insertFive:
  assumes bb: "block (lm_proc lm) (lm_block lm) = Some bb"
  defines "l \<equiv> length (m_heap (lm_proc lm))"
  obtains q where "freshBlocks 5 (lm_proc lm) q"
    "\<And>F. do { (n1, lm) \<leftarrow> lmInsertBefore (lm_block lm) lm; (n2, lm) \<leftarrow> lmInsertBefore (lm_block lm) lm;
         (n3, lm) \<leftarrow> lmInsertBefore (lm_block lm) lm; (n4, lm) \<leftarrow> lmInsertBefore (lm_block lm) lm;
         (n5, lm) \<leftarrow> lmInsertBefore (lm_block lm) lm; F n1 n2 n3 n4 n5 lm } =
       F l (l + 1) (l + 2) (l + 3) (l + 4)
         (lm\<lparr>lm_proc := q, lm_blockInsertions := lm_blockInsertions lm @ map (\<lambda>n. (bb_index bb, n)) [l..<l + 5]\<rparr>)"
proof -
  define upd where "upd q ns = lm\<lparr>lm_proc := q, lm_blockInsertions := lm_blockInsertions lm @ map (\<lambda>n. (bb_index bb, n)) ns\<rparr>" for q ns
  have l: "lm_block lm < l" using block_bound bb by (fastforce simp: l_def)
  have nxt: "\<exists>q'. lmInsertBefore (lm_block lm) (upd q ns) = Some (l + n, upd q' (ns @ [l + n])) \<and> freshBlocks (Suc n) (lm_proc lm) q'"
    if "freshBlocks n (lm_proc lm) q" for n q ns
    using freshBlocks_step [of n "lm_proc lm" "upd q ns" bb] that bb l by (auto simp: upd_def l_def)
  have 0: "upd (lm_proc lm) [] = lm" "\<And>q ns. lm_block (upd q ns) = lm_block lm" by (simp_all add: upd_def)
  obtain q1 where 1: "lmInsertBefore (lm_block lm) lm = Some (l, upd q1 [l])" "freshBlocks 1 (lm_proc lm) q1"
    using nxt [OF freshBlocks_0, of "[]"] 0 by auto
  obtain q2 where 2: "lmInsertBefore (lm_block lm) (upd q1 [l]) = Some (l + 1, upd q2 [l, l + 1])" "freshBlocks 2 (lm_proc lm) q2"
    using nxt [OF 1(2), of "[l]"] by (auto simp: numeral_2_eq_2)
  obtain q3 where 3: "lmInsertBefore (lm_block lm) (upd q2 [l, l + 1]) = Some (l + 2, upd q3 [l, l + 1, l + 2])" "freshBlocks 3 (lm_proc lm) q3"
    using nxt [OF 2(2), of "[l, l + 1]"] by (auto simp: eval_nat_numeral)
  obtain q4 where 4: "lmInsertBefore (lm_block lm) (upd q3 [l, l + 1, l + 2]) = Some (l + 3, upd q4 [l, l + 1, l + 2, l + 3])" "freshBlocks 4 (lm_proc lm) q4"
    using nxt [OF 3(2), of "[l, l + 1, l + 2]"] by (auto simp: eval_nat_numeral)
  obtain q5 where 5: "lmInsertBefore (lm_block lm) (upd q4 [l, l + 1, l + 2, l + 3]) = Some (l + 4, upd q5 [l, l + 1, l + 2, l + 3, l + 4])"
      "freshBlocks 5 (lm_proc lm) q5"
    using nxt [OF 4(2), of "[l, l + 1, l + 2, l + 3]"] by (auto simp: eval_nat_numeral)
  have "[l..<l + 5] = [l, l + 1, l + 2, l + 3, l + 4]" by (simp add: upt_rec)
  then have "lm\<lparr>lm_proc := q5, lm_blockInsertions := lm_blockInsertions lm @ map (\<lambda>n. (bb_index bb, n)) [l..<l + 5]\<rparr> = upd q5 [l, l + 1, l + 2, l + 3, l + 4]"
    by (simp add: upd_def)
  then show thesis using that [OF 5(2)] 1(1) 2(1) 3(1) 4(1) 5(1) 0(2) by simp
qed

lemma forkedI:
  assumes sp: "splitResult b k (ins @ [(k, one), (k, sum0), (k, ok)]) r j p1 p2" and fresh: "freshBlocks 5 p2 q5"
    and R: "procInv p'" "valuesOf q5 br = None"
      "valuesOf p' = (valuesOf q5)(br \<mapsto> BranchValue (m_origin v) ok (r + 1, Normal) (r + 2, Rare), j := None)"
      "m_blocks p' = m_blocks q5" "length (m_heap p') = length (m_heap q5)"
      "\<And>c. block p' c = (if c = r then map_option (\<lambda>bb. bb\<lparr>bb_values := spliced (take k (valuesIn p b)) (ins @ [(k, one), (k, sum0), (k, ok)]) @ [br]\<rparr>)
         (block q5 r) else block q5 c)"
    and p: "m_heap p1 = m_heap p" "m_blocks p1 = m_blocks p" and ins: "\<forall>q \<in> set ins. fst q \<le> k" and k: "k \<le> length (valuesIn p b)" "b < r"
  shows "forked v b k ins p p1 [one, sum0, ok] br p'"
proof -
  have same: "block p1 c = block p c" "valuesIn p1 c = valuesIn p c" "predsOf p1 c = predsOf p c" for c
    using p(1) by (simp_all add: block_def valuesIn_def predsOf_def)
  have r: "r = length (m_heap p)" "length (m_heap p2) = r + 1" using sp p(1) by (simp_all add: splitResult_def)
  have v5: "valuesOf q5 = valuesOf p2" "block q5 c = block p2 c" if "c < r + 1" for c
    using fresh r that by (simp_all add: freshBlocks_def)
  obtain org where v2: "valuesOf p2 = (redirected b r (retargeted p b) (valuesOf p1))(j \<mapsto> JumpValue org (b, Normal))"
    and j: "valuesOf p1 j = None" using sp same by (auto simp: splitResult_def retargeted_def)
  have "br \<noteq> j" "valuesOf p1 br = None" using R(2) v5(1) [of r] v2 by (auto simp: redirected_def split: if_splits)
  then have store: "valuesOf p' = (redirected b r (retargeted p b) (valuesOf p1))(br \<mapsto> BranchValue (m_origin v) ok (r + 1, Normal) (r + 2, Rare))"
    using R(3) v5(1) [of r] v2 j by (auto simp: fun_eq_iff redirected_def)
  have spl: "spliced (take k (valuesIn p b)) (ins @ [(k, one), (k, sum0), (k, ok)]) = spliced (take k (valuesIn p b)) ins @ [one, sum0, ok]"
  proof -
    have "length (take k (valuesIn p b)) = k" using k(1) by simp
    then show ?thesis using spliced_end [of ins "take k (valuesIn p b)" one sum0 ok] ins by metis
  qed
  have rb: "block p' r \<noteq> None" "valuesIn p' r = spliced (take k (valuesIn p b)) ins @ [one, sum0, ok, br]" "predsOf p' r = predsOf p b"
    using sp v5(2) [of r] R(6) [of r] spl same by (auto simp: splitResult_def valuesIn_def predsOf_def)
  have bb: "valuesIn p' b = drop k (valuesIn p b)" "predsOf p' b = [r]" "map_option bb_index (block p' b) = map_option bb_index (block p b)"
    using sp v5(2) [of b] R(6) [of b] k(2) same by (auto simp: splitResult_def valuesIn_def predsOf_def)
  have "block p' c = block p c" if "c < r" "c \<noteq> b" for c using that sp v5(2) [of c] R(6) [of c] same by (auto simp: splitResult_def)
  moreover have "block p' c \<noteq> None \<and> valuesIn p' c = [] \<and> predsOf p' c = []" if "r + 1 \<le> c" "c \<le> r + 5" for c
    using that fresh r(2) R(6) [of c] by (auto simp: freshBlocks_def valuesIn_def predsOf_def)
  ultimately show ?thesis
    unfolding forked_def Let_def using R(1,4,5) sp fresh store rb bb \<open>valuesOf p1 br = None\<close> p(2) r
    by (auto simp: splitResult_def freshBlocks_def)
qed

lemma chillFork_spec:
  fixes lm
  defines "p \<equiv> lm_proc lm" and "b \<equiv> lm_block lm" and "k \<equiv> lm_index lm" and "r \<equiv> length (m_heap (lm_proc lm))"
  assumes inv: "procInv p" "wtStore (valuesOf p)" and bb: "block p b = Some bb"
    and v: "at (valuesIn p b) k = Some i" "valuesOf p i \<noteq> None"
    and den: "valuesOf p den = Some dv" "m_type dv = m_type v" "isInt (m_type v)"
    and preds: "\<forall>c \<in> set (predsOf p b). endsInTerminal p c" and ins: "\<forall>q \<in> set (lm_insertionSet lm). fst q \<le> k"
  obtains p1 one sum0 ok br p' where "chillFork v den lm = Some (chillCasesAt r, lm\<lparr>lm_proc := p',
      lm_blockInsertions := lm_blockInsertions lm @ map (\<lambda>n. (bb_index bb, n)) [r..<r + 6], lm_insertionSet := [], lm_index := 0\<rparr>)"
    "forkedFrom v den lm p1 one sum0 ok" "forked v b k (lm_insertionSet lm) p p1 [one, sum0, ok] br p'"
proof -
  obtain one sum0 ok p1 where 1: "denominatorTest v den lm = Some (ok, lm\<lparr>lm_proc := p1,
      lm_insertionSet := lm_insertionSet lm @ [(k, one), (k, sum0), (k, ok)]\<rparr>)" and f: "forkedFrom v den lm p1 one sum0 ok"
    using denominatorTest_spec [OF inv [unfolded p_def] den [unfolded p_def]] unfolding forkedFrom_def k_def by metis
  have g: "grows p p1" "m_heap p1 = m_heap p" using f by (simp_all add: forkedFrom_def p_def)
  have same: "block p1 c = block p c" "valuesIn p1 c = valuesIn p c" "predsOf p1 c = predsOf p c" for c
    using g(2) by (simp_all add: block_def valuesIn_def predsOf_def)
  let ?ins = "lm_insertionSet lm @ [(k, one), (k, sum0), (k, ok)]"
  obtain p2 j where 2: "splitForward b k ?ins PNaN (p1, lm_blockInsertions lm) = Some (r, p2, lm_blockInsertions lm @ [(bb_index bb, r)])"
      and sp: "splitResult b k ?ins r j p1 p2"
  proof (rule splitForward_spec [of p1 b bb k i ?ins "lm_blockInsertions lm"])
    show "procInv p1" by (rule growsD [OF g(1)])
    show "block p1 b = Some bb" "at (valuesIn p1 b) k = Some i" using bb v same by simp_all
    show "valuesOf p1 i \<noteq> None" using v(2) growsD(7) [OF g(1)] by auto
    show "\<forall>c \<in> set (predsOf p1 b). endsInTerminal p1 c" using preds endsInTerminal_grows [OF g] same by simp
    show "\<forall>q \<in> set ?ins. fst q \<le> k" using ins by auto
  qed (use g(2) in \<open>simp_all add: r_def p_def\<close>)
  let ?lm2 = "lm\<lparr>lm_proc := p2, lm_blockInsertions := lm_blockInsertions lm @ [(bb_index bb, r)], lm_insertionSet := [], lm_index := 0\<rparr>"
  have br: "b < r" using block_bound [of p b] bb by (simp add: r_def p_def)
  have bb2: "map_option bb_index (block p2 b) = Some (bb_index bb)" "length (m_heap p2) = r + 1"
    using sp bb same by (simp_all add: splitResult_def)
  then obtain bb' where bb': "block p2 b = Some bb'" "bb_index bb' = bb_index bb" by auto
  have "block (lm_proc ?lm2) (lm_block ?lm2) = Some bb'" using bb'(1) by (simp add: b_def)
  from insertFive [OF this] obtain q5 where fresh: "freshBlocks 5 p2 q5"
    and five: "\<And>F :: nat \<Rightarrow> nat \<Rightarrow> nat \<Rightarrow> nat \<Rightarrow> nat \<Rightarrow> LowerMacros \<Rightarrow> (ChillCases \<times> LowerMacros) option. do { (n1, lm) \<leftarrow> lmInsertBefore (lm_block ?lm2) ?lm2; (n2, lm) \<leftarrow> lmInsertBefore (lm_block lm) lm;
         (n3, lm) \<leftarrow> lmInsertBefore (lm_block lm) lm; (n4, lm) \<leftarrow> lmInsertBefore (lm_block lm) lm;
         (n5, lm) \<leftarrow> lmInsertBefore (lm_block lm) lm; F n1 n2 n3 n4 n5 lm } =
       F (r + 1) (r + 1 + 1) (r + 1 + 2) (r + 1 + 3) (r + 1 + 4)
         (?lm2\<lparr>lm_proc := q5, lm_blockInsertions := lm_blockInsertions ?lm2 @ map (\<lambda>n. (bb_index bb', n)) [r + 1..<r + 1 + 5]\<rparr>)"
    using bb2(2) by auto
  have jd: "valuesOf q5 j \<noteq> None" "valuesIn q5 r = spliced (take k (valuesIn p b)) ?ins @ [j]"
    using fresh sp bb2(2) same by (auto simp: freshBlocks_def splitResult_def valuesIn_def)
  have inv5: "procInv q5" using fresh sp by (simp add: freshBlocks_def splitResult_def)
  obtain br p' where R: "replaceLastWithNew r (BranchValue (m_origin v) ok (r + 1, Normal) (r + 2, Rare)) q5 = (br, p')" "procInv p'" "valuesOf q5 br = None"
    "valuesOf p' = (valuesOf q5)(br \<mapsto> BranchValue (m_origin v) ok (r + 1, Normal) (r + 2, Rare), j := None)"
    "m_blocks p' = m_blocks q5" "length (m_heap p') = length (m_heap q5)"
    "\<And>c. block p' c = (if c = r then map_option (\<lambda>bb. bb\<lparr>bb_values := spliced (take k (valuesIn p b)) ?ins @ [br]\<rparr>) (block q5 r) else block q5 c)"
    by (rule replaceLastWithNew_spec [OF inv5 jd(2,1)]) blast
  have "forked v b k (lm_insertionSet lm) p p1 [one, sum0, ok] br p'"
    by (rule forkedI [OF sp fresh R(2-7) _ _ ins])
      (use same v(1) br g(2) growsD(4) [OF g(1)] in \<open>simp_all add: r_def p_def at_Some_iff\<close>)
  moreover have "chillFork v den lm = Some (chillCasesAt r, lm\<lparr>lm_proc := p',
      lm_blockInsertions := lm_blockInsertions lm @ map (\<lambda>n. (bb_index bb, n)) [r..<r + 6], lm_insertionSet := [], lm_index := 0\<rparr>)"
  proof -
    let ?F = "\<lambda>normal shady zero neg1 intMin lm.
      Some (\<lparr>before_block = r, normalDivCase = normal, shadyDenCase = shady, zeroDenCase = zero, neg1DenCase = neg1, intMinCase = intMin\<rparr>,
        lm\<lparr>lm_proc := snd (replaceLastWithNew r (BranchValue (m_origin v) ok (normal, Normal) (shady, Rare)) (lm_proc lm))\<rparr>)"
    have "[r..<r + 6] = r # [r + 1..<r + 1 + 5]" by (simp add: upt_rec)
    then show ?thesis
      using 1 2 five [of ?F] R(1) bb'(2) by (simp add: chillFork_def lmSplitForward_def chillCasesAt_def b_def k_def del: upt.simps upt_Suc)
  qed
  ultimately show thesis using that f by blast
qed

subsection \<open>Several appended values\<close>

definition adds :: "store \<Rightarrow> (value_ptr \<times> Value) list \<Rightarrow> store" where
  "adds s L = foldl (\<lambda>s (i, v). s(i \<mapsto> v)) s L"

lemma adds_simps [simp]: "adds s [] = s" "adds s (L @ [(i, v)]) = (adds s L)(i \<mapsto> v)" "adds s ((i, v) # L) = adds (s(i \<mapsto> v)) L"
  by (simp_all add: adds_def)

lemma adds_map_of: "adds s L = s ++ map_of (rev L)"
  by (induction L rule: rev_induct) (auto simp: adds_def map_add_def fun_eq_iff)

lemma adds_lookup: "distinct (map fst L) \<Longrightarrow> adds s L i = (case map_of L i of Some v \<Rightarrow> Some v | None \<Rightarrow> s i)"
proof -
  assume d: "distinct (map fst L)"
  then have "map_of (rev L) = map_of L" using map_of_inject_set [of "rev L" L] by (simp add: rev_map [symmetric])
  then show ?thesis by (simp add: adds_map_of map_add_def)
qed

lemma adds_perm:
  assumes "distinct (map fst L)" "distinct (map fst L')" "set L = set L'"
  shows "adds s L = adds s L'"
  using assms map_of_inject_set [of L L'] by (simp add: fun_eq_iff adds_lookup)

text \<open>A sequence of \<open>appendNew\<close>, with the block, the index and the value of each.\<close>

definition appendedAll :: "(block_ptr \<times> value_ptr \<times> Value) list \<Rightarrow> Procedure \<Rightarrow> Procedure \<Rightarrow> bool" where
  "appendedAll L p p' \<longleftrightarrow>
     procInv p' \<and> m_blocks p' = m_blocks p \<and> length (m_heap p') = length (m_heap p) \<and>
     distinct (map (fst \<circ> snd) L) \<and> (\<forall>i \<in> set (map (fst \<circ> snd) L). valuesOf p i = None) \<and>
     valuesOf p' = adds (valuesOf p) (map snd L) \<and>
     (\<forall>c. block p' c = map_option (\<lambda>bb. bb\<lparr>bb_values := bb_values bb @ map (fst \<circ> snd) (filter (\<lambda>x. fst x = c) L)\<rparr>) (block p c))"

lemma appendedAll_Nil: "procInv p \<Longrightarrow> appendedAll [] p p"
  by (simp add: appendedAll_def option.map_ident)

lemma appendedAll_snoc:
  assumes L: "appendedAll L p q" and a: "appended b v i q p'"
  shows "appendedAll (L @ [(b, i, v)]) p p'"
proof -
  have fresh: "valuesOf q i = None" and q: "valuesOf q = adds (valuesOf p) (map snd L)" and d: "distinct (map fst (map snd L))"
    using L a by (simp_all add: appendedAll_def appended_def)
  have "adds (valuesOf p) (map snd L) i = None" using fresh q by simp
  then have "map_of (map snd L) i = None" "valuesOf p i = None"
    by (auto simp: adds_lookup [OF d] split: option.splits)
  then have i: "i \<notin> set (map (fst \<circ> snd) L)" "valuesOf p i = None" by (auto simp: map_of_eq_None_iff)
  show ?thesis
    using L a i unfolding appendedAll_def appended_def appends_def
    by (auto simp: option.map_comp comp_def)
qed

lemma lmAppend_all:
  assumes "appendedAll L p (lm_proc lm)"
  obtains i p' where "lmAppend b v lm = (i, lm\<lparr>lm_proc := p'\<rparr>)" "appendedAll (L @ [(b, i, v)]) p p'"
proof -
  have "procInv (lm_proc lm)" using assms by (simp add: appendedAll_def)
  then obtain i p' where "lmAppend b v lm = (i, lm\<lparr>lm_proc := p'\<rparr>)" "appended b v i (lm_proc lm) p'" by (rule lmAppend_spec)
  then show thesis using that appendedAll_snoc [OF assms] by blast
qed

subsection \<open>The code of the new blocks\<close>

text \<open>What \<open>chillFill\<close> appends, with the terminals; the upsilons have no phi yet.\<close>

definition chillAppends ::
    "nat \<Rightarrow> b3type \<Rightarrow> value_ptr \<Rightarrow> value_ptr \<Rightarrow> block_ptr \<Rightarrow> block_ptr \<Rightarrow> ChillCode \<Rightarrow> Value \<Rightarrow> Value \<Rightarrow>
     value_ptr list \<Rightarrow> value_ptr option \<Rightarrow> (block_ptr \<times> value_ptr \<times> Value) list" where
  "chillAppends org type num den b r cc zerov badv ts phi =
     [(r + 1, cc_quotient cc, mkValue Div type org [num, den] NoPayload),
      (r + 1, cc_normalResult cc, UpsilonValue org (cc_quotient cc) phi),
      (r + 1, ts ! 0, JumpValue org (b, Normal)),
      (r + 2, ts ! 1, BranchValue org den (r + 4, Normal) (r + 3, Rare)),
      (r + 3, cc_zero cc, zerov),
      (r + 3, cc_zeroResult cc, UpsilonValue org (cc_zero cc) phi),
      (r + 3, ts ! 2, JumpValue org (b, Normal)),
      (r + 4, cc_bad cc, badv),
      (r + 4, cc_isBad cc, mkValue Equal Int32 org [num, cc_bad cc] NoPayload),
      (r + 4, ts ! 3, BranchValue org (cc_isBad cc) (r + 5, Rare) (r + 1, Normal)),
      (r + 5, cc_intMinResult cc, UpsilonValue org (cc_bad cc) phi),
      (r + 5, ts ! 4, JumpValue org (b, Normal))]"

lemma chillFill_spec:
  fixes lm
  defines "p \<equiv> lm_proc lm"
  assumes inv: "procInv p" and num: "valuesOf p num = Some nv" "m_type nv = m_type v" and int: "isInt (m_type v)"
  obtains cc zerov badv bc ts p' where
    "chillFill v num den (chillCasesAt r) lm = Some ((cc_normalResult cc, cc_zeroResult cc, cc_intMinResult cc), lm\<lparr>lm_proc := p'\<rparr>)"
    "badNumeratorConst (m_type v) = Some bc" "intConstant (m_origin v) (m_type v) 0 = Some zerov" "intConstant (m_origin v) (m_type v) bc = Some badv"
    "appendedAll (chillAppends (m_origin v) (m_type v) num den (lm_block lm) r cc zerov badv ts None) p p'"
proof -
  let ?org = "m_origin v" and ?ty = "m_type v" and ?b = "lm_block lm"
  obtain zerov where z: "intConstant ?org ?ty 0 = Some zerov" by (rule intConstant_int [OF int])
  obtain bc where bc: "badNumeratorConst ?ty = Some bc" using int by (cases ?ty) (simp_all add: badNumeratorConst_def)
  obtain badv where bad: "intConstant ?org ?ty bc = Some badv" by (rule intConstant_int [OF int])
  have div: "opValue (valuesOf p) Div ?org [num, den] = Some (mkValue Div ?ty ?org [num, den] NoPayload)"
    using num by (simp add: opValue_def typeFor_def)
  have eq: "opValue s Equal ?org [num, k] = Some (mkValue Equal Int32 ?org [num, k] NoPayload)" for s k
    by (simp add: opValue_def typeFor_def)
  have app: "\<exists>i q'. lmAppend c w (lm\<lparr>lm_proc := q\<rparr>) = (i, lm\<lparr>lm_proc := q'\<rparr>) \<and> appendedAll (L @ [(c, i, w)]) p q'"
    if "appendedAll L p q" for L q c w
    using lmAppend_all [of L p "lm\<lparr>lm_proc := q\<rparr>" c w] that by fastforce
  have lm: "lm = lm\<lparr>lm_proc := p\<rparr>" by (simp add: p_def)
  let ?L0 = "[] :: (block_ptr \<times> value_ptr \<times> Value) list"
  have A0: "appendedAll ?L0 p p" by (rule appendedAll_Nil [OF inv])
  obtain i1 q1 where 1: "lmAppend (r + 1) (mkValue Div ?ty ?org [num, den] NoPayload) (lm\<lparr>lm_proc := p\<rparr>) = (i1, lm\<lparr>lm_proc := q1\<rparr>)"
    and A1: "appendedAll (?L0 @ [(r + 1, i1, mkValue Div ?ty ?org [num, den] NoPayload)]) p q1" using app [OF A0] by metis
  let ?L1 = "?L0 @ [(r + 1, i1, mkValue Div ?ty ?org [num, den] NoPayload)]"
  obtain i2 q2 where 2: "lmAppend (r + 1) (UpsilonValue ?org i1 None) (lm\<lparr>lm_proc := q1\<rparr>) = (i2, lm\<lparr>lm_proc := q2\<rparr>)"
    and A2: "appendedAll (?L1 @ [(r + 1, i2, UpsilonValue ?org i1 None)]) p q2" using app [OF A1] by metis
  let ?L2 = "?L1 @ [(r + 1, i2, UpsilonValue ?org i1 None)]"
  obtain i3 q3 where 3: "lmAppend (r + 1) (JumpValue ?org (?b, Normal)) (lm\<lparr>lm_proc := q2\<rparr>) = (i3, lm\<lparr>lm_proc := q3\<rparr>)"
    and A3: "appendedAll (?L2 @ [(r + 1, i3, JumpValue ?org (?b, Normal))]) p q3" using app [OF A2] by metis
  let ?L3 = "?L2 @ [(r + 1, i3, JumpValue ?org (?b, Normal))]"
  obtain i4 q4 where 4: "lmAppend (r + 2) (BranchValue ?org den (r + 4, Normal) (r + 3, Rare)) (lm\<lparr>lm_proc := q3\<rparr>) = (i4, lm\<lparr>lm_proc := q4\<rparr>)"
    and A4: "appendedAll (?L3 @ [(r + 2, i4, BranchValue ?org den (r + 4, Normal) (r + 3, Rare))]) p q4" using app [OF A3] by metis
  let ?L4 = "?L3 @ [(r + 2, i4, BranchValue ?org den (r + 4, Normal) (r + 3, Rare))]"
  obtain i5 q5 where 5: "lmAppend (r + 3) (zerov) (lm\<lparr>lm_proc := q4\<rparr>) = (i5, lm\<lparr>lm_proc := q5\<rparr>)"
    and A5: "appendedAll (?L4 @ [(r + 3, i5, zerov)]) p q5" using app [OF A4] by metis
  let ?L5 = "?L4 @ [(r + 3, i5, zerov)]"
  obtain i6 q6 where 6: "lmAppend (r + 3) (UpsilonValue ?org i5 None) (lm\<lparr>lm_proc := q5\<rparr>) = (i6, lm\<lparr>lm_proc := q6\<rparr>)"
    and A6: "appendedAll (?L5 @ [(r + 3, i6, UpsilonValue ?org i5 None)]) p q6" using app [OF A5] by metis
  let ?L6 = "?L5 @ [(r + 3, i6, UpsilonValue ?org i5 None)]"
  obtain i7 q7 where 7: "lmAppend (r + 3) (JumpValue ?org (?b, Normal)) (lm\<lparr>lm_proc := q6\<rparr>) = (i7, lm\<lparr>lm_proc := q7\<rparr>)"
    and A7: "appendedAll (?L6 @ [(r + 3, i7, JumpValue ?org (?b, Normal))]) p q7" using app [OF A6] by metis
  let ?L7 = "?L6 @ [(r + 3, i7, JumpValue ?org (?b, Normal))]"
  obtain i8 q8 where 8: "lmAppend (r + 4) (badv) (lm\<lparr>lm_proc := q7\<rparr>) = (i8, lm\<lparr>lm_proc := q8\<rparr>)"
    and A8: "appendedAll (?L7 @ [(r + 4, i8, badv)]) p q8" using app [OF A7] by metis
  let ?L8 = "?L7 @ [(r + 4, i8, badv)]"
  obtain i9 q9 where 9: "lmAppend (r + 4) (mkValue Equal Int32 ?org [num, i8] NoPayload) (lm\<lparr>lm_proc := q8\<rparr>) = (i9, lm\<lparr>lm_proc := q9\<rparr>)"
    and A9: "appendedAll (?L8 @ [(r + 4, i9, mkValue Equal Int32 ?org [num, i8] NoPayload)]) p q9" using app [OF A8] by metis
  let ?L9 = "?L8 @ [(r + 4, i9, mkValue Equal Int32 ?org [num, i8] NoPayload)]"
  obtain i10 q10 where 10: "lmAppend (r + 4) (BranchValue ?org i9 (r + 5, Rare) (r + 1, Normal)) (lm\<lparr>lm_proc := q9\<rparr>) = (i10, lm\<lparr>lm_proc := q10\<rparr>)"
    and A10: "appendedAll (?L9 @ [(r + 4, i10, BranchValue ?org i9 (r + 5, Rare) (r + 1, Normal))]) p q10" using app [OF A9] by metis
  let ?L10 = "?L9 @ [(r + 4, i10, BranchValue ?org i9 (r + 5, Rare) (r + 1, Normal))]"
  obtain i11 q11 where 11: "lmAppend (r + 5) (UpsilonValue ?org i8 None) (lm\<lparr>lm_proc := q10\<rparr>) = (i11, lm\<lparr>lm_proc := q11\<rparr>)"
    and A11: "appendedAll (?L10 @ [(r + 5, i11, UpsilonValue ?org i8 None)]) p q11" using app [OF A10] by metis
  let ?L11 = "?L10 @ [(r + 5, i11, UpsilonValue ?org i8 None)]"
  obtain i12 q12 where 12: "lmAppend (r + 5) (JumpValue ?org (?b, Normal)) (lm\<lparr>lm_proc := q11\<rparr>) = (i12, lm\<lparr>lm_proc := q12\<rparr>)"
    and A12: "appendedAll (?L11 @ [(r + 5, i12, JumpValue ?org (?b, Normal))]) p q12" using app [OF A11] by metis
  let ?L12 = "?L11 @ [(r + 5, i12, JumpValue ?org (?b, Normal))]"
  define cc where "cc = \<lparr>cc_one = 0, cc_sum = 0, cc_ok = 0, cc_quotient = i1, cc_zero = i5, cc_bad = i8, cc_isBad = i9,
    cc_normalResult = i2, cc_zeroResult = i6, cc_intMinResult = i11, cc_phi = 0\<rparr>"
  show thesis
  proof (rule that [OF _ bc z bad, of cc])
    show "appendedAll (chillAppends ?org ?ty num den ?b r cc zerov badv [i3, i4, i7, i10, i12] None) p q12"
      using A12 by (simp add: chillAppends_def cc_def)
    show "chillFill v num den (chillCasesAt r) lm = Some ((cc_normalResult cc, cc_zeroResult cc, cc_intMinResult cc), lm\<lparr>lm_proc := q12\<rparr>)"
      using 1 2 3 4 5 6 7 8 9 10 11 12 div
      by (simp add: chillFill_def chillCasesAt_def cc_def p_def lmAppendOp_append [OF div [unfolded p_def]] bc lmAppendOp_append [OF eq]
          lmAppendIntConstant_append [OF z] lmAppendIntConstant_append [OF bad] Let_def)
  qed
qed

subsection \<open>The phi\<close>

lemma lmUpdateValue_spec:
  assumes "procInv (lm_proc lm)" "valuesOf (lm_proc lm) i = Some w"
  obtains p' where "lmUpdateValue i f lm = Some (lm\<lparr>lm_proc := p'\<rparr>)" "procInv p'" "valuesOf p' = (valuesOf (lm_proc lm))(i \<mapsto> f w)"
    "m_heap p' = m_heap (lm_proc lm)" "m_blocks p' = m_blocks (lm_proc lm)"
  using that [of "setValue i (f w) (lm_proc lm)"] assms
  by (simp add: lmUpdateValue_def valuesOf_setValue procInv_setValue)

lemma chillPhi_spec:
  fixes lm
  defines "p \<equiv> lm_proc lm" and "i \<equiv> lm_value lm"
  assumes inv: "procInv p" and us: "valuesOf p u1 = Some (UpsilonValue org a1 None)" "valuesOf p u2 = Some (UpsilonValue org a2 None)"
      "valuesOf p u3 = Some (UpsilonValue org a3 None)" and d: "distinct [u1, u2, u3, i]" and i: "valuesOf p i \<noteq> None"
  obtains phi p' where "chillPhi v (u1, u2, u3) lm = Some (lm\<lparr>lm_proc := p', lm_insertionSet := lm_insertionSet lm @ [(lm_index lm, phi)]\<rparr>)"
    "valuesOf p phi = None" "procInv p'" "m_heap p' = m_heap p" "m_blocks p' = m_blocks p"
    "valuesOf p' = (valuesOf p)(phi \<mapsto> mkValue Phi (m_type v) (m_origin v) [] NoPayload, u1 \<mapsto> UpsilonValue org a1 (Some phi),
       u2 \<mapsto> UpsilonValue org a2 (Some phi), u3 \<mapsto> UpsilonValue org a3 (Some phi), i \<mapsto> mkValue Identity (m_type v) (m_origin v) [phi] NoPayload)"
proof -
  let ?phiv = "mkValue Phi (m_type v) (m_origin v) [] NoPayload"
  obtain phi p1 where 1: "add ?phiv p = (phi, p1)" by fastforce
  note a = add_fresh [OF inv 1] add_blocks [OF 1]
  have ne: "phi \<noteq> u1" "phi \<noteq> u2" "phi \<noteq> u3" "phi \<noteq> i" using a(1) us i by auto
  define lm1 where "lm1 = lm\<lparr>lm_proc := p1, lm_insertionSet := lm_insertionSet lm @ [(lm_index lm, phi)]\<rparr>"
  have ins: "lmInsert ?phiv lm = (phi, lm1)" using 1 by (simp add: lmInsert_def lm1_def p_def)
  have set: "setPhi phi (UpsilonValue org a None) = UpsilonValue org a (Some phi)" for a by (simp add: setPhi_def mk_defs)
  obtain p2 where 2: "lmUpdateValue u1 (setPhi phi) lm1 = Some (lm1\<lparr>lm_proc := p2\<rparr>)" "procInv p2"
    "valuesOf p2 = (valuesOf p1)(u1 \<mapsto> UpsilonValue org a1 (Some phi))" "m_heap p2 = m_heap p1" "m_blocks p2 = m_blocks p1"
    using lmUpdateValue_spec [of lm1 u1 "UpsilonValue org a1 None" "setPhi phi"] a us ne set by (auto simp: lm1_def)
  have w2: "valuesOf p2 u2 = Some (UpsilonValue org a2 None)" using 2(3) a(2) us(2) ne d by auto
  obtain p3 where 3: "lmUpdateValue u2 (setPhi phi) (lm1\<lparr>lm_proc := p2\<rparr>) = Some (lm1\<lparr>lm_proc := p3\<rparr>)" "procInv p3"
    "valuesOf p3 = (valuesOf p2)(u2 \<mapsto> UpsilonValue org a2 (Some phi))" "m_heap p3 = m_heap p2" "m_blocks p3 = m_blocks p2"
    by (rule lmUpdateValue_spec [of "lm1\<lparr>lm_proc := p2\<rparr>" u2 "UpsilonValue org a2 None" "setPhi phi"]) (use 2(2) w2 in \<open>auto simp: set intro: that\<close>)
  have w3: "valuesOf p3 u3 = Some (UpsilonValue org a3 None)" using 3(3) 2(3) a(2) us(3) ne d by auto
  obtain p4 where 4: "lmUpdateValue u3 (setPhi phi) (lm1\<lparr>lm_proc := p3\<rparr>) = Some (lm1\<lparr>lm_proc := p4\<rparr>)" "procInv p4"
    "valuesOf p4 = (valuesOf p3)(u3 \<mapsto> UpsilonValue org a3 (Some phi))" "m_heap p4 = m_heap p3" "m_blocks p4 = m_blocks p3"
    by (rule lmUpdateValue_spec [of "lm1\<lparr>lm_proc := p3\<rparr>" u3 "UpsilonValue org a3 None" "setPhi phi"]) (use 3(2) w3 in \<open>auto simp: set intro: that\<close>)
  obtain iv where iv: "valuesOf p4 i = Some iv" using 2 3 4 a i ne d by auto
  let ?w = "mkValue Identity (m_type v) (m_origin v) [phi] NoPayload"
  obtain p5 where 5: "lmUpdateValue i (\<lambda>_. ?w) (lm1\<lparr>lm_proc := p4\<rparr>) = Some (lm1\<lparr>lm_proc := p5\<rparr>)" "procInv p5"
    "valuesOf p5 = (valuesOf p4)(i \<mapsto> ?w)" "m_heap p5 = m_heap p4" "m_blocks p5 = m_blocks p4"
    by (rule lmUpdateValue_spec [of "lm1\<lparr>lm_proc := p4\<rparr>" i iv "\<lambda>_. ?w"]) (use 4(2) iv in \<open>auto intro: that\<close>)
  have "chillPhi v (u1, u2, u3) lm = Some (lm1\<lparr>lm_proc := p5\<rparr>)"
    using ins 2(1) 3(1) 4(1) 5(1) by (simp add: chillPhi_def replaceWithIdentity_def lm1_def i_def)
  then show thesis using that [of phi p5] a 2 3 4 5 by (simp add: lm1_def)
qed

subsection \<open>The store of the emitted code\<close>

lemma control_solves:
  assumes "acceptsControl (m_opcode v)"
  shows "solves env i v \<longleftrightarrow> typeOf (env i) = m_type v"
  using assms by (auto simp: solves_def evalValue_def acceptsControl_def)

definition controlsIn :: "store \<Rightarrow> value_ptr set \<Rightarrow> bool" where
  "controlsIn s T \<longleftrightarrow> (\<forall>j \<in> T. \<forall>w. s j = Some w \<longrightarrow> acceptsControl (m_opcode w))"

lemma redirected_type: "map_option m_type (redirected b r T s j) = map_option m_type (s j)"
  by (simp add: redirected_def option.map_comp comp_def)

lemma redirected_keeps:
  assumes c: "controlsIn s T"
  shows "wtStore s \<Longrightarrow> wtStore (redirected b r T s)" "solution (redirected b r T s) env \<longleftrightarrow> solution s env"
proof -
  have te: "typeExt s (redirected b r T s)" using redirected_type by (auto simp: typeExt_def)
  have cases: "(j \<in> T \<and> w = replaceSuccessor b r w0 \<and> acceptsControl (m_opcode w0)) \<or> w = w0"
    if "s j = Some w0" "redirected b r T s j = Some w" for j w w0
    using that c by (auto simp: redirected_def controlsIn_def split: if_splits)
  show "wtStore (redirected b r T s)" if wt: "wtStore s"
    unfolding wtStore_def
  proof (intro allI impI)
    fix j w assume w: "redirected b r T s j = Some w"
    then obtain w0 where w0: "s j = Some w0" by (auto simp: redirected_def split: if_splits)
    have "wtValue s w" using cases [OF w0 w] wtStoreD [OF wt w0] replaceSuccessor_wt by auto
    then show "wtValue (redirected b r T s) w" by (rule wtValue_ext [OF te])
  qed
  have "(\<forall>w. redirected b r T s j = Some w \<longrightarrow> solves env j w) \<longleftrightarrow> (\<forall>w. s j = Some w \<longrightarrow> solves env j w)" for j
  proof (cases "s j")
    case (Some w0)
    then obtain w where w: "redirected b r T s j = Some w" by (cases "j \<in> T") (auto simp: redirected_def)
    have "solves env j w \<longleftrightarrow> solves env j w0" using cases [OF Some w] by (auto simp: control_solves)
    then show ?thesis by (simp add: Some w)
  qed (simp add: redirected_def)
  then show "solution (redirected b r T s) env \<longleftrightarrow> solution s env" by (simp add: solution_def)
qed

fun wtSeq :: "store \<Rightarrow> (value_ptr \<times> Value) list \<Rightarrow> bool" where
  "wtSeq s [] \<longleftrightarrow> True"
| "wtSeq s ((i, v) # L) \<longleftrightarrow> wtValue s v \<and> wtSeq (s(i \<mapsto> v)) L"

lemma storeGrows_adds:
  "wtStore s \<Longrightarrow> wtSeq s L \<Longrightarrow> distinct (map fst L) \<Longrightarrow> (\<And>i. i \<in> fst ` set L \<Longrightarrow> s i = None) \<Longrightarrow> storeGrows s (adds s L)"
proof (induction L arbitrary: s)
  case (Cons e L)
  obtain i v where e: "e = (i, v)" by fastforce
  then have g: "storeGrows s (s(i \<mapsto> v))" and w: "wtSeq (s(i \<mapsto> v)) L" and d: "distinct (map fst L)"
    using Cons.prems storeGrows_add by simp_all
  have "wtStore (s(i \<mapsto> v))" using g by (simp add: storeGrows_def)
  moreover have "(s(i \<mapsto> v)) j = None" if "j \<in> fst ` set L" for j using Cons.prems(3,4) that e by auto
  ultimately have "storeGrows (s(i \<mapsto> v)) (adds (s(i \<mapsto> v)) L)" by (rule Cons.IH [OF _ w d])
  then show ?case using storeGrows_trans [OF g] e by simp
qed (simp add: storeGrows_refl)

lemma upsilon_wt:
  assumes "s a = Some av" "s phi = Some pv" "m_type av = m_type pv" "m_type pv \<noteq> Void"
  shows "wtValue s (UpsilonValue org a (Some phi))"
  using assms by (auto simp: wtValue_def mk_defs payloadOK_def accepts_defs validateChildren_def validateTypes_def numChildren_def
      upsilonPhi_def childType_def child_def isCheckMath_def)

lemma equal_wt:
  assumes "s x = Some xv" "s k = Some kv" "m_type kv = m_type xv" "isInt (m_type xv)"
  shows "wtValue s (mkValue Equal Int32 org [x, k] NoPayload)"
  using caseTest_wt [of s x xv k kv Equal] assms by simp

lemma intConstant_wt: "intConstant org type c = Some kv \<Longrightarrow> isInt type \<Longrightarrow> wtValue s kv \<and> m_type kv = type"
  using intConstant_int by (metis option.inject)

lemma mkValue_type: "m_type (mkValue opcode type org cs pl) = type"
  by (simp add: mkValue_def)

lemma chillAppends_wt:
  assumes L: "map snd (chillAppends org type num den b r cc zerov badv ts (Some phi)) = L"
    and fresh: "distinct (map fst L)" "\<forall>i \<in> fst ` set L. s i = None"
    and phi: "s phi = Some (mkValue Phi type org [] NoPayload)" and num: "s num = Some nv" "m_type nv = type" and den: "s den = Some dv" "m_type dv = type"
    and int: "isInt type" "intConstant org type 0 = Some zerov" "intConstant org type bc = Some badv"
  shows "wtSeq s L"
proof -
  have ne: "phi \<notin> fst ` set L" "num \<notin> fst ` set L" "den \<notin> fst ` set L" using fresh(2) phi num den by force+
  have ty: "type \<noteq> Void" using int(1) by auto
  note cw = intConstant_wt [OF int(2,1)] intConstant_wt [OF int(3,1)]
  have "wtValue s' (UpsilonValue org a (Some phi))" if "s' a = Some av" "m_type av = type" "s' phi = s phi" for s' a av
    by (rule upsilon_wt [of s' a av phi "mkValue Phi type org [] NoPayload"]) (use that phi ty in \<open>simp_all add: mkValue_type\<close>)
  note wt = jump_wt math_wt branch_wt equal_wt this
  show ?thesis
    using ne fresh unfolding L [symmetric] chillAppends_def
    by (simp add: phi num den int cw wt mkValue_type)
qed

lemma chillAppends_keys:
  "map fst (map snd (chillAppends org type num den b r cc zerov badv ts phi)) =
    [cc_quotient cc, cc_normalResult cc, ts ! 0, ts ! 1, cc_zero cc, cc_zeroResult cc, ts ! 2, cc_bad cc, cc_isBad cc, ts ! 3,
     cc_intMinResult cc, ts ! 4]"
  by (simp add: chillAppends_def)

text \<open>Setting the phi of the upsilons afterwards is the same as appending them with it.\<close>

lemma chill_store:
  fixes cc ts
  defines "K \<equiv> [cc_quotient cc, cc_normalResult cc, ts ! 0, ts ! 1, cc_zero cc, cc_zeroResult cc, ts ! 2, cc_bad cc, cc_isBad cc, ts ! 3,
     cc_intMinResult cc, ts ! 4]"
  assumes d: "distinct K" and phi: "phi \<notin> set K"
  shows "(adds s (map snd (chillAppends org type num den b r cc zerov badv ts None)))(phi \<mapsto> P,
      cc_normalResult cc \<mapsto> UpsilonValue org (cc_quotient cc) (Some phi), cc_zeroResult cc \<mapsto> UpsilonValue org (cc_zero cc) (Some phi),
      cc_intMinResult cc \<mapsto> UpsilonValue org (cc_bad cc) (Some phi)) =
    adds (s(phi \<mapsto> P)) (map snd (chillAppends org type num den b r cc zerov badv ts (Some phi)))"
proof
  fix x
  have d': "distinct (rev K)" using d by simp
  have k: "distinct (map fst (map snd (chillAppends org type num den b r cc zerov badv ts w)))" for w
    using d by (simp only: chillAppends_keys K_def)
  show "((adds s (map snd (chillAppends org type num den b r cc zerov badv ts None)))(phi \<mapsto> P,
      cc_normalResult cc \<mapsto> UpsilonValue org (cc_quotient cc) (Some phi), cc_zeroResult cc \<mapsto> UpsilonValue org (cc_zero cc) (Some phi),
      cc_intMinResult cc \<mapsto> UpsilonValue org (cc_bad cc) (Some phi))) x =
    adds (s(phi \<mapsto> P)) (map snd (chillAppends org type num den b r cc zerov badv ts (Some phi))) x"
    using d d' phi unfolding fun_upd_apply adds_lookup [OF k] K_def
    by (simp add: chillAppends_def)
qed

end
