(* ===== verification/B3ChillSound.thy ===== *)
theory B3ChillSound
  imports B3ChillBuild
begin

text \<open>Assembling the correctness of \<open>lowerChillDiv\<close>.\<close>

lemma phi_wt: "type \<noteq> Void \<Longrightarrow> wtValue s (mkValue Phi type org [] NoPayload)"
  by (simp add: wtValue_def mkValue_def payloadOK_def accepts_defs validateChildren_def validateTypes_def numChildren_def isCheckMath_def)

lemma identity_wt: "s c = Some cv \<Longrightarrow> m_type cv = type \<Longrightarrow> type \<noteq> Void \<Longrightarrow> wtValue s (mkValue Identity type org [c] NoPayload)"
  by (simp add: wtValue_def mkValue_def payloadOK_def accepts_defs validateChildren_def validateTypes_def numChildren_def
      childType_def child_def isCheckMath_def)

lemma storeGrowsD: "storeGrows s s' \<Longrightarrow> s i = Some v \<Longrightarrow> s' i = Some v" "storeGrows s s' \<Longrightarrow> wtStore s'"
  "storeGrows s s' \<Longrightarrow> solution s env \<Longrightarrow> \<exists>env'. solution s' env' \<and> (\<forall>i \<in> dom s. env' i = env i)"
  by (auto simp: storeGrows_def map_le_def) (metis domI)

text \<open>The stages of the store: after the fork, after the phi, after the new blocks, and at the end.\<close>

definition forkStore :: "block_ptr \<Rightarrow> block_ptr \<Rightarrow> value_ptr set \<Rightarrow> nat \<Rightarrow> value_ptr \<Rightarrow> value_ptr \<Rightarrow> store \<Rightarrow> store" where
  "forkStore b r T org ok br s1 = (redirected b r T s1)(br \<mapsto> BranchValue org ok (r + 1, Normal) (r + 2, Rare))"

definition filledStore ::
    "nat \<Rightarrow> b3type \<Rightarrow> value_ptr \<Rightarrow> value_ptr \<Rightarrow> block_ptr \<Rightarrow> block_ptr \<Rightarrow> ChillCode \<Rightarrow> Value \<Rightarrow> Value \<Rightarrow> value_ptr list \<Rightarrow> store \<Rightarrow> store" where
  "filledStore org type num den b r cc zerov badv ts sA =
     adds (sA(cc_phi cc \<mapsto> mkValue Phi type org [] NoPayload)) (map snd (chillAppends org type num den b r cc zerov badv ts (Some (cc_phi cc))))"

lemma forkStore_keeps:
  assumes g: "storeGrows s s1" and T: "controlsIn s T" "T \<subseteq> dom s" and ok: "s1 ok = Some okv" "isInt (m_type okv)" "ok \<notin> dom s" and br: "s1 br = None"
  shows "wtStore (forkStore b r T org ok br s1)"
    "solution s env \<Longrightarrow> \<exists>env'. solution (forkStore b r T org ok br s1) env' \<and> (\<forall>i \<in> dom s. env' i = env i)"
    "s j = Some w \<Longrightarrow> forkStore b r T org ok br s1 j = redirected b r T s j"
    "s1 j = Some w \<Longrightarrow> j \<notin> T \<Longrightarrow> forkStore b r T org ok br s1 j = Some w"
proof -
  let ?sR = "redirected b r T s1"
  have c: "controlsIn s1 T" using T storeGrowsD(1) [OF g] by (auto simp: controlsIn_def)
  have wR: "wtStore ?sR" by (rule redirected_keeps(1) [OF c storeGrowsD(2) [OF g]])
  have bR: "?sR br = None" using br by (simp add: redirected_def)
  have "?sR ok = Some okv" using ok T(2) by (auto simp: redirected_def)
  then have bw: "wtValue ?sR (BranchValue org ok (r + 1, Normal) (r + 2, Rare))" using ok(2) by (intro branch_wt)
  have gA: "storeGrows ?sR (forkStore b r T org ok br s1)" unfolding forkStore_def by (rule storeGrows_add [OF wR bw bR])
  show "wtStore (forkStore b r T org ok br s1)" by (rule storeGrowsD(2) [OF gA])
  have dom: "dom s \<subseteq> dom ?sR" using storeGrowsD(1) [OF g] by (fastforce simp: redirected_def dom_def)
  show "\<exists>env'. solution (forkStore b r T org ok br s1) env' \<and> (\<forall>i \<in> dom s. env' i = env i)" if sol: "solution s env"
  proof -
    obtain env1 where 1: "solution s1 env1" "\<forall>i \<in> dom s. env1 i = env i" using storeGrowsD(3) [OF g sol] by blast
    have "solution ?sR env1" using 1(1) redirected_keeps(2) [OF c] by blast
    from storeGrowsD(3) [OF gA this] show ?thesis using 1(2) dom by (metis subsetD)
  qed
  show "forkStore b r T org ok br s1 j = redirected b r T s j" if "s j = Some w"
    using that storeGrowsD(1) [OF g that] br by (auto simp: forkStore_def redirected_def)
  show "forkStore b r T org ok br s1 j = Some w" if "s1 j = Some w" "j \<notin> T"
    using that br by (auto simp: forkStore_def redirected_def)
qed

lemma filledStore_keeps:
  fixes sA cc ts b r
  defines "K \<equiv> [cc_quotient cc, cc_normalResult cc, ts ! 0, ts ! 1, cc_zero cc, cc_zeroResult cc, ts ! 2, cc_bad cc, cc_isBad cc, ts ! 3,
     cc_intMinResult cc, ts ! 4]"
  assumes wt: "wtStore sA" and d: "distinct K" "cc_phi cc \<notin> set K" and fresh: "sA (cc_phi cc) = None" "\<forall>j \<in> set K. sA j = None"
    and num: "sA num = Some nv" "m_type nv = type" and den: "sA den = Some dv" "m_type dv = type"
    and int: "isInt type" "intConstant org type 0 = Some zerov" "intConstant org type bc = Some badv"
  defines "sL \<equiv> filledStore org type num den b r cc zerov badv ts sA"
  shows "wtStore sL" "sA j = Some w \<Longrightarrow> sL j = Some w" "sL (cc_phi cc) = Some (mkValue Phi type org [] NoPayload)"
    "(j, w) \<in> set (map snd (chillAppends org type num den b r cc zerov badv ts (Some (cc_phi cc)))) \<Longrightarrow> sL j = Some w"
    "sA j = None \<Longrightarrow> sL j = Some w \<Longrightarrow> j = cc_phi cc \<and> w = mkValue Phi type org [] NoPayload \<or>
       (j, w) \<in> set (map snd (chillAppends org type num den b r cc zerov badv ts (Some (cc_phi cc))))"
    "solution sA env \<Longrightarrow> typeOf x = type \<Longrightarrow>
       \<exists>env'. solution sL env' \<and> (\<forall>j \<in> dom sA. env' j = env j) \<and> env' (cc_phi cc) = x"
proof -
  let ?L = "map snd (chillAppends org type num den b r cc zerov badv ts (Some (cc_phi cc)))"
  let ?phiv = "mkValue Phi type org [] NoPayload" and ?phi = "cc_phi cc"
  have keys: "map fst ?L = K" by (simp only: chillAppends_keys K_def)
  then have dL: "distinct (map fst ?L)" and kL: "fst ` set ?L = set K" using d(1) by (simp, metis list.set_map)
  have ty: "type \<noteq> Void" using int(1) by auto
  have wP: "wtStore (sA(?phi \<mapsto> ?phiv))" by (rule wtStore_add [OF wt fresh(1) phi_wt [OF ty]])
  have freshP: "(sA(?phi \<mapsto> ?phiv)) j = None" if "j \<in> fst ` set ?L" for j using that fresh(2) d(2) kL by auto
  have "num \<noteq> ?phi" "den \<noteq> ?phi" using fresh(1) num den by auto
  then have "wtSeq (sA(?phi \<mapsto> ?phiv)) ?L"
    using freshP num den by (intro chillAppends_wt [OF refl dL _ _ _ num(2) _ den(2) int]) simp_all
  then have g: "storeGrows (sA(?phi \<mapsto> ?phiv)) sL" unfolding sL_def filledStore_def by (rule storeGrows_adds [OF wP _ dL freshP])
  show "wtStore sL" by (rule storeGrowsD(2) [OF g])
  show "sL j = Some w" if "sA j = Some w" using storeGrowsD(1) [OF g, of j w] that fresh(1) by (cases "j = ?phi") auto
  show "sL ?phi = Some ?phiv" using storeGrowsD(1) [OF g] by simp
  show "sL j = Some w" if "(j, w) \<in> set ?L"
    using map_of_is_SomeI [OF dL that] by (simp add: sL_def filledStore_def adds_lookup [OF dL])
  show "j = ?phi \<and> w = ?phiv \<or> (j, w) \<in> set ?L" if "sA j = None" "sL j = Some w"
    using that by (auto simp: sL_def filledStore_def adds_lookup [OF dL] split: option.splits if_splits dest: map_of_SomeD)
  assume sol: "solution sA env" and x: "typeOf x = type"
  have "solution (sA(?phi \<mapsto> ?phiv)) (env(?phi := x))"
    by (rule solution_extends_with [OF wt phi_wt [OF ty] fresh(1) sol]) (simp_all add: x mkValue_def evalValue_def)
  from storeGrowsD(3) [OF g this] obtain env' where "solution sL env'" "\<forall>j \<in> dom (sA(?phi \<mapsto> ?phiv)). env' j = (env(?phi := x)) j" by blast
  then show "\<exists>env'. solution sL env' \<and> (\<forall>j \<in> dom sA. env' j = env j) \<and> env' ?phi = x"
    using fresh(1) by (intro exI [of _ env']) (auto simp: dom_def split: if_splits)
qed

subsection \<open>The store at the end\<close>

text \<open>What the stages are built from.\<close>

definition chillStages ::
    "store \<Rightarrow> store \<Rightarrow> value_ptr \<Rightarrow> Value \<Rightarrow> value_ptr \<Rightarrow> value_ptr \<Rightarrow> value_ptr set \<Rightarrow> value_ptr \<Rightarrow> ChillCode \<Rightarrow> value_ptr list \<Rightarrow>
     Value \<Rightarrow> Value \<Rightarrow> store \<Rightarrow> bool" where
  "chillStages s s1 i v num den T br cc ts zerov badv sA \<longleftrightarrow>
     storeGrows s s1 \<and> (\<forall>j w. s j = None \<longrightarrow> s1 j = Some w \<longrightarrow> isLowered w) \<and>
     s i = Some v \<and> m_opcode v = ChillDiv \<and> isInt (m_type v) \<and> controlsIn s T \<and> T \<subseteq> dom s \<and>
     (\<exists>nv dv. s num = Some nv \<and> s den = Some dv \<and> m_type nv = m_type v \<and> m_type dv = m_type v) \<and>
     s1 (cc_one cc) \<noteq> None \<and> s1 (cc_one cc) = intConstant (m_origin v) (m_type v) 1 \<and>
     s1 (cc_sum cc) = Some (mkValue Add (m_type v) (m_origin v) [den, cc_one cc] NoPayload) \<and>
     s1 (cc_ok cc) = Some (mkValue Above Int32 (m_origin v) [cc_sum cc, cc_one cc] NoPayload) \<and>
     {cc_one cc, cc_sum cc, cc_ok cc} \<inter> dom s = {} \<and> s1 br = None \<and>
     intConstant (m_origin v) (m_type v) 0 = Some zerov \<and>
     (\<exists>bc. badNumeratorConst (m_type v) = Some bc \<and> intConstant (m_origin v) (m_type v) bc = Some badv) \<and>
     (let K = [cc_quotient cc, cc_normalResult cc, ts ! 0, ts ! 1, cc_zero cc, cc_zeroResult cc, ts ! 2, cc_bad cc, cc_isBad cc, ts ! 3,
        cc_intMinResult cc, ts ! 4] in distinct K \<and> cc_phi cc \<notin> set K \<and> (\<forall>j \<in> set K. sA j = None)) \<and> sA (cc_phi cc) = None"

definition chillStore :: "nat \<Rightarrow> b3type \<Rightarrow> value_ptr \<Rightarrow> value_ptr \<Rightarrow> block_ptr \<Rightarrow> block_ptr \<Rightarrow> ChillCode \<Rightarrow> Value \<Rightarrow> Value \<Rightarrow> value_ptr list \<Rightarrow> value_ptr \<Rightarrow> store \<Rightarrow> store" where
  "chillStore org type num den b r cc zerov badv ts i sA =
     (filledStore org type num den b r cc zerov badv ts sA)(i \<mapsto> mkValue Identity type org [cc_phi cc] NoPayload)"

lemma intConstant_lowered: "intConstant org type c = Some kv \<Longrightarrow> isLowered kv"
  by (cases type) (auto simp: intConstant_def isLowered_def mk_defs)

text \<open>A value of the type and the result of another one may become the identity on it.\<close>

lemma identity_solution:
  assumes sol: "solution s env" and phi: "env phi = env i" "typeOf (env i) = type"
  shows "solution (s(i \<mapsto> mkValue Identity type org [phi] NoPayload)) env"
  unfolding solution_def
proof (intro allI impI)
  fix j w assume w: "(s(i \<mapsto> mkValue Identity type org [phi] NoPayload)) j = Some w"
  show "solves env j w"
  proof (cases "j = i")
    case True
    then have "w = mkValue Identity type org [phi] NoPayload" using w by simp
    then show ?thesis using True phi by (simp add: solves_def mkValue_def evalValue_def args_def)
  qed (use w solutionD [OF sol] in simp)
qed

lemma chillStore_keeps:
  fixes b r
  assumes st: "chillStages s s1 i v num den T br cc ts zerov badv sA" and sA: "sA = forkStore b r T (m_origin v) (cc_ok cc) br s1"
  defines "s' \<equiv> chillStore (m_origin v) (m_type v) num den b r cc zerov badv ts i sA"
  shows "wtStore s'" "chillValues (m_origin v) (m_type v) num den cc s'"
    "j \<noteq> i \<Longrightarrow> s j = Some w \<Longrightarrow> s' j = redirected b r T s j" "s j = None \<Longrightarrow> s' j = Some w \<Longrightarrow> isLowered w"
    "s' br = Some (BranchValue (m_origin v) (cc_ok cc) (r + 1, Normal) (r + 2, Rare))"
    "(j, w) \<in> set (map snd (chillAppends (m_origin v) (m_type v) num den b r cc zerov badv ts (Some (cc_phi cc)))) \<Longrightarrow> s' j = Some w"
    "solution s env \<Longrightarrow> \<exists>env'. solution s' env' \<and> (\<forall>j \<in> dom s. env' j = env j)"
proof -
  let ?ty = "m_type v" and ?org = "m_origin v"
  let ?K = "[cc_quotient cc, cc_normalResult cc, ts ! 0, ts ! 1, cc_zero cc, cc_zeroResult cc, ts ! 2, cc_bad cc, cc_isBad cc, ts ! 3,
        cc_intMinResult cc, ts ! 4]"
  note st' = st [unfolded chillStages_def Let_def]
  obtain nv dv bc where nv: "s num = Some nv" "m_type nv = ?ty" and dv: "s den = Some dv" "m_type dv = ?ty"
    and bc: "badNumeratorConst ?ty = Some bc" "intConstant ?org ?ty bc = Some badv"
    using st' by (elim conjE exE) (rule that)
  have g: "storeGrows s s1" and T: "controlsIn s T" "T \<subseteq> dom s" and ok: "s1 (cc_ok cc) = Some (mkValue Above Int32 ?org [cc_sum cc, cc_one cc] NoPayload)"
      and tests: "{cc_one cc, cc_sum cc, cc_ok cc} \<inter> dom s = {}" and br: "s1 br = None" and i: "s i = Some v" "m_opcode v = ChillDiv" and int: "isInt ?ty"
      and z: "intConstant ?org ?ty 0 = Some zerov" and phi: "sA (cc_phi cc) = None"
      and low1: "\<forall>j w. s j = None \<longrightarrow> s1 j = Some w \<longrightarrow> isLowered w"
      and one: "s1 (cc_one cc) \<noteq> None" "s1 (cc_one cc) = intConstant ?org ?ty 1" and sum0: "s1 (cc_sum cc) = Some (mkValue Add ?ty ?org [den, cc_one cc] NoPayload)"
    using st' by - (elim conjE, assumption)+
  have K: "distinct ?K" "cc_phi cc \<notin> set ?K" "\<forall>j \<in> set ?K. sA j = None"
    using st' by - (elim conjE, assumption)+
  have okd: "cc_ok cc \<notin> dom s" using tests by simp
  have oki: "isInt (m_type (mkValue Above Int32 ?org [cc_sum cc, cc_one cc] NoPayload))" by (simp add: mkValue_type)
  note F = forkStore_keeps [OF g T ok oki okd br, where b = b and r = r and org = ?org, folded sA]
  have typed: "\<exists>w'. sA j = Some w' \<and> m_type w' = m_type w" if "s j = Some w" for j w
    using F(3) [OF that] redirected_type [of b r T s j] that by auto
  obtain nv' where nv': "sA num = Some nv'" "m_type nv' = ?ty" using typed [OF nv(1)] nv(2) by auto
  obtain dv' where dv': "sA den = Some dv'" "m_type dv' = ?ty" using typed [OF dv(1)] dv(2) by auto
  define sL where "sL = filledStore ?org ?ty num den b r cc zerov badv ts sA"
  note L = filledStore_keeps [OF F(1) K(1,2) phi K(3) nv' dv' int z bc(2), where b = b and r = r, folded sL_def]
  have s': "s' = sL(i \<mapsto> mkValue Identity ?ty ?org [cc_phi cc] NoPayload)" by (simp add: s'_def chillStore_def sL_def)
  have ty: "?ty \<noteq> Void" using int by auto
  have iT: "i \<notin> T" using T(1) i by (auto simp: controlsIn_def acceptsControl_def)
  have iA: "sA i = Some v" using F(4) storeGrowsD(1) [OF g i(1)] iT by blast
  then have iL: "sL i = Some v" by (rule L(2))
  show "wtStore s'" unfolding s'
    by (rule wtStore_update [of sL i v, OF L(1) iL _ identity_wt [of sL "cc_phi cc", OF L(3)]]) (simp_all add: mkValue_type ty)
  show "s' j = redirected b r T s j" if "j \<noteq> i" "s j = Some w" for j w
    using that F(3) [OF that(2)] typed [OF that(2)] L(2) by (auto simp: s')
  have app: "s' j = Some w" if "(j, w) \<in> set (map snd (chillAppends ?org ?ty num den b r cc zerov badv ts (Some (cc_phi cc))))" for j w
  proof -
    have "j \<in> set (map fst (map snd (chillAppends ?org ?ty num den b r cc zerov badv ts (Some (cc_phi cc)))))"
      using imageI [OF that, of fst] by (simp only: list.set_map fst_conv)
    then have "j \<in> set ?K" by (simp only: chillAppends_keys)
    then have "j \<noteq> i" using K(3) iA by auto
    then show ?thesis using L(4) [OF that] by (simp add: s')
  qed
  show "(j, w) \<in> set (map snd (chillAppends ?org ?ty num den b r cc zerov badv ts (Some (cc_phi cc)))) \<Longrightarrow> s' j = Some w" for j w
    by (rule app)
  have new1: "s' j = Some w" if "s1 j = Some w" "j \<notin> dom s" for j w
  proof -
    have "sA j = Some w" using F(4) that T(2) by blast
    then show ?thesis using L(2) that i(1) by (auto simp: s')
  qed
  have "sA br = Some (BranchValue ?org (cc_ok cc) (r + 1, Normal) (r + 2, Rare))" by (simp add: sA forkStore_def)
  moreover have "br \<noteq> i" using br storeGrowsD(1) [OF g i(1)] by auto
  ultimately show "s' br = Some (BranchValue ?org (cc_ok cc) (r + 1, Normal) (r + 2, Rare))" using L(2) by (simp add: s')
  have "s' (cc_phi cc) = Some (mkValue Phi ?ty ?org [] NoPayload)" using L(3) iA phi by (auto simp: s')
  moreover obtain onev where "s1 (cc_one cc) = Some onev" using one(1) by blast
  moreover have "s' (cc_quotient cc) = Some (mkValue Div ?ty ?org [num, den] NoPayload)" "s' (cc_zero cc) = Some zerov" "s' (cc_bad cc) = Some badv"
      "s' (cc_isBad cc) = Some (mkValue Equal Int32 ?org [num, cc_bad cc] NoPayload)"
      "s' (cc_normalResult cc) = Some (UpsilonValue ?org (cc_quotient cc) (Some (cc_phi cc)))"
      "s' (cc_zeroResult cc) = Some (UpsilonValue ?org (cc_zero cc) (Some (cc_phi cc)))"
      "s' (cc_intMinResult cc) = Some (UpsilonValue ?org (cc_bad cc) (Some (cc_phi cc)))"
    by (rule app, simp add: chillAppends_def)+
  ultimately show "chillValues ?org ?ty num den cc s'"
    using one(2) new1 [of "cc_one cc"] new1 [OF sum0] new1 [OF ok] tests z bc
    unfolding chillValues_def by simp
  show "isLowered w" if j: "s j = None" "s' j = Some w" for j w
  proof (cases "sA j")
    case None
    then have "sL j = Some w" using j iA by (auto simp: s' split: if_splits)
    from L(5) [OF None this] show ?thesis
      by (rule disjE) (use intConstant_lowered [OF z] intConstant_lowered [OF bc(2)] in \<open>auto simp: chillAppends_def isLowered_def mk_defs\<close>)
  next
    case (Some w')
    then have "w' = w" using L(2) [OF Some] j i(1) by (auto simp: s' split: if_splits)
    moreover have "j \<notin> T" using T(2) j(1) by auto
    ultimately show ?thesis using Some low1 j(1) by (auto simp: sA forkStore_def redirected_def isLowered_def mk_defs split: if_splits)
  qed
  show "\<exists>env'. solution s' env' \<and> (\<forall>j \<in> dom s. env' j = env j)" if sol: "solution s env"
  proof -
    obtain env1 where 1: "solution sA env1" "\<forall>j \<in> dom s. env1 j = env j" using F(2) [OF sol] by blast
    have "typeOf (env1 i) = ?ty" using solutionD [OF 1(1) iA] by (simp add: solves_def)
    from L(6) [OF 1(1) this] obtain env2 where 2: "solution sL env2" "\<forall>j \<in> dom sA. env2 j = env1 j" "env2 (cc_phi cc) = env1 i" by blast
    have eq: "env2 i = env1 i" using 2(2) iA by blast
    have "solution s' env2" unfolding s'
      by (rule identity_solution [OF 2(1)]) (use eq 2(3) \<open>typeOf (env1 i) = ?ty\<close> in simp_all)
    moreover have "dom s \<subseteq> dom sA" using typed by (fastforce simp: dom_def)
    ultimately show ?thesis using 1(2) 2(2) by (metis subsetD)
  qed
qed

subsection \<open>The lowering of a division\<close>

text \<open>
  What lowering the \<open>ChillDiv\<close> at an index of a block does. The predecessors of the block go to a new
  block \<open>r\<close> instead; from there, execution reaches the rest of the old block after executing what
  stood in front of the division, and after setting the phi once, to the value that the division had. The division
  is the identity of the phi now.
\<close>

definition chillLowered :: "value_ptr \<Rightarrow> Value \<Rightarrow> block_ptr \<Rightarrow> nat \<Rightarrow> Insertion list \<Rightarrow> value_ptr \<Rightarrow> Procedure \<Rightarrow> Procedure \<Rightarrow> bool" where
  "chillLowered i v b k ins phi p p' \<longleftrightarrow>
     (let r = length (m_heap p) in
      procInv p' \<and> wtStore (valuesOf p') \<and> m_blocks p' = m_blocks p \<and> length (m_heap p') = r + 6 \<and>
      valuesOf p phi = None \<and> valuesOf p' phi = Some (mkValue Phi (m_type v) (m_origin v) [] NoPayload) \<and>
      valuesOf p' i = Some (mkValue Identity (m_type v) (m_origin v) [phi] NoPayload) \<and>
      (\<forall>j w. j \<noteq> i \<longrightarrow> valuesOf p j = Some w \<longrightarrow> valuesOf p' j = redirected b r (retargeted p b) (valuesOf p) j) \<and>
      (\<forall>j w. valuesOf p j = None \<longrightarrow> valuesOf p' j = Some w \<longrightarrow> isLowered w) \<and>
      valuesIn p' b = drop k (valuesIn p b) \<and> (\<forall>c < r. c \<noteq> b \<longrightarrow> valuesIn p' c = valuesIn p c) \<and>
      (\<forall>env. solution (valuesOf p) env \<longrightarrow> (\<exists>env'. solution (valuesOf p') env' \<and> (\<forall>j \<in> dom (valuesOf p). env' j = env j))) \<and>
      (\<forall>env h. solution (valuesOf p') env \<longrightarrow>
         (\<exists>is x. runsTo p' env (r, h) (b, h @ spliced (take k (valuesIn p b)) ins @ is) \<and>
            observed p' env is = [SetPhi (Some phi) [x]] \<and> evalValue env v = Exactly x)))"

lemma appendedAll_values:
  assumes "appendedAll L p p'" "block p c \<noteq> None"
  shows "valuesIn p' c = valuesIn p c @ map (fst \<circ> snd) (filter (\<lambda>x. fst x = c) L)" "block p' c \<noteq> None"
  using assms by (auto simp: appendedAll_def valuesIn_def)

lemma branchBlockI: "valuesIn q b = body @ [t] \<Longrightarrow> valuesOf q t = Some (BranchValue org x (yes, f) (no, g)) \<Longrightarrow> branchBlock q b body x yes no"
  by (auto simp: branchBlock_def)

lemma jumpBlockI: "valuesIn q b = body @ [t] \<Longrightarrow> valuesOf q t = Some (JumpValue org (target, f)) \<Longrightarrow> jumpBlock q b body target"
  by (auto simp: jumpBlock_def)

lemma chill_blocks:
  assumes f: "forked v b k ins p p1 [cc_one cc, cc_sum cc, cc_ok cc] br pA"
    and a: "appendedAll (chillAppends org type num den b r cc zerov badv ts w) pA pB" and r: "r = length (m_heap p)" "b < r"
    and q: "\<And>c. valuesIn q c = valuesIn pB c" "valuesOf q br = Some (BranchValue org (cc_ok cc) (r + 1, Normal) (r + 2, Rare))"
      "\<And>j w. (j, w) \<in> set (map snd (chillAppends org type num den b r cc zerov badv ts (Some (cc_phi cc)))) \<Longrightarrow> valuesOf q j = Some w"
  shows "chillBlocks b r (spliced (take k (valuesIn p b)) ins) den cc q" "valuesIn q b = drop k (valuesIn p b)"
    "c < r \<Longrightarrow> c \<noteq> b \<Longrightarrow> valuesIn q c = valuesIn p c"
proof -
  let ?L = "chillAppends org type num den b r cc zerov badv ts w"
  note f' = f [unfolded forked_def Let_def, folded r(1)]
  have old: "valuesIn q c = valuesIn pA c" if "c \<le> r" for c
  proof (cases "block pA c")
    case None
    then have "valuesIn pB c = valuesIn pA c" using a by (simp add: appendedAll_def valuesIn_def)
    then show ?thesis by (simp add: q(1))
  next
    case (Some bb)
    then show ?thesis using appendedAll_values(1) [OF a, of c] that by (simp add: q(1) chillAppends_def)
  qed
  have new: "valuesIn q c = map (fst \<circ> snd) (filter (\<lambda>x. fst x = c) ?L)" if "r + 1 \<le> c" "c \<le> r + 5" for c
    using appendedAll_values(1) [OF a, of c] f' that by (simp add: q(1))
  show "valuesIn q b = drop k (valuesIn p b)" using old [of b] f' r(2) by simp
  show "valuesIn q c = valuesIn p c" if "c < r" "c \<noteq> b" using old [of c] f' that by (simp add: valuesIn_def)
  have ts: "valuesOf q (ts ! 0) = Some (JumpValue org (b, Normal))" "valuesOf q (ts ! 1) = Some (BranchValue org den (r + 4, Normal) (r + 3, Rare))"
      "valuesOf q (ts ! 2) = Some (JumpValue org (b, Normal))"
      "valuesOf q (ts ! 3) = Some (BranchValue org (cc_isBad cc) (r + 5, Rare) (r + 1, Normal))" "valuesOf q (ts ! 4) = Some (JumpValue org (b, Normal))"
    by (rule q(3), simp add: chillAppends_def)+
  show "chillBlocks b r (spliced (take k (valuesIn p b)) ins) den cc q"
    unfolding chillBlocks_def
    by (intro conjI branchBlockI [OF _ q(2)] branchBlockI [OF _ ts(2)] branchBlockI [OF _ ts(4)] jumpBlockI [OF _ ts(1)] jumpBlockI [OF _ ts(3)]
        jumpBlockI [OF _ ts(5)])
      (use old [of r] f' new [of "r + 1"] new [of "r + 2"] new [of "r + 3"] new [of "r + 4"] new [of "r + 5"] in \<open>simp_all add: chillAppends_def\<close>)
qed

lemma chillLoweredI:
  assumes st: "chillStages (valuesOf p) (valuesOf p1) i v num den (retargeted p b) br cc ts zerov badv (valuesOf pA)"
    and f: "forked v b k ins p p1 [cc_one cc, cc_sum cc, cc_ok cc] br pA"
    and a: "appendedAll (chillAppends (m_origin v) (m_type v) num den b r cc zerov badv ts None) pA pB"
    and r: "r = length (m_heap p)" "b < r" and cs: "m_children v = [num, den]"
    and q: "valuesOf q = chillStore (m_origin v) (m_type v) num den b r cc zerov badv ts i (valuesOf pA)" "procInv q" "m_blocks q = m_blocks pB"
      "\<And>c. valuesIn q c = valuesIn pB c" "length (m_heap q) = length (m_heap pB)"
  shows "chillLowered i v b k ins (cc_phi cc) p q"
proof -
  let ?ty = "m_type v" and ?org = "m_origin v"
  have sA: "valuesOf pA = forkStore b r (retargeted p b) ?org (cc_ok cc) br (valuesOf p1)"
    using f r(1) by (simp add: forked_def Let_def forkStore_def)
  note S = chillStore_keeps [OF st sA, folded q(1)]
  note B = chill_blocks [OF f a r q(4) S(5) S(6)]
  have int: "isInt ?ty" and op: "m_opcode v = ChillDiv" and phi: "valuesOf pA (cc_phi cc) = None" and g: "storeGrows (valuesOf p) (valuesOf p1)"
    using st unfolding chillStages_def Let_def by - (elim conjE, assumption)+
  obtain nv dv where nd: "valuesOf p num = Some nv" "m_type nv = ?ty" "valuesOf p den = Some dv" "m_type dv = ?ty"
    using st unfolding chillStages_def by (elim conjE exE) (rule that)
  have i: "valuesOf p i = Some v" using st unfolding chillStages_def by - (elim conjE, assumption)+
  have typed: "\<exists>w'. valuesOf q j = Some w' \<and> m_type w' = m_type w" if "valuesOf p j = Some w" for j w
  proof (cases "j = i")
    case True
    then show ?thesis using that i by (simp add: q(1) chillStore_def mkValue_type)
  next
    case False
    then show ?thesis using S(3) [OF False that] redirected_type [of b r "retargeted p b" "valuesOf p" j] that by auto
  qed
  have pphi: "valuesOf p (cc_phi cc) = None"
  proof (rule ccontr)
    assume "valuesOf p (cc_phi cc) \<noteq> None"
    then obtain w where "valuesOf p1 (cc_phi cc) = Some w" using storeGrowsD(1) [OF g] by auto
    then show False using phi by (auto simp: sA forkStore_def redirected_def split: if_splits)
  qed
  show ?thesis
    unfolding chillLowered_def Let_def r(1) [symmetric]
  proof (intro conjI allI impI)
    show "procInv q" by (rule q(2))
    show "wtStore (valuesOf q)" by (rule S(1))
    show "m_blocks q = m_blocks p" using q(3) a f by (simp add: appendedAll_def forked_def Let_def)
    show "length (m_heap q) = r + 6" using q(5) a f r by (simp add: appendedAll_def forked_def Let_def)
    show "valuesOf p (cc_phi cc) = None" by (rule pphi)
    show "valuesOf q (cc_phi cc) = Some (mkValue Phi ?ty ?org [] NoPayload)" using S(2) by (simp add: chillValues_def)
    show "valuesOf q i = Some (mkValue Identity ?ty ?org [cc_phi cc] NoPayload)" by (simp add: q(1) chillStore_def)
    show "valuesIn q b = drop k (valuesIn p b)" by (rule B(2))
    fix env h assume sol: "solution (valuesOf q) env"
    have t: "typeOf (env num) = ?ty" "typeOf (env den) = ?ty"
      using typed [OF nd(1)] typed [OF nd(3)] nd(2,4) solutionD [OF sol] by (auto simp: solves_def)
    show "\<exists>is x. runsTo q env (r, h) (b, h @ spliced (take k (valuesIn p b)) ins @ is) \<and>
        observed q env is = [SetPhi (Some (cc_phi cc)) [x]] \<and> evalValue env v = Exactly x"
      using chill_runs [OF S(2) B(1) int sol t, of h "m_payload v"] by (simp add: evalValue_def op args_def cs)
  qed (rule S(3) S(4) S(7) B(3), assumption+)+
qed

lemma retargeted_controls:
  assumes "\<forall>c \<in> set (predsOf p b). endsInTerminal p c"
  shows "retargeted p b \<subseteq> dom (valuesOf p)" "controlsIn (valuesOf p) (retargeted p b)"
  using assms by (auto simp: retargeted_def endsInTerminal_iff controlsIn_def)

lemma setPreds_heap [simp]: "length (m_heap (setPreds P p)) = length (m_heap p)"
  by (simp add: setPreds_def)

text \<open>The names of the code, once the test and the phi have theirs.\<close>

definition named :: "ChillCode \<Rightarrow> value_ptr \<Rightarrow> value_ptr \<Rightarrow> value_ptr \<Rightarrow> value_ptr \<Rightarrow> ChillCode" where
  "named cc one sum0 ok phi = cc\<lparr>cc_one := one, cc_sum := sum0, cc_ok := ok, cc_phi := phi\<rparr>"

lemma named_sel [simp]:
  "cc_one (named cc one sum0 ok phi) = one" "cc_sum (named cc one sum0 ok phi) = sum0" "cc_ok (named cc one sum0 ok phi) = ok"
  "cc_phi (named cc one sum0 ok phi) = phi" "cc_quotient (named cc one sum0 ok phi) = cc_quotient cc"
  "cc_zero (named cc one sum0 ok phi) = cc_zero cc" "cc_bad (named cc one sum0 ok phi) = cc_bad cc"
  "cc_isBad (named cc one sum0 ok phi) = cc_isBad cc" "cc_normalResult (named cc one sum0 ok phi) = cc_normalResult cc"
  "cc_zeroResult (named cc one sum0 ok phi) = cc_zeroResult cc" "cc_intMinResult (named cc one sum0 ok phi) = cc_intMinResult cc"
  "chillAppends org type num den b r (named cc one sum0 ok phi) zerov badv ts w = chillAppends org type num den b r cc zerov badv ts w"
  by (simp_all add: named_def chillAppends_def)

lemma appendedAll_fresh:
  assumes a: "appendedAll (chillAppends org type num den b r cc zerov badv ts w) pA pB" and phi: "valuesOf pB phi = None"
  defines "K \<equiv> [cc_quotient cc, cc_normalResult cc, ts ! 0, ts ! 1, cc_zero cc, cc_zeroResult cc, ts ! 2, cc_bad cc, cc_isBad cc, ts ! 3,
     cc_intMinResult cc, ts ! 4]"
  shows "distinct K" "\<forall>j \<in> set K. valuesOf pA j = None" "phi \<notin> set K" "valuesOf pA phi = None"
    "(j, x) \<in> set (map snd (chillAppends org type num den b r cc zerov badv ts w)) \<Longrightarrow> valuesOf pB j = Some x"
    "valuesOf pA j = Some x \<Longrightarrow> valuesOf pB j = Some x"
proof -
  let ?L = "map snd (chillAppends org type num den b r cc zerov badv ts w)"
  have K: "map (fst \<circ> snd) (chillAppends org type num den b r cc zerov badv ts w) = K"
    using chillAppends_keys [of org type num den b r cc zerov badv ts w] by (simp only: list.map_comp K_def)
  have keys: "map fst ?L = K" by (simp only: chillAppends_keys K_def)
  show dK: "distinct K" and fK: "\<forall>j \<in> set K. valuesOf pA j = None" using a by (simp_all add: appendedAll_def K)
  then have d: "distinct (map fst ?L)" by (simp only: keys)
  have B: "valuesOf pB j = (case map_of ?L j of Some x \<Rightarrow> Some x | None \<Rightarrow> valuesOf pA j)" for j
    using a by (simp only: appendedAll_def adds_lookup [OF d])
  show "valuesOf pA phi = None" using B [of phi] phi by (auto split: option.splits)
  have "map_of ?L phi = None" using B [of phi] phi by (auto split: option.splits)
  then show "phi \<notin> set K" unfolding keys [symmetric] by (simp only: map_of_eq_None_iff list.set_map not_False_eq_True)
  show "valuesOf pB j = Some x" if "(j, x) \<in> set ?L" using B [of j] map_of_is_SomeI [OF d that] by simp
  show "valuesOf pB j = Some x" if "valuesOf pA j = Some x"
  proof -
    have "j \<notin> set K" using fK that by auto
    then have "map_of ?L j = None" unfolding map_of_eq_None_iff keys [symmetric] by (simp only: list.set_map not_False_eq_True)
    then show ?thesis using B [of j] that by simp
  qed
qed

lemma chillStagesI:
  assumes from0: "forkedFrom v den lm p1 one sum0 ok" and f: "forked v b k ins (lm_proc lm) p1 [one, sum0, ok] br pA"
    and T: "T \<subseteq> dom (valuesOf (lm_proc lm))" "controlsIn (valuesOf (lm_proc lm)) T"
    and i: "valuesOf (lm_proc lm) i = Some v" "m_opcode v = ChillDiv" "isInt (m_type v)"
    and nd: "valuesOf (lm_proc lm) num = Some nv" "m_type nv = m_type v" "valuesOf (lm_proc lm) den = Some dv" "m_type dv = m_type v"
    and c: "badNumeratorConst (m_type v) = Some bc" "intConstant (m_origin v) (m_type v) 0 = Some zerov" "intConstant (m_origin v) (m_type v) bc = Some badv"
    and a: "appendedAll (chillAppends (m_origin v) (m_type v) num den b r cc zerov badv ts w) pA pB" and phi: "valuesOf pB phi = None"
  shows "chillStages (valuesOf (lm_proc lm)) (valuesOf p1) i v num den T br (named cc one sum0 ok phi) ts zerov badv (valuesOf pA)"
proof -
  have g: "grows (lm_proc lm) p1" using from0 by (simp add: forkedFrom_def)
  have br: "valuesOf p1 br = None" using f by (simp add: forked_def Let_def)
  show ?thesis
    unfolding chillStages_def Let_def named_sel
    using growsD(8,5) [OF g] br from0 [unfolded forkedFrom_def] T i nd c appendedAll_fresh(1-4) [OF a phi]
    by (intro conjI) blast+
qed

text \<open>How the result is built, for what it does to the shape of the procedure.\<close>

definition chillBuilt :: "value_ptr \<Rightarrow> Value \<Rightarrow> block_ptr \<Rightarrow> nat \<Rightarrow> Insertion list \<Rightarrow> value_ptr \<Rightarrow> Procedure \<Rightarrow> Procedure \<Rightarrow> bool" where
  "chillBuilt i v b k ins phi p q \<longleftrightarrow>
     (\<exists>p1 num den br cc ts zerov badv pA pB pC P.
        chillStages (valuesOf p) (valuesOf p1) i v num den (retargeted p b) br cc ts zerov badv (valuesOf pA) \<and>
        forked v b k ins p p1 [cc_one cc, cc_sum cc, cc_ok cc] br pA \<and>
        appendedAll (chillAppends (m_origin v) (m_type v) num den b (length (m_heap p)) cc zerov badv ts None) pA pB \<and> cc_phi cc = phi \<and>
        valuesOf pC = chillStore (m_origin v) (m_type v) num den b (length (m_heap p)) cc zerov badv ts i (valuesOf pA) \<and>
        m_heap pC = m_heap pB \<and> q = setPreds P pC \<and> hg.updated pC (predsOf pC) P)"

lemma lowerChillDiv_lowers:
  fixes lm
  defines "p \<equiv> lm_proc lm" and "b \<equiv> lm_block lm" and "k \<equiv> lm_index lm" and "i \<equiv> lm_value lm" and "r \<equiv> length (m_heap (lm_proc lm))"
  assumes inv: "procInv p" "wtStore (valuesOf p)" and bb: "block p b = Some bb"
    and v: "at (valuesIn p b) k = Some i" "valuesOf p i = Some v" "m_opcode v = ChillDiv"
    and preds: "\<forall>c \<in> set (predsOf p b). endsInTerminal p c" and ins: "\<forall>q \<in> set (lm_insertionSet lm). fst q \<le> k"
  obtains p' phi where "lowerChillDiv v lm = Some (lm\<lparr>lm_proc := p', lm_blockInsertions := lm_blockInsertions lm @ map (\<lambda>n. (bb_index bb, n)) [r..<r + 6],
      lm_insertionSet := [(0, phi)], lm_index := 0, lm_changed := True\<rparr>)"
    "chillLowered i v b k (lm_insertionSet lm) phi p p'" "chillBuilt i v b k (lm_insertionSet lm) phi p p'"
proof -
  obtain num den nv dv where cs: "m_children v = [num, den]" and nv: "valuesOf p num = Some nv" and dv: "valuesOf p den = Some dv"
    and nt: "m_type nv = m_type v" and dt: "m_type dv = m_type v" and int: "isInt (m_type v)"
    by (rule chill_shape [OF wtStoreD [OF inv(2) v(2)] v(3)])
  let ?lm0 = "lm\<lparr>lm_changed := True\<rparr>" and ?org = "m_origin v" and ?ty = "m_type v"
  let ?bs = "lm_blockInsertions lm @ map (\<lambda>n. (bb_index bb, n)) [r..<r + 6]"
  have p0: "lm_proc ?lm0 = p" by (simp add: p_def)
  have v': "valuesOf p i \<noteq> None" using v(2) by simp
  obtain p1 one sum0 ok br pA where A: "chillFork v den ?lm0 = Some (chillCasesAt r, ?lm0\<lparr>lm_proc := pA,
      lm_blockInsertions := ?bs, lm_insertionSet := [], lm_index := 0\<rparr>)"
    and from0: "forkedFrom v den ?lm0 p1 one sum0 ok" and f: "forked v b k (lm_insertionSet lm) p p1 [one, sum0, ok] br pA"
    by (rule chillFork_spec [of ?lm0 bb i den dv v])
      (use inv bb v(1) v' dv dt int preds ins in \<open>simp_all add: p_def b_def k_def r_def\<close>)
  let ?lmA = "?lm0\<lparr>lm_proc := pA, lm_blockInsertions := ?bs, lm_insertionSet := [], lm_index := 0\<rparr>"
  have g: "grows p p1" "m_heap p1 = m_heap p" using from0 by (simp_all add: forkedFrom_def p_def)
  have sA: "valuesOf pA = forkStore b r (retargeted p b) ?org ok br (valuesOf p1)" and br: "valuesOf p1 br = None" and invA: "procInv pA"
    using f by (simp_all add: forked_def Let_def forkStore_def r_def p_def)
  note T = retargeted_controls [OF preds]
  have "map_option m_type (valuesOf pA num) = Some ?ty"
    using growsD(7) [OF g(1) nv] redirected_type [of b r "retargeted p b" "valuesOf p1" num] br nt by (auto simp: sA forkStore_def)
  then obtain nv' where nv': "valuesOf pA num = Some nv'" "m_type nv' = ?ty" by auto
  obtain cc zerov badv bc ts pB where F: "chillFill v num den (chillCasesAt r) ?lmA =
        Some ((cc_normalResult cc, cc_zeroResult cc, cc_intMinResult cc), ?lmA\<lparr>lm_proc := pB\<rparr>)"
      and c: "badNumeratorConst ?ty = Some bc" "intConstant ?org ?ty 0 = Some zerov" "intConstant ?org ?ty bc = Some badv"
      and a: "appendedAll (chillAppends ?org ?ty num den b r cc zerov badv ts None) pA pB"
    by (rule chillFill_spec [of ?lmA num nv' v den r]) (use invA nv' int in \<open>simp_all add: b_def\<close>)
  have "i \<notin> retargeted p b" using T(2) v by (auto simp: controlsIn_def acceptsControl_def)
  then have iA: "valuesOf pA i = Some v" using growsD(7) [OF g(1) v(2)] br by (auto simp: sA forkStore_def redirected_def)
  have invB: "procInv pB" using a by (simp add: appendedAll_def)
  obtain phi0 where "valuesOf pB phi0 = None" using add_fresh(1) [OF invB] by (metis surj_pair)
  note fr = appendedAll_fresh [OF a this]
  have us: "valuesOf pB (cc_normalResult cc) = Some (UpsilonValue ?org (cc_quotient cc) None)"
      "valuesOf pB (cc_zeroResult cc) = Some (UpsilonValue ?org (cc_zero cc) None)"
      "valuesOf pB (cc_intMinResult cc) = Some (UpsilonValue ?org (cc_bad cc) None)"
    by (rule fr(5), simp add: chillAppends_def)+
  have d: "distinct [cc_normalResult cc, cc_zeroResult cc, cc_intMinResult cc, i]" using fr(1,2) iA by auto
  let ?lmB = "?lmA\<lparr>lm_proc := pB\<rparr>"
  obtain phi pC where C: "chillPhi v (cc_normalResult cc, cc_zeroResult cc, cc_intMinResult cc) ?lmB =
        Some (?lmB\<lparr>lm_proc := pC, lm_insertionSet := [(0, phi)]\<rparr>)"
      and phi: "valuesOf pB phi = None" and pC: "procInv pC" "m_heap pC = m_heap pB" "m_blocks pC = m_blocks pB"
      and sC: "valuesOf pC = (valuesOf pB)(phi \<mapsto> mkValue Phi ?ty ?org [] NoPayload, cc_normalResult cc \<mapsto> UpsilonValue ?org (cc_quotient cc) (Some phi),
         cc_zeroResult cc \<mapsto> UpsilonValue ?org (cc_zero cc) (Some phi), cc_intMinResult cc \<mapsto> UpsilonValue ?org (cc_bad cc) (Some phi),
         i \<mapsto> mkValue Identity ?ty ?org [phi] NoPayload)"
    by (rule chillPhi_spec [of ?lmB "cc_normalResult cc" ?org "cc_quotient cc" "cc_zeroResult cc" "cc_zero cc" "cc_intMinResult cc" "cc_bad cc" v])
      (use invB us d fr(6) [OF iA] in \<open>simp_all add: i_def\<close>)
  let ?lmC = "?lmB\<lparr>lm_proc := pC, lm_insertionSet := [(0, phi)]\<rparr>"
  have "block pB r \<noteq> None" using a f by (simp add: appendedAll_def forked_def Let_def r_def p_def)
  then have "block (lm_proc ?lmC) r \<noteq> None" using pC(2) by (simp add: block_def)
  then obtain P where P: "lmUpdatePredecessorsAfter r ?lmC = Some (?lmC\<lparr>lm_proc := setPreds P pC\<rparr>)"
      and upd: "hg.updated pC (predsOf pC) P"
    by (rule lmUpdatePredecessorsAfter_total) simp
  let ?cc = "named cc one sum0 ok phi"
  have st: "chillStages (valuesOf p) (valuesOf p1) i v num den (retargeted p b) br ?cc ts zerov badv (valuesOf pA)"
    using chillStagesI [OF from0 [unfolded p_def], of b k "lm_insertionSet lm" br pA] f T v int nv nt dv dt c a phi by (simp add: p0)
  have store: "valuesOf (setPreds P pC) = chillStore ?org ?ty num den b r ?cc zerov badv ts i (valuesOf pA)"
    using a chill_store [OF fr(1) appendedAll_fresh(3) [OF a phi]] by (simp add: sC chillStore_def filledStore_def appendedAll_def)
  have "chillLowered i v b k (lm_insertionSet lm) (cc_phi ?cc) p (setPreds P pC)"
    by (rule chillLoweredI [OF st _ _ _ _ cs store, of _ _ pB])
      (use f a pC block_bound [of p b] bb in \<open>simp_all add: r_def p_def valuesIn_def block_def\<close>)
  moreover have "chillBuilt i v b k (lm_insertionSet lm) phi p (setPreds P pC)"
    unfolding chillBuilt_def
    by (rule exI [of _ p1], rule exI [of _ num], rule exI [of _ den], rule exI [of _ br], rule exI [of _ ?cc], rule exI [of _ ts],
        rule exI [of _ zerov], rule exI [of _ badv], rule exI [of _ pA], rule exI [of _ pB], rule exI [of _ pC], rule exI [of _ P])
      (use st f a store pC(2) upd in \<open>simp add: r_def p_def\<close>)
  moreover have "lowerChillDiv v lm = Some (?lmC\<lparr>lm_proc := setPreds P pC\<rparr>)"
    using A F C P cs by (simp add: lowerChillDiv_def at_def chillCasesAt_def)
  ultimately show thesis by (intro that [of phi "setPreds P pC"]) simp_all
qed

end
