(* ===== verification/B3LowerShape.thy ===== *)
theory B3LowerShape
  imports B3ChillSound
begin

text \<open>
  The invariant of the phase \<open>lowerMacros\<close>, and that lowering a switch and lowering a division keep it: where the values
  are, how the blocks end and go to each other, and what is left to be lowered.
\<close>

subsection \<open>The invariant\<close>

definition liveBlocks :: "Procedure \<Rightarrow> block_ptr set" where
  "liveBlocks p = {b. block p b \<noteq> None}"

definition terminated :: "Procedure \<Rightarrow> bool" where
  "terminated p \<longleftrightarrow> (\<forall>b \<in> liveBlocks p. endsInTerminal p b \<and> set (successorBlocks p b) \<subseteq> liveBlocks p)"

definition predsLive :: "Procedure \<Rightarrow> bool" where
  "predsLive p \<longleftrightarrow> (\<forall>c. set (predsOf p c) \<subseteq> liveBlocks p)"

definition switchesLast :: "Procedure \<Rightarrow> bool" where
  "switchesLast p \<longleftrightarrow> (\<forall>b. \<forall>j \<in> set (butlast (valuesIn p b)). \<forall>v. valuesOf p j = Some v \<longrightarrow> m_opcode v \<noteq> Switch)"

definition switchesLowerable :: "store \<Rightarrow> bool" where
  "switchesLowerable s \<longleftrightarrow> (\<forall>j v. s j = Some v \<longrightarrow> m_opcode v = Switch \<longrightarrow> lowerableSwitch s v)"

definition macroInv :: "Procedure \<Rightarrow> bool" where
  "macroInv p \<longleftrightarrow>
     procInv p \<and> wtStore (valuesOf p) \<and> placedOnce p \<and> terminated p \<and> predsLive p \<and> switchesLast p \<and> switchesLowerable (valuesOf p)"

lemma macroInvD:
  assumes "macroInv p"
  shows "procInv p" "wtStore (valuesOf p)" "placedOnce p" "terminated p" "predsLive p" "switchesLast p" "switchesLowerable (valuesOf p)"
  using assms by (simp_all add: macroInv_def)

lemma placedOnceD:
  assumes "placedOnce p"
  shows "distinct (valuesIn p b)" "i \<in> set (valuesIn p b) \<Longrightarrow> \<exists>v. valuesOf p i = Some v"
    "i \<in> set (valuesIn p b) \<Longrightarrow> i \<in> set (valuesIn p c) \<Longrightarrow> b = c"
  using assms unfolding placedOnce_def by blast+

lemma valuesIn_live: "i \<in> set (valuesIn p b) \<Longrightarrow> b \<in> liveBlocks p"
  by (cases "block p b") (auto simp: liveBlocks_def valuesIn_def)

lemma edge_live: "c \<in> set (successorBlocks p a) \<Longrightarrow> a \<in> liveBlocks p"
  by (auto simp: successorBlocks_def lastValue_def valuesIn_def liveBlocks_def split: option.splits if_splits)

lemma setPreds_shape [simp]:
  "liveBlocks (setPreds P p) = liveBlocks p" "placedOnce (setPreds P p) = placedOnce p" "endsInTerminal (setPreds P p) b = endsInTerminal p b"
  "successorBlocks (setPreds P p) b = successorBlocks p b" "switchesLast (setPreds P p) = switchesLast p"
  by (simp_all add: liveBlocks_def placedOnce_def endsInTerminal_iff successorBlocks_def lastValue_def switchesLast_def)

lemma predsOf_setPreds: "predsOf (setPreds P p) c = (if c \<in> liveBlocks p then P c else [])"
  by (auto simp: predsOf_def liveBlocks_def split: option.splits)

text \<open>Updating the predecessors after a block only adds live ones.\<close>

lemma updated_predsLive:
  assumes "hg.updated p (predsOf p) P" "predsLive p"
  shows "predsLive (setPreds P p)"
proof -
  have "set (P c) \<subseteq> liveBlocks p" for c
    using assms edge_live [of c p] unfolding hg.updated_def predsLive_def by blast
  then show ?thesis by (auto simp: predsLive_def predsOf_setPreds)
qed

lemma setPreds_macroInv:
  assumes "procInv p" "wtStore (valuesOf p)" "placedOnce p" "terminated p" "predsLive p" "switchesLast p" "switchesLowerable (valuesOf p)"
    "hg.updated p (predsOf p) P"
  shows "macroInv (setPreds P p)"
  using assms updated_predsLive [OF assms(8,5)] by (simp add: macroInv_def terminated_def)

text \<open>Switches stay lowerable if the types of their operands stay.\<close>

lemma lowerable_ext:
  assumes sw: "lowerableSwitch s v" and op: "m_opcode w = m_opcode v" "caseValues w = caseValues v" "m_children w = m_children v"
    and s': "\<And>c t. c \<in> set (m_children v) \<Longrightarrow> map_option m_type (s' c) = Some t \<Longrightarrow> map_option m_type (s c) = Some t"
  shows "lowerableSwitch s' w"
proof -
  have "childType s v 0 = Some t" if "childType s' w 0 = Some t" for t
    using that s' op(3) by (auto simp: childType_def child_def at_def split: option.splits if_splits)
  then show ?thesis using sw op by (auto simp: lowerableSwitch_def)
qed

subsection \<open>What a lowering leaves alone\<close>

definition macroFree :: "Procedure \<Rightarrow> block_ptr \<Rightarrow> bool" where
  "macroFree p b \<longleftrightarrow> (\<forall>j \<in> set (valuesIn p b). \<forall>v. valuesOf p j = Some v \<longrightarrow> isLowered v)"

definition lowerFrame :: "block_ptr \<Rightarrow> value_ptr \<Rightarrow> Procedure \<Rightarrow> Procedure \<Rightarrow> bool" where
  "lowerFrame b i p q \<longleftrightarrow>
     length (m_heap p) \<le> length (m_heap q) \<and> m_blocks q = m_blocks p \<and>
     (\<forall>c < length (m_heap p). map_option bb_index (block q c) = map_option bb_index (block p c)) \<and>
     (\<forall>c \<ge> length (m_heap p). c < length (m_heap q) \<longrightarrow> block q c \<noteq> None \<and> macroFree q c) \<and>
     (\<forall>c < length (m_heap p). c \<noteq> b \<longrightarrow> valuesIn q c = valuesIn p c) \<and>
     (\<forall>j v. j \<noteq> i \<longrightarrow> valuesOf p j = Some v \<longrightarrow> map_option m_opcode (valuesOf q j) = Some (m_opcode v)) \<and>
     (\<forall>w. valuesOf q i = Some w \<longrightarrow> isLowered w)"

lemma lowerFrameD:
  assumes "lowerFrame b i p q"
  shows "length (m_heap p) \<le> length (m_heap q)" "m_blocks q = m_blocks p"
    "c < length (m_heap p) \<Longrightarrow> map_option bb_index (block q c) = map_option bb_index (block p c)"
    "length (m_heap p) \<le> c \<Longrightarrow> c < length (m_heap q) \<Longrightarrow> block q c \<noteq> None \<and> macroFree q c"
    "c < length (m_heap p) \<Longrightarrow> c \<noteq> b \<Longrightarrow> valuesIn q c = valuesIn p c"
    "j \<noteq> i \<Longrightarrow> valuesOf p j = Some v \<Longrightarrow> map_option m_opcode (valuesOf q j) = Some (m_opcode v)"
    "valuesOf q i = Some w \<Longrightarrow> isLowered w"
  using assms by (simp_all add: lowerFrame_def)

lemma frame_lowered:
  assumes f: "lowerFrame b i p q" and j: "valuesOf p j = Some v" "isLowered v" and w: "valuesOf q j = Some w"
  shows "isLowered w"
proof (cases "j = i")
  case False
  then show ?thesis using lowerFrameD(6) [OF f False j(1)] j(2) w by (simp add: isLowered_def)
qed (use lowerFrameD(7) [OF f] w in simp)

lemma frame_macroFree:
  assumes "lowerFrame b i p q" "macroFree p c" "c < length (m_heap p)" "c \<noteq> b" "placedOnce p"
  shows "macroFree q c"
  unfolding macroFree_def
proof (intro ballI allI impI)
  fix j w assume j: "j \<in> set (valuesIn q c)" "valuesOf q j = Some w"
  then have jp: "j \<in> set (valuesIn p c)" using lowerFrameD(5) [OF assms(1,3,4)] by simp
  then obtain v where "valuesOf p j = Some v" using placedOnceD(2) [OF assms(5)] by blast
  then show "isLowered w" using frame_lowered [OF assms(1) _ _ j(2)] assms(2) jp by (auto simp: macroFree_def)
qed

lemma frame_live:
  assumes "lowerFrame b i p q"
  shows "c \<in> liveBlocks q \<longleftrightarrow> c \<in> liveBlocks p \<or> length (m_heap p) \<le> c \<and> c < length (m_heap q)"
proof (cases "c < length (m_heap p)")
  case True
  have "block q c = None \<longleftrightarrow> block p c = None" using lowerFrameD(3) [OF assms True] by (metis option.map_disc_iff)
  then show ?thesis using True by (simp add: liveBlocks_def del: not_None_eq)
next
  case False
  then show ?thesis using lowerFrameD(4) [OF assms, of c] block_bound [of p c] block_bound [of q c] by (auto simp: liveBlocks_def)
qed

subsection \<open>Lowering a switch keeps the invariant\<close>

lemma switchBuiltE:
  assumes "switchBuilt i v lm lm2 q"
  obtains p1 P where "p1 = updateBlock (lm_block lm) (\<lambda>bb. bb\<lparr>bb_values := butlast (bb_values bb)\<rparr>) (lm_proc lm)"
    "built (lm_block lm) (lm\<lparr>lm_proc := p1\<rparr>) lm2" "emits (lm_block lm) (fst ` set (successors v)) p1 (lm_proc lm2)"
    "q = setPreds P (deleteValue i (lm_proc lm2))" "hg.updated (deleteValue i (lm_proc lm2)) (predsOf (deleteValue i (lm_proc lm2))) P"
  using assms unfolding switchBuilt_def by blast

lemma butlast_block:
  fixes p b
  defines "p1 \<equiv> updateBlock b (\<lambda>bb. bb\<lparr>bb_values := butlast (bb_values bb)\<rparr>) p"
  shows "valuesOf p1 = valuesOf p" "length (m_heap p1) = length (m_heap p)" "m_blocks p1 = m_blocks p"
    "valuesIn p1 c = (if c = b then butlast (valuesIn p b) else valuesIn p c)" "predsOf p1 c = predsOf p c"
    "block p1 c = None \<longleftrightarrow> block p c = None" "map_option bb_index (block p1 c) = map_option bb_index (block p c)"
    "c \<noteq> b \<Longrightarrow> block p1 c = block p c" "placedOnce p \<Longrightarrow> placedOnce p1"
proof -
  show v: "valuesIn p1 c = (if c = b then butlast (valuesIn p b) else valuesIn p c)" for c
    by (auto simp: p1_def valuesIn_def block_updateBlock split: option.splits)
  show vals: "valuesOf p1 = valuesOf p" by (simp add: p1_def)
  assume p: "placedOnce p"
  have sub: "set (valuesIn p1 d) \<subseteq> set (valuesIn p d)" for d using v [of d] by (auto dest: in_set_butlastD)
  show "placedOnce p1"
    unfolding placedOnce_def vals
  proof (intro conjI allI impI)
    show "distinct (valuesIn p1 d)" for d using v [of d] placedOnceD(1) [OF p] by (simp add: distinct_butlast)
    show "set (valuesIn p1 d) \<subseteq> dom (valuesOf p)" for d using sub [of d] placedOnceD(2) [OF p] by blast
    show "set (valuesIn p1 d) \<inter> set (valuesIn p1 e) = {}" if "d \<noteq> e" for d e using sub [of d] sub [of e] placedOnceD(3) [OF p] that by blast
  qed
qed (auto simp: p1_def block_updateBlock predsOf_def option.map_comp comp_def split: option.splits)

lemma ends_same:
  assumes "valuesIn q c = valuesIn p c" "valuesOf q (last (valuesIn p c)) = valuesOf p (last (valuesIn p c))"
  shows "endsInTerminal q c = endsInTerminal p c" "successorBlocks q c = successorBlocks p c"
  using assms by (simp_all add: endsInTerminal_iff successorBlocks_def lastValue_def)

lemma ends_last: "endsInTerminal p c \<Longrightarrow> last (valuesIn p c) \<in> set (valuesIn p c)"
  by (simp add: endsInTerminal_iff)

text \<open>The procedure between the build and the deletion of the switch.\<close>

definition switchStage :: "block_ptr \<Rightarrow> value_ptr \<Rightarrow> Value \<Rightarrow> value_ptr list \<Rightarrow> Procedure \<Rightarrow> Procedure \<Rightarrow> Procedure \<Rightarrow> bool" where
  "switchStage b i v vs p p1 p2 \<longleftrightarrow>
     macroInv p \<and> valuesIn p b = vs @ [i] \<and> valuesOf p i = Some v \<and> m_opcode v = Switch \<and>
     (\<forall>j \<in> set vs. \<forall>w. valuesOf p j = Some w \<longrightarrow> isLowered w) \<and>
     p1 = updateBlock b (\<lambda>bb. bb\<lparr>bb_values := butlast (bb_values bb)\<rparr>) p \<and>
     builds b p1 p2 \<and> emits b (fst ` set (successors v)) p1 p2"

lemma switchStageD:
  assumes "switchStage b i v vs p p1 p2"
  shows "macroInv p" "valuesIn p b = vs @ [i]" "valuesOf p i = Some v" "m_opcode v = Switch"
    "j \<in> set vs \<Longrightarrow> valuesOf p j = Some w \<Longrightarrow> isLowered w"
    "p1 = updateBlock b (\<lambda>bb. bb\<lparr>bb_values := butlast (bb_values bb)\<rparr>) p"
    "builds b p1 p2" "emits b (fst ` set (successors v)) p1 p2" "b \<in> liveBlocks p"
  using assms valuesIn_live [of i p b] unfolding switchStage_def by auto

lemma switchStage_old:
  assumes st: "switchStage b i v vs p p1 p2"
  shows "valuesOf p j = Some w \<Longrightarrow> valuesOf p2 j = Some w" "length (m_heap p1) = length (m_heap p)" "predsOf p2 c = predsOf p c"
    "c < length (m_heap p) \<Longrightarrow> c \<noteq> b \<Longrightarrow> valuesIn p2 c = valuesIn p c"
    "c < length (m_heap p) \<Longrightarrow> map_option bb_index (block p2 c) = map_option bb_index (block p c)"
    "block p2 c \<noteq> None \<longleftrightarrow> block p c \<noteq> None \<or> length (m_heap p) \<le> c \<and> c < length (m_heap p2)"
    "valuesOf p j = None \<Longrightarrow> valuesOf p2 j = Some w \<Longrightarrow> isLowered w"
proof -
  note B1 = butlast_block [where p = p and b = b, folded switchStageD(6) [OF st]] and B = switchStageD(7) [OF st]
  note G = growsD [OF buildsD(1) [OF B]]
  show "valuesOf p j = Some w \<Longrightarrow> valuesOf p2 j = Some w" using G(7) [of j w] B1(1) by simp
  show "valuesOf p j = None \<Longrightarrow> valuesOf p2 j = Some w \<Longrightarrow> isLowered w" using G(5) [of j w] B1(1) by simp
  show "length (m_heap p1) = length (m_heap p)" by (rule B1(2))
  show "predsOf p2 c = predsOf p c" using buildsD(7) [OF B] B1(5) by simp
  show "c < length (m_heap p) \<Longrightarrow> c \<noteq> b \<Longrightarrow> valuesIn p2 c = valuesIn p c" using builds_values [OF B, of c] B1(2,4) by simp
  show idx: "c < length (m_heap p) \<Longrightarrow> map_option bb_index (block p2 c) = map_option bb_index (block p c)"
    using buildsD(5) [OF B, of c] B1(2,7) by simp
  show "block p2 c \<noteq> None \<longleftrightarrow> block p c \<noteq> None \<or> length (m_heap p) \<le> c \<and> c < length (m_heap p2)"
  proof (cases "c < length (m_heap p)")
    case True
    then have "block p2 c = None \<longleftrightarrow> block p c = None" using idx by (metis option.map_disc_iff)
    then show ?thesis using True by auto
  next
    case False
    then show ?thesis using buildsD(6) [OF B, of c] B1(2) block_bound [of p c] block_bound [of p2 c] by auto
  qed
qed

text \<open>The switch is in no block any more, and the block and the new ones need no lowering.\<close>

lemma switchStage_placed:
  assumes st: "switchStage b i v vs p p1 p2"
  shows "i \<notin> set (valuesIn p2 c)" "placedOnce p2"
    "j \<in> set (valuesIn p2 c) \<Longrightarrow> c = b \<or> length (m_heap p) \<le> c \<Longrightarrow> valuesOf p2 j = Some w \<Longrightarrow> isLowered w"
    "j \<in> set (valuesIn p2 c) \<Longrightarrow> j \<in> set (valuesIn p c) \<or> valuesOf p j = None"
proof -
  note B1 = butlast_block [where p = p and b = b, folded switchStageD(6) [OF st]] and B = switchStageD(7) [OF st]
  note placed = macroInvD(3) [OF switchStageD(1) [OF st]] and vs = switchStageD(2) [OF st]
  have "i \<notin> set (valuesIn p1 c)"
  proof (cases "c = b")
    case True
    then show ?thesis using placedOnceD(1) [OF placed, of b] vs B1(4) [of c] by simp
  next
    case False
    then show ?thesis using placedOnceD(3) [OF placed, of i b c] vs B1(4) [of c] by auto
  qed
  then show "i \<notin> set (valuesIn p2 c)" using buildsD(4) [OF B, of c] switchStageD(3) [OF st] B1(1) by (auto simp: added_def)
  show "placedOnce p2" by (rule buildsD(8) [OF B B1(9) [OF placed]])
  show "j \<in> set (valuesIn p2 c) \<Longrightarrow> j \<in> set (valuesIn p c) \<or> valuesOf p j = None"
    using buildsD(4) [OF B, of c] B1(1) B1(4) [of c] by (auto simp: added_def domIff split: if_splits dest: in_set_butlastD)
  assume j: "j \<in> set (valuesIn p2 c)" "c = b \<or> length (m_heap p) \<le> c" "valuesOf p2 j = Some w"
  show "isLowered w"
  proof (cases "valuesOf p j")
    case None
    then show ?thesis using switchStage_old(7) [OF st _ j(3)] by simp
  next
    case (Some w')
    then have "j \<in> set (valuesIn p1 c)" using buildsD(4) [OF B, of c] j(1) B1(1) by (auto simp: added_def)
    moreover from this have "c = b" using j(2) valuesIn_unallocated [of p1 c] B1(2) by (cases "length (m_heap p) \<le> c") auto
    ultimately have "j \<in> set vs" using B1(4) [of b] vs by simp
    then show ?thesis using switchStageD(5) [OF st] Some switchStage_old(1) [OF st Some] j(3) by simp
  qed
qed

lemma switchStage_terminated:
  assumes st: "switchStage b i v vs p p1 p2" and c: "block p2 c \<noteq> None"
  shows "endsInTerminal p2 c" "d \<in> set (successorBlocks p2 c) \<Longrightarrow> block p2 d \<noteq> None"
proof -
  note live = switchStage_old(6) [OF st] and tm = macroInvD(4) [OF switchStageD(1) [OF st]]
  have "successorBlocks p b = map fst (successors v)" using switchStageD(2,3) [OF st] by (simp add: successorBlocks_def lastValue_def)
  then have targets: "fst ` set (successors v) \<subseteq> liveBlocks p"
    using bspec [OF tm [unfolded terminated_def] switchStageD(9) [OF st]] by simp
  have "endsInTerminal p2 c \<and> set (successorBlocks p2 c) \<subseteq> {d. block p2 d \<noteq> None}"
  proof (cases "c = b \<or> length (m_heap p) \<le> c")
    case True
    then have "endsInTerminal p2 c" "set (successorBlocks p2 c) \<subseteq> fst ` set (successors v) \<union> {d. block p2 d \<noteq> None}"
      using switchStageD(8) [OF st] block_bound [OF c] switchStage_old(2) [OF st] by (auto simp: emits_def)
    then show ?thesis using targets live unfolding liveBlocks_def by blast
  next
    case False
    then have cl: "c \<in> liveBlocks p" "c < length (m_heap p)" using live [of c] c by (auto simp: liveBlocks_def)
    then have e: "endsInTerminal p c" "set (successorBlocks p c) \<subseteq> liveBlocks p" using tm by (auto simp: terminated_def)
    obtain w where "valuesOf p (last (valuesIn p c)) = Some w" using e(1) by (auto simp: endsInTerminal_iff)
    then have "valuesOf p2 (last (valuesIn p c)) = valuesOf p (last (valuesIn p c))" using switchStage_old(1) [OF st] by simp
    from ends_same [OF switchStage_old(4) [OF st cl(2)] this] False show ?thesis using e live unfolding liveBlocks_def by auto
  qed
  then show "endsInTerminal p2 c" "d \<in> set (successorBlocks p2 c) \<Longrightarrow> block p2 d \<noteq> None" by auto
qed

lemma switchStage_switches:
  assumes st: "switchStage b i v vs p p1 p2"
  shows "switchesLast p2" "switchesLowerable ((valuesOf p2)(i := None))"
proof -
  note I = macroInvD [OF switchStageD(1) [OF st]] and old = switchStage_old(1) [OF st]
  show "switchesLast p2"
    unfolding switchesLast_def
  proof (intro allI ballI impI)
    fix c j w assume j: "j \<in> set (butlast (valuesIn p2 c))" "valuesOf p2 j = Some w"
    show "m_opcode w \<noteq> Switch"
    proof (cases "c = b \<or> length (m_heap p) \<le> c")
      case True
      then show ?thesis using switchStage_placed(3) [OF st in_set_butlastD [OF j(1)] True j(2)] by (simp add: isLowered_def)
    next
      case False
      then have jp: "j \<in> set (butlast (valuesIn p c))" using j switchStage_old(4) [OF st] by simp
      then obtain w' where "valuesOf p j = Some w'" using placedOnceD(2) [OF I(3), of j c] by (auto dest: in_set_butlastD)
      then show ?thesis using I(6) jp j(2) old [of j w'] by (auto simp: switchesLast_def)
    qed
  qed
  show "switchesLowerable ((valuesOf p2)(i := None))"
    unfolding switchesLowerable_def
  proof (intro allI impI)
    fix j w assume j: "((valuesOf p2)(i := None)) j = Some w" "m_opcode w = Switch"
    then have j2: "valuesOf p2 j = Some w" by (auto split: if_splits)
    obtain w' where w': "valuesOf p j = Some w'" using switchStage_old(7) [OF st _ j2] j(2) by (cases "valuesOf p j") (auto simp: isLowered_def)
    then have "w' = w" using old [OF w'] j2 by simp
    then have wl: "lowerableSwitch (valuesOf p) w" "wtValue (valuesOf p) w" using I(7) w' j(2) wtStoreD [OF I(2)] by (auto simp: switchesLowerable_def)
    show "lowerableSwitch ((valuesOf p2)(i := None)) w"
    proof (rule lowerable_ext [OF wl(1) refl refl refl])
      fix c t assume c: "c \<in> set (m_children w)" "map_option m_type (((valuesOf p2)(i := None)) c) = Some t"
      obtain cw where "valuesOf p c = Some cw" using wt_children [OF wl(2) c(1)] by blast
      then show "map_option m_type (valuesOf p c) = Some t" using old c(2) by (auto split: if_splits)
    qed
  qed
qed

lemma switch_keeps:
  fixes lm
  defines "p \<equiv> lm_proc lm" and "b \<equiv> lm_block lm"
  assumes inv: "macroInv p" and vs: "valuesIn p b = vs @ [i]" and v: "valuesOf p i = Some v" "m_opcode v = Switch"
    and prefix: "\<And>j w. j \<in> set vs \<Longrightarrow> valuesOf p j = Some w \<Longrightarrow> isLowered w"
    and low: "switchLowered i v b p q" and bu: "switchBuilt i v lm lm2 q"
  shows "macroInv q" "lowerFrame b i p q" "macroFree q b" "j \<in> set (valuesIn q c) \<Longrightarrow> j \<in> set (valuesIn p c) \<or> valuesOf p j = None"
proof -
  define p2 where "p2 = lm_proc lm2"
  obtain p1 P where p1: "p1 = updateBlock b (\<lambda>bb. bb\<lparr>bb_values := butlast (bb_values bb)\<rparr>) p" "built b (lm\<lparr>lm_proc := p1\<rparr>) lm2"
      "emits b (fst ` set (successors v)) p1 p2" and q: "q = setPreds P (deleteValue i p2)"
      and upd: "hg.updated (deleteValue i p2) (predsOf (deleteValue i p2)) P"
    using switchBuiltE [OF bu] unfolding p_def b_def p2_def by blast
  have "builds b p1 p2" using builtD(1) [OF p1(2)] by (simp add: p2_def)
  then have st: "switchStage b i v vs p p1 p2" unfolding switchStage_def using inv vs v prefix p1(1,3) by blast
  let ?p3 = "deleteValue i p2"
  have blk3: "block ?p3 c = block p2 c" "valuesIn ?p3 c = valuesIn p2 c" "predsOf ?p3 c = predsOf p2 c" for c
    by (simp_all add: block_def valuesIn_def predsOf_def)
  have s3: "valuesOf ?p3 = (valuesOf p2)(i := None)" by (rule valuesOf_deleteValue)
  note old = switchStage_old [OF st] and placed = switchStage_placed [OF st]
  have lastne: "last (valuesIn p2 c) \<noteq> i" if "valuesIn p2 c \<noteq> []" for c using placed(1) [of c] last_in_set [OF that] by metis
  have ends3: "endsInTerminal ?p3 c = endsInTerminal p2 c" "successorBlocks ?p3 c = successorBlocks p2 c" for c
    using lastne [of c] by (cases "valuesIn p2 c = []"; simp add: endsInTerminal_iff successorBlocks_def lastValue_def blk3 s3)+
  show "macroInv q"
    unfolding q
  proof (rule setPreds_macroInv [OF _ _ _ _ _ _ _ upd])
    show "procInv ?p3" "wtStore (valuesOf ?p3)" using low q by (simp_all add: switchLowered_def)
    show "placedOnce ?p3" using placed(1,2) unfolding placedOnce_def blk3 s3 by (auto simp: dom_def)
    show "terminated ?p3" using switchStage_terminated [OF st] unfolding terminated_def ends3 liveBlocks_def blk3 by blast
    show "predsLive ?p3" using macroInvD(5) [OF inv] old(6) unfolding predsLive_def liveBlocks_def blk3 old(3) by blast
    show "switchesLast ?p3" using switchStage_switches(1) [OF st] by (auto simp: switchesLast_def blk3 s3)
    show "switchesLowerable (valuesOf ?p3)" using switchStage_switches(2) [OF st] by (simp add: s3)
  qed
  have free: "macroFree q c" if "c = b \<or> length (m_heap p) \<le> c" for c
    using placed(3) [OF _ that] by (auto simp: macroFree_def q blk3 s3 split: if_splits)
  then show "macroFree q b" by simp
  show "j \<in> set (valuesIn q c) \<Longrightarrow> j \<in> set (valuesIn p c) \<or> valuesOf p j = None"
    using placed(4) [of j c] blk3(2) [of c] by (simp add: q)
  show "lowerFrame b i p q"
    unfolding lowerFrame_def
  proof (intro conjI allI impI)
    show "length (m_heap p) \<le> length (m_heap q)" using buildsD(2) [OF switchStageD(7) [OF st]] old(2) by (simp add: q)
    show "m_blocks q = m_blocks p" using low by (simp add: switchLowered_def)
    show "map_option bb_index (block q c) = map_option bb_index (block p c)" if "c < length (m_heap p)" for c
      using old(5) [OF that] blk3(1) [of c] by (simp add: q option.map_comp comp_def)
    show "macroFree q c" if "length (m_heap p) \<le> c" for c using free that by simp
    show "block q c \<noteq> None" if "length (m_heap p) \<le> c" "c < length (m_heap q)" for c
      using old(6) [of c] that blk3(1) [of c] by (simp add: q)
    show "valuesIn q c = valuesIn p c" if "c < length (m_heap p)" "c \<noteq> b" for c using old(4) [OF that] blk3(2) by (simp add: q)
    show "map_option m_opcode (valuesOf q j) = Some (m_opcode w)" if "j \<noteq> i" "valuesOf p j = Some w" for j w
      using old(1) [OF that(2)] that(1) s3 by (simp add: q)
    show "isLowered w" if "valuesOf q i = Some w" for w using that s3 by (simp add: q)
  qed
qed

subsection \<open>Lowering a division keeps the invariant\<close>

text \<open>Where the emitted values are.\<close>

definition emitted :: "block_ptr \<Rightarrow> value_ptr \<Rightarrow> ChillCode \<Rightarrow> value_ptr list \<Rightarrow> (block_ptr \<times> value_ptr) list" where
  "emitted r br cc ts =
     [(r, cc_one cc), (r, cc_sum cc), (r, cc_ok cc), (r, br),
      (r + 1, cc_quotient cc), (r + 1, cc_normalResult cc), (r + 1, ts ! 0), (r + 2, ts ! 1),
      (r + 3, cc_zero cc), (r + 3, cc_zeroResult cc), (r + 3, ts ! 2),
      (r + 4, cc_bad cc), (r + 4, cc_isBad cc), (r + 4, ts ! 3), (r + 5, cc_intMinResult cc), (r + 5, ts ! 4)]"

definition emittedIn :: "(block_ptr \<times> value_ptr) list \<Rightarrow> block_ptr \<Rightarrow> value_ptr list" where
  "emittedIn L c = map snd (filter (\<lambda>x. fst x = c) L)"

definition keptIn :: "block_ptr \<Rightarrow> nat \<Rightarrow> Insertion list \<Rightarrow> Procedure \<Rightarrow> block_ptr \<Rightarrow> value_ptr list" where
  "keptIn b k ins p c =
     (if c = length (m_heap p) then spliced (take k (valuesIn p b)) ins
      else if c = b then drop k (valuesIn p b) else valuesIn p c)"

lemma chill_valuesIn:
  assumes f: "forked v b k ins p p1 [cc_one cc, cc_sum cc, cc_ok cc] br pA" and b: "b < length (m_heap p)"
    and a: "appendedAll (chillAppends org type num den b (length (m_heap p)) cc zerov badv ts w) pA pB"
  shows "valuesIn pB c = keptIn b k ins p c @ emittedIn (emitted (length (m_heap p)) br cc ts) c"
proof -
  let ?r = "length (m_heap p)" and ?L = "chillAppends org type num den b (length (m_heap p)) cc zerov badv ts w"
  note f' = f [unfolded forked_def Let_def]
  have B: "valuesIn pB c = valuesIn pA c @ map (fst \<circ> snd) (filter (\<lambda>x. fst x = c) ?L)" if "block pA c \<noteq> None"
    by (rule appendedAll_values(1) [OF a that])
  consider "c < ?r" | "c = ?r" | "?r + 1 \<le> c" "c \<le> ?r + 5" | "?r + 6 \<le> c" by linarith
  then show ?thesis
  proof cases
    case 1
    then have N: "emittedIn (emitted ?r br cc ts) c = []" "filter (\<lambda>x. fst x = c) ?L = []"
      by (simp_all add: emittedIn_def emitted_def chillAppends_def)
    have "valuesIn pB c = valuesIn pA c"
    proof (cases "block pA c")
      case None
      then show ?thesis using a by (simp add: appendedAll_def valuesIn_def)
    qed (use B N in simp)
    moreover have "valuesIn pA c = keptIn b k ins p c" using f' 1 by (auto simp: keptIn_def valuesIn_def)
    ultimately show ?thesis using N by simp
  next
    case 2
    then have "filter (\<lambda>x. fst x = c) ?L = []" by (simp add: chillAppends_def)
    then have "valuesIn pB c = valuesIn pA c" using B f' 2 by simp
    also have "\<dots> = keptIn b k ins p c @ [cc_one cc, cc_sum cc, cc_ok cc, br]" using f' 2 by (simp add: keptIn_def)
    finally show ?thesis using 2 by (simp add: emittedIn_def emitted_def)
  next
    case 3
    then have "block pA c \<noteq> None" "valuesIn pA c = []" "keptIn b k ins p c = []"
      using f' b valuesIn_unallocated [of p c] by (auto simp: keptIn_def)
    then show ?thesis using B 3 by (simp add: emittedIn_def emitted_def chillAppends_def)
  next
    case 4
    have "valuesIn pB c = []" using a f' 4 by (intro valuesIn_unallocated) (simp add: appendedAll_def)
    then show ?thesis using 4 b valuesIn_unallocated [of p c] by (simp add: keptIn_def emittedIn_def emitted_def)
  qed
qed

lemma chillStages_stages:
  assumes "chillStages s s1 i v num den T br cc ts zerov badv sA"
  shows "storeGrows s s1" "controlsIn s T" "T \<subseteq> dom s" "s i = Some v" "m_opcode v = ChillDiv" "s1 br = None" "sA (cc_phi cc) = None"
    "\<exists>onev. s1 (cc_one cc) = Some onev \<and> intConstant (m_origin v) (m_type v) 1 = Some onev"
    "s1 (cc_sum cc) = Some (mkValue Add (m_type v) (m_origin v) [den, cc_one cc] NoPayload)"
    "s1 (cc_ok cc) = Some (mkValue Above Int32 (m_origin v) [cc_sum cc, cc_one cc] NoPayload)"
    "{cc_one cc, cc_sum cc, cc_ok cc} \<inter> dom s = {}"
  using assms unfolding chillStages_def Let_def by auto

lemma chillStages_names:
  assumes "chillStages s s1 i v num den T br cc ts zerov badv sA"
  defines "K \<equiv> [cc_quotient cc, cc_normalResult cc, ts ! 0, ts ! 1, cc_zero cc, cc_zeroResult cc, ts ! 2, cc_bad cc, cc_isBad cc, ts ! 3,
     cc_intMinResult cc, ts ! 4]"
  shows "distinct K" "cc_phi cc \<notin> set K" "\<forall>j \<in> set K. sA j = None"
  using assms(1) unfolding chillStages_def Let_def K_def by - (elim conjE, assumption)+

lemma emitted_fresh:
  assumes st: "chillStages s s1 i v num den T br cc ts zerov badv sA" and sA: "sA = forkStore b r T (m_origin v) (cc_ok cc) br s1"
  shows "distinct (map snd (emitted r br cc ts))" "j \<in> set (map snd (emitted r br cc ts)) \<Longrightarrow> s j = None"
    "cc_phi cc \<notin> set (map snd (emitted r br cc ts))" "s (cc_phi cc) = None"
proof -
  note S = chillStages_stages [OF st] and K = chillStages_names [OF st]
  obtain onev where onev: "s1 (cc_one cc) = Some onev" "intConstant (m_origin v) (m_type v) 1 = Some onev" using S(8) by blast
  have op: "m_opcode onev \<noteq> Add" "m_opcode onev \<noteq> Above" using onev(2) by (cases "m_type v"; force simp: intConstant_def mk_defs)+
  have ne: "x \<noteq> y" if "map_option m_opcode (s1 x) \<noteq> map_option m_opcode (s1 y)" for x y using that by metis
  have d: "distinct [cc_one cc, cc_sum cc, cc_ok cc, br]"
    using onev(1) S(6,9,10) op by (simp add: ne mkValue_def)
  have inA: "sA j \<noteq> None" if "s1 j \<noteq> None \<or> j = br" for j using that by (auto simp: sA forkStore_def redirected_def)
  have old: "s j = None" if "s1 j = None \<or> sA j = None" for j
  proof (rule ccontr)
    assume "s j \<noteq> None"
    then obtain w where "s j = Some w" by blast
    then have "s1 j \<noteq> None" using storeGrowsD(1) [OF S(1)] by simp
    then show False using that inA [of j] by simp
  qed
  define A where "A = [cc_one cc, cc_sum cc, cc_ok cc, br]"
  define N where "N = [cc_quotient cc, cc_normalResult cc, ts ! 0, ts ! 1, cc_zero cc, cc_zeroResult cc, ts ! 2, cc_bad cc, cc_isBad cc, ts ! 3,
     cc_intMinResult cc, ts ! 4]"
  have names: "map snd (emitted r br cc ts) = A @ N" by (simp add: emitted_def A_def N_def)
  have KN: "distinct N" "cc_phi cc \<notin> set N" "\<forall>j \<in> set N. sA j = None" unfolding N_def by (rule K)+
  have tests: "\<forall>j \<in> set A. sA j \<noteq> None" unfolding A_def using onev(1) S(9,10) inA by simp
  have oldA: "\<forall>j \<in> set A. s j = None" unfolding A_def using S(11) old [of br] S(6) by auto
  show "distinct (map snd (emitted r br cc ts))"
    unfolding names distinct_append using d [folded A_def] KN(1,3) tests by (intro conjI) (assumption | blast)+
  show "s j = None" if "j \<in> set (map snd (emitted r br cc ts))" using that unfolding names set_append using KN(3) oldA old by blast
  show "cc_phi cc \<notin> set (map snd (emitted r br cc ts))" unfolding names set_append using KN(2) tests S(7) by (metis UnE)
  show "s (cc_phi cc) = None" using old S(7) by blast
qed

lemma emittedIn_once:
  assumes "distinct (map snd L)"
  shows "distinct (emittedIn L c)" "j \<in> set (emittedIn L c) \<Longrightarrow> j \<in> set (emittedIn L d) \<Longrightarrow> c = d"
    "j \<in> set (emittedIn L c) \<Longrightarrow> j \<in> set (map snd L)"
proof -
  have inj: "inj_on snd (set L)" and d: "distinct L" using assms by (simp_all add: distinct_map)
  then show "distinct (emittedIn L c)" by (auto simp: emittedIn_def distinct_map intro: inj_on_subset)
  show "j \<in> set (emittedIn L c) \<Longrightarrow> j \<in> set (emittedIn L d) \<Longrightarrow> c = d"
    using inj unfolding emittedIn_def inj_on_def by fastforce
  show "j \<in> set (emittedIn L c) \<Longrightarrow> j \<in> set (map snd L)" by (auto simp: emittedIn_def)
qed

text \<open>The insertions that wait to be executed: at the front of the block, in no block yet.\<close>

definition pending :: "Procedure \<Rightarrow> Insertion list \<Rightarrow> bool" where
  "pending p ins \<longleftrightarrow>
     distinct (map snd ins) \<and>
     (\<forall>(n, j) \<in> set ins. n = 0 \<and> (\<forall>c. j \<notin> set (valuesIn p c)) \<and> (\<exists>v. valuesOf p j = Some v \<and> isLowered v))"

lemma pendingD:
  assumes "pending p ins"
  shows "distinct (map snd ins)" "q \<in> set ins \<Longrightarrow> fst q = 0" "j \<in> set (map snd ins) \<Longrightarrow> j \<notin> set (valuesIn p c)"
    "j \<in> set (map snd ins) \<Longrightarrow> \<exists>v. valuesOf p j = Some v \<and> isLowered v"
  using assms unfolding pending_def by fastforce+

lemma spliced_front: "\<forall>q \<in> set ins. fst q = 0 \<Longrightarrow> spliced t ins = map snd ins @ t"
proof (induction ins arbitrary: t rule: rev_induct)
  case (snoc q ins)
  then obtain x where q: "q = (0, x)" by (cases q) auto
  then have "spliced t (ins @ [q]) = spliced [] ins @ x # t" using spliced_snoc [of 0 t ins x] snoc.prems by simp
  then show ?case using snoc.IH [of "[]"] snoc.prems q by simp
qed simp

lemma keptIn_once:
  assumes p: "placedOnce p" and ins: "pending p ins" and b: "b < length (m_heap p)"
  shows "distinct (keptIn b k ins p c)" "j \<in> set (keptIn b k ins p c) \<Longrightarrow> \<exists>v. valuesOf p j = Some v"
    "j \<in> set (keptIn b k ins p c) \<Longrightarrow> j \<in> set (keptIn b k ins p d) \<Longrightarrow> c = d"
proof -
  let ?r = "length (m_heap p)"
  have front: "keptIn b k ins p ?r = map snd ins @ take k (valuesIn p b)"
    unfolding keptIn_def using spliced_front [of ins] pendingD(2) [OF ins] by simp
  have vs: "distinct (valuesIn p b)" "set (take k (valuesIn p b)) \<inter> set (drop k (valuesIn p b)) = {}"
    using placedOnceD(1) [OF p, of b] set_take_disj_set_drop_if_distinct [of "valuesIn p b" k k] by simp_all
  note P = pendingD(1,3,4) [OF ins] and tk = in_set_takeD [of _ k "valuesIn p b"] and dr = in_set_dropD [of _ k "valuesIn p b"]
  have other: "j \<in> set (valuesIn p c)" if "c \<noteq> ?r" "j \<in> set (keptIn b k ins p c)" for c j
    using that dr by (auto simp: keptIn_def split: if_splits)
  show "distinct (keptIn b k ins p c)"
  proof (cases "c = ?r")
    case True
    have "set (map snd ins) \<inter> set (take k (valuesIn p b)) = {}" using P(2) tk by blast
    then show ?thesis using True front P(1) vs by simp
  next
    case False
    then show ?thesis using placedOnceD(1) [OF p] vs by (auto simp: keptIn_def)
  qed
  show "\<exists>v. valuesOf p j = Some v" if "j \<in> set (keptIn b k ins p c)"
  proof (cases "c = ?r")
    case True
    then have "j \<in> set (map snd ins) \<or> j \<in> set (take k (valuesIn p b))" using that unfolding True front set_append by blast
    then show ?thesis using P(3) [of j] tk [of j] placedOnceD(2) [OF p, of j b] by blast
  next
    case False
    then show ?thesis using other [OF False that] placedOnceD(2) [OF p] by blast
  qed
  have cross: False if "j \<in> set (keptIn b k ins p ?r)" "j \<in> set (keptIn b k ins p c)" "c \<noteq> ?r" for j c
  proof -
    have jc: "j \<in> set (valuesIn p c)" by (rule other [OF that(3,2)])
    then have j: "j \<in> set (take k (valuesIn p b))" using that(1) P(2) unfolding front by auto
    then have "c = b" using placedOnceD(3) [OF p jc] tk by blast
    then have "j \<in> set (drop k (valuesIn p b))" using that(2,3) by (simp add: keptIn_def)
    then show False using j vs(2) by blast
  qed
  show "c = d" if j: "j \<in> set (keptIn b k ins p c)" "j \<in> set (keptIn b k ins p d)"
  proof (cases "c = ?r \<or> d = ?r")
    case True
    then show ?thesis using cross j by blast
  next
    case False
    then show ?thesis using placedOnceD(3) [OF p other other] j by blast
  qed
qed

lemma placedOnce_union:
  assumes v: "\<And>c. valuesIn q c = keep c @ emittedIn L c" and L: "distinct (map snd L)" "\<And>j. j \<in> set (map snd L) \<Longrightarrow> s j = None \<and> valuesOf q j \<noteq> None"
    and keep: "\<And>c. distinct (keep c)" "\<And>c j. j \<in> set (keep c) \<Longrightarrow> s j \<noteq> None \<and> valuesOf q j \<noteq> None"
      "\<And>c d j. j \<in> set (keep c) \<Longrightarrow> j \<in> set (keep d) \<Longrightarrow> c = d"
  shows "placedOnce q"
proof -
  have apart: "j \<notin> set (emittedIn L d)" if "j \<in> set (keep c)" for j c d
  proof
    assume "j \<in> set (emittedIn L d)"
    from L(2) [OF emittedIn_once(3) [OF L(1) this]] keep(2) [OF that] show False by simp
  qed
  show ?thesis
    unfolding placedOnce_def
  proof (intro conjI allI impI)
    show "distinct (valuesIn q c)" for c using keep(1) [of c] emittedIn_once(1) [OF L(1), of c] apart [of _ c c] by (auto simp: v)
    show "set (valuesIn q c) \<subseteq> dom (valuesOf q)" for c
    proof
      fix j assume "j \<in> set (valuesIn q c)"
      then have "valuesOf q j \<noteq> None" using keep(2) [of j c] L(2) [OF emittedIn_once(3) [OF L(1)], of j c] by (auto simp: v)
      then show "j \<in> dom (valuesOf q)" by (simp add: domIff)
    qed
    show "set (valuesIn q c) \<inter> set (valuesIn q d) = {}" if "c \<noteq> d" for c d
    proof (rule ccontr)
      assume "set (valuesIn q c) \<inter> set (valuesIn q d) \<noteq> {}"
      then obtain j where j: "j \<in> set (keep c) \<or> j \<in> set (emittedIn L c)" "j \<in> set (keep d) \<or> j \<in> set (emittedIn L d)" by (auto simp: v)
      then show False using that keep(3) [of j c d] emittedIn_once(2) [OF L(1), of j c d] apart by blast
    qed
  qed
qed

lemma branchBlock_ends: "branchBlock q c body x yes no \<Longrightarrow> endsInTerminal q c \<and> successorBlocks q c = [yes, no]"
  by (auto simp: branchBlock_def endsInTerminal_iff successorBlocks_def lastValue_def successors_def mk_defs acceptsControl_def)

lemma jumpBlock_ends: "jumpBlock q c body target \<Longrightarrow> endsInTerminal q c \<and> successorBlocks q c = [target]"
  by (auto simp: jumpBlock_def endsInTerminal_iff successorBlocks_def lastValue_def successors_def mk_defs acceptsControl_def)

lemma chillBlocks_ends:
  assumes "chillBlocks b r front den cc q" "r \<le> c" "c \<le> r + 5"
  shows "endsInTerminal q c" "set (successorBlocks q c) \<subseteq> insert b {r..r + 5}"
proof -
  have "c = r \<or> c = r + 1 \<or> c = r + 2 \<or> c = r + 3 \<or> c = r + 4 \<or> c = r + 5" using assms(2,3) by linarith
  then show "endsInTerminal q c" "set (successorBlocks q c) \<subseteq> insert b {r..r + 5}"
    using assms(1) unfolding chillBlocks_def by (auto dest!: branchBlock_ends jumpBlock_ends)
qed

definition chillShape :: "block_ptr \<Rightarrow> nat \<Rightarrow> Insertion list \<Rightarrow> (block_ptr \<times> value_ptr) list \<Rightarrow> Procedure \<Rightarrow> Procedure \<Rightarrow> bool" where
  "chillShape b k ins L p q \<longleftrightarrow>
     (let r = length (m_heap p) in
      length (m_heap q) = r + 6 \<and> (\<forall>c. valuesIn q c = keptIn b k ins p c @ emittedIn L c) \<and>
      distinct (map snd L) \<and> fst ` set L \<subseteq> {r..r + 5} \<and> (\<forall>j \<in> set (map snd L). valuesOf p j = None \<and> valuesOf q j \<noteq> None) \<and>
      (\<forall>c < r. map_option bb_index (block q c) = map_option bb_index (block p c)) \<and>
      (\<forall>c. r \<le> c \<longrightarrow> c \<le> r + 5 \<longrightarrow> block q c \<noteq> None \<and> endsInTerminal q c \<and> set (successorBlocks q c) \<subseteq> insert b {r..r + 5}))"

lemma appendedAll_blocks:
  assumes "appendedAll L p p'"
  shows "block p' c = None \<longleftrightarrow> block p c = None" "predsOf p' c = predsOf p c" "map_option bb_index (block p' c) = map_option bb_index (block p c)"
  using assms by (auto simp: appendedAll_def predsOf_def option.map_comp comp_def split: option.splits)

lemma forked_index:
  assumes f: "forked v b k ins p p1 tests br pA" and c: "c < length (m_heap p)"
  shows "map_option bb_index (block pA c) = map_option bb_index (block p c)"
  using f c by (cases "c = b") (simp_all add: forked_def Let_def)

lemma forked_predsLive:
  assumes f: "forked v b k ins p p1 tests br pA" and b: "b < length (m_heap p)" and p: "predsLive p"
  shows "predsLive pA"
  unfolding predsLive_def
proof
  fix c
  let ?r = "length (m_heap p)"
  have F: "\<And>c. c < ?r \<Longrightarrow> c \<noteq> b \<Longrightarrow> block pA c = block p c" "predsOf pA b = [?r]" "predsOf pA ?r = predsOf p b"
      "\<And>c. ?r + 1 \<le> c \<Longrightarrow> c \<le> ?r + 5 \<Longrightarrow> predsOf pA c = []" "length (m_heap pA) = ?r + 6" "?r \<in> liveBlocks pA"
    using f by (simp_all add: forked_def Let_def liveBlocks_def)
  have live: "liveBlocks p \<subseteq> liveBlocks pA"
  proof
    fix a assume a: "a \<in> liveBlocks p"
    then have "map_option bb_index (block pA a) = map_option bb_index (block p a)"
      using block_bound [of p a] by (intro forked_index [OF f]) (simp add: liveBlocks_def)
    then show "a \<in> liveBlocks pA" using a by (auto simp: liveBlocks_def)
  qed
  consider "c < ?r" "c \<noteq> b" | "c = b" | "c = ?r" | "?r + 1 \<le> c" "c \<le> ?r + 5" | "?r + 6 \<le> c" by linarith
  then show "set (predsOf pA c) \<subseteq> liveBlocks pA"
  proof cases
    case 1
    then have "predsOf pA c = predsOf p c" using F(1) by (simp add: predsOf_def)
    then show ?thesis using p live by (auto simp: predsLive_def)
  next
    case 2
    then show ?thesis using F(2,6) by simp
  next
    case 3
    then show ?thesis using F(3) p live by (auto simp: predsLive_def)
  next
    case 4
    then show ?thesis using F(4) by simp
  next
    case 5
    then have "block pA c = None" using F(5) block_bound [of pA c] by fastforce
    then show ?thesis by (simp add: predsOf_def)
  qed
qed

lemma chillBuilt_shape:
  assumes bu: "chillBuilt i v b k ins phi p q" and b: "b < length (m_heap p)" and p: "predsLive p"
  obtains L where "chillShape b k ins L p q" "phi \<notin> set (map snd L)" "predsLive q"
proof -
  let ?r = "length (m_heap p)"
  obtain p1 num den br cc ts zerov badv pA pB pC P where
    st: "chillStages (valuesOf p) (valuesOf p1) i v num den (retargeted p b) br cc ts zerov badv (valuesOf pA)"
    and f: "forked v b k ins p p1 [cc_one cc, cc_sum cc, cc_ok cc] br pA"
    and a: "appendedAll (chillAppends (m_origin v) (m_type v) num den b ?r cc zerov badv ts None) pA pB" and phi: "cc_phi cc = phi"
    and sC: "valuesOf pC = chillStore (m_origin v) (m_type v) num den b ?r cc zerov badv ts i (valuesOf pA)"
    and hC: "m_heap pC = m_heap pB" and q: "q = setPreds P pC" and upd: "hg.updated pC (predsOf pC) P"
    using bu unfolding chillBuilt_def by (elim exE conjE) (rule that)
  have sA: "valuesOf pA = forkStore b ?r (retargeted p b) (m_origin v) (cc_ok cc) br (valuesOf p1)"
    using f by (simp add: forked_def Let_def forkStore_def)
  note S = chillStore_keeps [OF st sA, folded sC] and E = emitted_fresh [OF st sA]
  have C: "block pC c = block pB c" "valuesIn pC c = valuesIn pB c" "predsOf pC c = predsOf pB c" for c
    using hC by (simp_all add: block_def valuesIn_def predsOf_def)
  let ?L = "emitted ?r br cc ts"
  note B = chill_blocks [OF f a refl b C(2) S(5) S(6)]
  have live: "valuesOf pC j \<noteq> None" if j: "j \<in> set (map snd ?L)" for j
  proof -
    have "j \<in> {cc_one cc, cc_sum cc, cc_ok cc, br} \<or>
        j \<in> set (map fst (map snd (chillAppends (m_origin v) (m_type v) num den b ?r cc zerov badv ts (Some (cc_phi cc)))))"
      using j unfolding chillAppends_keys by (auto simp: emitted_def)
    then show ?thesis
    proof
      assume "j \<in> {cc_one cc, cc_sum cc, cc_ok cc, br}"
      then show ?thesis using S(2,5) by (auto simp: chillValues_def)
    next
      assume "j \<in> set (map fst (map snd (chillAppends (m_origin v) (m_type v) num den b ?r cc zerov badv ts (Some (cc_phi cc)))))"
      then obtain w where "(j, w) \<in> set (map snd (chillAppends (m_origin v) (m_type v) num den b ?r cc zerov badv ts (Some (cc_phi cc))))"
        unfolding list.set_map by (metis (no_types, lifting) imageE prod.collapse)
      then show ?thesis using S(6) by simp
    qed
  qed
  have "chillShape b k ins ?L p q"
    unfolding chillShape_def Let_def
  proof (intro conjI allI impI ballI)
    show "length (m_heap q) = ?r + 6" using f a hC by (simp add: q forked_def Let_def appendedAll_def)
    show "valuesIn q c = keptIn b k ins p c @ emittedIn ?L c" for c using chill_valuesIn [OF f b a] C(2) by (simp add: q)
    show "fst ` set ?L \<subseteq> {?r..?r + 5}" by (simp add: emitted_def)
    show "distinct (map snd ?L)" by (rule E(1))
    show "valuesOf p j = None" "valuesOf q j \<noteq> None" if "j \<in> set (map snd ?L)" for j using E(2) [OF that] live [OF that] by (simp_all add: q)
    show "map_option bb_index (block q c) = map_option bb_index (block p c)" if "c < ?r" for c
      using forked_index [OF f that] appendedAll_blocks(3) [OF a, of c] C(1) [of c] by (simp add: q option.map_comp comp_def)
    show "block q c \<noteq> None" if "?r \<le> c" "c \<le> ?r + 5" for c
      using f that appendedAll_blocks(1) [OF a, of c] C(1) [of c] by (cases "c = ?r") (auto simp: q forked_def Let_def)
    show "endsInTerminal q c" "set (successorBlocks q c) \<subseteq> insert b {?r..?r + 5}" if "?r \<le> c" "c \<le> ?r + 5" for c
      using chillBlocks_ends [OF B(1) that] by (simp_all add: q)
  qed
  moreover have "predsLive pC"
    using forked_predsLive [OF f b p] unfolding predsLive_def liveBlocks_def C appendedAll_blocks(1,2) [OF a] .
  then have "predsLive q" unfolding q by (rule updated_predsLive [OF upd])
  ultimately show thesis using that E(3) phi by blast
qed

lemma caseValues_replaceSuccessor [simp]: "caseValues (replaceSuccessor b r v) = caseValues v"
  by (cases "m_payload v") (simp_all add: replaceSuccessor_def setSuccessors_def caseValues_def)

text \<open>The other values keep their meaning; terminals may go to the new block in front.\<close>

lemma chillLowered_values:
  assumes low: "chillLowered i v b k ins phi p q"
  shows "j \<noteq> i \<Longrightarrow> valuesOf p j = Some w \<Longrightarrow> \<exists>w'. valuesOf q j = Some w' \<and> m_opcode w' = m_opcode w \<and> m_type w' = m_type w \<and>
      m_children w' = m_children w \<and> caseValues w' = caseValues w \<and>
      fst ` set (successors w') \<subseteq> insert (length (m_heap p)) (fst ` set (successors w))"
    "valuesOf q i = Some (mkValue Identity (m_type v) (m_origin v) [phi] NoPayload)"
    "valuesOf q phi = Some (mkValue Phi (m_type v) (m_origin v) [] NoPayload)" "valuesOf p phi = None"
    "valuesOf p j = None \<Longrightarrow> valuesOf q j = Some w \<Longrightarrow> isLowered w"
    "procInv q" "wtStore (valuesOf q)" "m_blocks q = m_blocks p" "valuesIn q b = drop k (valuesIn p b)"
proof -
  note L = low [unfolded chillLowered_def Let_def]
  show "valuesOf q i = Some (mkValue Identity (m_type v) (m_origin v) [phi] NoPayload)"
    "valuesOf q phi = Some (mkValue Phi (m_type v) (m_origin v) [] NoPayload)" "valuesOf p phi = None"
    "procInv q" "wtStore (valuesOf q)" "m_blocks q = m_blocks p" "valuesIn q b = drop k (valuesIn p b)"
    using L by - (elim conjE, assumption)+
  have new: "\<forall>j w. valuesOf p j = None \<longrightarrow> valuesOf q j = Some w \<longrightarrow> isLowered w"
    and old: "\<forall>j w. j \<noteq> i \<longrightarrow> valuesOf p j = Some w \<longrightarrow> valuesOf q j = redirected b (length (m_heap p)) (retargeted p b) (valuesOf p) j"
    using L by - (elim conjE, assumption)+
  show "valuesOf p j = None \<Longrightarrow> valuesOf q j = Some w \<Longrightarrow> isLowered w" using new by blast
  assume j: "j \<noteq> i" "valuesOf p j = Some w"
  then have "valuesOf q j = redirected b (length (m_heap p)) (retargeted p b) (valuesOf p) j" using old by blast
  then show "\<exists>w'. valuesOf q j = Some w' \<and> m_opcode w' = m_opcode w \<and> m_type w' = m_type w \<and>
      m_children w' = m_children w \<and> caseValues w' = caseValues w \<and>
      fst ` set (successors w') \<subseteq> insert (length (m_heap p)) (fst ` set (successors w))"
    using j(2) by (cases "j \<in> retargeted p b") (force simp: redirected_def)+
qed

lemma chillShapeD:
  assumes "chillShape b k ins L p q"
  defines "r \<equiv> length (m_heap p)"
  shows "length (m_heap q) = r + 6" "valuesIn q c = keptIn b k ins p c @ emittedIn L c" "distinct (map snd L)" "fst ` set L \<subseteq> {r..r + 5}"
    "j \<in> set (map snd L) \<Longrightarrow> valuesOf p j = None \<and> valuesOf q j \<noteq> None"
    "c < r \<Longrightarrow> map_option bb_index (block q c) = map_option bb_index (block p c)"
    "r \<le> c \<Longrightarrow> c \<le> r + 5 \<Longrightarrow> block q c \<noteq> None" "r \<le> c \<Longrightarrow> c \<le> r + 5 \<Longrightarrow> endsInTerminal q c"
    "r \<le> c \<Longrightarrow> c \<le> r + 5 \<Longrightarrow> set (successorBlocks q c) \<subseteq> insert b {r..r + 5}"
    "c < r \<Longrightarrow> valuesIn q c = (if c = b then drop k (valuesIn p b) else valuesIn p c)"
    "c < r \<Longrightarrow> c \<in> liveBlocks q \<longleftrightarrow> c \<in> liveBlocks p"
proof -
  show S: "length (m_heap q) = r + 6" "valuesIn q c = keptIn b k ins p c @ emittedIn L c" "distinct (map snd L)" "fst ` set L \<subseteq> {r..r + 5}"
    "j \<in> set (map snd L) \<Longrightarrow> valuesOf p j = None \<and> valuesOf q j \<noteq> None"
    "c < r \<Longrightarrow> map_option bb_index (block q c) = map_option bb_index (block p c)"
    "r \<le> c \<Longrightarrow> c \<le> r + 5 \<Longrightarrow> block q c \<noteq> None" "r \<le> c \<Longrightarrow> c \<le> r + 5 \<Longrightarrow> endsInTerminal q c"
    "r \<le> c \<Longrightarrow> c \<le> r + 5 \<Longrightarrow> set (successorBlocks q c) \<subseteq> insert b {r..r + 5}" for c j
    using assms(1) by (simp_all add: chillShape_def Let_def r_def del: not_None_eq set_map list.set_map)
  show "valuesIn q c = (if c = b then drop k (valuesIn p b) else valuesIn p c)" if "c < r"
  proof -
    have "emittedIn L c = []" using S(4) that by (auto simp: emittedIn_def filter_empty_conv)
    then show ?thesis using S(2) [of c] that by (simp add: keptIn_def r_def)
  qed
  show "c \<in> liveBlocks q \<longleftrightarrow> c \<in> liveBlocks p" if "c < r"
  proof -
    have "block q c = None \<longleftrightarrow> block p c = None" using S(6) [OF that] by (metis option.map_disc_iff)
    then show ?thesis by (simp add: liveBlocks_def del: not_None_eq)
  qed
qed

lemma chill_lowerable:
  assumes inv: "macroInv p" and low: "chillLowered i v b k ins phi p q" and v: "valuesOf p i = Some v"
  shows "switchesLowerable (valuesOf q)"
  unfolding switchesLowerable_def
proof (intro allI impI)
  note V = chillLowered_values [OF low] and I = macroInvD [OF inv]
  fix j w assume j: "valuesOf q j = Some w" "m_opcode w = Switch"
  then have ji: "j \<noteq> i" using V(2) by (auto simp: mkValue_def)
  obtain w' where w': "valuesOf p j = Some w'" using V(5) [OF _ j(1)] j(2) by (cases "valuesOf p j") (auto simp: isLowered_def)
  have ww: "m_opcode w = m_opcode w'" "caseValues w = caseValues w'" "m_children w = m_children w'" using V(1) [OF ji w'] j(1) by auto
  have wl: "lowerableSwitch (valuesOf p) w'" "wtValue (valuesOf p) w'" using I(7) w' j(2) ww(1) wtStoreD [OF I(2)] by (auto simp: switchesLowerable_def)
  show "lowerableSwitch (valuesOf q) w"
  proof (rule lowerable_ext [OF wl(1) ww])
    fix c t assume c: "c \<in> set (m_children w')" "map_option m_type (valuesOf q c) = Some t"
    obtain cw where cw: "valuesOf p c = Some cw" using wt_children [OF wl(2) c(1)] by blast
    show "map_option m_type (valuesOf p c) = Some t"
    proof (cases "c = i")
      case True
      then show ?thesis using V(2) v c(2) by (simp add: mkValue_type)
    qed (use V(1) [OF _ cw] cw c(2) in auto)
  qed
qed

lemma chill_terminated:
  assumes inv: "macroInv p" and low: "chillLowered i v b k ins phi p q" and sh: "chillShape b k ins L p q"
    and v: "valuesOf p i = Some v" "m_opcode v = ChillDiv" and k: "k < length (valuesIn p b)"
  shows "terminated q"
  unfolding terminated_def
proof
  let ?r = "length (m_heap p)"
  note V = chillLowered_values [OF low] and I = macroInvD [OF inv] and S = chillShapeD [OF sh]
  have b: "b \<in> liveBlocks p" "b < ?r" using k valuesIn_live [of "valuesIn p b ! k" p b] block_bound [of p b] by (auto simp: liveBlocks_def)
  have old: "c \<in> liveBlocks q" if "c \<in> liveBlocks p" for c
    using S(11) [of c] block_bound [of p c] that by (simp add: liveBlocks_def del: not_None_eq)
  note new = S(7-9)
  have newlive: "insert b {?r..?r + 5} \<subseteq> liveBlocks q" using old [OF b(1)] S(7) unfolding liveBlocks_def by auto
  fix c assume c: "c \<in> liveBlocks q"
  show "endsInTerminal q c \<and> set (successorBlocks q c) \<subseteq> liveBlocks q"
  proof (cases "c < ?r")
    case True
    then have "c \<in> liveBlocks p" using S(11) c by blast
    then have e: "endsInTerminal p c" "set (successorBlocks p c) \<subseteq> liveBlocks p" using I(4) by (auto simp: terminated_def)
    define j where "j = last (valuesIn p c)"
    obtain w where w: "valuesIn p c \<noteq> []" "valuesOf p j = Some w" "acceptsControl (m_opcode w)" using e(1) by (auto simp: endsInTerminal_iff j_def)
    then have "j \<noteq> i" using v by (auto simp: acceptsControl_def)
    then obtain w' where w': "valuesOf q j = Some w'" "m_opcode w' = m_opcode w"
        "fst ` set (successors w') \<subseteq> insert ?r (fst ` set (successors w))"
      using V(1) w(2) by blast
    have "valuesIn q c \<noteq> []" "last (valuesIn q c) = j"
      using S(10) [OF True] w(1) k by (auto simp: j_def)
    moreover have "fst ` set (successors w) \<subseteq> liveBlocks p" using e(2) w(1,2) by (simp add: successorBlocks_def lastValue_def j_def)
    then have "fst ` set (successors w') \<subseteq> liveBlocks q" 
    proof -
      have "?r \<in> liveBlocks q" using newlive by auto
      moreover have "fst ` set (successors w) \<subseteq> liveBlocks q" using \<open>fst ` set (successors w) \<subseteq> liveBlocks p\<close> old by (rule subset_trans [OF _ subsetI])
      ultimately have "insert ?r (fst ` set (successors w)) \<subseteq> liveBlocks q" by simp
      with w'(3) show ?thesis by (rule subset_trans)
    qed
    ultimately show ?thesis
      using w'(1,2) w(3) by (auto simp: endsInTerminal_iff successorBlocks_def lastValue_def)
  next
    case False
    then have "?r \<le> c" "c \<le> ?r + 5" using c S(1) block_bound [of q c] by (auto simp: liveBlocks_def)
    then show ?thesis using new(2,3) newlive by blast
  qed
qed

text \<open>The new blocks need no lowering, and no switch moves away from the end of its block.\<close>

lemma chill_free:
  assumes inv: "macroInv p" and low: "chillLowered i v b k ins phi p q" and sh: "chillShape b k ins L p q" and ins: "pending p ins"
    and prefix: "\<And>j w. j \<in> set (take k (valuesIn p b)) \<Longrightarrow> valuesOf p j = Some w \<Longrightarrow> isLowered w" and c: "length (m_heap p) \<le> c"
  shows "macroFree q c"
  unfolding macroFree_def
proof (intro ballI allI impI)
  note V = chillLowered_values [OF low] and S = chillShapeD [OF sh]
  fix j w assume j: "j \<in> set (valuesIn q c)" "valuesOf q j = Some w"
  show "isLowered w"
  proof (cases "valuesOf p j")
    case None
    then show ?thesis using V(5) j(2) by blast
  next
    case (Some w0)
    have "j \<notin> set (emittedIn L c)" using S(5) [OF emittedIn_once(3) [OF S(3)]] Some by fastforce
    then have kept: "j \<in> set (keptIn b k ins p c)" using j(1) S(2) by simp
    have "isLowered w0"
    proof (cases "c = length (m_heap p)")
      case True
      then have "j \<in> set (map snd ins) \<or> j \<in> set (take k (valuesIn p b))"
        using kept spliced_front [of ins "take k (valuesIn p b)"] pendingD(2) [OF ins] by (simp add: keptIn_def)
      then show ?thesis using prefix [OF _ Some] pendingD(4) [OF ins, of j] Some by auto
    next
      case False
      then have "keptIn b k ins p c = []" using c valuesIn_unallocated [of p c] valuesIn_unallocated [of p b] by (auto simp: keptIn_def)
      then show ?thesis using kept by simp
    qed
    then show ?thesis
    proof (cases "j = i")
      case True
      then show ?thesis using V(2) j(2) by (auto simp: isLowered_def mkValue_def)
    qed (use V(1) [OF _ Some] j(2) in \<open>auto simp: isLowered_def\<close>)
  qed
qed

lemma butlast_drop_subset: "set (butlast (drop k xs)) \<subseteq> set (butlast xs)"
  by (metis butlast_drop set_drop_subset)

lemma chill_last:
  assumes inv: "macroInv p" and low: "chillLowered i v b k ins phi p q" and sh: "chillShape b k ins L p q"
    and free: "\<And>c. length (m_heap p) \<le> c \<Longrightarrow> macroFree q c"
  shows "switchesLast q"
  unfolding switchesLast_def
proof (intro allI ballI impI)
  note V = chillLowered_values [OF low] and S = chillShapeD [OF sh] and I = macroInvD [OF inv]
  fix c j w assume j: "j \<in> set (butlast (valuesIn q c))" "valuesOf q j = Some w"
  show "m_opcode w \<noteq> Switch"
  proof (cases "c < length (m_heap p)")
    case True
    have jp: "j \<in> set (butlast (valuesIn p c))"
      using j(1) S(10) [OF True] butlast_drop_subset [of k "valuesIn p b"] by (auto split: if_splits)
    then obtain w0 where w0: "valuesOf p j = Some w0" using placedOnceD(2) [OF I(3), of j c] by (auto dest: in_set_butlastD)
    then have "m_opcode w0 \<noteq> Switch" using I(6) jp by (auto simp: switchesLast_def)
    then show ?thesis using V(1) [OF _ w0] V(2) j(2) by (cases "j = i") (auto simp: mkValue_def)
  next
    case False
    then show ?thesis using free [of c] j in_set_butlastD [OF j(1)] by (auto simp: macroFree_def isLowered_def)
  qed
qed

lemma chill_keeps:
  assumes inv: "macroInv p" and k: "at (valuesIn p b) k = Some i" and v: "valuesOf p i = Some v" "m_opcode v = ChillDiv"
    and ins: "pending p ins" and prefix: "\<And>j w. j \<in> set (take k (valuesIn p b)) \<Longrightarrow> valuesOf p j = Some w \<Longrightarrow> isLowered w"
    and low: "chillLowered i v b k ins phi p q" and bu: "chillBuilt i v b k ins phi p q"
  shows "macroInv q" "lowerFrame b i p q" "pending q [(0, phi)]" "valuesIn q b = drop k (valuesIn p b)"
proof -
  note V = chillLowered_values [OF low] and I = macroInvD [OF inv]
  have kl: "k < length (valuesIn p b)" using k by (simp add: at_Some_iff)
  have b: "b < length (m_heap p)" using kl valuesIn_unallocated [of p b] by (cases "b < length (m_heap p)") auto
  obtain L where sh: "chillShape b k ins L p q" and phi: "phi \<notin> set (map snd L)" and preds: "predsLive q"
    by (rule chillBuilt_shape [OF bu b I(5)])
  note S = chillShapeD [OF sh]
  have free: "macroFree q c" if "length (m_heap p) \<le> c" for c by (rule chill_free [OF inv low sh ins prefix that])
  have old: "valuesOf q j \<noteq> None" if "valuesOf p j \<noteq> None" for j using that V(1) [of j] V(2) by (cases "j = i") auto
  have "placedOnce q"
  proof (rule placedOnce_union [of q "keptIn b k ins p" L "valuesOf p", OF S(2,3)])
    show "j \<in> set (keptIn b k ins p c) \<Longrightarrow> valuesOf p j \<noteq> None \<and> valuesOf q j \<noteq> None" for c j
      using keptIn_once(2) [OF I(3) ins b, of j k c] old [of j] by auto
  qed (use S(5) keptIn_once(1,3) [OF I(3) ins b] in blast)+
  then show "macroInv q"
    using V(6,7) chill_terminated [OF inv low sh v kl] preds chill_last [OF inv low sh free] chill_lowerable [OF inv low v(1)]
    by (simp add: macroInv_def)
  show "pending q [(0, phi)]"
  proof -
    have "phi \<notin> set (valuesIn q c)" for c
      using S(2) [of c] keptIn_once(2) [OF I(3) ins b, of phi k c] V(4) phi emittedIn_once(3) [OF S(3), of phi c] by auto
    then show ?thesis using V(3) by (simp add: pending_def isLowered_def mkValue_def)
  qed
  show "valuesIn q b = drop k (valuesIn p b)" by (rule V(9))
  show "lowerFrame b i p q"
    unfolding lowerFrame_def
  proof (intro conjI allI impI)
    show "length (m_heap p) \<le> length (m_heap q)" using S(1) by simp
    show "m_blocks q = m_blocks p" by (rule V(8))
    show "map_option bb_index (block q c) = map_option bb_index (block p c)" if "c < length (m_heap p)" for c by (rule S(6) [OF that])
    show "block q c \<noteq> None" if "length (m_heap p) \<le> c" "c < length (m_heap q)" for c using S(1,7) that by simp
    show "macroFree q c" if "length (m_heap p) \<le> c" for c by (rule free [OF that])
    show "valuesIn q c = valuesIn p c" if "c < length (m_heap p)" "c \<noteq> b" for c using S(10) [OF that(1)] that(2) by simp
    show "map_option m_opcode (valuesOf q j) = Some (m_opcode w)" if "j \<noteq> i" "valuesOf p j = Some w" for j w using V(1) [OF that] by auto
    show "isLowered w" if "valuesOf q i = Some w" for w using that V(2) by (auto simp: isLowered_def mkValue_def)
  qed
qed

end
