(* ===== verification/B3LowerPhase.thy ===== *)
theory B3LowerPhase
  imports B3LowerShape
begin

text \<open>
  The whole phase \<open>lowerMacros\<close>: it ends on every procedure that satisfies the invariant, it keeps it, and no
  \<open>ChillDiv\<close> or \<open>Switch\<close> is left in a block, so that the second run under validation changes nothing.
\<close>

subsection \<open>The loop over a block\<close>

text \<open>
  The state of the phase while it works on a block. The blocks that the procedure owned at the start
  are the first \<open>n\<close> of the heap; those after them wait in the block insertion set.
\<close>

definition lowerState :: "nat \<Rightarrow> LowerMacros \<Rightarrow> bool" where
  "lowerState n lm \<longleftrightarrow>
     macroInv (lm_proc lm) \<and> pending (lm_proc lm) (lm_insertionSet lm) \<and>
     n \<le> length (m_heap (lm_proc lm)) \<and> map snd (lm_blockInsertions lm) = [n..<length (m_heap (lm_proc lm))] \<and>
     (\<forall>x \<in> set (lm_blockInsertions lm). fst x \<le> length (m_blocks (lm_proc lm))) \<and>
     (\<forall>c < n. \<forall>bb. block (lm_proc lm) c = Some bb \<longrightarrow> bb_index bb < length (m_blocks (lm_proc lm))) \<and>
     (\<forall>c \<ge> n. c < length (m_heap (lm_proc lm)) \<longrightarrow> block (lm_proc lm) c \<noteq> None \<and> macroFree (lm_proc lm) c)"

lemma lowerStateD:
  assumes "lowerState n lm"
  shows "macroInv (lm_proc lm)" "pending (lm_proc lm) (lm_insertionSet lm)" "n \<le> length (m_heap (lm_proc lm))"
    "map snd (lm_blockInsertions lm) = [n..<length (m_heap (lm_proc lm))]"
    "x \<in> set (lm_blockInsertions lm) \<Longrightarrow> fst x \<le> length (m_blocks (lm_proc lm))"
    "c < n \<Longrightarrow> block (lm_proc lm) c = Some bb \<Longrightarrow> bb_index bb < length (m_blocks (lm_proc lm))"
    "n \<le> c \<Longrightarrow> c < length (m_heap (lm_proc lm)) \<Longrightarrow> block (lm_proc lm) c \<noteq> None \<and> macroFree (lm_proc lm) c"
  using assms by (simp_all add: lowerState_def)

text \<open>What the lowering of one block does to the other blocks.\<close>

definition lowerProgress :: "nat \<Rightarrow> block_ptr \<Rightarrow> Procedure \<Rightarrow> Procedure \<Rightarrow> bool" where
  "lowerProgress n b p q \<longleftrightarrow>
     m_blocks q = m_blocks p \<and> (\<forall>c < n. map_option bb_index (block q c) = map_option bb_index (block p c)) \<and>
     (\<forall>c < n. c \<noteq> b \<longrightarrow> macroFree p c \<longrightarrow> macroFree q c)"

lemma lowerProgress_refl [simp]: "lowerProgress n b p p"
  by (simp add: lowerProgress_def)

lemma lowerProgress_trans: "lowerProgress n b p q \<Longrightarrow> lowerProgress n b q r \<Longrightarrow> lowerProgress n b p r"
  by (simp add: lowerProgress_def)

lemma frame_progress:
  assumes "lowerFrame b i p q" "placedOnce p" "n \<le> length (m_heap p)"
  shows "lowerProgress n b p q"
  using assms lowerFrameD(2,3) [OF assms(1)] frame_macroFree [OF assms(1) _ _ _ assms(2)] by (simp add: lowerProgress_def)

lemma frame_state:
  assumes st: "lowerState n lm" and b: "b < n" and f: "lowerFrame b i (lm_proc lm) q" and inv: "macroInv q" and pend: "pending q ins"
    and bi: "map snd bi = [length (m_heap (lm_proc lm))..<length (m_heap q)]"
      "\<And>x. x \<in> set bi \<Longrightarrow> \<exists>bb. block (lm_proc lm) b = Some bb \<and> fst x \<le> Suc (bb_index bb)"
    and lm': "lm_proc lm' = q" "lm_insertionSet lm' = ins" "lm_blockInsertions lm' = lm_blockInsertions lm @ bi"
  shows "lowerState n lm'"
  unfolding lowerState_def lm'
proof (intro conjI allI impI ballI)
  note S = lowerStateD [OF st] and F = lowerFrameD [OF f]
  show "macroInv q" "pending q ins" by (rule inv pend)+
  show "n \<le> length (m_heap q)" using S(3) F(1) by simp
  show "map snd (lm_blockInsertions lm @ bi) = [n..<length (m_heap q)]"
    using S(3,4) bi(1) F(1) upt_split [of n "length (m_heap (lm_proc lm))" "length (m_heap q)"] by simp
  show "fst x \<le> length (m_blocks q)" if "x \<in> set (lm_blockInsertions lm @ bi)" for x
    using that S(5) [of x] S(6) [OF b] bi(2) [of x] F(2) by fastforce
  show "bb_index bb < length (m_blocks q)" if "c < n" "block q c = Some bb" for c bb
  proof -
    have "map_option bb_index (block (lm_proc lm) c) = Some (bb_index bb)" using F(3) [of c] that S(3) by simp
    then obtain bb0 where "block (lm_proc lm) c = Some bb0" "bb_index bb0 = bb_index bb" by auto
    then show ?thesis using S(6) [OF that(1)] F(2) by metis
  qed
  show "block q c \<noteq> None" "macroFree q c" if "n \<le> c" "c < length (m_heap q)" for c
  proof -
    have "block q c \<noteq> None \<and> macroFree q c"
    proof (cases "c < length (m_heap (lm_proc lm))")
      case True
      have "block q c \<noteq> None" using S(7) [OF that(1) True] F(3) [OF True] by (metis option.map_disc_iff)
      moreover have "macroFree q c"
        by (rule frame_macroFree [OF f _ True _ macroInvD(3) [OF S(1)]]) (use S(7) [OF that(1) True] b that(1) in auto)
      ultimately show ?thesis by simp
    qed (use F(4) that in simp)
    then show "block q c \<noteq> None" "macroFree q c" by simp_all
  qed
qed

lemma switchBuilt_insertions:
  assumes "switchBuilt i v lm lm2 q"
  obtains bi where "lm2 = lm\<lparr>lm_proc := lm_proc lm2, lm_blockInsertions := lm_blockInsertions lm @ bi\<rparr>"
    "map snd bi = [length (m_heap (lm_proc lm))..<length (m_heap q)]"
    "\<And>x. x \<in> set bi \<Longrightarrow> \<exists>bb. block (lm_proc lm) (lm_block lm) = Some bb \<and> fst x \<le> Suc (bb_index bb)"
proof -
  obtain p1 P where p1: "p1 = updateBlock (lm_block lm) (\<lambda>bb. bb\<lparr>bb_values := butlast (bb_values bb)\<rparr>) (lm_proc lm)"
    and bt: "built (lm_block lm) (lm\<lparr>lm_proc := p1\<rparr>) lm2" and q: "q = setPreds P (deleteValue i (lm_proc lm2))"
    by (rule switchBuiltE [OF assms])
  note B1 = butlast_block [where p = "lm_proc lm" and b = "lm_block lm", folded p1]
  obtain bi where bi: "lm2 = lm\<lparr>lm_proc := lm_proc lm2, lm_blockInsertions := lm_blockInsertions lm @ bi\<rparr>"
      "map snd bi = [length (m_heap p1)..<length (m_heap (lm_proc lm2))]"
      "\<forall>m \<in> set (map fst bi). map_option bb_index (block p1 (lm_block lm)) = Some (m - 1)"
    using bt unfolding built_def by auto
  show thesis
  proof (rule that [OF bi(1)])
    show "map snd bi = [length (m_heap (lm_proc lm))..<length (m_heap q)]" using bi(2) B1(2) by (simp add: q)
    fix x assume "x \<in> set bi"
    then have "map_option bb_index (block (lm_proc lm) (lm_block lm)) = Some (fst x - 1)" using bi(3) B1(7) [of "lm_block lm"] by auto
    then show "\<exists>bb. block (lm_proc lm) (lm_block lm) = Some bb \<and> fst x \<le> Suc (bb_index bb)" by auto
  qed
qed

lemma switch_pending:
  assumes pend: "pending p ins" and low: "switchLowered i v b p q"
    and placed: "\<And>j c. j \<in> set (valuesIn q c) \<Longrightarrow> j \<in> set (valuesIn p c) \<or> valuesOf p j = None" and i: "i \<in> set (valuesIn p b)"
  shows "pending q ins"
proof -
  have "(\<forall>c. j \<notin> set (valuesIn q c)) \<and> (\<exists>v. valuesOf q j = Some v \<and> isLowered v)" if j: "j \<in> set (map snd ins)" for j
  proof -
    obtain w where w: "valuesOf p j = Some w" "isLowered w" using pendingD(4) [OF pend j] by blast
    have "j \<noteq> i" using pendingD(3) [OF pend j] i by blast
    then have "valuesOf q j = Some w" using low w(1) unfolding switchLowered_def by blast
    then show ?thesis using w placed [of j] pendingD(3) [OF pend j] by auto
  qed
  then show ?thesis using pend unfolding pending_def by fastforce
qed

definition prefixLowered :: "LowerMacros \<Rightarrow> bool" where
  "prefixLowered lm \<longleftrightarrow>
     (\<forall>j \<in> set (take (lm_index lm) (valuesIn (lm_proc lm) (lm_block lm))). \<forall>w. valuesOf (lm_proc lm) j = Some w \<longrightarrow> isLowered w)"

text \<open>The values that the loop still has to lower, and how far it has to go.\<close>

definition isMacro :: "store \<Rightarrow> value_ptr \<Rightarrow> bool" where
  "isMacro s j \<longleftrightarrow> (case s j of Some v \<Rightarrow> \<not> isLowered v | None \<Rightarrow> False)"

definition macrosLeft :: "LowerMacros \<Rightarrow> nat" where
  "macrosLeft lm = length (filter (isMacro (valuesOf (lm_proc lm))) (drop (lm_index lm) (valuesIn (lm_proc lm) (lm_block lm))))"

definition stepsLeft :: "LowerMacros \<Rightarrow> nat" where
  "stepsLeft lm = length (valuesIn (lm_proc lm) (lm_block lm)) - lm_index lm"

text \<open>One iteration of the loop.\<close>

definition iterates :: "nat \<Rightarrow> LowerMacros \<Rightarrow> LowerMacros \<Rightarrow> bool" where
  "iterates n lm lm' \<longleftrightarrow>
     lowerState n lm' \<and> lm_block lm' = lm_block lm \<and> prefixLowered lm' \<and> lowerProgress n (lm_block lm) (lm_proc lm) (lm_proc lm') \<and>
     (lm', lm) \<in> measures [macrosLeft, stepsLeft]"

lemma frame_isMacro: "lowerFrame b i p q \<Longrightarrow> valuesOf p j \<noteq> None \<Longrightarrow> isMacro (valuesOf q) j \<Longrightarrow> isMacro (valuesOf p) j"
  using frame_lowered [of b i p q j] by (auto simp: isMacro_def split: option.splits)

lemma filter_length_mono: "(\<And>x. x \<in> set xs \<Longrightarrow> P x \<Longrightarrow> Q x) \<Longrightarrow> length (filter P xs) \<le> length (filter Q xs)"
  by (induction xs) (auto intro: le_SucI)

lemma plain_iterates:
  assumes st: "lowerState n lm" and pre: "prefixLowered lm" and i: "at (valuesIn (lm_proc lm) (lm_block lm)) (lm_index lm) = Some i"
    and low: "\<And>v. valuesOf (lm_proc lm) i = Some v \<Longrightarrow> isLowered v"
  shows "iterates n lm (lm\<lparr>lm_value := i, lm_index := lm_index lm + 1\<rparr>)"
proof -
  let ?vs = "valuesIn (lm_proc lm) (lm_block lm)" and ?k = "lm_index lm"
  have k: "?k < length ?vs" "?vs ! ?k = i" using i by (simp_all add: at_Some_iff)
  have "take (?k + 1) ?vs = take ?k ?vs @ [i]" using k by (simp add: take_Suc_conv_app_nth)
  moreover have "drop ?k ?vs = i # drop (?k + 1) ?vs" using Cons_nth_drop_Suc [OF k(1)] k(2) by simp
  moreover have "\<not> isMacro (valuesOf (lm_proc lm)) i" using low by (auto simp: isMacro_def split: option.splits)
  ultimately show ?thesis using st pre low k
    by (auto simp: iterates_def lowerState_def prefixLowered_def macrosLeft_def stepsLeft_def)
qed

lemma chill_iterates:
  assumes st: "lowerState n lm" and b: "lm_block lm < n" and pre: "prefixLowered lm" and i: "at (valuesIn (lm_proc lm) (lm_block lm)) (lm_index lm) = Some i"
    and v: "valuesOf (lm_proc lm) i = Some v" "m_opcode v = ChillDiv"
  obtains lm' where "lowerChillDiv v (lm\<lparr>lm_value := i\<rparr>) = Some lm'" "iterates n lm (lm'\<lparr>lm_index := lm_index lm' + 1\<rparr>)"
proof -
  let ?p = "lm_proc lm" and ?b = "lm_block lm" and ?k = "lm_index lm" and ?r = "length (m_heap (lm_proc lm))"
  note S = lowerStateD [OF st] and I = macroInvD [OF lowerStateD(1) [OF st]]
  have k: "?k < length (valuesIn ?p ?b)" "valuesIn ?p ?b ! ?k = i" using i by (simp_all add: at_Some_iff)
  obtain bb where bb: "block ?p ?b = Some bb" using valuesIn_live [of i ?p ?b] k nth_mem [of ?k "valuesIn ?p ?b"] by (auto simp: liveBlocks_def)
  have preds: "\<forall>c \<in> set (predsOf ?p ?b). endsInTerminal ?p c" using I(4,5) by (auto simp: predsLive_def terminated_def)
  have ins: "\<forall>q \<in> set (lm_insertionSet lm). fst q \<le> ?k" using pendingD(2) [OF S(2)] by simp
  obtain q phi where q: "lowerChillDiv v (lm\<lparr>lm_value := i\<rparr>) = Some (lm\<lparr>lm_value := i, lm_proc := q,
        lm_blockInsertions := lm_blockInsertions lm @ map (\<lambda>n. (bb_index bb, n)) [?r..<?r + 6], lm_insertionSet := [(0, phi)], lm_index := 0, lm_changed := True\<rparr>)"
      and low: "chillLowered i v ?b ?k (lm_insertionSet lm) phi ?p q" and bu: "chillBuilt i v ?b ?k (lm_insertionSet lm) phi ?p q"
    by (rule lowerChillDiv_lowers [of "lm\<lparr>lm_value := i\<rparr>" bb v]) (use I(1,2) bb i v preds ins in simp_all)
  have prefix: "isLowered w" if "j \<in> set (take ?k (valuesIn ?p ?b))" "valuesOf ?p j = Some w" for j w using pre that by (simp add: prefixLowered_def)
  have K: "macroInv q" "lowerFrame ?b i ?p q" "pending q [(0, phi)]" "valuesIn q ?b = drop ?k (valuesIn ?p ?b)"
    using chill_keeps [OF S(1) i v S(2) _ low bu] prefix by blast+
  have len: "length (m_heap q) = ?r + 6" using low by (simp add: chillLowered_def Let_def)
  let ?lm = "lm\<lparr>lm_value := i, lm_proc := q, lm_blockInsertions := lm_blockInsertions lm @ map (\<lambda>n. (bb_index bb, n)) [?r..<?r + 6],
      lm_insertionSet := [(0, phi)], lm_changed := True, lm_index := 1\<rparr>"
  have dr: "drop ?k (valuesIn ?p ?b) = i # drop (Suc ?k) (valuesIn ?p ?b)" using Cons_nth_drop_Suc [OF k(1)] k(2) by simp
  then have vs: "valuesIn q ?b = i # drop (Suc ?k) (valuesIn ?p ?b)" using K(4) by simp
  have "iterates n lm ?lm"
    unfolding iterates_def
  proof (intro conjI)
    show "lowerState n ?lm"
      by (rule frame_state [OF st b K(2,1,3), of "map (\<lambda>n. (bb_index bb, n)) [?r..<?r + 6]"]) (use bb len in \<open>auto simp: comp_def\<close>)
    show "prefixLowered ?lm" using vs lowerFrameD(7) [OF K(2)] by (simp add: prefixLowered_def)
    show "lowerProgress n (lm_block lm) ?p (lm_proc ?lm)" using frame_progress [OF K(2) I(3) S(3)] by simp
    have "length (filter (isMacro (valuesOf q)) (drop (Suc ?k) (valuesIn ?p ?b))) \<le> length (filter (isMacro (valuesOf ?p)) (drop (Suc ?k) (valuesIn ?p ?b)))"
      using frame_isMacro [OF K(2)] placedOnceD(2) [OF I(3)] by (intro filter_length_mono) (metis in_set_dropD option.distinct(1))
    moreover have "isMacro (valuesOf ?p) i" using v by (simp add: isMacro_def isLowered_def)
    ultimately have "macrosLeft ?lm < macrosLeft lm" using vs dr by (simp add: macrosLeft_def)
    then show "(?lm, lm) \<in> measures [macrosLeft, stepsLeft]" by simp
  qed simp
  then show thesis using that q by simp
qed

lemma switch_iterates:
  assumes st: "lowerState n lm" and b: "lm_block lm < n" and pre: "prefixLowered lm" and i: "at (valuesIn (lm_proc lm) (lm_block lm)) (lm_index lm) = Some i"
    and v: "valuesOf (lm_proc lm) i = Some v" "m_opcode v = Switch"
  obtains lm' where "lowerSwitch v (lm\<lparr>lm_value := i\<rparr>) = Some lm'" "iterates n lm (lm'\<lparr>lm_index := lm_index lm' + 1\<rparr>)"
proof -
  let ?p = "lm_proc lm" and ?b = "lm_block lm" and ?k = "lm_index lm"
  note S = lowerStateD [OF st] and I = macroInvD [OF lowerStateD(1) [OF st]]
  have k: "?k < length (valuesIn ?p ?b)" "valuesIn ?p ?b ! ?k = i" using i by (simp_all add: at_Some_iff)
  have live: "block ?p ?b \<noteq> None" using valuesIn_live [of i ?p ?b] k nth_mem [of ?k "valuesIn ?p ?b"] by (auto simp: liveBlocks_def)
  have sw: "lowerableSwitch (valuesOf ?p) v" using I(7) v by (auto simp: switchesLowerable_def)
  have kk: "?k = length (valuesIn ?p ?b) - 1"
  proof (rule ccontr)
    assume "?k \<noteq> length (valuesIn ?p ?b) - 1"
    then have lt: "?k < length (butlast (valuesIn ?p ?b))" using k by simp
    then have "i \<in> set (butlast (valuesIn ?p ?b))" using k(2) nth_butlast [OF lt] nth_mem [OF lt] by simp
    then show False using I(6) v by (auto simp: switchesLast_def)
  qed
  define vs where "vs = take ?k (valuesIn ?p ?b)"
  have split: "valuesIn ?p ?b = vs @ [i]" using k kk take_Suc_conv_app_nth [OF k(1)] by (simp add: vs_def)
  obtain lm2 q where q: "lowerSwitch v (lm\<lparr>lm_value := i\<rparr>) = Some (lm2\<lparr>lm_proc := q, lm_changed := True\<rparr>)"
      and low: "switchLowered i v ?b ?p q" and bu: "switchBuilt i v (lm\<lparr>lm_value := i\<rparr>) lm2 q"
    by (rule lowerSwitch_lowers [of "lm\<lparr>lm_value := i\<rparr>" v]) (use I(1,2) live v sw in simp_all)
  have prefix: "isLowered w" if "j \<in> set vs" "valuesOf ?p j = Some w" for j w using pre that by (simp add: prefixLowered_def vs_def)
  have K: "macroInv q" "lowerFrame ?b i ?p q" "macroFree q ?b" "\<And>j c. j \<in> set (valuesIn q c) \<Longrightarrow> j \<in> set (valuesIn ?p c) \<or> valuesOf ?p j = None"
    using switch_keeps [of "lm\<lparr>lm_value := i\<rparr>" vs i v q lm2] S(1) split v prefix low bu by simp_all
  obtain bi where bi: "lm2 = lm\<lparr>lm_value := i, lm_proc := lm_proc lm2, lm_blockInsertions := lm_blockInsertions lm @ bi\<rparr>"
      "map snd bi = [length (m_heap ?p)..<length (m_heap q)]" "\<And>x. x \<in> set bi \<Longrightarrow> \<exists>bb. block ?p ?b = Some bb \<and> fst x \<le> Suc (bb_index bb)"
    by (rule switchBuilt_insertions [OF bu]) auto
  have pend: "pending q (lm_insertionSet lm)"
    by (rule switch_pending [OF S(2) low K(4)]) (use split in auto)
  let ?lm = "lm2\<lparr>lm_proc := q, lm_changed := True, lm_index := lm_index lm2 + 1\<rparr>"
  have blk: "lm_block lm2 = ?b" "lm_insertionSet lm2 = lm_insertionSet lm" "lm_blockInsertions lm2 = lm_blockInsertions lm @ bi"
    using arg_cong [OF bi(1), of lm_block] arg_cong [OF bi(1), of lm_insertionSet] arg_cong [OF bi(1), of lm_blockInsertions] by simp_all
  have none: "\<not> isMacro (valuesOf q) j" if "j \<in> set (valuesIn q ?b)" for j using K(3) that by (auto simp: macroFree_def isMacro_def split: option.splits)
  have "iterates n lm ?lm"
    unfolding iterates_def
  proof (intro conjI)
    show "lowerState n ?lm" by (rule frame_state [OF st b K(2,1) pend bi(2,3)]) (simp_all add: blk)
    show "prefixLowered ?lm" using K(3) blk(1) by (auto simp: prefixLowered_def macroFree_def dest!: in_set_takeD)
    show "lowerProgress n (lm_block lm) ?p (lm_proc ?lm)" using frame_progress [OF K(2) I(3) S(3)] by simp
    have "macrosLeft ?lm = 0" using none blk(1) by (auto simp: macrosLeft_def filter_empty_conv dest: in_set_dropD)
    moreover have "isMacro (valuesOf ?p) i" using v by (simp add: isMacro_def isLowered_def)
    then have "0 < macrosLeft lm" using Cons_nth_drop_Suc [OF k(1)] k(2) by (simp add: macrosLeft_def Cons_nth_drop_Suc [OF k(1), symmetric])
    ultimately show "(?lm, lm) \<in> measures [macrosLeft, stepsLeft]" by simp
  qed (simp add: blk)
  then show thesis using that q by simp
qed

lemma iteration:
  assumes st: "lowerState n lm" and b: "lm_block lm < n" and pre: "prefixLowered lm" and k: "lm_index lm < length (valuesIn (lm_proc lm) (lm_block lm))"
  obtains lm' where "lowerValue lm = Some lm'" "iterates n lm (lm'\<lparr>lm_index := lm_index lm' + 1\<rparr>)"
proof -
  obtain i where i: "at (valuesIn (lm_proc lm) (lm_block lm)) (lm_index lm) = Some i" using k by (simp add: at_def)
  then have "i \<in> set (valuesIn (lm_proc lm) (lm_block lm))" by (auto simp: at_Some_iff)
  then obtain v where v: "valuesOf (lm_proc lm) i = Some v" using placedOnceD(2) [OF macroInvD(3) [OF lowerStateD(1) [OF st]]] by blast
  consider "m_opcode v = ChillDiv" | "m_opcode v = Switch" | "isLowered v" by (auto simp: isLowered_def)
  then show thesis
  proof cases
    case 1
    obtain lm' where "lowerChillDiv v (lm\<lparr>lm_value := i\<rparr>) = Some lm'" "iterates n lm (lm'\<lparr>lm_index := lm_index lm' + 1\<rparr>)"
      by (rule chill_iterates [OF st b pre i v 1])
    then show thesis using that i v 1 by (simp add: lowerValue_def)
  next
    case 2
    obtain lm' where "lowerSwitch v (lm\<lparr>lm_value := i\<rparr>) = Some lm'" "iterates n lm (lm'\<lparr>lm_index := lm_index lm' + 1\<rparr>)"
      by (rule switch_iterates [OF st b pre i v 2])
    then show thesis using that i v 2 by (simp add: lowerValue_def)
  next
    case 3
    have "lowerValue lm = Some (lm\<lparr>lm_value := i\<rparr>)" using i v 3 by (simp add: lowerValue_def isLowered_def)
    moreover have "iterates n lm (lm\<lparr>lm_value := i, lm_index := lm_index lm + 1\<rparr>)" by (rule plain_iterates [OF st pre i]) (use v 3 in simp)
    ultimately show thesis using that by simp
  qed
qed

text \<open>The loop ends, whatever the lowerings add to the block on the way.\<close>

lemma lowerLoop_ends:
  assumes "lowerState n lm" "lm_block lm < n" "prefixLowered lm"
  shows "\<exists>lm'. lowerLoop lm = Some lm' \<and> lowerState n lm' \<and> lm_block lm' = lm_block lm \<and>
    lowerProgress n (lm_block lm) (lm_proc lm) (lm_proc lm') \<and> macroFree (lm_proc lm') (lm_block lm)"
  using assms
proof (induction lm rule: wf_induct_rule [OF wf_measures [of "[macrosLeft, stepsLeft]"]])
  case (1 lm)
  show ?case
  proof (cases "lm_index lm < length (valuesIn (lm_proc lm) (lm_block lm))")
    case True
    obtain lm1 where lm1: "lowerValue lm = Some lm1" "iterates n lm (lm1\<lparr>lm_index := lm_index lm1 + 1\<rparr>)"
      by (rule iteration [OF 1(2-4) True])
    let ?lm = "lm1\<lparr>lm_index := lm_index lm1 + 1\<rparr>"
    have it: "lowerState n ?lm" "lm_block ?lm = lm_block lm" "prefixLowered ?lm" "lowerProgress n (lm_block lm) (lm_proc lm) (lm_proc ?lm)"
        "(?lm, lm) \<in> measures [macrosLeft, stepsLeft]"
      using lm1(2) unfolding iterates_def by blast+
    from 1(1) [OF it(5,1) _ it(3)] it(2) 1(3) obtain lm' where "lowerLoop ?lm = Some lm'" "lowerState n lm'" "lm_block lm' = lm_block lm"
        "lowerProgress n (lm_block lm) (lm_proc ?lm) (lm_proc lm')" "macroFree (lm_proc lm') (lm_block lm)" by auto
    then show ?thesis using lowerLoop.simps [of lm] lm1(1) True lowerProgress_trans [OF it(4)] by auto
  next
    case False
    then have "macroFree (lm_proc lm) (lm_block lm)" using 1(4) by (simp add: prefixLowered_def macroFree_def)
    then show ?thesis using lowerLoop.simps [of lm] False 1(2) by simp
  qed
qed

subsection \<open>A block\<close>

lemma executeInsertionSet_shape:
  "block (executeInsertionSet ins b p) c = None \<longleftrightarrow> block p c = None" "predsOf (executeInsertionSet ins b p) c = predsOf p c"
  "map_option bb_index (block (executeInsertionSet ins b p) c) = map_option bb_index (block p c)"
  "length (m_heap (executeInsertionSet ins b p)) = length (m_heap p)"
  by (auto simp: executeInsertionSet_def block_updateBlock predsOf_def option.map_comp comp_def split: option.splits)

lemma execute_pending:
  assumes inv: "macroInv p" and pend: "pending p ins" and free: "macroFree p b" and b: "b \<in> liveBlocks p"
  defines "q \<equiv> executeInsertionSet ins b p"
  shows "macroInv q" "macroFree q b" "c \<noteq> b \<Longrightarrow> valuesIn q c = valuesIn p c" "valuesOf q = valuesOf p"
proof -
  note I = macroInvD [OF inv] and O = executeInsertionSet_other [where b = b and ins = ins and p = p, folded q_def] and E = executeInsertionSet_shape [of ins b p, folded q_def]
  have vs: "valuesIn q b = map snd ins @ valuesIn p b"
    using executeInsertionSet_values [of p b ins] spliced_front [of ins "valuesIn p b"] pendingD(2) [OF pend] b
    by (fastforce simp: q_def liveBlocks_def)
  have live: "liveBlocks q = liveBlocks p" using E(1) by (simp add: liveBlocks_def)
  have ends: "endsInTerminal p b" using I(4) b by (simp add: terminated_def)
  then have ne: "valuesIn p b \<noteq> []" by (simp add: endsInTerminal_iff)
  have last: "last (valuesIn q c) = last (valuesIn p c)" "valuesIn q c = [] \<longleftrightarrow> valuesIn p c = []" for c
    using vs O(1) [of c] ne by (cases "c = b"; simp)+
  show "valuesOf q = valuesOf p" "c \<noteq> b \<Longrightarrow> valuesIn q c = valuesIn p c" by (rule O)+
  show "macroFree q b" using free pendingD(4) [OF pend] by (fastforce simp: macroFree_def vs O(2))
  then have noswitch: "m_opcode w \<noteq> Switch" if "j \<in> set (valuesIn q b)" "valuesOf p j = Some w" for j w
    using that by (auto simp: macroFree_def isLowered_def O(2))
  have e: "endsInTerminal q c = endsInTerminal p c" "successorBlocks q c = successorBlocks p c" for c
    by (simp_all add: endsInTerminal_iff successorBlocks_def lastValue_def last O(2))
  have "terminated q" using I(4) unfolding terminated_def live e .
  moreover have "placedOnce q"
  proof -
    have sub: "j \<in> set (valuesIn p c) \<or> c = b \<and> j \<in> set (map snd ins)" if "j \<in> set (valuesIn q c)" for j c
      using that vs O(1) [of c] by (cases "c = b") auto
    show ?thesis
      unfolding placedOnce_def
    proof (intro conjI allI impI)
      show "distinct (valuesIn q c)" for c
        using vs O(1) [of c] placedOnceD(1) [OF I(3), of c] pendingD(1,3) [OF pend] by (cases "c = b") auto
      show "set (valuesIn q c) \<subseteq> dom (valuesOf q)" for c
      proof
        fix j assume "j \<in> set (valuesIn q c)"
        then show "j \<in> dom (valuesOf q)" using sub [of j c] placedOnceD(2) [OF I(3), of j c] pendingD(4) [OF pend, of j] O(2) by auto
      qed
      show "set (valuesIn q c) \<inter> set (valuesIn q d) = {}" if "c \<noteq> d" for c d
      proof (rule ccontr)
        assume "set (valuesIn q c) \<inter> set (valuesIn q d) \<noteq> {}"
        then obtain j where j: "j \<in> set (valuesIn q c)" "j \<in> set (valuesIn q d)" by blast
        show False using sub [OF j(1)] sub [OF j(2)] placedOnceD(3) [OF I(3), of j c d] pendingD(3) [OF pend, of j] that by auto
      qed
    qed
  qed
  moreover have "predsLive q" using I(5) by (simp add: predsLive_def E(2) live)
  moreover have "switchesLast q"
    unfolding switchesLast_def
  proof (intro allI ballI impI)
    fix c j w assume j: "j \<in> set (butlast (valuesIn q c))" "valuesOf q j = Some w"
    show "m_opcode w \<noteq> Switch"
    proof (cases "c = b")
      case True
      then show ?thesis using noswitch j in_set_butlastD [OF j(1)] O(2) by simp
    qed (use I(6) j O(1) [of c] O(2) in \<open>auto simp: switchesLast_def\<close>)
  qed
  ultimately show "macroInv q" using I O(2,3) by (simp add: macroInv_def)
qed

lemma processCurrentBlock_lowers:
  assumes st: "lowerState n lm" and ins: "lm_insertionSet lm = []" and b: "b < n" "b \<in> liveBlocks (lm_proc lm)"
  obtains lm' where "processCurrentBlock b lm = Some lm'" "lowerState n lm'" "lm_insertionSet lm' = []"
    "lowerProgress n b (lm_proc lm) (lm_proc lm')" "macroFree (lm_proc lm') b"
proof -
  let ?lm0 = "lm\<lparr>lm_block := b, lm_index := 0\<rparr>"
  have "lowerState n ?lm0" "prefixLowered ?lm0" using st by (simp_all add: lowerState_def prefixLowered_def)
  then obtain lm1 where 1: "lowerLoop ?lm0 = Some lm1" "lowerState n lm1" "lm_block lm1 = b" "lowerProgress n b (lm_proc lm) (lm_proc lm1)"
      "macroFree (lm_proc lm1) b"
    using lowerLoop_ends [of n ?lm0] b(1) by auto
  note S = lowerStateD [OF 1(2)]
  have "map_option bb_index (block (lm_proc lm1) b) = map_option bb_index (block (lm_proc lm) b)" using 1(4) b(1) by (simp add: lowerProgress_def)
  moreover have "block (lm_proc lm) b \<noteq> None" using b(2) by (simp add: liveBlocks_def)
  ultimately have "block (lm_proc lm1) b \<noteq> None" by (metis option.map_disc_iff)
  then have bl: "b \<in> liveBlocks (lm_proc lm1)" by (simp add: liveBlocks_def)
  define q where "q = executeInsertionSet (lm_insertionSet lm1) b (lm_proc lm1)"
  note E = execute_pending [OF S(1,2) 1(5) bl, folded q_def]
  note X = executeInsertionSet_shape [of "lm_insertionSet lm1" b "lm_proc lm1", folded q_def]
    and O = executeInsertionSet_other [where b = b and ins = "lm_insertionSet lm1" and p = "lm_proc lm1", folded q_def]
  let ?lm = "lm1\<lparr>lm_proc := q, lm_insertionSet := []\<rparr>"
  have free: "macroFree q c = macroFree (lm_proc lm1) c" if "c \<noteq> b" for c using O(1) [OF that] O(2) by (simp add: macroFree_def)
  have "lowerState n ?lm"
    unfolding lowerState_def
  proof (intro conjI allI impI ballI)
    show "macroInv (lm_proc ?lm)" using E(1) by simp
    show "pending (lm_proc ?lm) (lm_insertionSet ?lm)" by (simp add: pending_def)
    show "n \<le> length (m_heap (lm_proc ?lm))" "map snd (lm_blockInsertions ?lm) = [n..<length (m_heap (lm_proc ?lm))]" using S(3,4) X(4) by simp_all
    show "fst x \<le> length (m_blocks (lm_proc ?lm))" if "x \<in> set (lm_blockInsertions ?lm)" for x using S(5) [of x] that O(4) by simp
    show "bb_index bb < length (m_blocks (lm_proc ?lm))" if "c < n" "block (lm_proc ?lm) c = Some bb" for c bb
    proof -
      have "map_option bb_index (block (lm_proc lm1) c) = Some (bb_index bb)" using X(3) [of c] that(2) by simp
      then obtain bb1 where "block (lm_proc lm1) c = Some bb1" "bb_index bb1 = bb_index bb" by auto
      then show ?thesis using S(6) [OF that(1), of bb1] O(4) by simp
    qed
    show "block (lm_proc ?lm) c \<noteq> None" "macroFree (lm_proc ?lm) c" if "n \<le> c" "c < length (m_heap (lm_proc ?lm))" for c
      using S(7) [of c] that X(1) [of c] X(4) free [of c] b(1) by (simp_all del: not_None_eq)
  qed
  moreover have "lowerProgress n b (lm_proc lm) q"
    using 1(4) O(4) X(3) free unfolding lowerProgress_def by simp
  moreover have "processCurrentBlock b lm = Some ?lm" using 1(1,3) by (simp add: processCurrentBlock_def q_def)
  ultimately show thesis using that E(2) by simp
qed

lemma processBlocks_lower:
  assumes "lowerState n lm" "lm_insertionSet lm = []" "set bs \<subseteq> {..<n} \<inter> liveBlocks (lm_proc lm)"
  shows "\<exists>lm'. foldM processCurrentBlock bs lm = Some lm' \<and> lowerState n lm' \<and> m_blocks (lm_proc lm') = m_blocks (lm_proc lm) \<and>
    (\<forall>c < n. map_option bb_index (block (lm_proc lm') c) = map_option bb_index (block (lm_proc lm) c)) \<and>
    (\<forall>c < n. c \<in> set bs \<or> macroFree (lm_proc lm) c \<longrightarrow> macroFree (lm_proc lm') c)"
  using assms
proof (induction bs arbitrary: lm)
  case (Cons b bs)
  obtain lm1 where 1: "processCurrentBlock b lm = Some lm1" "lowerState n lm1" "lm_insertionSet lm1 = []"
    "lowerProgress n b (lm_proc lm) (lm_proc lm1)" "macroFree (lm_proc lm1) b"
    by (rule processCurrentBlock_lowers [OF Cons.prems(1,2)]) (use Cons.prems(3) in auto)
  have idx: "map_option bb_index (block (lm_proc lm1) c) = map_option bb_index (block (lm_proc lm) c)" if "c < n" for c
    using 1(4) that by (simp add: lowerProgress_def)
  have "set bs \<subseteq> {..<n} \<inter> liveBlocks (lm_proc lm1)"
  proof
    fix c assume "c \<in> set bs"
    then have c: "c < n" "block (lm_proc lm) c \<noteq> None" using Cons.prems(3) by (auto simp: liveBlocks_def)
    then have "block (lm_proc lm1) c \<noteq> None" using idx [OF c(1)] by (metis option.map_disc_iff)
    then show "c \<in> {..<n} \<inter> liveBlocks (lm_proc lm1)" using c(1) by (simp add: liveBlocks_def)
  qed
  from Cons.IH [OF 1(2,3) this] obtain lm' where lm': "foldM processCurrentBlock bs lm1 = Some lm'" "lowerState n lm'"
      "m_blocks (lm_proc lm') = m_blocks (lm_proc lm1)"
      "\<forall>c < n. map_option bb_index (block (lm_proc lm') c) = map_option bb_index (block (lm_proc lm1) c)"
      "\<forall>c < n. c \<in> set bs \<or> macroFree (lm_proc lm1) c \<longrightarrow> macroFree (lm_proc lm') c" by blast
  moreover have "macroFree (lm_proc lm1) c" if "c < n" "c = b \<or> macroFree (lm_proc lm) c" for c
    using 1(4,5) that unfolding lowerProgress_def by blast
  ultimately show ?case using 1(1,4) idx by (auto simp: lowerProgress_def)
qed simp

subsection \<open>Inserting the blocks\<close>

lemma renumber_shape:
  assumes "distinct (m_blocks p)" "None \<notin> set (m_blocks p)"
  shows "valuesIn (renumber p) c = valuesIn p c" "liveBlocks (renumber p) = liveBlocks p"
proof -
  have b: "block (renumber p) c = block p c \<or> (\<exists>i. block (renumber p) c = map_option (bb_index_update (\<lambda>_. i)) (block p c))" for c
  proof (cases "Some c \<in> set (m_blocks p)")
    case True
    then obtain i where "i < length (m_blocks p)" "m_blocks p ! i = Some c" by (auto simp: in_set_conv_nth)
    then show ?thesis using renumber_blocks(5) [OF assms, of i] by auto
  qed (use renumber_blocks(6) [OF assms] in simp)
  show "valuesIn (renumber p) c = valuesIn p c" using b [of c] by (cases "block p c") (auto simp: valuesIn_def)
  have "block (renumber p) c = None \<longleftrightarrow> block p c = None" for c using b [of c] by auto
  then show "liveBlocks (renumber p) = liveBlocks p" by (simp add: liveBlocks_def)
qed

lemma splicedBlocks_owns:
  assumes "\<forall>x \<in> set ins. fst x \<le> length (m_blocks p)"
  shows "mset (map the (splicedBlocks p ins)) = mset (blocksOf p) + mset (map snd ins)" "None \<notin> set (splicedBlocks p ins)"
proof -
  have s: "mset (spliced (m_blocks p) (map (\<lambda>(i, b). (i, Some b)) ins)) = mset (m_blocks p) + mset (map (Some \<circ> snd) ins)"
    using mset_spliced [of "map (\<lambda>(i, b). (i, Some b)) ins" "m_blocks p"] assms by (auto simp: comp_def case_prod_beta)
  have f: "filter_mset (\<lambda>ob. ob \<noteq> None) (mset (map (Some \<circ> snd) ins)) = mset (map (Some \<circ> snd) ins)"
    by (induction ins) auto
  have "mset (splicedBlocks p ins) = filter_mset (\<lambda>ob. ob \<noteq> None) (mset (m_blocks p)) + mset (map (Some \<circ> snd) ins)"
    unfolding splicedBlocks_def mset_filter s filter_union_mset f ..
  then have "image_mset the (mset (splicedBlocks p ins)) = image_mset the (filter_mset (\<lambda>ob. ob \<noteq> None) (mset (m_blocks p))) + image_mset snd (mset ins)"
    by (simp add: multiset.map_comp comp_def)
  then show "mset (map the (splicedBlocks p ins)) = mset (blocksOf p) + mset (map snd ins)" by (simp add: blocksOf_def)
  show "None \<notin> set (splicedBlocks p ins)" by (simp add: splicedBlocks_def)
qed

lemma executeBlockInsertions_owns:
  assumes root: "m_blocks p = Some root # rest" and once: "distinct (blocksOf p)" "distinct (map snd ins)" "set (map snd ins) \<inter> set (blocksOf p) = {}"
    and at: "\<forall>x \<in> set ins. fst x \<le> length (m_blocks p)" and inv: "procInv p"
  obtains p' root' rest' where "executeBlockInsertions (p, ins) = (ins \<noteq> [], p')" "m_blocks p' = Some root' # rest'" "distinct (blocksOf p')"
    "set (blocksOf p') = set (blocksOf p) \<union> set (map snd ins)" "liveBlocks p' = liveBlocks p" "\<And>c. valuesIn p' c = valuesIn p c"
    "valuesOf p' = valuesOf p" "procInv p'"
proof (cases "ins = []")
  case True
  then show thesis using root once(1) inv by (intro that [of p root rest]) (simp_all add: executeBlockInsertions_def)
next
  case False
  let ?p = "p\<lparr>m_blocks := splicedBlocks p ins\<rparr>"
  note S = splicedBlocks_owns [OF at]
  have d: "distinct (map the (splicedBlocks p ins))" using once mset_eq_imp_distinct_iff [OF S(1) [folded mset_append]] by (auto simp: disjoint_iff)
  then have ok: "distinct (m_blocks ?p)" "None \<notin> set (m_blocks ?p)" using S(2) by (simp_all add: distinct_map)
  note R = renumber_blocks [OF ok] renumber_shape [OF ok]
  have bs: "blocksOf (renumber ?p) = map the (splicedBlocks p ins)"
  proof -
    have "filter (\<lambda>ob. ob \<noteq> None) (splicedBlocks p ins) = splicedBlocks p ins" by (simp add: splicedBlocks_def)
    then show ?thesis using R(1) by (simp add: blocksOf_def)
  qed
  have "set (map the (splicedBlocks p ins)) = set (blocksOf p) \<union> set (map snd ins)"
    using arg_cong [OF S(1), of set_mset] by simp
  then have set: "set (blocksOf (renumber ?p)) = set (blocksOf p) \<union> set (map snd ins)" by (simp add: bs)
  moreover have "root \<in> set (blocksOf p)" by (rule root_owned [OF root])
  ultimately have "splicedBlocks p ins \<noteq> []" using bs by auto
  then obtain root' rest' where h: "splicedBlocks p ins = Some root' # rest'" using S(2) 
    by (cases "splicedBlocks p ins"; cases "hd (splicedBlocks p ins)") auto
  have at': "\<forall>(i, b) \<in> set ins. i \<le> length (m_blocks p)" using at by auto
  have vi: "valuesIn ?p c = valuesIn p c" "liveBlocks ?p = liveBlocks p" for c by (simp_all add: valuesIn_def liveBlocks_def block_def)
  show thesis
  proof (rule that [of "renumber ?p" root' rest'])
    show "executeBlockInsertions (p, ins) = (ins \<noteq> [], renumber ?p)" using executeBlockInsertions_renumber [OF False at'] False by simp
    show "m_blocks (renumber ?p) = Some root' # rest'" using R(1) h by simp
    show "distinct (blocksOf (renumber ?p))" using bs d by simp
    show "set (blocksOf (renumber ?p)) = set (blocksOf p) \<union> set (map snd ins)" by (rule set)
    show "valuesIn (renumber ?p) c = valuesIn p c" for c using R(7) [of c] vi(1) [of c] by simp
    show "liveBlocks (renumber ?p) = liveBlocks p" using R(8) vi(2) by simp
    show "valuesOf (renumber ?p) = valuesOf p" using R(2) by (simp add: valuesOf_def fun_eq_iff)
    show "procInv (renumber ?p)" using R(3) inv by (simp add: procInv_def)
  qed
qed

subsection \<open>The phase\<close>

text \<open>
  What the phase relies on: a validated procedure that owns all its blocks, numbered, with live
  predecessors, and switches whose case values are distinct and fit the type they are compared at.
\<close>

definition loweringReady :: "Procedure \<Rightarrow> bool" where
  "loweringReady p \<longleftrightarrow>
     procInv p \<and> wtStore (valuesOf p) \<and> placement p \<and> distinct (blocksOf p) \<and> (\<exists>root rest. m_blocks p = Some root # rest) \<and>
     liveBlocks p = set (blocksOf p) \<and> (\<forall>b \<in> set (blocksOf p). validateBlock p b \<and> set (predsOf p b) \<subseteq> set (blocksOf p)) \<and>
     (\<forall>c bb. block p c = Some bb \<longrightarrow> bb_index bb < length (m_blocks p)) \<and> switchesLowerable (valuesOf p)"

lemma ready_placedOnce:
  assumes "placement p" "distinct (blocksOf p)" "liveBlocks p = set (blocksOf p)"
  shows "placedOnce p"
proof -
  have d: "distinct (valuesIn p b)" "set (valuesIn p b) \<subseteq> dom (valuesOf p)" if "b \<in> set (blocksOf p)" for b
    using assms(1,2) that by (auto simp: placement_def placedValues_def distinct_concat_map)
  have dd: "set (valuesIn p b) \<inter> set (valuesIn p c) = {}" if "b \<in> set (blocksOf p)" "c \<in> set (blocksOf p)" "b \<noteq> c" for b c
    using assms(1,2) that by (simp add: placement_def placedValues_def distinct_concat_map)
  have e: "valuesIn p b = []" if "b \<notin> set (blocksOf p)" for b
    using that assms(3) by (auto simp: liveBlocks_def valuesIn_def split: option.splits)
  show ?thesis
    unfolding placedOnce_def
  proof (intro conjI allI impI)
    show "distinct (valuesIn p b)" "set (valuesIn p b) \<subseteq> dom (valuesOf p)" for b
      using d [of b] e [of b] by (cases "b \<in> set (blocksOf p)"; simp)+
    show "set (valuesIn p b) \<inter> set (valuesIn p c) = {}" if "b \<noteq> c" for b c
      using dd [of b c] e [of b] e [of c] that by (cases "b \<in> set (blocksOf p)"; cases "c \<in> set (blocksOf p)") simp_all
  qed
qed

lemma ready_macroInv:
  assumes r: "loweringReady p"
  shows "macroInv p"
proof -
  have R: "procInv p" "wtStore (valuesOf p)" "placement p" "distinct (blocksOf p)" "liveBlocks p = set (blocksOf p)" "switchesLowerable (valuesOf p)"
    and V: "\<And>b. b \<in> set (blocksOf p) \<Longrightarrow> validateBlock p b \<and> set (predsOf p b) \<subseteq> set (blocksOf p)"
    using r by (simp_all add: loweringReady_def)
  have "terminated p"
    unfolding terminated_def
  proof
    fix b assume "b \<in> liveBlocks p"
    then have "validateBlock p b" using V R(5) by simp
    then show "endsInTerminal p b \<and> set (successorBlocks p b) \<subseteq> liveBlocks p"
      using R(5) by (auto simp: validateBlock_def endsInTerminal_iff lastValue_def split: option.splits)
  qed
  moreover have "predsLive p"
    unfolding predsLive_def
  proof
    fix c show "set (predsOf p c) \<subseteq> liveBlocks p"
    proof (cases "c \<in> set (blocksOf p)")
      case False
      then have "block p c = None" using R(5) by (auto simp: liveBlocks_def)
      then show ?thesis by (simp add: predsOf_def)
    qed (use V R(5) in simp)
  qed
  moreover have "switchesLast p"
    unfolding switchesLast_def
  proof (intro allI ballI impI)
    fix b j v assume j: "j \<in> set (butlast (valuesIn p b))" "valuesOf p j = Some v"
    then have "b \<in> set (blocksOf p)" using valuesIn_live [of j p b] in_set_butlastD [OF j(1)] R(5) by simp
    then have "\<not> acceptsControl (m_opcode v)" using V [of b] j by (auto simp: validateBlock_def)
    then show "m_opcode v \<noteq> Switch" by (auto simp: acceptsControl_def)
  qed
  ultimately show ?thesis using R ready_placedOnce [OF R(3-5)] by (simp add: macroInv_def)
qed

text \<open>On a block with nothing to lower the loop only walks to its end.\<close>

lemma lowerLoop_idle:
  assumes "macroFree (lm_proc lm) (lm_block lm)" "set (valuesIn (lm_proc lm) (lm_block lm)) \<subseteq> dom (valuesOf (lm_proc lm))"
  shows "\<exists>i k. lowerLoop lm = Some (lm\<lparr>lm_value := i, lm_index := k\<rparr>)"
  using assms
proof (induction "length (valuesIn (lm_proc lm) (lm_block lm)) - lm_index lm" arbitrary: lm)
  case 0
  then have "lowerLoop lm = Some (lm\<lparr>lm_value := lm_value lm, lm_index := lm_index lm\<rparr>)" using lowerLoop.simps [of lm] by simp
  then show ?case by blast
next
  case (Suc d)
  then have k: "lm_index lm < length (valuesIn (lm_proc lm) (lm_block lm))" by simp
  define j where "j = valuesIn (lm_proc lm) (lm_block lm) ! lm_index lm"
  have j: "at (valuesIn (lm_proc lm) (lm_block lm)) (lm_index lm) = Some j" "j \<in> set (valuesIn (lm_proc lm) (lm_block lm))"
    using k by (simp_all add: j_def at_def)
  then obtain v where v: "valuesOf (lm_proc lm) j = Some v" using Suc.prems(2) by blast
  then have "isLowered v" using Suc.prems(1) j(2) by (simp add: macroFree_def)
  then have "lowerValue lm = Some (lm\<lparr>lm_value := j\<rparr>)" using j(1) v by (simp add: lowerValue_def isLowered_def)
  moreover obtain i k' where "lowerLoop (lm\<lparr>lm_value := j, lm_index := lm_index lm + 1\<rparr>) = Some (lm\<lparr>lm_value := i, lm_index := k'\<rparr>)"
    using Suc.hyps(1) [of "lm\<lparr>lm_value := j, lm_index := lm_index lm + 1\<rparr>"] Suc.hyps(2) Suc.prems by fastforce
  ultimately show ?case using lowerLoop.simps [of lm] k by auto
qed

lemma executeInsertionSet_none: "executeInsertionSet [] b p = p"
proof -
  have "executeInsertions xs [] = map Some xs" for xs :: "value_ptr list" using executeInsertions_spliced [of "[]" xs] by simp
  moreover have "bubbleSort (\<lambda>x y. fst x < fst y) [] = ([] :: Insertion list)" using bubbleSort_sort_key [where key = fst and xs = "[] :: Insertion list"] by simp
  ultimately show ?thesis
    by (cases "block p b")
      (auto simp: executeInsertionSet_def updateBlock_def setBlock_def block_def comp_def at_def split: if_splits intro!: list_update_same_conv [THEN iffD2] Procedure.equality)
qed

lemma lowerMacrosImpl_idle:
  assumes "\<And>b i. b \<in> set (blocksOf p) \<Longrightarrow> i \<in> set (valuesIn p b) \<Longrightarrow> \<exists>v. valuesOf p i = Some v \<and> isLowered v"
  shows "lowerMacrosImpl p = Some (False, p)"
proof -
  have "\<exists>lm'. foldM processCurrentBlock bs lm = Some lm' \<and> lm_proc lm' = p \<and> lm_blockInsertions lm' = [] \<and> \<not> lm_changed lm'"
    if "set bs \<subseteq> set (blocksOf p)" "lm_proc lm = p" "lm_blockInsertions lm = []" "lm_insertionSet lm = []" "\<not> lm_changed lm" for bs lm
    using that
  proof (induction bs arbitrary: lm)
    case (Cons b bs)
    have "macroFree p b" "set (valuesIn p b) \<subseteq> dom (valuesOf p)" using assms Cons.prems(1) by (fastforce simp: macroFree_def)+
    then obtain i k where "lowerLoop (lm\<lparr>lm_block := b, lm_index := 0\<rparr>) = Some (lm\<lparr>lm_block := b, lm_value := i, lm_index := k\<rparr>)"
      using lowerLoop_idle [of "lm\<lparr>lm_block := b, lm_index := 0\<rparr>"] Cons.prems(2) by auto
    then have "processCurrentBlock b lm = Some (lm\<lparr>lm_block := b, lm_value := i, lm_index := k, lm_insertionSet := []\<rparr>)"
      using Cons.prems(2,4) executeInsertionSet_none [of b p] by (simp add: processCurrentBlock_def)
    then show ?case using Cons.IH [of "lm\<lparr>lm_block := b, lm_value := i, lm_index := k, lm_insertionSet := []\<rparr>"] Cons.prems by simp
  qed simp
  from this [of "blocksOf p" "\<lparr>lm_proc = p, lm_blockInsertions = [], lm_insertionSet = [], lm_block = 0, lm_index = 0, lm_value = 0, lm_changed = False\<rparr>"]
  show ?thesis by (auto simp: lowerMacrosImpl_def executeBlockInsertions_def)
qed

text \<open>The first run leaves nothing to lower in the blocks that the procedure owns.\<close>

definition lowered :: "Procedure \<Rightarrow> bool" where
  "lowered p \<longleftrightarrow> procInv p \<and> closedCFG p \<and>
     (\<forall>b \<in> set (blocksOf p). endsInTerminal p b \<and> (\<forall>i \<in> set (valuesIn p b). \<exists>v. valuesOf p i = Some v \<and> isLowered v))"

lemma loweredI:
  assumes "macroInv p" "\<And>c. macroFree p c" "m_blocks p' = Some root # rest" "set (blocksOf p') = liveBlocks p" "\<And>c. valuesIn p' c = valuesIn p c"
    "valuesOf p' = valuesOf p" "procInv p'"
  shows "lowered p'"
proof -
  have e: "successorBlocks p' b = successorBlocks p b" "endsInTerminal p' b = endsInTerminal p b" for b
    by (simp_all add: successorBlocks_def lastValue_def endsInTerminal_iff assms(5,6))
  have "\<exists>v. valuesOf p i = Some v \<and> isLowered v" if "i \<in> set (valuesIn p b)" for b i
    using placedOnceD(2) [OF macroInvD(3) [OF assms(1)] that] assms(2) [of b] that by (auto simp: macroFree_def)
  then show ?thesis using macroInvD(4) [OF assms(1)] assms(7)
    by (simp add: lowered_def closedCFG_def terminated_def assms(4-6) e)
qed

lemma reset_lowered:
  assumes low: "lowered p" and root: "m_blocks p = Some root # rest" and once: "distinct (blocksOf p)" and pl: "placedOnce p"
    and live: "set (blocksOf p) = liveBlocks p"
  obtains p' where "procResetReachability p = Some p'" "lowered p'" "set (blocksOf p') = reachable p root"
proof -
  have L: "procInv p" "closedCFG p"
    and T: "\<And>b i. b \<in> set (blocksOf p) \<Longrightarrow> i \<in> set (valuesIn p b) \<Longrightarrow> \<exists>v. valuesOf p i = Some v \<and> isLowered v"
    and E: "\<And>b. b \<in> set (blocksOf p) \<Longrightarrow> endsInTerminal p b"
    using low unfolding lowered_def by blast+
  have placed: "distinct (placedValues p)" "set (placedValues p) \<subseteq> dom (valuesOf p)"
    using pl once by (auto simp: placedValues_def distinct_concat_map placedOnce_def)
  have blk: "block p b \<noteq> None" if "b \<in> set (blocksOf p)" for b using that live by (simp add: liveBlocks_def)
  obtain p' where p': "procResetReachability p = Some p'" "procInv p'" "set (blocksOf p') = reachable p root"
      "\<And>b. b \<in> reachable p root \<Longrightarrow> valuesIn p' b = valuesIn p b"
      "valuesOf p' = (\<lambda>i. if \<exists>b \<in> set (blocksOf p) - reachable p root. i \<in> set (valuesIn p b) then None else valuesOf p i)"
    using procResetReachability_exact [OF L(2) root once L(1) placed blk] by blast
  have sub: "reachable p root \<subseteq> set (blocksOf p)"
    using bg.reach_closed [of "{root}" p] root_owned [OF root] L(2) by (simp add: reachable_def flow_def)
  have val: "valuesOf p' i = valuesOf p i" if "b \<in> reachable p root" "i \<in> set (valuesIn p b)" for b i
  proof -
    have "b = c" if "i \<in> set (valuesIn p c)" for c using placedOnceD(3) [OF pl \<open>i \<in> set (valuesIn p b)\<close> that] .
    then show ?thesis using that(1) unfolding p'(5) by auto
  qed
  have last: "lastValue p' b = lastValue p b" if "b \<in> reachable p root" for b
    using p'(4) [OF that] val [OF that, of "last (valuesIn p b)"] by (simp add: lastValue_def)
  have "closedCFG p'"
    unfolding closedCFG_def p'(3)
  proof
    fix b assume b: "b \<in> reachable p root"
    have "successorBlocks p' b = successorBlocks p b" by (simp add: successorBlocks_def last [OF b])
    moreover have "(b, c) \<in> flow p" if "c \<in> set (successorBlocks p b)" for c using that by (simp add: flow_def edges_def)
    ultimately show "set (successorBlocks p' b) \<subseteq> reachable p root"
      using b by (auto simp: reachable_def intro: rtrancl_into_rtrancl)
  qed
  moreover have "endsInTerminal p' b \<and> (\<forall>i \<in> set (valuesIn p' b). \<exists>v. valuesOf p' i = Some v \<and> isLowered v)" if b: "b \<in> reachable p root" for b
  proof -
    have "terminalOf p' b = terminalOf p b" using last [OF b] p'(4) [OF b] by (simp add: terminalOf_def)
    then show ?thesis using E [of b] T [of b] val [OF b] p'(4) [OF b] b sub by (auto simp: endsInTerminal_def)
  qed
  ultimately have "lowered p'" using p'(2,3) by (simp add: lowered_def)
  then show thesis using that p'(1,3) by blast
qed

lemma ready_state:
  assumes r: "loweringReady p"
  shows "lowerState (length (m_heap p))
    \<lparr>lm_proc = p, lm_blockInsertions = [], lm_insertionSet = [], lm_block = 0, lm_index = 0, lm_value = 0, lm_changed = False\<rparr>"
  using ready_macroInv [OF r] r by (simp add: lowerState_def loweringReady_def pending_def)

text \<open>After the pass over the blocks: the live blocks are the owned ones and the inserted ones, and nothing is left to lower.\<close>

lemma blocks_lowered:
  assumes r: "loweringReady p"
  obtains lm where "foldM processCurrentBlock (blocksOf p)
      \<lparr>lm_proc = p, lm_blockInsertions = [], lm_insertionSet = [], lm_block = 0, lm_index = 0, lm_value = 0, lm_changed = False\<rparr> = Some lm"
    "lowerState (length (m_heap p)) lm" "m_blocks (lm_proc lm) = m_blocks p"
    "liveBlocks (lm_proc lm) = set (blocksOf p) \<union> set (map snd (lm_blockInsertions lm))" "\<And>c. macroFree (lm_proc lm) c"
    "set (map snd (lm_blockInsertions lm)) \<inter> set (blocksOf p) = {}"
proof -
  let ?n = "length (m_heap p)"
  let ?lm0 = "\<lparr>lm_proc = p, lm_blockInsertions = [], lm_insertionSet = [], lm_block = 0, lm_index = 0, lm_value = 0, lm_changed = False\<rparr>"
  have own: "liveBlocks p = set (blocksOf p)" using r by (simp add: loweringReady_def)
  have bound: "c < ?n" if "c \<in> set (blocksOf p)" for c using that block_bound [of p c] own by (auto simp: liveBlocks_def)
  have "set (blocksOf p) \<subseteq> {..<?n} \<inter> liveBlocks (lm_proc ?lm0)" using own bound by auto
  from processBlocks_lower [OF ready_state [OF r] _ this] obtain lm where lm: "foldM processCurrentBlock (blocksOf p) ?lm0 = Some lm"
      "lowerState ?n lm" "m_blocks (lm_proc lm) = m_blocks p"
      "\<And>c. c < ?n \<Longrightarrow> map_option bb_index (block (lm_proc lm) c) = map_option bb_index (block p c)"
      "\<And>c. c < ?n \<Longrightarrow> c \<in> set (blocksOf p) \<or> macroFree p c \<Longrightarrow> macroFree (lm_proc lm) c" by auto
  let ?p = "lm_proc lm" and ?ins = "lm_blockInsertions lm"
  note S = lowerStateD [OF lm(2)]
  have dead: "block ?p c = None \<longleftrightarrow> block p c = None" if "c < ?n" for c using lm(4) [OF that] by (metis option.map_disc_iff)
  have live: "c \<in> liveBlocks ?p \<longleftrightarrow> c \<in> set (blocksOf p) \<union> set (map snd ?ins)" for c
  proof (cases "c < ?n")
    case True
    then show ?thesis using dead [OF True] S(4) by (simp add: own [symmetric] liveBlocks_def del: not_None_eq list.set_map)
  next
    case False
    then have "c \<notin> set (blocksOf p)" using bound by auto
    then show ?thesis using False S(4) S(7) [of c] block_bound [of ?p c] by (auto simp: liveBlocks_def simp del: list.set_map)
  qed
  have free: "macroFree ?p c" for c
  proof (cases "c \<in> liveBlocks ?p")
    case False
    then have "valuesIn ?p c = []" by (auto simp: valuesIn_def liveBlocks_def split: option.splits)
    then show ?thesis by (simp add: macroFree_def)
  next
    case True
    then show ?thesis using live [of c] lm(5) [of c] S(4) S(7) [of c] bound [of c] by (auto simp del: list.set_map)
  qed
  have "set (map snd ?ins) \<inter> set (blocksOf p) = {}" using S(4) bound by (fastforce simp del: list.set_map)
  then show thesis using that [OF lm(1-3) _ free] live by blast
qed

lemma lowerMacrosImpl_lowers:
  assumes r: "loweringReady p"
  shows "\<exists>ch p'. lowerMacrosImpl p = Some (ch, p') \<and> lowered p'"
proof -
  obtain root rest where root: "m_blocks p = Some root # rest" using r by (auto simp: loweringReady_def)
  have d: "distinct (blocksOf p)" using r by (simp add: loweringReady_def)
  obtain lm where lm: "foldM processCurrentBlock (blocksOf p)
      \<lparr>lm_proc = p, lm_blockInsertions = [], lm_insertionSet = [], lm_block = 0, lm_index = 0, lm_value = 0, lm_changed = False\<rparr> = Some lm"
      and st: "lowerState (length (m_heap p)) lm" and mb: "m_blocks (lm_proc lm) = m_blocks p"
      and live: "liveBlocks (lm_proc lm) = set (blocksOf p) \<union> set (map snd (lm_blockInsertions lm))" and free: "\<And>c. macroFree (lm_proc lm) c"
      and disj: "set (map snd (lm_blockInsertions lm)) \<inter> set (blocksOf p) = {}"
    by (rule blocks_lowered [OF r]) blast
  let ?p = "lm_proc lm" and ?ins = "lm_blockInsertions lm"
  note S = lowerStateD [OF st]
  have bs: "blocksOf ?p = blocksOf p" by (simp add: blocksOf_def mb)
  obtain p' root' rest' where p': "executeBlockInsertions (?p, ?ins) = (?ins \<noteq> [], p')" "m_blocks p' = Some root' # rest'" "distinct (blocksOf p')"
      "set (blocksOf p') = set (blocksOf ?p) \<union> set (map snd ?ins)" "liveBlocks p' = liveBlocks ?p" "\<And>c. valuesIn p' c = valuesIn ?p c"
      "valuesOf p' = valuesOf ?p" "procInv p'"
    by (rule executeBlockInsertions_owns [of ?p root rest ?ins]) (use root mb d bs disj S(4,5) macroInvD(1) [OF S(1)] in \<open>simp_all del: list.set_map\<close>)
  have owns: "set (blocksOf p') = liveBlocks ?p" using p'(4) bs live by simp
  have low: "lowered p'" by (rule loweredI [OF S(1) free p'(2) owns p'(6-8)])
  have "placedOnce p'" using macroInvD(3) [OF S(1)] by (simp add: placedOnce_def p'(6,7))
  then obtain p'' where p'': "procResetReachability p' = Some p''" "lowered p''"
    using reset_lowered [OF low p'(2,3) _ owns [folded p'(5)]] by blast
  show ?thesis
  proof (cases "lm_changed lm \<or> ?ins \<noteq> []")
    case True
    then have "lowerMacrosImpl p = Some (True, p'')" using lm p'(1) p''(1) by (auto simp: lowerMacrosImpl_def Let_def)
    then show ?thesis using p''(2) by blast
  next
    case False
    then have "lowerMacrosImpl p = Some (False, p')" using lm p'(1) by (simp add: lowerMacrosImpl_def Let_def)
    then show ?thesis using low by blast
  qed
qed

text \<open>The second run under validation finds nothing, so that its assertion holds.\<close>

lemma lowerMacros_lowers:
  assumes "loweringReady p"
  shows "\<exists>ch p'. lowerMacros validate p = Some (ch, p') \<and> lowered p'"
proof -
  obtain ch p' where p': "lowerMacrosImpl p = Some (ch, p')" "lowered p'" using lowerMacrosImpl_lowers [OF assms] by blast
  then have "lowerMacrosImpl p' = Some (False, p')" by (intro lowerMacrosImpl_idle) (auto simp: lowered_def)
  then show ?thesis using p' by (simp add: lowerMacros_def)
qed

end
