(* ===== verification/B3MacroExample.thy ===== *)
theory B3MacroExample
  imports B3Example B3LowerPhase
begin

text \<open>
  A procedure with both macros, on which the theorems about the phase \<open>lowerMacros\<close> are exercised:
  the quotient of an argument by three decides a switch with two cases and a default.
\<close>

definition macroProcedure :: Procedure where
  "macroProcedure =
     addPredecessorTo 3 0 (addPredecessorTo 2 0 (addPredecessorTo 1 0
       (fold (\<lambda>(b, v) p. snd (appendNew b v p))
          [(0, mkValue ArgumentReg Int64 0 [] (ArgumentRegPayload 0)), (0, Const64Value 0 3), (0, mkValue ChillDiv Int64 0 [0, 1] NoPayload),
           (0, mkValue Switch Void 0 [2] (SwitchPayload [(1, Normal), (2, Normal), (3, Rare)] [7, 5])),
           (1, ReturnValue 0 0), (2, ReturnValue 0 1), (3, ReturnValue 0 2)]
          (snd (addBlock 0 (snd (addBlock 0 (snd (addBlock 0 (snd (addBlock 0 emptyProcedure)))))))))))"

text \<open>An executable form of what the phase relies on.\<close>

definition checkReady :: "Procedure \<Rightarrow> bool" where
  "checkReady p \<longleftrightarrow>
     (\<forall>b \<in> set (blocksOf p). block p b \<noteq> None \<and> set (predsOf p b) \<subseteq> set (blocksOf p)) \<and>
     (\<forall>b \<in> set [0..<length (m_heap p)].
        case block p b of Some bb \<Rightarrow> b \<in> set (blocksOf p) \<and> bb_index bb < length (m_blocks p) | None \<Rightarrow> True) \<and>
     checkStore p (\<lambda>v. m_opcode v = Switch \<longrightarrow> distinct (caseValues v) \<and>
        (case childType (valuesOf p) v 0 of Some t \<Rightarrow> \<forall>c \<in> set (caseValues v). caseFits t c | None \<Rightarrow> True))"

lemma checkReady_ready:
  assumes v: "validateProcedure p" "checkStore p (constructedOK (valuesOf p))" "procInv p" and d: "distinct (blocksOf p)"
    and root: "m_blocks p = Some root # rest" and c: "checkReady p"
  shows "loweringReady p"
  unfolding loweringReady_def
proof (intro conjI allI impI)
  have heap: "case block p b of Some bb \<Rightarrow> b \<in> set (blocksOf p) \<and> bb_index bb < length (m_blocks p) | None \<Rightarrow> True" if "b < length (m_heap p)" for b
    using c that unfolding checkReady_def by (metis atLeastLessThan_iff set_upt zero_le)
  show "procInv p" "distinct (blocksOf p)" by (rule v d)+
  show "wtStore (valuesOf p)" by (rule validateProcedure_wtStore [OF v(1)]) (rule checkStoreD [OF v(2)])
  show "placement p" by (rule validateProcedure_placement [OF v(1)])
  show "\<exists>root rest. m_blocks p = Some root # rest" using root by blast
  show idx: "bb_index bb < length (m_blocks p)" if "block p b = Some bb" for b bb
    using heap [of b] block_bound [of p b] that by simp
  have "b \<in> set (blocksOf p)" if "block p b \<noteq> None" for b
    using heap [of b] block_bound [of p b] that by (cases "block p b") simp_all
  then show "liveBlocks p = set (blocksOf p)" using c by (auto simp: liveBlocks_def checkReady_def)
  show "\<forall>b \<in> set (blocksOf p). validateBlock p b \<and> set (predsOf p b) \<subseteq> set (blocksOf p)"
    using v(1) c unfolding validateProcedure_def checkReady_def by blast
  have "lowerableSwitch (valuesOf p) w" if w: "valuesOf p j = Some w" "m_opcode w = Switch" for j w
    using checkStoreD [OF conjunct2 [OF conjunct2 [OF c [unfolded checkReady_def]]] w(1)] w(2) by (auto simp: lowerableSwitch_def)
  then show "switchesLowerable (valuesOf p)" by (simp add: switchesLowerable_def)
qed

lemma macroProcedure_validates: "validateProcedure macroProcedure"
  by code_simp

lemma macroProcedure_constructed: "checkStore macroProcedure (constructedOK (valuesOf macroProcedure))"
  by code_simp

lemma macroProcedure_procInv: "procInv macroProcedure"
  unfolding procInv_iff by code_simp

lemma macroProcedure_blocks: "m_blocks macroProcedure = [Some 0, Some 1, Some 2, Some 3]"
  by code_simp

lemma macroProcedure_values:
  "valuesIn macroProcedure 0 = [0, 1, 2, 3]" "valuesOf macroProcedure 2 = Some (mkValue ChillDiv Int64 0 [0, 1] NoPayload)"
  "valuesOf macroProcedure 3 = Some (mkValue Switch Void 0 [2] (SwitchPayload [(1, Normal), (2, Normal), (3, Rare)] [7, 5]))"
  "predsOf macroProcedure 0 = []"
  by code_simp+

lemma macroProcedure_ready: "loweringReady macroProcedure"
proof (rule checkReady_ready [OF macroProcedure_validates macroProcedure_constructed macroProcedure_procInv _ macroProcedure_blocks])
  show "distinct (blocksOf macroProcedure)" by (simp add: blocksOf_def macroProcedure_blocks)
  show "checkReady macroProcedure" by code_simp
qed

text \<open>The phase at the division and at the switch of the first block.\<close>

definition macroState :: "nat \<Rightarrow> LowerMacros" where
  "macroState k = \<lparr>lm_proc = macroProcedure, lm_blockInsertions = [], lm_insertionSet = [], lm_block = 0, lm_index = k, lm_value = k, lm_changed = False\<rparr>"

lemma macroState_simps [simp]:
  "lm_proc (macroState k) = macroProcedure" "lm_block (macroState k) = 0" "lm_index (macroState k) = k" "lm_value (macroState k) = k"
  "lm_insertionSet (macroState k) = []"
  by (simp_all add: macroState_def)

lemma macroProcedure_live: "block macroProcedure 0 \<noteq> None" "map_option bb_index (block macroProcedure 0) = Some 0" "length (m_heap macroProcedure) = 4"
  by code_simp+

lemmas macroProcedure_inv = macroInvD [OF ready_macroInv [OF macroProcedure_ready]]

end
