(* ===== verification/B3ValueKey.thy ===== *)
theory B3ValueKey
  imports B3Process
begin

text \<open>
  \<open>ValueKey\<close> of b3/B3ValueKey.h, B3ValueKeyInlines.h and B3ValueKey.cpp with \<open>Value::key\<close>: an abstract
  description of the result of a value. The union \<open>u\<close> is its three words: on the little-endian target the first
  two are the 64-bit members \<open>value\<close> and \<open>doubleValue\<close>.
\<close>

unbundle bit_operations_syntax

record ValueKey =
  vk_opcode :: opcode
  vk_type :: b3type
  vk_indices :: "32 word \<times> 32 word \<times> 32 word"

definition emptyKey :: ValueKey where
  "emptyKey = \<lparr>vk_opcode = Oops, vk_type = Void, vk_indices = (0, 0, 0)\<rparr>"

text \<open>The constructors with children and with a 64-bit value.\<close>

definition indexKey :: "opcode \<Rightarrow> b3type \<Rightarrow> value_ptr list \<Rightarrow> ValueKey" where
  "indexKey opcode type cs =
     \<lparr>vk_opcode = opcode, vk_type = type, vk_indices =
        (case cs of
           [] \<Rightarrow> (0, 0, 0)
         | [a] \<Rightarrow> (of_nat a, 0, 0)
         | [a, b] \<Rightarrow> (of_nat a, of_nat b, 0)
         | a # b # c # _ \<Rightarrow> (of_nat a, of_nat b, of_nat c))\<rparr>"

definition intKey :: "opcode \<Rightarrow> b3type \<Rightarrow> int64 \<Rightarrow> ValueKey" where
  "intKey opcode type value =
     \<lparr>vk_opcode = opcode, vk_type = type, vk_indices = (ucast value, ucast (drop_bit 32 value), 0)\<rparr>"

definition keyValue :: "ValueKey \<Rightarrow> int64" where
  "keyValue k = (case vk_indices k of (lo, hi, _) \<Rightarrow> push_bit 32 (ucast hi) OR ucast lo)"

text \<open>\<open>Value::key\<close>; a missing child is a null dereference.\<close>

definition unaryKeyOps :: "opcode list" where
  "unaryKeyOps = [Identity, SExt8, SExt16, SExt32, ZExt32, Trunc, FRound, IToD, DToI32, Check]"

definition binaryKeyOps :: "opcode list" where
  "binaryKeyOps = [Add, Sub, Mul, ChillDiv, Mod, BitAnd, BitOr, BitXor, Shl, SShr, ZShr, Equal, NotEqual, LessThan,
     GreaterThan, Above, Below, AboveEqual, BelowEqual, Div]"

definition valueKey :: "Value \<Rightarrow> ValueKey option" where
  "valueKey v =
     (let opcode = m_opcode v; type = m_type v
      in if opcode = FramePointer then Some (indexKey opcode type [])
         else if opcode \<in> set unaryKeyOps then do { a \<leftarrow> at (m_children v) 0; Some (indexKey opcode type [a]) }
         else if opcode \<in> set (binaryKeyOps @ [CheckAdd, CheckSub, CheckMul])
         then do { a \<leftarrow> at (m_children v) 0; b \<leftarrow> at (m_children v) 1; Some (indexKey opcode type [a, b]) }
         else if opcode = Select
         then do { a \<leftarrow> at (m_children v) 0; b \<leftarrow> at (m_children v) 1; c \<leftarrow> at (m_children v) 2; Some (indexKey opcode type [a, b, c]) }
         else if opcode = Const32 then Some (intKey Const32 type (scast (asInt32 v)))
         else if opcode = Const64 then Some (intKey Const64 type (asInt64 v))
         else if opcode = ConstDouble then Some (intKey ConstDouble type (asDouble v))
         else if opcode = ArgumentReg
         then (case m_payload v of ArgumentRegPayload reg \<Rightarrow> Some (intKey ArgumentReg type (of_nat reg)) | _ \<Rightarrow> None)
         else Some emptyKey)"

definition canMaterialize :: "ValueKey \<Rightarrow> bool" where
  "canMaterialize k \<longleftrightarrow> k \<noteq> emptyKey \<and> vk_opcode k \<notin> {CheckAdd, CheckSub, CheckMul}"

text \<open>
  \<open>ValueKey::materialize\<close>. \<open>child(proc, index)\<close> is \<open>proc.values()[index]\<close>: the value at that index of the
  procedure, not the one that the key holds at it. \<^term>\<open>None\<close> is the null pointer that it returns, or an access out of range.
\<close>

definition keyChild :: "Procedure \<Rightarrow> nat \<Rightarrow> value_ptr option" where
  "keyChild p index = (case at (m_values p) index of Some (Some _) \<Rightarrow> Some index | _ \<Rightarrow> None)"

definition argumentRegType :: "Reg \<Rightarrow> b3type" where
  "argumentRegType reg = (if isGPR reg then pointerType else Double)"

definition materializedValue :: "ValueKey \<Rightarrow> Procedure \<Rightarrow> nat \<Rightarrow> Value option" where
  "materializedValue k p origin =
     (let opcode = vk_opcode k; type = vk_type k
      in if opcode = FramePointer then Some (mkValue opcode type origin [] NoPayload)
         else if opcode \<in> set unaryKeyOps then do { a \<leftarrow> keyChild p 0; Some (mkValue opcode type origin [a] NoPayload) }
         else if opcode \<in> set binaryKeyOps
         then do { a \<leftarrow> keyChild p 0; b \<leftarrow> keyChild p 1; Some (mkValue opcode type origin [a, b] NoPayload) }
         else if opcode = Select
         then do { a \<leftarrow> keyChild p 0; b \<leftarrow> keyChild p 1; c \<leftarrow> keyChild p 2; Some (mkValue opcode type origin [a, b, c] NoPayload) }
         else if opcode = Const32 then Some (Const32Value origin (ucast (keyValue k)))
         else if opcode = Const64 then Some (Const64Value origin (keyValue k))
         else if opcode = ConstDouble then Some (ConstDoubleValue origin (keyValue k))
         else if opcode = ArgumentReg
         then let reg = unat (ucast (keyValue k) :: 32 word)
              in Some (mkValue ArgumentReg (argumentRegType reg) origin [] (ArgumentRegPayload reg))
         else None)"

definition materializeKey :: "ValueKey \<Rightarrow> nat \<Rightarrow> Procedure \<Rightarrow> (value_ptr \<times> Procedure) option" where
  "materializeKey k origin p = map_option (\<lambda>v. add v p) (materializedValue k p origin)"

subsection \<open>Keys of constants\<close>

lemma keyValue_intKey [simp]: "keyValue (intKey opcode type x) = x"
  unfolding keyValue_def intKey_def by (simp, rule bit_word_eqI) (auto simp: bit_simps)

lemma intKey_sel [simp]: "vk_opcode (intKey opcode type x) = opcode" "vk_type (intKey opcode type x) = type"
  by (simp_all add: intKey_def)

lemma intKey_eq_iff [simp]: "intKey op type x = intKey op' type' x' \<longleftrightarrow> op = op' \<and> type = type' \<and> x = x'"
  by (metis intKey_sel keyValue_intKey)

text \<open>The key of a constant, and what it materializes to.\<close>

definition constKey :: "val \<Rightarrow> ValueKey" where
  "constKey x =
     (case x of V32 w \<Rightarrow> intKey Const32 Int32 (scast w) | V64 w \<Rightarrow> intKey Const64 Int64 w | VD d \<Rightarrow> intKey ConstDouble Double d
      | VVoid \<Rightarrow> emptyKey)"

definition constOf :: "nat \<Rightarrow> val \<Rightarrow> Value" where
  "constOf origin x =
     (case x of V32 w \<Rightarrow> Const32Value origin w | V64 w \<Rightarrow> Const64Value origin w | VD d \<Rightarrow> ConstDoubleValue origin d
      | VVoid \<Rightarrow> OopsValue origin)"

lemma valueKey_constant:
  assumes "isConstant v" "wtValue s v"
  obtains x where "constVal v = Some x" "valueKey v = Some (constKey x)" "typeOf x = m_type v" "x \<noteq> VVoid" "isConstVal v x"
proof -
  have wt: "payloadOK (m_opcode v) (m_payload v)" "validateTypes s v" using assms(2) by (simp_all add: wtValue_def)
  consider "m_opcode v = Const32" | "m_opcode v = Const64" | "m_opcode v = ConstDouble" using assms(1) by (auto simp: isConstant_def)
  then show thesis
  proof cases
    case 1
    then obtain w where w: "m_payload v = Const32Payload w" using wt(1) by (auto simp: payloadOK_def split: payload.splits)
    show thesis
      by (rule that [of "V32 w"])
        (use 1 w wt(2) in \<open>simp_all add: constVal_def asInt32_def valueKey_def constKey_def unaryKeyOps_def binaryKeyOps_def isConstVal_def validateTypes_def numChildren_def\<close>)
  next
    case 2
    then obtain w where w: "m_payload v = Const64Payload w" using wt(1) by (auto simp: payloadOK_def split: payload.splits)
    show thesis
      by (rule that [of "V64 w"])
        (use 2 w wt(2) in \<open>simp_all add: constVal_def asInt64_def valueKey_def constKey_def unaryKeyOps_def binaryKeyOps_def isConstVal_def validateTypes_def numChildren_def\<close>)
  next
    case 3
    then obtain w where w: "m_payload v = ConstDoublePayload w" using wt(1) by (auto simp: payloadOK_def split: payload.splits)
    show thesis
      by (rule that [of "VD w"])
        (use 3 w wt(2) in \<open>simp_all add: constVal_def asDouble_def valueKey_def constKey_def unaryKeyOps_def binaryKeyOps_def isConstVal_def validateTypes_def numChildren_def\<close>)
  qed
qed

lemma materialize_constKey: "x \<noteq> VVoid \<Longrightarrow> materializedValue (constKey x) p origin = Some (constOf origin x)"
  by (cases x) (simp_all add: materializedValue_def constKey_def constOf_def unaryKeyOps_def binaryKeyOps_def)

lemma constOf_const: "x \<noteq> VVoid \<Longrightarrow> isConstVal (constOf origin x) x"
  by (cases x) (simp_all add: constOf_def isConstVal_def mk_defs)

lemma constKey_inj: "x \<noteq> VVoid \<Longrightarrow> y \<noteq> VVoid \<Longrightarrow> constKey x = constKey y \<longleftrightarrow> x = y"
proof -
  have "w = w'" if "scast w = (scast w' :: int64)" for w w' :: int32
  proof -
    have "(ucast (scast u :: int64) :: int32) = u" for u :: int32 by (rule bit_word_eqI) (simp add: bit_simps)
    then show ?thesis using that by metis
  qed
  then show "x \<noteq> VVoid \<Longrightarrow> y \<noteq> VVoid \<Longrightarrow> constKey x = constKey y \<longleftrightarrow> x = y"
    by (cases x; cases y) (auto simp: constKey_def)
qed

subsection \<open>What keys promise\<close>

lemma of_nat_word_inj: "a < 2 ^ 32 \<Longrightarrow> b < 2 ^ 32 \<Longrightarrow> of_nat a = (of_nat b :: 32 word) \<longleftrightarrow> a = b"
  by (simp only: word_of_nat_eq_iff) (simp add: take_bit_nat_eq_self)

lemma indexKey_eq:
  assumes "indexKey op t cs = indexKey op' t' ds" "length cs = length ds" "length cs \<le> 3" "\<forall>c \<in> set cs \<union> set ds. c < 2 ^ 32"
  shows "op = op'" "t = t'" "cs = ds"
proof -
  show "op = op'" "t = t'" using assms(1) by (simp_all add: indexKey_def)
  consider "cs = []" "ds = []" | a a' where "cs = [a]" "ds = [a']" | a b a' b' where "cs = [a, b]" "ds = [a', b']"
    | a b c a' b' c' where "cs = [a, b, c]" "ds = [a', b', c']"
    using assms(2,3) by (auto simp: le_Suc_eq numeral_3_eq_3 length_Suc_conv)
  then show "cs = ds" using assms(1,4) by cases (auto simp: indexKey_def of_nat_word_inj)
qed

text \<open>How many operands a key holds, and that the result depends on them only.\<close>

definition keyArity :: "opcode \<Rightarrow> nat option" where
  "keyArity opcode =
     (if opcode = FramePointer then Some 0
      else if opcode \<in> set unaryKeyOps then Some 1
      else if opcode \<in> set (binaryKeyOps @ [CheckAdd, CheckSub, CheckMul]) then Some 2
      else if opcode = Select then Some 3
      else None)"

lemma at_take: "n \<le> length xs \<Longrightarrow> n = 1 \<Longrightarrow> take n xs = [xs ! 0] \<and> at xs 0 = Some (xs ! 0)"
  "n \<le> length xs \<Longrightarrow> n = 2 \<Longrightarrow> take n xs = [xs ! 0, xs ! 1] \<and> at xs 0 = Some (xs ! 0) \<and> at xs 1 = Some (xs ! 1)"
  "n \<le> length xs \<Longrightarrow> n = 3 \<Longrightarrow> take n xs = [xs ! 0, xs ! 1, xs ! 2] \<and> at xs 0 = Some (xs ! 0) \<and> at xs 1 = Some (xs ! 1) \<and> at xs 2 = Some (xs ! 2)"
  by (auto simp: at_def numeral_2_eq_2 numeral_3_eq_3 take_Suc_conv_app_nth)

lemma keyArity_children:
  assumes "wtValue s v" "keyArity (m_opcode v) = Some n"
  shows "n \<le> length (m_children v)" "n \<le> 3" "evalValue env v = evalOp (m_opcode v) NoPayload (take n (args env v))"
proof -
  have t: "validateOpcode (m_opcode v) s v" using assms(1) by (simp add: wtValue_def validateTypes_def)
  have op: "m_opcode v \<in> set ([FramePointer, Select, CheckAdd, CheckSub, CheckMul] @ unaryKeyOps @ binaryKeyOps)"
    using assms(2) by (auto simp: keyArity_def split: if_splits)
  show "n \<le> 3" using assms(2) by (auto simp: keyArity_def split: if_splits)
  show "n \<le> length (m_children v)"
    using op t assms(2) unfolding unaryKeyOps_def binaryKeyOps_def
    by (auto simp: keyArity_def unaryKeyOps_def binaryKeyOps_def validateMath_def validateCompare_def validateCheckMath_def numChildren_def)
  have len: "m_opcode v \<in> set ([Select] @ filter (\<lambda>x. x \<noteq> Check) unaryKeyOps @ binaryKeyOps) \<Longrightarrow> length (args env v) = n"
    using t assms(2) unfolding unaryKeyOps_def binaryKeyOps_def
    by (auto simp: keyArity_def unaryKeyOps_def binaryKeyOps_def validateMath_def validateCompare_def numChildren_def args_def)
  show "evalValue env v = evalOp (m_opcode v) NoPayload (take n (args env v))"
    using op len assms(2) unfolding unaryKeyOps_def binaryKeyOps_def evalValue_def
    by (auto simp: keyArity_def unaryKeyOps_def binaryKeyOps_def checked_def numeral_2_eq_2 split: list.splits val.splits)
qed

lemma valueKey_arity:
  assumes "wtValue s v" "keyArity (m_opcode v) = Some n"
  shows "valueKey v = Some (indexKey (m_opcode v) (m_type v) (take n (m_children v)))"
proof -
  note len = keyArity_children(1) [OF assms]
  consider "m_opcode v = FramePointer" "n = 0" | "m_opcode v \<in> set unaryKeyOps" "n = 1"
    | "m_opcode v \<in> set (binaryKeyOps @ [CheckAdd, CheckSub, CheckMul])" "n = 2" | "m_opcode v = Select" "n = 3"
    using assms(2) by (auto simp: keyArity_def split: if_splits)
  then show ?thesis
  proof cases
    case 1
    then show ?thesis by (simp add: valueKey_def)
  next
    case 2
    then have "m_opcode v \<noteq> FramePointer" by (auto simp: unaryKeyOps_def)
    then show ?thesis using 2 at_take(1) [OF len] by (simp add: valueKey_def)
  next
    case 3
    then have "m_opcode v \<noteq> FramePointer" "m_opcode v \<notin> set unaryKeyOps" by (auto simp: unaryKeyOps_def binaryKeyOps_def)
    then show ?thesis using 3 at_take(2) [OF len] by (simp add: valueKey_def)
  next
    case 4
    then have "m_opcode v \<notin> set unaryKeyOps" "m_opcode v \<notin> set (binaryKeyOps @ [CheckAdd, CheckSub, CheckMul])"
      by (simp_all add: unaryKeyOps_def binaryKeyOps_def)
    then show ?thesis using 4 at_take(3) [OF len] by (simp add: valueKey_def)
  qed
qed

lemma valueKey_opcode:
  assumes "wtValue s v" "valueKey v = Some k" "k \<noteq> emptyKey"
  shows "vk_opcode k = m_opcode v" "vk_type k = m_type v"
proof -
  have "vk_opcode k = m_opcode v \<and> vk_type k = m_type v"
  proof (cases "keyArity (m_opcode v)")
    case (Some n)
    then show ?thesis using valueKey_arity [OF assms(1) Some] assms(2) by (simp add: indexKey_def)
  next
    case None
    then show ?thesis using assms(2,3) by (auto simp: valueKey_def keyArity_def Let_def split: if_splits payload.splits)
  qed
  then show "vk_opcode k = m_opcode v" "vk_type k = m_type v" by simp_all
qed

text \<open>
  ``Any Value that has the same ValueKey is guaranteed to return the same value'': a key that is not empty fixes the opcode, the
  operands that matter and the constant, as long as the indices of the children fit in a word.
\<close>

lemma key_determines:
  assumes v: "wtValue s v" "valueKey v = Some k" and w: "wtValue s w" "valueKey w = Some k" and k: "k \<noteq> emptyKey"
    and small: "\<forall>c \<in> set (m_children v) \<union> set (m_children w). c < 2 ^ 32"
  shows "m_opcode w = m_opcode v" "m_type w = m_type v" "evalValue env w = evalValue env v"
proof -
  show op: "m_opcode w = m_opcode v" and ty: "m_type w = m_type v"
    using valueKey_opcode [OF v k] valueKey_opcode [OF w k] by simp_all
  show "evalValue env w = evalValue env v"
  proof (cases "keyArity (m_opcode v)")
    case (Some n)
    have n': "keyArity (m_opcode w) = Some n" using Some op by simp
    note A = keyArity_children [OF v(1) Some] and B = keyArity_children [OF w(1) n']
    have "indexKey (m_opcode v) (m_type v) (take n (m_children v)) = indexKey (m_opcode w) (m_type w) (take n (m_children w))"
      using valueKey_arity [OF v(1) Some] valueKey_arity [OF w(1) n'] v(2) w(2) by simp
    then have "take n (m_children v) = take n (m_children w)"
      by (rule indexKey_eq(3)) (use A(1,2) B(1) small in \<open>auto dest!: in_set_takeD\<close>)
    then have "take n (args env v) = take n (args env w)" by (simp add: args_def take_map)
    then show ?thesis using A(3) [of env] B(3) [of env] op by simp
  next
    case None
    consider "isConstant v" | "m_opcode v = ArgumentReg"
      using None v(2) k by (auto simp: valueKey_def keyArity_def isConstant_def Let_def split: if_splits)
    then show ?thesis
    proof cases
      case 1
      then have 2: "isConstant w" using op by (simp add: isConstant_def)
      obtain x where x: "valueKey v = Some (constKey x)" "x \<noteq> VVoid" "isConstVal v x" by (rule valueKey_constant [OF 1 v(1)])
      obtain y where y: "valueKey w = Some (constKey y)" "y \<noteq> VVoid" "isConstVal w y" by (rule valueKey_constant [OF 2 w(1)])
      have "x = y" using constKey_inj [OF x(2) y(2)] x(1) y(1) v(2) w(2) by simp
      then show ?thesis using x(3) y(3) by (auto simp: isConstVal_def evalValue_def split: val.splits)
    qed (simp add: evalValue_def op)
  qed
qed

text \<open>A key without children materializes to a value with that key.\<close>

lemma valueKey_constOf: "x \<noteq> VVoid \<Longrightarrow> valueKey (constOf origin x) = Some (constKey x)"
  by (cases x) (simp_all add: constOf_def constKey_def valueKey_def mk_defs unaryKeyOps_def binaryKeyOps_def asInt32_def asInt64_def asDouble_def)

lemma canMaterialize_constKey: "x \<noteq> VVoid \<Longrightarrow> canMaterialize (constKey x)"
  by (cases x) (simp_all add: canMaterialize_def constKey_def emptyKey_def intKey_def)

lemma materialize_leaf:
  assumes "wtValue s v" "isConstant v \<or> m_opcode v = FramePointer"
  shows "\<exists>k w. valueKey v = Some k \<and> canMaterialize k \<and> materializedValue k p origin = Some w \<and> valueKey w = Some k \<and>
    m_type w = m_type v \<and> evalValue env w = evalValue env v"
  using assms(2)
proof
  assume "isConstant v"
  then obtain x where x: "valueKey v = Some (constKey x)" "x \<noteq> VVoid" "isConstVal v x" by (rule valueKey_constant [OF _ assms(1)])
  note w = constOf_const [OF x(2), of origin]
  have "m_type (constOf origin x) = m_type v" using isConstVal_type [OF x(3)] isConstVal_type [OF w] by simp
  then show ?thesis
    using x materialize_constKey [OF x(2), of p origin] valueKey_constOf [OF x(2), of origin] canMaterialize_constKey [OF x(2)]
      isConstVal_eval [OF x(3), of env] isConstVal_eval [OF w, of env] by simp
next
  assume "m_opcode v = FramePointer"
  then show ?thesis
    by (simp add: valueKey_def canMaterialize_def emptyKey_def indexKey_def materializedValue_def mkValue_def evalValue_def Let_def)
qed

text \<open>The materialization of a key with children does not look at them.\<close>

lemma materialize_ignores_children:
  assumes "opcode \<in> set binaryKeyOps"
  shows "materializedValue (indexKey opcode type [a, b]) p origin = materializedValue (indexKey opcode type [c, d]) p origin"
proof -
  have "opcode \<noteq> FramePointer" "opcode \<notin> set unaryKeyOps" using assms by (auto simp: binaryKeyOps_def unaryKeyOps_def)
  then show ?thesis using assms by (simp add: materializedValue_def indexKey_def)
qed

end
