(* ===== verification/B3MoveConstants.thy ===== *)
theory B3MoveConstants
  imports B3ValueKey B3ControlFlow
begin

text \<open>
  The phase \<open>moveConstants\<close> of b3/B3MoveConstants.cpp: every block gets its own materializations of the constants that its values
  use, doubles other than zero as loads from a data section, and the old constants become no-ops.
\<close>

subsection \<open>The phase\<close>

text \<open>
  The hash maps are association lists in the order of insertion. \<open>mc_data\<close> is the contents of the data section.
\<close>

record MoveConstants =
  mc_proc :: Procedure
  mc_toRemove :: "value_ptr list"
  mc_constTable :: "(ValueKey \<times> nat) list"
  mc_dataSection :: int64
  mc_data :: "int64 list"
  mc_constants :: "(ValueKey \<times> value_ptr) list"
  mc_insertionSet :: "Insertion list"

text \<open>\<open>HashMap::add\<close> keeps an entry that is there.\<close>

definition hashAdd :: "'k \<Rightarrow> 'v \<Rightarrow> ('k \<times> 'v) list \<Rightarrow> ('k \<times> 'v) list" where
  "hashAdd k x m = (if map_of m k = None then m @ [(k, x)] else m)"

text \<open>\<open>HashMap::get\<close> on integers gives zero for a missing key.\<close>

definition hashGet :: "('k \<times> nat) list \<Rightarrow> 'k \<Rightarrow> nat" where
  "hashGet m k = (case map_of m k of Some x \<Rightarrow> x | None \<Rightarrow> 0)"

definition doubleZero :: ValueKey where
  "doubleZero = intKey ConstDouble Double posZero"

definition goesInTable :: "ValueKey \<Rightarrow> bool" where
  "goesInTable key \<longleftrightarrow> vk_opcode key = ConstDouble \<and> key \<noteq> doubleZero"

definition needsMotion :: "Value \<Rightarrow> bool" where
  "needsMotion v \<longleftrightarrow> isConstant v"

definition mcInsert :: "nat \<Rightarrow> Value \<Rightarrow> MoveConstants \<Rightarrow> value_ptr \<times> MoveConstants" where
  "mcInsert valueIndex v mc =
     (let (i, p) = add v (mc_proc mc)
      in (i, mc\<lparr>mc_proc := p, mc_insertionSet := mc_insertionSet mc @ [(valueIndex, i)]\<rparr>))"

text \<open>The key of the address of the data section.\<close>

definition tableKey :: "int64 \<Rightarrow> ValueKey" where
  "tableKey dataSection = intKey constPtrOpcode pointerType dataSection"

lemma tableKey_const [simp]: "tableKey d = constKey (V64 d)"
  by (simp add: tableKey_def constKey_def constPtrOpcode_def is64Bit_def)

lemma goesInTable_constKey [simp]: "goesInTable (constKey x) \<longleftrightarrow> (\<exists>d. x = VD d \<and> d \<noteq> posZero)"
  by (cases x) (auto simp: goesInTable_def constKey_def doubleZero_def emptyKey_def)

function materialize :: "nat \<Rightarrow> ValueKey \<Rightarrow> nat \<Rightarrow> MoveConstants \<Rightarrow> (value_ptr \<times> MoveConstants) option" where
  "materialize valueIndex key origin mc =
     (case map_of (mc_constants mc) key of
        Some result \<Rightarrow> Some (result, mc)
      | None \<Rightarrow> do {
          (result, mc) \<leftarrow>
            (if goesInTable key
             then do {
               (tableBase, mc) \<leftarrow> materialize valueIndex (tableKey (mc_dataSection mc)) origin mc;
               Some (mcInsert valueIndex (mkValue Load (vk_type key) origin [tableBase]
                 (MemoryPayload (of_nat (8 * hashGet (mc_constTable mc) key)) topRange)) mc) }
             else map_option (\<lambda>v. mcInsert valueIndex v mc) (materializedValue key (mc_proc mc) origin));
          Some (result, mc\<lparr>mc_constants := hashAdd key result (mc_constants mc)\<rparr>) })"
  by pat_completeness auto
termination
  by (relation "measure (\<lambda>(_, key, _, _). if goesInTable key then 1 else 0)") auto

declare materialize.simps [simp del]

text \<open>One child of a value.\<close>

definition moveChild :: "nat \<Rightarrow> value_ptr \<Rightarrow> nat \<Rightarrow> MoveConstants \<Rightarrow> MoveConstants option" where
  "moveChild valueIndex i childIndex mc = do {
     v \<leftarrow> valuesOf (mc_proc mc) i;
     c \<leftarrow> at (m_children v) childIndex;
     cv \<leftarrow> valuesOf (mc_proc mc) c;
     if \<not> needsMotion cv then Some mc
     else do {
       key \<leftarrow> valueKey cv;
       (child, mc) \<leftarrow>
         (if acceptsStackmap (m_opcode v) \<and> goesInTable key \<and> constrainedRep v childIndex = AnyRep
          then map_option (\<lambda>w. mcInsert valueIndex w mc) (materializedValue key (mc_proc mc) (m_origin v))
          else materialize valueIndex key (m_origin v) mc);
       Some (mc\<lparr>mc_proc := setValue i (v\<lparr>m_children := (m_children v)[childIndex := child]\<rparr>) (mc_proc mc)\<rparr>) } }"

definition moveValue :: "value_ptr list \<Rightarrow> nat \<Rightarrow> MoveConstants \<Rightarrow> MoveConstants option" where
  "moveValue vs valueIndex mc = do {
     i \<leftarrow> at vs valueIndex;
     v \<leftarrow> valuesOf (mc_proc mc) i;
     foldM (moveChild valueIndex i) [0..<length (m_children v)] mc }"

definition moveBlock :: "block_ptr \<Rightarrow> MoveConstants \<Rightarrow> MoveConstants option" where
  "moveBlock b mc = (let vs = valuesIn (mc_proc mc) b in do {
     mc \<leftarrow> foldM (moveValue vs) [0..<length vs] (mc\<lparr>mc_constants := []\<rparr>);
     Some (mc\<lparr>mc_proc := executeInsertionSet (mc_insertionSet mc) b (mc_proc mc), mc_insertionSet := []\<rparr>) })"

text \<open>The first loop: the constants, and the ones of them that go in the table.\<close>

definition collectConstant :: "value_ptr \<Rightarrow> MoveConstants \<Rightarrow> MoveConstants option" where
  "collectConstant i mc = do {
     v \<leftarrow> valuesOf (mc_proc mc) i;
     if \<not> needsMotion v then Some mc
     else do {
       key \<leftarrow> valueKey v;
       Some (mc\<lparr>mc_toRemove := mc_toRemove mc @ [i],
                mc_constTable := (if goesInTable key then hashAdd key (length (mc_constTable mc)) (mc_constTable mc) else mc_constTable mc)\<rparr>) } }"

text \<open>
  \<open>Procedure::addDataSection\<close>: no section for zero bytes; \<open>allocate\<close> is the address the allocator gives for a number of bytes.
\<close>

definition addDataSection :: "(nat \<Rightarrow> int64) \<Rightarrow> nat \<Rightarrow> int64" where
  "addDataSection allocate bytes = (if bytes = 0 then 0 else allocate bytes)"

definition fillSection :: "(ValueKey \<times> nat) list \<Rightarrow> int64 list" where
  "fillSection table = fold (\<lambda>(key, k) d. d[k := keyValue key]) table (replicate (length table) 0)"

definition removeConstant :: "value_ptr \<Rightarrow> MoveConstants \<Rightarrow> MoveConstants option" where
  "removeConstant i mc = map_option (\<lambda>v. mc\<lparr>mc_proc := setValue i (replaceWithNop v) (mc_proc mc)\<rparr>) (valuesOf (mc_proc mc) i)"

definition moveConstants :: "(nat \<Rightarrow> int64) \<Rightarrow> Procedure \<Rightarrow> MoveConstants option" where
  "moveConstants allocate p = do {
     mc \<leftarrow> foldM collectConstant (liveValues p)
       \<lparr>mc_proc = p, mc_toRemove = [], mc_constTable = [], mc_dataSection = 0, mc_data = [], mc_constants = [], mc_insertionSet = []\<rparr>;
     (let mc = mc\<lparr>mc_dataSection := addDataSection allocate (length (mc_constTable mc) * 8), mc_data := fillSection (mc_constTable mc)\<rparr>
      in do {
        mc \<leftarrow> foldM moveBlock (blocksOf p) mc;
        foldM removeConstant (mc_toRemove mc) mc }) }"

subsection \<open>Materializations\<close>

text \<open>A value of the store that yields the constant \<open>x\<close>: the constant itself, or a load from its place in the data section.\<close>

definition tableLoad :: "nat \<Rightarrow> value_ptr \<Rightarrow> nat \<Rightarrow> Value" where
  "tableLoad origin tableBase k = mkValue Load Double origin [tableBase] (MemoryPayload (of_nat (8 * k)) topRange)"

definition standsFor :: "store \<Rightarrow> int64 \<Rightarrow> int64 list \<Rightarrow> store \<Rightarrow> value_ptr \<Rightarrow> val \<Rightarrow> bool" where
  "standsFor s0 D data s c x \<longleftrightarrow>
     s0 c = None \<and>
     (\<exists>w. s c = Some w \<and>
        (isConstVal w x \<or>
         (\<exists>origin t tv k. w = tableLoad origin t k \<and> s0 t = None \<and> s t = Some tv \<and> isConstVal tv (V64 D) \<and> k < length data \<and> x = VD (data ! k))))"

lemma standsForE:
  assumes "standsFor s0 D data s c x"
  obtains (const) w where "s0 c = None" "s c = Some w" "isConstVal w x"
    | (load) origin t tv k where "s0 c = None" "s c = Some (tableLoad origin t k)" "s0 t = None" "s t = Some tv" "isConstVal tv (V64 D)" "k < length data"
        "x = VD (data ! k)"
  using assms unfolding standsFor_def by blast

lemma standsFor_const: "s0 c = None \<Longrightarrow> s c = Some w \<Longrightarrow> isConstVal w x \<Longrightarrow> standsFor s0 D data s c x"
  by (simp add: standsFor_def)

lemma standsFor_load:
  "s0 c = None \<Longrightarrow> s c = Some (tableLoad origin t k) \<Longrightarrow> s0 t = None \<Longrightarrow> s t = Some tv \<Longrightarrow> isConstVal tv (V64 D) \<Longrightarrow> k < length data \<Longrightarrow>
     standsFor s0 D data s c (VD (data ! k))"
  by (auto simp: standsFor_def)

lemma standsFor_mono:
  assumes "standsFor s0 D data s c x" "\<And>j w. s0 j = None \<Longrightarrow> s j = Some w \<Longrightarrow> s' j = Some w"
  shows "standsFor s0 D data s' c x"
  using assms(1)
proof (cases rule: standsForE)
  case (const w)
  then show ?thesis using assms(2) standsFor_const by blast
next
  case (load origin t tv k)
  show ?thesis unfolding load(7) by (rule standsFor_load [OF load(1) assms(2) [OF load(1,2)] load(3) assms(2) [OF load(3,4)] load(5,6)])
qed

lemma standsFor_type: "standsFor s0 D data s c x \<Longrightarrow> \<exists>w. s c = Some w \<and> m_type w = typeOf x"
  by (auto simp: standsFor_def isConstVal_def tableLoad_def mkValue_def)

text \<open>What the loads of doubles from the data section yield: its contents.\<close>

definition tableLoads :: "int64 \<Rightarrow> int64 list \<Rightarrow> store \<Rightarrow> env \<Rightarrow> bool" where
  "tableLoads D data s env \<longleftrightarrow>
     (\<forall>i w k. s i = Some w \<longrightarrow> m_opcode w = Load \<longrightarrow> m_type w = Double \<longrightarrow> k < length data \<longrightarrow>
        address (args env w) (memOffset w) = V64 (D + of_nat (8 * k)) \<longrightarrow> env i = VD (data ! k))"

lemma scast_offset: "n < 2 ^ 31 \<Longrightarrow> (scast (of_nat n :: int32) :: int64) = of_nat n"
proof -
  assume n: "n < 2 ^ 31"
  have "sint (of_nat n :: int32) = int n"
    using n by (simp add: signed_of_nat signed_take_bit_int_eq_self)
  then show ?thesis by (metis of_int_of_nat_eq scast_eq)
qed

lemma standsFor_env:
  assumes st: "standsFor s0 D data s c x" and sol: "solution s env" and tab: "tableLoads D data s env" and small: "8 * length data \<le> 2 ^ 31"
  shows "env c = x"
  using st
proof (cases rule: standsForE)
  case (const w)
  then show ?thesis using isConstVal_env solutionD [OF sol const(2)] by blast
next
  case (load origin t tv k)
  have "env t = V64 D" using isConstVal_env [OF load(5) solutionD [OF sol load(4)]] .
  then have "address (args env (tableLoad origin t k)) (memOffset (tableLoad origin t k)) = V64 (D + of_nat (8 * k))"
    using load(6) small scast_offset [of "8 * k"] by (simp add: address_def args_def tableLoad_def mkValue_def memOffset_def)
  then show ?thesis using tab load(2,6,7) unfolding tableLoads_def by (auto simp: tableLoad_def mkValue_def)
qed

subsection \<open>The invariant\<close>

text \<open>
  The first \<open>n\<close> children of a value have been moved: a constant has been replaced by a value from the set \<open>A\<close> that stands for it,
  any other child is as it was.
\<close>

definition movedChild :: "store \<Rightarrow> int64 \<Rightarrow> int64 list \<Rightarrow> store \<Rightarrow> value_ptr set \<Rightarrow> value_ptr \<Rightarrow> value_ptr \<Rightarrow> bool" where
  "movedChild s0 D data s A c c' \<longleftrightarrow>
     (case s0 c of
        None \<Rightarrow> False
      | Some cv \<Rightarrow> if isConstant cv then c' \<in> A \<and> (\<exists>x. isConstVal cv x \<and> standsFor s0 D data s c' x) else c' = c)"

definition movedChildren :: "store \<Rightarrow> int64 \<Rightarrow> int64 list \<Rightarrow> store \<Rightarrow> nat \<times> value_ptr set \<Rightarrow> value_ptr list \<Rightarrow> value_ptr list \<Rightarrow> bool" where
  "movedChildren s0 D data s = (\<lambda>(n, A) cs ds.
     list_all2 (movedChild s0 D data s A) (take n cs) (take n ds) \<and> drop n ds = drop n cs \<and> length ds = length cs)"

definition inTable :: "store \<Rightarrow> MoveConstants \<Rightarrow> bool" where
  "inTable s0 mc \<longleftrightarrow>
     (\<forall>i v d. s0 i = Some v \<longrightarrow> isConstVal v (VD d) \<longrightarrow> d \<noteq> posZero \<longrightarrow>
        hashGet (mc_constTable mc) (constKey (VD d)) < length (mc_data mc) \<and>
        mc_data mc ! hashGet (mc_constTable mc) (constKey (VD d)) = d)"

definition cached :: "MoveConstants \<Rightarrow> value_ptr set" where
  "cached mc = snd ` set (mc_constants mc)"

definition mcInv :: "store \<Rightarrow> (value_ptr \<Rightarrow> nat \<times> value_ptr set) \<Rightarrow> MoveConstants \<Rightarrow> bool" where
  "mcInv s0 prog mc \<longleftrightarrow>
     procInv (mc_proc mc) \<and> wtStore (valuesOf (mc_proc mc)) \<and> inTable s0 mc \<and>
     (\<forall>i v. s0 i = Some v \<longrightarrow> (\<exists>ds. valuesOf (mc_proc mc) i = Some (v\<lparr>m_children := ds\<rparr>) \<and>
        movedChildren s0 (mc_dataSection mc) (mc_data mc) (valuesOf (mc_proc mc)) (prog i) (m_children v) ds)) \<and>
     (\<forall>i w. s0 i = None \<longrightarrow> valuesOf (mc_proc mc) i = Some w \<longrightarrow> m_opcode w \<noteq> Upsilon \<and> set (m_children w) \<inter> dom s0 = {}) \<and>
     (\<forall>key c. (key, c) \<in> set (mc_constants mc) \<longrightarrow>
        (\<exists>x. key = constKey x \<and> x \<noteq> VVoid \<and> standsFor s0 (mc_dataSection mc) (mc_data mc) (valuesOf (mc_proc mc)) c x))"

lemma mcInvD:
  assumes "mcInv s0 prog mc"
  shows "procInv (mc_proc mc)" "wtStore (valuesOf (mc_proc mc))" "inTable s0 mc"
    "s0 i = Some v \<Longrightarrow> \<exists>ds. valuesOf (mc_proc mc) i = Some (v\<lparr>m_children := ds\<rparr>) \<and>
        movedChildren s0 (mc_dataSection mc) (mc_data mc) (valuesOf (mc_proc mc)) (prog i) (m_children v) ds"
    "s0 i = None \<Longrightarrow> valuesOf (mc_proc mc) i = Some w \<Longrightarrow> m_opcode w \<noteq> Upsilon \<and> set (m_children w) \<inter> dom s0 = {}"
    "(key, c) \<in> set (mc_constants mc) \<Longrightarrow>
        \<exists>x. key = constKey x \<and> x \<noteq> VVoid \<and> standsFor s0 (mc_dataSection mc) (mc_data mc) (valuesOf (mc_proc mc)) c x"
  using assms by (simp_all add: mcInv_def)

lemma movedChild_mono:
  assumes "movedChild s0 D data s A c c'" "A \<subseteq> A'" "\<And>j w. s0 j = None \<Longrightarrow> s j = Some w \<Longrightarrow> s' j = Some w"
  shows "movedChild s0 D data s' A' c c'"
  using assms standsFor_mono [where s = s and s' = s'] unfolding movedChild_def by (auto split: option.splits if_splits)

lemma movedChildren_mono:
  assumes "movedChildren s0 D data s (n, A) cs ds" "A \<subseteq> A'" "\<And>j w. s0 j = None \<Longrightarrow> s j = Some w \<Longrightarrow> s' j = Some w"
  shows "movedChildren s0 D data s' (n, A') cs ds"
proof -
  have "list_all2 (movedChild s0 D data s' A') (take n cs) (take n ds)"
    by (rule list_all2_mono [of "movedChild s0 D data s A"]) (use assms movedChild_mono [OF _ assms(2,3)] in \<open>simp_all add: movedChildren_def\<close>)
  then show ?thesis using assms(1) by (simp add: movedChildren_def)
qed

text \<open>What an iteration leaves alone, and the values it inserts at the current index.\<close>

definition mcGrows :: "nat \<Rightarrow> MoveConstants \<Rightarrow> MoveConstants \<Rightarrow> value_ptr list \<Rightarrow> bool" where
  "mcGrows k mc mc' new \<longleftrightarrow>
     mc_insertionSet mc' = mc_insertionSet mc @ map (Pair k) new \<and> mc_constTable mc' = mc_constTable mc \<and> mc_toRemove mc' = mc_toRemove mc \<and>
     mc_dataSection mc' = mc_dataSection mc \<and> mc_data mc' = mc_data mc \<and> m_heap (mc_proc mc') = m_heap (mc_proc mc) \<and>
     m_blocks (mc_proc mc') = m_blocks (mc_proc mc) \<and> cached mc' \<subseteq> cached mc \<union> set new \<and>
     distinct new \<and> dom (valuesOf (mc_proc mc')) = dom (valuesOf (mc_proc mc)) \<union> set new \<and> set new \<inter> dom (valuesOf (mc_proc mc)) = {}"

lemma mcGrows_refl [simp]: "mcGrows k mc mc []"
  by (simp add: mcGrows_def)

lemma mcGrows_trans: "mcGrows k a b xs \<Longrightarrow> mcGrows k b c ys \<Longrightarrow> mcGrows k a c (xs @ ys)"
  unfolding mcGrows_def by auto

lemma dom_kept: "mcInv s0 prog mc \<Longrightarrow> s0 i = Some v \<Longrightarrow> valuesOf (mc_proc mc) i \<noteq> None"
  using mcInvD(4) by fastforce

text \<open>Inserting a new value.\<close>

lemma mcInsert_keeps:
  assumes inv: "mcInv s0 prog mc" and w: "wtValue (valuesOf (mc_proc mc)) w" "m_opcode w \<noteq> Upsilon" "set (m_children w) \<inter> dom s0 = {}"
    and r: "mcInsert k w mc = (c, mc')"
  shows "mcInv s0 prog mc'" "mcGrows k mc mc' [c]" "s0 c = None" "valuesOf (mc_proc mc') = (valuesOf (mc_proc mc))(c \<mapsto> w)" "mc_constants mc' = mc_constants mc"
proof -
  let ?s = "valuesOf (mc_proc mc)"
  obtain p where p: "add w (mc_proc mc) = (c, p)" "mc' = mc\<lparr>mc_proc := p, mc_insertionSet := mc_insertionSet mc @ [(k, c)]\<rparr>"
    using r by (auto simp: mcInsert_def split: prod.splits)
  note I = mcInvD [OF inv] and A = add_fresh [OF mcInvD(1) [OF inv] p(1)]
  show c0: "s0 c = None" using A(1) dom_kept [OF inv, of c] by (cases "s0 c") auto
  show s: "valuesOf (mc_proc mc') = ?s(c \<mapsto> w)" using A(2) p(2) by simp
  have keep: "(?s(c \<mapsto> w)) j = Some u" if "?s j = Some u" for j u using that A(1) by auto
  have "m_heap p = m_heap (mc_proc mc)" "m_blocks p = m_blocks (mc_proc mc)" using p(1) by (auto simp: add_def addValueIndex_def setValue_def split: if_splits)
  then show "mcGrows k mc mc' [c]" using A(1,2) by (auto simp: mcGrows_def p(2) cached_def)
  show "mc_constants mc' = mc_constants mc" by (simp add: p(2))
  have moved: "movedChildren s0 D data (?s(c \<mapsto> w)) m cs ds" if "movedChildren s0 D data ?s m cs ds" for D data m cs ds
    using that movedChildren_mono [of s0 D data ?s "fst m" "snd m" cs ds "snd m" "?s(c \<mapsto> w)"] keep by simp
  show "mcInv s0 prog mc'"
    unfolding mcInv_def
  proof (intro conjI allI impI)
    show "procInv (mc_proc mc')" using A(3) p(2) by simp
    show "wtStore (valuesOf (mc_proc mc'))" unfolding s by (rule wtStore_add [OF I(2) A(1) w(1)])
    show "inTable s0 mc'" using I(3) by (simp add: inTable_def p(2))
    show "\<exists>ds. valuesOf (mc_proc mc') i = Some (v\<lparr>m_children := ds\<rparr>) \<and>
        movedChildren s0 (mc_dataSection mc') (mc_data mc') (valuesOf (mc_proc mc')) (prog i) (m_children v) ds" if i: "s0 i = Some v" for i v
    proof -
      obtain ds where ds: "?s i = Some (v\<lparr>m_children := ds\<rparr>)" "movedChildren s0 (mc_dataSection mc) (mc_data mc) ?s (prog i) (m_children v) ds"
        using I(4) [OF i] by blast
      show ?thesis unfolding s by (rule exI [of _ ds]) (use keep [OF ds(1)] moved [OF ds(2)] p(2) in simp)
    qed
    show "m_opcode u \<noteq> Upsilon" "set (m_children u) \<inter> dom s0 = {}" if "s0 i = None" "valuesOf (mc_proc mc') i = Some u" for i u
      using that I(5) [of i u] w(2,3) unfolding s by (auto split: if_splits)
    show "\<exists>x. key = constKey x \<and> x \<noteq> VVoid \<and> standsFor s0 (mc_dataSection mc') (mc_data mc') (valuesOf (mc_proc mc')) c' x" if kc: "(key, c') \<in> set (mc_constants mc')" for key c'
    proof -
      obtain x where x: "key = constKey x" "x \<noteq> VVoid" "standsFor s0 (mc_dataSection mc) (mc_data mc) ?s c' x" using I(6) [of key c'] kc p(2) by auto
      then have "standsFor s0 (mc_dataSection mc) (mc_data mc) (?s(c \<mapsto> w)) c' x" using keep by (intro standsFor_mono [OF x(3)]) auto
      then show ?thesis using x p(2) s by auto
    qed
  qed
qed

text \<open>Materializing a constant.\<close>

lemma cache_keeps:
  assumes inv: "mcInv s0 prog mc" and x: "x \<noteq> VVoid" "standsFor s0 (mc_dataSection mc) (mc_data mc) (valuesOf (mc_proc mc)) c x"
  shows "mcInv s0 prog (mc\<lparr>mc_constants := hashAdd (constKey x) c (mc_constants mc)\<rparr>)"
    "mcGrows k mc0 mc new \<Longrightarrow> c \<in> cached mc0 \<union> set new \<Longrightarrow> mcGrows k mc0 (mc\<lparr>mc_constants := hashAdd (constKey x) c (mc_constants mc)\<rparr>) new"
proof -
  let ?mc = "mc\<lparr>mc_constants := hashAdd (constKey x) c (mc_constants mc)\<rparr>"
  have sub: "set (mc_constants ?mc) \<subseteq> insert (constKey x, c) (set (mc_constants mc))" by (auto simp: hashAdd_def)
  have "\<exists>y. key = constKey y \<and> y \<noteq> VVoid \<and> standsFor s0 (mc_dataSection mc) (mc_data mc) (valuesOf (mc_proc mc)) d y" if "(key, d) \<in> set (mc_constants ?mc)" for key d
    using subsetD [OF sub that] mcInvD(6) [OF inv, of key d] x by auto
  then show "mcInv s0 prog ?mc" using inv by (simp add: mcInv_def inTable_def)
  have "cached ?mc \<subseteq> insert c (cached mc)" using sub by (auto simp: cached_def)
  then show "mcGrows k mc0 mc new \<Longrightarrow> c \<in> cached mc0 \<union> set new \<Longrightarrow> mcGrows k mc0 ?mc new" by (auto simp: mcGrows_def)
qed

lemma constOf_wt: "x \<noteq> VVoid \<Longrightarrow> wtValue s (constOf origin x)" "x \<noteq> VVoid \<Longrightarrow> m_opcode (constOf origin x) \<noteq> Upsilon" "x \<noteq> VVoid \<Longrightarrow> m_children (constOf origin x) = []"
  using isConstVal_wt [OF constOf_const] by (simp_all, (cases x; simp add: constOf_def mk_defs)+)

lemma tableLoad_wt: "s t = Some tv \<Longrightarrow> m_type tv = Int64 \<Longrightarrow> wtValue s (tableLoad origin t k)"
  by (simp add: tableLoad_def mkValue_def wtValue_def payloadOK_def acceptsMemory_def validateChildren_def validateTypes_def numChildren_def childType_def
      child_def at_def isCheckMath_def)

definition materializes :: "store \<Rightarrow> (value_ptr \<Rightarrow> nat \<times> value_ptr set) \<Rightarrow> nat \<Rightarrow> val \<Rightarrow> MoveConstants \<Rightarrow> value_ptr \<Rightarrow> MoveConstants \<Rightarrow> bool" where
  "materializes s0 prog k x mc c mc' \<longleftrightarrow>
     mcInv s0 prog mc' \<and> standsFor s0 (mc_dataSection mc') (mc_data mc') (valuesOf (mc_proc mc')) c x \<and>
     (\<exists>new. mcGrows k mc mc' new \<and> c \<in> cached mc \<union> set new) \<and>
     (\<forall>j w. valuesOf (mc_proc mc) j = Some w \<longrightarrow> valuesOf (mc_proc mc') j = Some w)"

lemma insert_const:
  assumes inv: "mcInv s0 prog mc" and x: "x \<noteq> VVoid" and r: "mcInsert k (constOf origin x) mc = (c, mc')"
  shows "materializes s0 prog k x mc c mc'"
proof -
  have cs: "set (m_children (constOf origin x)) \<inter> dom s0 = {}" using constOf_wt(3) [OF x] by simp
  note K = mcInsert_keeps [OF inv constOf_wt(1,2) [OF x] cs r]
  have "valuesOf (mc_proc mc) c = None" using K(2) by (auto simp: mcGrows_def)
  moreover have "standsFor s0 (mc_dataSection mc') (mc_data mc') (valuesOf (mc_proc mc')) c x"
    by (rule standsFor_const [where w = "constOf origin x"]) (use K(3,4) constOf_const [OF x] in simp_all)
  ultimately show ?thesis using K(1,2,4) unfolding materializes_def by (auto intro!: exI [of _ "[c]"])
qed

lemma materialize_cached:
  assumes inv: "mcInv s0 prog mc" and x: "x \<noteq> VVoid" and c: "map_of (mc_constants mc) (constKey x) = Some c"
  shows "materialize k (constKey x) origin mc = Some (c, mc)" "materializes s0 prog k x mc c mc"
proof -
  show "materialize k (constKey x) origin mc = Some (c, mc)" using c by (simp add: materialize.simps)
  have m: "(constKey x, c) \<in> set (mc_constants mc)" using c by (rule map_of_SomeD)
  then obtain y where y: "constKey x = constKey y" "y \<noteq> VVoid" "standsFor s0 (mc_dataSection mc) (mc_data mc) (valuesOf (mc_proc mc)) c y"
    using mcInvD(6) [OF inv] by blast
  have "x = y" using constKey_inj [OF x y(2)] y(1) by simp
  moreover have "c \<in> cached mc" using imageI [OF m, of snd] by (simp add: cached_def)
  ultimately show "materializes s0 prog k x mc c mc" using inv y(3) mcGrows_refl [of k mc] unfolding materializes_def by blast
qed

lemma cache_materializes:
  assumes m: "materializes s0 prog k x mc c mc'" and x: "x \<noteq> VVoid"
  shows "materializes s0 prog k x mc c (mc'\<lparr>mc_constants := hashAdd (constKey x) c (mc_constants mc')\<rparr>)"
proof -
  obtain new where g: "mcGrows k mc mc' new" "c \<in> cached mc \<union> set new" using m unfolding materializes_def by blast
  have i: "mcInv s0 prog mc'" "standsFor s0 (mc_dataSection mc') (mc_data mc') (valuesOf (mc_proc mc')) c x"
      "\<forall>j w. valuesOf (mc_proc mc) j = Some w \<longrightarrow> valuesOf (mc_proc mc') j = Some w"
    using m unfolding materializes_def by blast+
  show ?thesis unfolding materializes_def
    using cache_keeps(1) [OF i(1) x i(2)] cache_keeps(2) [OF i(1) x i(2) g] g(2) i(2,3) by auto
qed

lemma materialize_plain:
  assumes inv: "mcInv s0 prog mc" and x: "x \<noteq> VVoid" "\<not> goesInTable (constKey x)"
  obtains c mc' where "materialize k (constKey x) origin mc = Some (c, mc')" "materializes s0 prog k x mc c mc'"
proof (cases "map_of (mc_constants mc) (constKey x)")
  case (Some c)
  then show thesis using materialize_cached [OF inv x(1) Some] that by blast
next
  case None
  obtain c mc1 where r: "mcInsert k (constOf origin x) mc = (c, mc1)" by fastforce
  have "materialize k (constKey x) origin mc = Some (c, mc1\<lparr>mc_constants := hashAdd (constKey x) c (mc_constants mc1)\<rparr>)"
    using None x(2) r materialize_constKey [OF x(1), of "mc_proc mc" origin] by (subst materialize.simps) (simp del: goesInTable_constKey)
  then show thesis using that cache_materializes [OF insert_const [OF inv x(1) r] x(1)] by blast
qed

lemma materialize_table:
  assumes inv: "mcInv s0 prog mc" and d: "s0 i = Some v" "isConstVal v (VD d)" "d \<noteq> posZero"
  obtains c mc' where "materialize k (constKey (VD d)) origin mc = Some (c, mc')" "materializes s0 prog k (VD d) mc c mc'"
proof (cases "map_of (mc_constants mc) (constKey (VD d))")
  case (Some c)
  then show thesis using materialize_cached [OF inv _ Some] that by simp
next
  case None
  obtain t mc1 where t: "materialize k (constKey (V64 (mc_dataSection mc))) origin mc = Some (t, mc1)"
      "materializes s0 prog k (V64 (mc_dataSection mc)) mc t mc1"
    by (rule materialize_plain [OF inv, of "V64 (mc_dataSection mc)" k origin]) simp_all
  obtain new1 where g1: "mcGrows k mc mc1 new1" and inv1: "mcInv s0 prog mc1"
      and st: "standsFor s0 (mc_dataSection mc1) (mc_data mc1) (valuesOf (mc_proc mc1)) t (V64 (mc_dataSection mc))"
      and keep1: "\<And>j w. valuesOf (mc_proc mc) j = Some w \<Longrightarrow> valuesOf (mc_proc mc1) j = Some w"
    using t(2) unfolding materializes_def by blast
  have D: "mc_dataSection mc1 = mc_dataSection mc" "mc_constTable mc1 = mc_constTable mc" using g1 by (simp_all add: mcGrows_def)
  obtain tv where tv: "s0 t = None" "valuesOf (mc_proc mc1) t = Some tv" "isConstVal tv (V64 (mc_dataSection mc))"
    using st by (cases rule: standsForE) auto
  let ?k = "hashGet (mc_constTable mc) (constKey (VD d))"
  have tab: "?k < length (mc_data mc1)" "mc_data mc1 ! ?k = d" using mcInvD(3) [OF inv1] d D(2) by (auto simp: inTable_def)
  obtain c mc2 where r: "mcInsert k (tableLoad origin t ?k) mc1 = (c, mc2)" by fastforce
  have ty: "m_type tv = Int64" using tv(3) by (simp add: isConstVal_def)
  have cs: "set (m_children (tableLoad origin t ?k)) \<inter> dom s0 = {}" "m_opcode (tableLoad origin t ?k) \<noteq> Upsilon" using tv(1) by (auto simp: tableLoad_def mkValue_def)
  have "wtValue (valuesOf (mc_proc mc1)) (tableLoad origin t ?k)" using tv(2) ty by (rule tableLoad_wt)
  note K = mcInsert_keeps [OF inv1 this cs(2,1) r]
  have fresh: "valuesOf (mc_proc mc1) c = None" using K(2) by (auto simp: mcGrows_def)
  have same: "mc_dataSection mc2 = mc_dataSection mc" "mc_data mc2 = mc_data mc1" using K(2) D(1) by (simp_all add: mcGrows_def)
  have "standsFor s0 (mc_dataSection mc2) (mc_data mc2) (valuesOf (mc_proc mc2)) c (VD (mc_data mc2 ! ?k))"
    by (rule standsFor_load [where origin = origin and t = t and tv = tv]) (use K(3,4) tv tab(1) fresh same in auto)
  then have st2: "standsFor s0 (mc_dataSection mc2) (mc_data mc2) (valuesOf (mc_proc mc2)) c (VD d)" using tab(2) same by simp
  have keep2: "valuesOf (mc_proc mc2) j = Some w" if "valuesOf (mc_proc mc) j = Some w" for j w
    using keep1 [OF that] fresh K(4) by auto
  have "materializes s0 prog k (VD d) mc c mc2"
    unfolding materializes_def
    using K(1) st2 mcGrows_trans [OF g1 K(2)] keep2 by auto
  note m = cache_materializes [OF this]
  have "goesInTable (constKey (VD d))" using d(3) by simp
  moreover have "vk_type (constKey (VD d)) = Double" by (simp add: constKey_def)
  ultimately have "materialize k (constKey (VD d)) origin mc = Some (c, mc2\<lparr>mc_constants := hashAdd (constKey (VD d)) c (mc_constants mc2)\<rparr>)"
    using None t(1) r D(2) by (subst materialize.simps) (simp add: tableLoad_def)
  then show thesis using that m by simp
qed

subsection \<open>Moving the children of a value\<close>

lemma isConstVal_isConstant: "isConstVal w y \<Longrightarrow> isConstant w"
  by (auto simp: isConstVal_def isConstant_def split: val.splits)

lemma list_all2_take_snoc:
  "n < length xs \<Longrightarrow> length ys = length xs \<Longrightarrow> list_all2 P (take (Suc n) xs) (take (Suc n) ys) \<longleftrightarrow> list_all2 P (take n xs) (take n ys) \<and> P (xs ! n) (ys ! n)"
  by (simp add: take_Suc_conv_app_nth list_all2_append)

lemma movedChildren_step:
  assumes m: "movedChildren s0 D data s (n, A) cs ds" and n: "n < length cs" and c: "movedChild s0 D data s A (cs ! n) c'"
  shows "movedChildren s0 D data s (Suc n, A) cs (ds[n := c'])"
proof -
  have len: "length ds = length cs" using m by (simp add: movedChildren_def)
  have "list_all2 (movedChild s0 D data s A) (take (Suc n) cs) (take (Suc n) (ds[n := c']))"
    using m n c len by (simp add: list_all2_take_snoc movedChildren_def)
  moreover have "drop (Suc n) (ds[n := c']) = drop (Suc n) cs"
    using m len by (simp add: movedChildren_def drop_update_cancel) (metis drop_Suc tl_drop)
  ultimately show ?thesis using len by (simp add: movedChildren_def)
qed

text \<open>The child that comes next is still the old one.\<close>

lemma movedChildren_next: "movedChildren s0 D data s (n, A) cs ds \<Longrightarrow> n < length cs \<Longrightarrow> ds ! n = cs ! n"
proof -
  assume m: "movedChildren s0 D data s (n, A) cs ds" and n: "n < length cs"
  then have "drop n ds ! 0 = drop n cs ! 0" "n < length ds" by (simp_all add: movedChildren_def)
  then show ?thesis using n by simp
qed

lemma setChild_keeps:
  assumes inv: "mcInv s0 prog mc" and i: "s0 i = Some v" "valuesOf (mc_proc mc) i = Some (v\<lparr>m_children := ds\<rparr>)"
    and n: "prog i = (n, A)" "movedChildren s0 (mc_dataSection mc) (mc_data mc) (valuesOf (mc_proc mc)) (n, A) (m_children v) ds" "n < length (m_children v)" "A \<subseteq> A'"
    and c: "s0 (m_children v ! n) = Some cv" "isConstVal cv x" "c' \<in> A'"
      "standsFor s0 (mc_dataSection mc) (mc_data mc) (valuesOf (mc_proc mc)) c' x"
  shows "mcInv s0 (prog(i := (Suc n, A'))) (mc\<lparr>mc_proc := setValue i (v\<lparr>m_children := ds[n := c']\<rparr>) (mc_proc mc)\<rparr>)"
proof -
  let ?s = "valuesOf (mc_proc mc)" and ?w = "v\<lparr>m_children := ds[n := c']\<rparr>" and ?D = "mc_dataSection mc" and ?data = "mc_data mc"
  note I = mcInvD [OF inv]
  have i': "?s i \<noteq> None" using i(2) by simp
  have s: "valuesOf (setValue i ?w (mc_proc mc)) = ?s(i \<mapsto> ?w)" by (rule valuesOf_setValue [OF i'])
  have keep: "(?s(i \<mapsto> ?w)) j = Some u" if "s0 j = None" "?s j = Some u" for j u using that i(1) by auto
  have dn: "ds ! n = m_children v ! n" by (rule movedChildren_next [OF n(2,3)])
  have len: "length ds = length (m_children v)" using n(2) by (simp add: movedChildren_def)
  obtain cs1 where cv: "?s (m_children v ! n) = Some (cv\<lparr>m_children := cs1\<rparr>)" using I(4) [OF c(1)] by blast
  obtain w' where w': "?s c' = Some w'" "m_type w' = typeOf x" using standsFor_type [OF c(4)] by blast
  have tx: "typeOf x = m_type cv" "x \<noteq> VVoid" using c(2) by (auto simp: isConstVal_def)
  have wt: "wtValue ?s (v\<lparr>m_children := ds\<rparr>)" by (rule wtStoreD [OF I(2) i(2)])
  have "wtValue ?s ((v\<lparr>m_children := ds\<rparr>)\<lparr>m_children := ds[n := c']\<rparr>)"
  proof (rule substituted_wt [OF wt])
    have vc: "\<exists>dv. ?s d = Some dv \<and> m_type dv \<noteq> Void" if "d \<in> set ds" for d
      using wt that by (auto simp: wtValue_def validateChildren_def split: option.splits)
    show "\<forall>d \<in> set (ds[n := c']). \<exists>dv. ?s d = Some dv \<and> m_type dv \<noteq> Void"
      using vc w' tx set_update_subset_insert [of ds n c'] by (cases x) auto
    show "childType ?s ((v\<lparr>m_children := ds\<rparr>)\<lparr>m_children := ds[n := c']\<rparr>) k = childType ?s (v\<lparr>m_children := ds\<rparr>) k" for k
      using w' tx cv dn len n(3) by (auto simp: childType_def child_def at_def nth_list_update)
  qed simp
  then have wtw: "wtValue ?s ?w" by simp
  have ext: "typeExt ?s (?s(i \<mapsto> ?w))" using i(2) by (rule typeExt_update) simp
  have moved: "movedChildren s0 ?D ?data (?s(i \<mapsto> ?w)) m cs es" if "movedChildren s0 ?D ?data ?s m cs es" for m cs es
    using that movedChildren_mono [of s0 ?D ?data ?s "fst m" "snd m" cs es "snd m" "?s(i \<mapsto> ?w)"] keep by simp
  have "movedChild s0 ?D ?data (?s(i \<mapsto> ?w)) A' (m_children v ! n) c'"
    using c(1-3) isConstVal_isConstant [OF c(2)] standsFor_mono [where s' = "?s(i \<mapsto> ?w)", OF c(4) keep] by (auto simp: movedChild_def)
  moreover have "movedChildren s0 ?D ?data (?s(i \<mapsto> ?w)) (n, A') (m_children v) ds" by (rule movedChildren_mono [OF n(2,4) keep])
  ultimately have mi: "movedChildren s0 ?D ?data (?s(i \<mapsto> ?w)) (Suc n, A') (m_children v) (ds[n := c'])"
    using movedChildren_step n(3) by blast
  show ?thesis
    unfolding mcInv_def
  proof (intro conjI allI impI)
    show "procInv (mc_proc (mc\<lparr>mc_proc := setValue i ?w (mc_proc mc)\<rparr>))" using procInv_setValue [OF I(1) i'] by simp
    show "wtStore (valuesOf (mc_proc (mc\<lparr>mc_proc := setValue i ?w (mc_proc mc)\<rparr>)))"
    proof -
      have "wtStore (?s(i \<mapsto> ?w))" by (rule wtStore_ext [OF I(2) ext]) (use wtw in \<open>auto split: if_splits\<close>)
      then show ?thesis using s by simp
    qed
    show "inTable s0 (mc\<lparr>mc_proc := setValue i ?w (mc_proc mc)\<rparr>)" using I(3) by (simp add: inTable_def)
    show "\<exists>es. valuesOf (mc_proc (mc\<lparr>mc_proc := setValue i ?w (mc_proc mc)\<rparr>)) j = Some (u\<lparr>m_children := es\<rparr>) \<and>
        movedChildren s0 (mc_dataSection (mc\<lparr>mc_proc := setValue i ?w (mc_proc mc)\<rparr>)) (mc_data (mc\<lparr>mc_proc := setValue i ?w (mc_proc mc)\<rparr>))
          (valuesOf (mc_proc (mc\<lparr>mc_proc := setValue i ?w (mc_proc mc)\<rparr>))) ((prog(i := (Suc n, A'))) j) (m_children u) es"
      if j: "s0 j = Some u" for j u
    proof (cases "j = i")
      case True
      then show ?thesis using j i(1) mi s by auto
    next
      case False
      obtain es where "?s j = Some (u\<lparr>m_children := es\<rparr>)" "movedChildren s0 ?D ?data ?s (prog j) (m_children u) es" using I(4) [OF j] by blast
      then show ?thesis using False moved [of "prog j" "m_children u" es] s by auto
    qed
    show "m_opcode u \<noteq> Upsilon" "set (m_children u) \<inter> dom s0 = {}"
      if "s0 j = None" "valuesOf (mc_proc (mc\<lparr>mc_proc := setValue i ?w (mc_proc mc)\<rparr>)) j = Some u" for j u
      using that I(5) [of j u] s i(1) by (auto split: if_splits)
    show "\<exists>y. key = constKey y \<and> y \<noteq> VVoid \<and> standsFor s0 (mc_dataSection (mc\<lparr>mc_proc := setValue i ?w (mc_proc mc)\<rparr>))
        (mc_data (mc\<lparr>mc_proc := setValue i ?w (mc_proc mc)\<rparr>)) (valuesOf (mc_proc (mc\<lparr>mc_proc := setValue i ?w (mc_proc mc)\<rparr>))) d y"
      if kd: "(key, d) \<in> set (mc_constants (mc\<lparr>mc_proc := setValue i ?w (mc_proc mc)\<rparr>))" for key d
    proof -
      obtain y where y: "key = constKey y" "y \<noteq> VVoid" "standsFor s0 ?D ?data ?s d y" using I(6) [of key d] kd by auto
      then show ?thesis using standsFor_mono [where s' = "?s(i \<mapsto> ?w)", OF y(3) keep] s by auto
    qed
  qed
qed

lemma skipChild_keeps:
  assumes inv: "mcInv s0 prog mc" and i: "s0 i = Some v"
    and n: "prog i = (n, A)" "n < length (m_children v)" "A \<subseteq> A'" and c: "s0 (m_children v ! n) = Some cv" "\<not> isConstant cv"
  shows "mcInv s0 (prog(i := (Suc n, A'))) mc"
proof -
  note I = mcInvD [OF inv]
  let ?D = "mc_dataSection mc" and ?data = "mc_data mc" and ?s = "valuesOf (mc_proc mc)"
  obtain ds where ds: "?s i = Some (v\<lparr>m_children := ds\<rparr>)" "movedChildren s0 ?D ?data ?s (n, A) (m_children v) ds" using I(4) [OF i] n(1) by auto
  have "movedChildren s0 ?D ?data ?s (n, A') (m_children v) ds" by (rule movedChildren_mono [OF ds(2) n(3)])
  moreover have "movedChild s0 ?D ?data ?s A' (m_children v ! n) (ds ! n)" using c movedChildren_next [OF ds(2) n(2)] by (simp add: movedChild_def)
  ultimately have "movedChildren s0 ?D ?data ?s (Suc n, A') (m_children v) (ds[n := ds ! n])" using movedChildren_step n(2) by blast
  then have "\<exists>ds. ?s j = Some (u\<lparr>m_children := ds\<rparr>) \<and> movedChildren s0 ?D ?data ?s ((prog(i := (Suc n, A'))) j) (m_children u) ds" if j: "s0 j = Some u" for j u
    using I(4) [OF j] ds(1) i j by (cases "j = i") auto
  then show ?thesis using inv by (simp add: mcInv_def)
qed

lemma moveChild_moves:
  assumes inv: "mcInv s0 prog mc" and wt0: "wtStore s0" and i: "s0 i = Some v" and n: "prog i = (n, A)" "n < length (m_children v)" and A: "cached mc \<subseteq> A"
  obtains mc' new where "moveChild k i n mc = Some mc'" "mcInv s0 (prog(i := (Suc n, A \<union> set new))) mc'" "mcGrows k mc mc' new"
proof -
  note I = mcInvD [OF inv]
  let ?D = "mc_dataSection mc" and ?data = "mc_data mc" and ?s = "valuesOf (mc_proc mc)" and ?c = "m_children v ! n"
  obtain ds where ds: "?s i = Some (v\<lparr>m_children := ds\<rparr>)" "movedChildren s0 ?D ?data ?s (n, A) (m_children v) ds" using I(4) [OF i] n(1) by auto
  have dn: "at ds n = Some ?c" using movedChildren_next [OF ds(2) n(2)] ds(2) n(2) by (simp add: at_def movedChildren_def)
  have "?c \<in> set (m_children v)" using n(2) by simp
  then obtain cv where cv: "s0 ?c = Some cv"
    using wtStoreD [OF wt0 i] by (fastforce simp: wtValue_def validateChildren_def split: option.splits)
  then obtain cs where cs: "?s ?c = Some (cv\<lparr>m_children := cs\<rparr>)" using I(4) by blast
  have nm: "needsMotion (cv\<lparr>m_children := cs\<rparr>) = isConstant cv" by (simp add: needsMotion_def isConstant_def)
  show thesis
  proof (cases "isConstant cv")
    case False
    then have "moveChild k i n mc = Some mc" using ds(1) dn cs nm by (simp add: moveChild_def)
    then show thesis using that [of mc "[]"] skipChild_keeps [OF inv i n _ cv False, of A] by simp
  next
    case True
    obtain x where x: "valueKey cv = Some (constKey x)" "x \<noteq> VVoid" "isConstVal cv x" by (rule valueKey_constant [OF True wtStoreD [OF wt0 cv]])
    have "isConstant (cv\<lparr>m_children := cs\<rparr>)" using True by (simp add: isConstant_def)
    then obtain y where y: "valueKey (cv\<lparr>m_children := cs\<rparr>) = Some (constKey y)" "y \<noteq> VVoid" "isConstVal (cv\<lparr>m_children := cs\<rparr>) y"
      using valueKey_constant wtStoreD [OF I(2) cs] by blast
    have "x = y" using x(3) y(3) by (cases x; cases y; auto simp: isConstVal_def)
    then have key: "valueKey (cv\<lparr>m_children := cs\<rparr>) = Some (constKey x)" using y(1) by simp
    let ?direct = "acceptsStackmap (m_opcode v) \<and> goesInTable (constKey x) \<and> constrainedRep v n = AnyRep"
    let ?get = "if ?direct then map_option (\<lambda>w. mcInsert k w mc) (materializedValue (constKey x) (mc_proc mc) (m_origin v)) else materialize k (constKey x) (m_origin v) mc"
    obtain c mc1 where g: "?get = Some (c, mc1)" "materializes s0 prog k x mc c mc1"
    proof (cases ?direct)
      case True
      obtain c mc1 where r: "mcInsert k (constOf (m_origin v) x) mc = (c, mc1)" by fastforce
      then show thesis using that [of c mc1] True insert_const [OF inv x(2) r] materialize_constKey [OF x(2), of "mc_proc mc" "m_origin v"] by simp
    next
      case False
      obtain c mc1 where m: "materialize k (constKey x) (m_origin v) mc = Some (c, mc1)" "materializes s0 prog k x mc c mc1"
      proof (cases "goesInTable (constKey x)")
        case True
        then obtain d where d: "x = VD d" "d \<noteq> posZero" by auto
        show thesis by (rule materialize_table [OF inv cv x(3) [unfolded d(1)] d(2), of k "m_origin v"]) (rule that [unfolded d(1)])
      next
        case False
        show thesis by (rule materialize_plain [OF inv x(2) False, of k "m_origin v"]) (rule that)
      qed
      then show thesis using that [of c mc1] if_not_P [OF False] by metis
    qed
    obtain new where new: "mcGrows k mc mc1 new" "c \<in> cached mc \<union> set new" using g(2) unfolding materializes_def by blast
    have M: "mcInv s0 prog mc1" "standsFor s0 (mc_dataSection mc1) (mc_data mc1) (valuesOf (mc_proc mc1)) c x"
        "\<And>j w. ?s j = Some w \<Longrightarrow> valuesOf (mc_proc mc1) j = Some w"
      using g(2) unfolding materializes_def by blast+
    have D1: "mc_dataSection mc1 = ?D" "mc_data mc1 = ?data" using new(1) by (simp_all add: mcGrows_def)
    let ?mc = "mc1\<lparr>mc_proc := setValue i (v\<lparr>m_children := ds[n := c]\<rparr>) (mc_proc mc1)\<rparr>"
    have ds1: "movedChildren s0 ?D ?data (valuesOf (mc_proc mc1)) (n, A) (m_children v) ds" by (rule movedChildren_mono [OF ds(2)]) (use M(3) in auto)
    have "mcInv s0 (prog(i := (Suc n, A \<union> set new))) ?mc"
      by (rule setChild_keeps [OF M(1) i M(3) [OF ds(1)] n(1) _ n(2) _ cv x(3) _ M(2)]) (use ds1 D1 new(2) A in auto)
    moreover have "mcGrows k mc ?mc new"
    proof -
      have "valuesOf (mc_proc mc1) i \<noteq> None" using M(3) [OF ds(1)] by simp
      note sv = valuesOf_setValue [OF this, of "v\<lparr>m_children := ds[n := c]\<rparr>"]
      have "dom (valuesOf (mc_proc ?mc)) = dom (valuesOf (mc_proc mc1))" using sv M(3) [OF ds(1)] by auto
      then show ?thesis using new(1) by (simp add: mcGrows_def setValue_def cached_def)
    qed
    moreover have "moveChild k i n mc = Some ?mc"
      using ds(1) dn cs nm True key g(1) by (auto simp: moveChild_def simp del: goesInTable_constKey split: if_splits)
    ultimately show thesis using that by blast
  qed
qed

lemma upt_at: "[0..<n] = ys @ x # zs \<Longrightarrow> x = length ys \<and> length ys < n"
proof -
  assume e: "[0..<n] = ys @ x # zs"
  have "length [0..<n] = length (ys @ x # zs)" by (simp only: e)
  then have n: "length ys < n" by simp
  have "[0..<n] ! length ys = x" by (simp only: e nth_append_length)
  then show ?thesis using n by simp
qed

lemma mcInv_start:
  assumes inv: "mcInv s0 prog mc" and i: "prog i = (0, B)"
  shows "mcInv s0 (prog(i := (0, A))) mc"
proof -
  have "\<exists>ds. valuesOf (mc_proc mc) j = Some (v\<lparr>m_children := ds\<rparr>) \<and>
      movedChildren s0 (mc_dataSection mc) (mc_data mc) (valuesOf (mc_proc mc)) ((prog(i := (0, A))) j) (m_children v) ds" if j: "s0 j = Some v" for j v
    using mcInvD(4) [OF inv j] i by (cases "j = i") (auto simp: movedChildren_def)
  then show ?thesis using inv by (simp add: mcInv_def)
qed

lemma moveValue_moves:
  assumes inv: "mcInv s0 prog mc" and wt0: "wtStore s0" and i: "at vs k = Some i" "s0 i = Some v" and n: "prog i = (0, B)" and A: "cached mc \<subseteq> A"
  obtains mc' new where "moveValue vs k mc = Some mc'" "mcInv s0 (prog(i := (length (m_children v), A \<union> set new))) mc'" "mcGrows k mc mc' new"
proof -
  obtain ds where ds: "valuesOf (mc_proc mc) i = Some (v\<lparr>m_children := ds\<rparr>)" "length ds = length (m_children v)"
    using mcInvD(4) [OF inv i(2)] by (auto simp: movedChildren_def split: prod.splits)
  let ?n = "length (m_children v)"
  let ?I = "\<lambda>ys mc'. \<exists>new. mcInv s0 (prog(i := (length ys, A \<union> set new))) mc' \<and> mcGrows k mc mc' new"
  have "\<exists>mc'. foldM (moveChild k i) [0..<?n] mc = Some mc' \<and> ?I [0..<?n] mc'"
  proof (rule foldM_invariant)
    show "?I [] mc" using mcInv_start [OF inv n, of A] by (auto intro!: exI [of _ "[]"])
    fix ys x zs mc1
    assume xs: "[0..<?n] = ys @ x # zs" and I: "?I ys mc1"
    have x: "x = length ys" "length ys < ?n" using upt_at [OF xs] by simp_all
    obtain new where new: "mcInv s0 (prog(i := (length ys, A \<union> set new))) mc1" "mcGrows k mc mc1 new" using I by blast
    have c: "cached mc1 \<subseteq> A \<union> set new" using new(2) A by (auto simp: mcGrows_def)
    obtain mc2 new2 where m: "moveChild k i x mc1 = Some mc2"
        "mcInv s0 ((prog(i := (length ys, A \<union> set new)))(i := (Suc x, A \<union> set new \<union> set new2))) mc2" "mcGrows k mc1 mc2 new2"
      by (rule moveChild_moves [OF new(1) wt0 i(2), of x "A \<union> set new" k]) (use x c in simp_all)
    have "mcInv s0 (prog(i := (length (ys @ [x]), A \<union> set (new @ new2)))) mc2" using m(2) x(1) by (simp add: Un_assoc)
    then show "\<exists>mc2. moveChild k i x mc1 = Some mc2 \<and> ?I (ys @ [x]) mc2" using m(1) mcGrows_trans [OF new(2) m(3)] by blast
  qed
  then obtain mc' new where "foldM (moveChild k i) [0..<?n] mc = Some mc'" "mcInv s0 (prog(i := (?n, A \<union> set new))) mc'" "mcGrows k mc mc' new" by auto
  then show thesis using that ds i(1) by (simp add: moveValue_def)
qed

subsection \<open>Moving the constants of a block\<close>

text \<open>The values of the list up to an index are finished, each with materializations that are inserted no later than it.\<close>

definition finishedTo :: "store \<Rightarrow> value_ptr list \<Rightarrow> nat \<Rightarrow> Insertion list \<Rightarrow> (value_ptr \<Rightarrow> nat \<times> value_ptr set) \<Rightarrow> bool" where
  "finishedTo s0 vs n ins prog \<longleftrightarrow>
     (\<forall>j < n. \<forall>v. s0 (vs ! j) = Some v \<longrightarrow>
        (\<exists>A. prog (vs ! j) = (length (m_children v), A) \<and> (\<forall>c \<in> A. \<exists>k \<le> j. (k, c) \<in> set ins)))"

definition mcFrame :: "MoveConstants \<Rightarrow> MoveConstants \<Rightarrow> bool" where
  "mcFrame mc mc' \<longleftrightarrow>
     mc_constTable mc' = mc_constTable mc \<and> mc_toRemove mc' = mc_toRemove mc \<and> mc_dataSection mc' = mc_dataSection mc \<and> mc_data mc' = mc_data mc \<and>
     m_blocks (mc_proc mc') = m_blocks (mc_proc mc)"

lemma mcGrows_frame: "mcGrows k a b new \<Longrightarrow> mcFrame a b"
  by (simp add: mcGrows_def mcFrame_def)

lemma mcFrame_refl [simp]: "mcFrame mc mc"
  by (simp add: mcFrame_def)

lemma mcFrame_trans: "mcFrame a b \<Longrightarrow> mcFrame b c \<Longrightarrow> mcFrame a c"
  by (simp add: mcFrame_def)

lemma moveValues_move:
  assumes inv: "mcInv s0 prog mc" and wt0: "wtStore s0" and vs: "distinct vs" "set vs \<subseteq> dom s0" "\<And>i. i \<in> set vs \<Longrightarrow> prog i = (0, {})"
    and empty: "mc_constants mc = []" "mc_insertionSet mc = []"
  obtains mc' prog' where "foldM (moveValue vs) [0..<length vs] mc = Some mc'" "mcInv s0 prog' mc'" "finishedTo s0 vs (length vs) (mc_insertionSet mc') prog'"
    "\<And>i. i \<notin> set vs \<Longrightarrow> prog' i = prog i" "mcFrame mc mc'" "m_heap (mc_proc mc') = m_heap (mc_proc mc)" "\<forall>x \<in> set (mc_insertionSet mc'). fst x < length vs"
proof -
  let ?I = "\<lambda>ys mc'. \<exists>prog'. mcInv s0 prog' mc' \<and> finishedTo s0 vs (length ys) (mc_insertionSet mc') prog' \<and>
    (\<forall>i. i \<notin> set (take (length ys) vs) \<longrightarrow> prog' i = prog i) \<and> mcFrame mc mc' \<and> m_heap (mc_proc mc') = m_heap (mc_proc mc) \<and>
    (\<forall>x \<in> set (mc_insertionSet mc'). fst x < length ys) \<and> cached mc' \<subseteq> snd ` set (mc_insertionSet mc')"
  have "\<exists>mc'. foldM (moveValue vs) [0..<length vs] mc = Some mc' \<and> ?I [0..<length vs] mc'"
  proof (rule foldM_invariant)
    show "?I [] mc" using inv empty by (intro exI [of _ prog]) (simp add: finishedTo_def cached_def)
    fix ys x zs mc1
    assume xs: "[0..<length vs] = ys @ x # zs" and I: "?I ys mc1"
    have x: "x = length ys" "length ys < length vs" using upt_at [OF xs] by simp_all
    from I obtain prog1 where inv1: "mcInv s0 prog1 mc1" and fin1: "finishedTo s0 vs x (mc_insertionSet mc1) prog1"
      and rest1: "\<And>i. i \<notin> set (take x vs) \<Longrightarrow> prog1 i = prog i" and frame1: "mcFrame mc mc1" "m_heap (mc_proc mc1) = m_heap (mc_proc mc)"
      and ins1: "\<And>q. q \<in> set (mc_insertionSet mc1) \<Longrightarrow> fst q < x" and cached1: "cached mc1 \<subseteq> snd ` set (mc_insertionSet mc1)" using x(1) by auto
    let ?i = "vs ! x" and ?A = "snd ` set (mc_insertionSet mc1)"
    have i: "?i \<in> set vs" "?i \<notin> set (take x vs)" "at vs x = Some ?i" using x vs(1) by (auto simp: at_def in_set_conv_nth nth_eq_iff_index_eq)
    obtain v where v: "s0 ?i = Some v" using vs(2) i(1) by blast
    have p0: "prog1 ?i = (0, {})" using rest1 [OF i(2)] vs(3) [OF i(1)] by simp
    obtain mc2 new where m: "moveValue vs x mc1 = Some mc2" "mcInv s0 (prog1(?i := (length (m_children v), ?A \<union> set new))) mc2" "mcGrows x mc1 mc2 new"
      by (rule moveValue_moves [OF inv1 wt0 i(3) v p0 cached1])
    let ?prog = "prog1(?i := (length (m_children v), ?A \<union> set new))"
    have ins2: "mc_insertionSet mc2 = mc_insertionSet mc1 @ map (Pair x) new" using m(3) by (simp add: mcGrows_def)
    have "finishedTo s0 vs (Suc x) (mc_insertionSet mc2) ?prog"
      unfolding finishedTo_def
    proof (intro allI impI)
      fix j u assume j: "j < Suc x" "s0 (vs ! j) = Some u"
      show "\<exists>A. ?prog (vs ! j) = (length (m_children u), A) \<and> (\<forall>c \<in> A. \<exists>k \<le> j. (k, c) \<in> set (mc_insertionSet mc2))"
      proof (cases "j = x")
        case True
        have "\<exists>k \<le> x. (k, c) \<in> set (mc_insertionSet mc2)" if c: "c \<in> ?A \<union> set new" for c
        proof (cases "c \<in> set new")
          case False
          then obtain k' where "(k', c) \<in> set (mc_insertionSet mc1)" using c by auto
          then show ?thesis using ins1 [of "(k', c)"] ins2 by (auto intro!: exI [of _ k'])
        qed (use ins2 in auto)
        then show ?thesis using True j(2) v by auto
      next
        case False
        then have "j < x" using j(1) by simp
        moreover from this have "vs ! j \<noteq> ?i" using vs(1) x by (simp add: nth_eq_iff_index_eq)
        ultimately show ?thesis using fin1 j(2) ins2 unfolding finishedTo_def by fastforce
      qed
    qed
    moreover have "?prog i = prog i" if "i \<notin> set (take (Suc x) vs)" for i
      using that rest1 [of i] x by (auto simp: take_Suc_conv_app_nth)
    moreover have "cached mc2 \<subseteq> cached mc1 \<union> set new" using m(3) by (simp add: mcGrows_def)
    then have "cached mc2 \<subseteq> snd ` set (mc_insertionSet mc2)" using cached1 ins2 by (force simp: image_Un image_image)
    moreover have "\<forall>q \<in> set (mc_insertionSet mc2). fst q < Suc x" using ins1 ins2 by fastforce
    moreover have "m_heap (mc_proc mc2) = m_heap (mc_proc mc)" using m(3) frame1(2) by (simp add: mcGrows_def)
    ultimately show "\<exists>mc2. moveValue vs x mc1 = Some mc2 \<and> ?I (ys @ [x]) mc2"
      using m(1,2) mcFrame_trans [OF frame1(1) mcGrows_frame [OF m(3)]] x(1) by (intro exI [of _ mc2] conjI exI [of _ ?prog]) simp_all
  qed
  then show thesis using that by auto
qed

text \<open>What is known of a block of the original procedure once it is done.\<close>

definition blockMoved :: "Procedure \<Rightarrow> block_ptr \<Rightarrow> Insertion list \<Rightarrow> (value_ptr \<Rightarrow> nat \<times> value_ptr set) \<Rightarrow> Procedure \<Rightarrow> bool" where
  "blockMoved p b ins prog p' \<longleftrightarrow>
     valuesIn p' b = spliced (valuesIn p b) ins \<and> finishedTo (valuesOf p) (valuesIn p b) (length (valuesIn p b)) ins prog"

lemma moveBlock_moves:
  assumes inv: "mcInv s0 prog mc" and wt0: "wtStore s0" and b: "block (mc_proc mc) b \<noteq> None" and empty: "mc_insertionSet mc = []"
    and vs: "valuesIn (mc_proc mc) b = vs" "distinct vs" "set vs \<subseteq> dom s0" "\<And>i. i \<in> set vs \<Longrightarrow> prog i = (0, {})"
  obtains mc' prog' ins where "moveBlock b mc = Some mc'" "mcInv s0 prog' mc'" "finishedTo s0 vs (length vs) ins prog'" "\<And>i. i \<notin> set vs \<Longrightarrow> prog' i = prog i"
    "mcFrame mc mc'" "mc_insertionSet mc' = []" "valuesIn (mc_proc mc') b = spliced vs ins" "\<And>c. c \<noteq> b \<Longrightarrow> valuesIn (mc_proc mc') c = valuesIn (mc_proc mc) c"
    "\<And>c. block (mc_proc mc') c = None \<longleftrightarrow> block (mc_proc mc) c = None"
proof -
  let ?mc0 = "mc\<lparr>mc_constants := []\<rparr>"
  have inv0: "mcInv s0 prog ?mc0" using inv by (simp add: mcInv_def inTable_def)
  obtain mc1 prog' where m: "foldM (moveValue vs) [0..<length vs] ?mc0 = Some mc1" "mcInv s0 prog' mc1" "finishedTo s0 vs (length vs) (mc_insertionSet mc1) prog'"
      "\<And>i. i \<notin> set vs \<Longrightarrow> prog' i = prog i" "mcFrame ?mc0 mc1" "m_heap (mc_proc mc1) = m_heap (mc_proc ?mc0)" "\<forall>x \<in> set (mc_insertionSet mc1). fst x < length vs"
    by (rule moveValues_move [OF inv0 wt0 vs(2-4)]) (assumption, simp, simp add: empty, blast)
  let ?ins = "mc_insertionSet mc1" and ?q = "executeInsertionSet (mc_insertionSet mc1) b (mc_proc mc1)"
  let ?mc = "mc1\<lparr>mc_proc := ?q, mc_insertionSet := []\<rparr>"
  note O = executeInsertionSet_other [where b = b and ins = ?ins and p = "mc_proc mc1"]
  have heap: "block (mc_proc mc1) c = block (mc_proc mc) c" "valuesIn (mc_proc mc1) c = valuesIn (mc_proc mc) c" for c
    using m(6) by (simp_all add: block_def valuesIn_def)
  have "valuesIn ?q b = spliced vs ?ins"
    using executeInsertionSet_values [of "mc_proc mc1" b ?ins] b m(7) heap vs(1) by fastforce
  moreover have "moveBlock b mc = Some ?mc" using m(1) vs(1) by (simp add: moveBlock_def Let_def)
  moreover have "mcInv s0 prog' ?mc" using m(2) O(2,3) by (simp add: mcInv_def inTable_def)
  moreover have "mcFrame mc ?mc" using m(5) O(4) by (simp add: mcFrame_def)
  moreover have "block ?q c = None \<longleftrightarrow> block (mc_proc mc) c = None" for c
    using heap(1) [of c] by (auto simp: executeInsertionSet_def block_updateBlock split: option.splits)
  ultimately show thesis using that [of ?mc prog' ?ins] m(3,4) O(1) heap(2) by simp
qed

lemma moveBlocks_move:
  assumes inv: "mcInv (valuesOf p) (\<lambda>_. (0, {})) mc" and mc: "mc_proc mc = p" "mc_insertionSet mc = []" and wt0: "wtStore (valuesOf p)"
    and pl: "placement p" "distinct (blocksOf p)" and live: "\<And>b. b \<in> set (blocksOf p) \<Longrightarrow> block p b \<noteq> None"
  obtains mc' prog insOf where "foldM moveBlock (blocksOf p) mc = Some mc'" "mcInv (valuesOf p) prog mc'" "mcFrame mc mc'"
    "\<And>b. b \<in> set (blocksOf p) \<Longrightarrow> blockMoved p b (insOf b) prog (mc_proc mc')"
proof -
  have vs: "distinct (valuesIn p b)" "set (valuesIn p b) \<subseteq> dom (valuesOf p)" if "b \<in> set (blocksOf p)" for b
    using pl that by (auto simp: placement_def placedValues_def distinct_concat_map)
  have disj: "set (valuesIn p b) \<inter> set (valuesIn p c) = {}" if "b \<in> set (blocksOf p)" "c \<in> set (blocksOf p)" "b \<noteq> c" for b c
    using pl that by (simp add: placement_def placedValues_def distinct_concat_map)
  let ?I = "\<lambda>ys mc'. \<exists>prog insOf. mcInv (valuesOf p) prog mc' \<and> mcFrame mc mc' \<and> mc_insertionSet mc' = [] \<and>
    (\<forall>b \<in> set ys. blockMoved p b (insOf b) prog (mc_proc mc')) \<and> (\<forall>b. b \<notin> set ys \<longrightarrow> valuesIn (mc_proc mc') b = valuesIn p b) \<and>
    (\<forall>i. (\<forall>b \<in> set ys. i \<notin> set (valuesIn p b)) \<longrightarrow> prog i = (0, {})) \<and> (\<forall>b. block (mc_proc mc') b = None \<longleftrightarrow> block p b = None)"
  have "\<exists>mc'. foldM moveBlock (blocksOf p) mc = Some mc' \<and> ?I (blocksOf p) mc'"
  proof (rule foldM_invariant)
    show "?I [] mc" using inv mc by (intro exI [of _ "\<lambda>_. (0, {})"]) simp
    fix ys b zs mc1
    assume xs: "blocksOf p = ys @ b # zs" and I: "?I ys mc1"
    have b: "b \<in> set (blocksOf p)" "b \<notin> set ys" "set ys \<subseteq> set (blocksOf p)" using xs pl(2) by auto
    from I obtain prog insOf where inv1: "mcInv (valuesOf p) prog mc1" "mcFrame mc mc1" "mc_insertionSet mc1 = []"
        and moved: "\<And>c. c \<in> set ys \<Longrightarrow> blockMoved p c (insOf c) prog (mc_proc mc1)" and other: "\<And>c. c \<notin> set ys \<Longrightarrow> valuesIn (mc_proc mc1) c = valuesIn p c"
        and new: "\<And>i. (\<forall>c \<in> set ys. i \<notin> set (valuesIn p c)) \<Longrightarrow> prog i = (0, {})" and dead: "\<And>c. block (mc_proc mc1) c = None \<longleftrightarrow> block p c = None"
      by blast
    have fresh: "prog i = (0, {})" if i: "i \<in> set (valuesIn p b)" for i
    proof (rule new, rule ballI)
      fix c assume "c \<in> set ys"
      then show "i \<notin> set (valuesIn p c)" using disj [OF b(1), of c] b i by auto
    qed
    have "block (mc_proc mc1) b \<noteq> None" using dead live [OF b(1)] by simp
    then obtain mc2 prog2 ins where m: "moveBlock b mc1 = Some mc2" "mcInv (valuesOf p) prog2 mc2" "finishedTo (valuesOf p) (valuesIn p b) (length (valuesIn p b)) ins prog2"
        "\<And>i. i \<notin> set (valuesIn p b) \<Longrightarrow> prog2 i = prog i" "mcFrame mc1 mc2" "mc_insertionSet mc2 = []" "valuesIn (mc_proc mc2) b = spliced (valuesIn p b) ins"
        "\<And>c. c \<noteq> b \<Longrightarrow> valuesIn (mc_proc mc2) c = valuesIn (mc_proc mc1) c" "\<And>c. block (mc_proc mc2) c = None \<longleftrightarrow> block (mc_proc mc1) c = None"
      by (rule moveBlock_moves [OF inv1(1) wt0 _ inv1(3) other [OF b(2)] vs [OF b(1)] fresh]) blast+
    have "blockMoved p c ((insOf(b := ins)) c) prog2 (mc_proc mc2)" if c: "c \<in> set (ys @ [b])" for c
    proof (cases "c = b")
      case True
      then show ?thesis using m(3,7) by (simp add: blockMoved_def)
    next
      case False
      then have c': "c \<in> set ys" "c \<in> set (blocksOf p)" using c b(3) by auto
      have "prog2 i = prog i" if "i \<in> set (valuesIn p c)" for i using m(4) disj [OF b(1) c'(2)] False that by auto
      then have "prog2 (valuesIn p c ! j) = prog (valuesIn p c ! j)" if "j < length (valuesIn p c)" for j using that by simp
      then show ?thesis using moved [OF c'(1)] m(8) [OF False] False by (simp add: blockMoved_def finishedTo_def)
    qed
    then show "\<exists>mc2. moveBlock b mc1 = Some mc2 \<and> ?I (ys @ [b]) mc2"
      using m(1,2,4,6,8,9) mcFrame_trans [OF inv1(2) m(5)] other new dead
      by (intro exI [of _ mc2] conjI exI [of _ prog2] exI [of _ "insOf(b := ins)"]) auto
  qed
  then show thesis using that by blast
qed

subsection \<open>The data section\<close>

lemma fillSection_nth:
  assumes "map snd t = [0..<length t]" "length t \<le> length d"
  shows "length (fold (\<lambda>(key, k) d. d[k := keyValue key]) t d) = length d \<and>
    (\<forall>j < length t. fold (\<lambda>(key, k) d. d[k := keyValue key]) t d ! j = keyValue (fst (t ! j)))"
  using assms
proof (induction t rule: rev_induct)
  case (snoc x t)
  have x: "snd x = length t" "map snd t = [0..<length t]" using snoc.prems(1) by simp_all
  show ?case using snoc.IH [OF x(2)] snoc.prems(2) x(1) by (auto simp: nth_append nth_list_update less_Suc_eq split: prod.splits)
qed simp

lemma fillSection_table:
  assumes t: "map snd t = [0..<length t]" "distinct (map fst t)" and key: "key \<in> fst ` set t"
  shows "hashGet t key < length (fillSection t)" "fillSection t ! hashGet t key = keyValue key"
proof -
  obtain j where j: "j < length t" "fst (t ! j) = key" using key by (auto simp: in_set_conv_nth)
  have "snd (t ! j) = map snd t ! j" using j(1) by simp
  then have "t ! j = (key, j)" using j t(1) by (simp add: prod_eq_iff)
  then have "map_of t key = Some j" using map_of_is_SomeI [OF t(2)] nth_mem [OF j(1)] by metis
  then have "hashGet t key = j" by (simp add: hashGet_def)
  then show "hashGet t key < length (fillSection t)" "fillSection t ! hashGet t key = keyValue key"
    using fillSection_nth [OF t(1), of "replicate (length t) 0"] j by (simp_all add: fillSection_def)
qed

lemma fillSection_length: "map snd t = [0..<length t] \<Longrightarrow> length (fillSection t) = length t"
  using fillSection_nth [of t "replicate (length t) 0"] by (simp add: fillSection_def)

lemma collect_collects:
  assumes wt: "wtStore (valuesOf p)"
  obtains t where "foldM collectConstant (liveValues p)
      \<lparr>mc_proc = p, mc_toRemove = [], mc_constTable = [], mc_dataSection = 0, mc_data = [], mc_constants = [], mc_insertionSet = []\<rparr> =
    Some \<lparr>mc_proc = p, mc_toRemove = filter (\<lambda>i. isConstant (the (valuesOf p i))) (liveValues p), mc_constTable = t, mc_dataSection = 0,
      mc_data = [], mc_constants = [], mc_insertionSet = []\<rparr>"
    "map snd t = [0..<length t]" "distinct (map fst t)" "length t \<le> length (liveValues p)"
    "\<And>i v d. valuesOf p i = Some v \<Longrightarrow> isConstVal v (VD d) \<Longrightarrow> d \<noteq> posZero \<Longrightarrow> constKey (VD d) \<in> fst ` set t"
proof -
  let ?mc = "\<lambda>ys t. \<lparr>mc_proc = p, mc_toRemove = filter (\<lambda>i. isConstant (the (valuesOf p i))) ys, mc_constTable = t, mc_dataSection = 0,
      mc_data = [], mc_constants = [], mc_insertionSet = []\<rparr>"
  let ?T = "\<lambda>ys t. map snd t = [0..<length t] \<and> distinct (map fst t) \<and> length t \<le> length ys \<and>
    (\<forall>i \<in> set ys. \<forall>v d. valuesOf p i = Some v \<longrightarrow> isConstVal v (VD d) \<longrightarrow> d \<noteq> posZero \<longrightarrow> constKey (VD d) \<in> fst ` set t)"
  have "\<exists>mc. foldM collectConstant (liveValues p) (?mc [] []) = Some mc \<and> (\<exists>t. mc = ?mc (liveValues p) t \<and> ?T (liveValues p) t)"
  proof (rule foldM_invariant)
    show "\<exists>t. ?mc [] [] = ?mc [] t \<and> ?T [] t" by simp
    fix ys i zs mc
    assume xs: "liveValues p = ys @ i # zs" and I: "\<exists>t. mc = ?mc ys t \<and> ?T ys t"
    obtain t where t: "mc = ?mc ys t" "map snd t = [0..<length t]" "distinct (map fst t)" "length t \<le> length ys"
        "\<And>j v d. j \<in> set ys \<Longrightarrow> valuesOf p j = Some v \<Longrightarrow> isConstVal v (VD d) \<Longrightarrow> d \<noteq> posZero \<Longrightarrow> constKey (VD d) \<in> fst ` set t"
      using I by blast
    have "i \<in> set (liveValues p)" using xs by simp
    then obtain v where v: "valuesOf p i = Some v" by (auto simp: liveValues_def)
    show "\<exists>mc'. collectConstant i mc = Some mc' \<and> (\<exists>t. mc' = ?mc (ys @ [i]) t \<and> ?T (ys @ [i]) t)"
    proof (cases "isConstant v")
      case False
      then have "\<not> isConstVal v x" for x by (auto simp: isConstVal_isConstant)
      then have "?T (ys @ [i]) t" using t(2-5) v by auto
      moreover have "collectConstant i mc = Some (?mc (ys @ [i]) t)" using False v t(1) by (simp add: collectConstant_def needsMotion_def)
      ultimately show ?thesis by blast
    next
      case True
      obtain x where x: "valueKey v = Some (constKey x)" "isConstVal v x" "x \<noteq> VVoid" by (rule valueKey_constant [OF True wtStoreD [OF wt v]])
      have one: "y = x" if "isConstVal v y" for y using that x(2) by (cases x; cases y; auto simp: isConstVal_def)
      let ?t = "if goesInTable (constKey x) then hashAdd (constKey x) (length t) t else t"
      have sub: "fst ` set t \<subseteq> fst ` set ?t" by (auto simp: hashAdd_def)
      have here: "constKey (VD d) \<in> fst ` set ?t" if "isConstVal v (VD d)" "d \<noteq> posZero" for d
      proof -
        have "x = VD d" using one [OF that(1)] by simp
        then have g: "goesInTable (constKey x)" "constKey (VD d) = constKey x" using that(2) by auto
        have "constKey x \<in> fst ` set (hashAdd (constKey x) (length t) t)"
          by (cases "map_of t (constKey x)") (auto simp: hashAdd_def map_of_eq_None_iff dest: map_of_SomeD intro: rev_image_eqI)
        then show ?thesis using g by simp
      qed
      have "collectConstant i mc = Some (?mc (ys @ [i]) ?t)" using True v x(1) t(1) by (simp add: collectConstant_def needsMotion_def del: goesInTable_constKey)
      moreover have "map snd ?t = [0..<length ?t]" using t(2) by (simp add: hashAdd_def)
      moreover have "distinct (map fst ?t)" using t(3) by (auto simp: hashAdd_def map_of_eq_None_iff)
      moreover have "length ?t \<le> length (ys @ [i])" using t(4) by (simp add: hashAdd_def)
      moreover have "constKey (VD d) \<in> fst ` set ?t" if j: "j \<in> set (ys @ [i])" "valuesOf p j = Some u" "isConstVal u (VD d)" "d \<noteq> posZero" for j u d
      proof (cases "j = i")
        case True
        then show ?thesis using here [of d] j v by simp
      next
        case False
        then show ?thesis using subsetD [OF sub t(5) [of j u d]] j by simp
      qed
      ultimately have "?T (ys @ [i]) ?t" by blast
      then show ?thesis using \<open>collectConstant i mc = Some (?mc (ys @ [i]) ?t)\<close> by blast
    qed
  qed
  then obtain t where F: "foldM collectConstant (liveValues p) (?mc [] []) = Some (?mc (liveValues p) t)" and T: "?T (liveValues p) t" by blast
  have mem: "constKey (VD d) \<in> fst ` set t" if i: "valuesOf p i = Some v" "isConstVal v (VD d)" "d \<noteq> posZero" for i v d
  proof -
    have "i \<in> set (liveValues p)" using i(1) by (auto simp: liveValues_def valuesOf_eq split: if_splits)
    then show ?thesis using T i by blast
  qed
  show thesis
  proof (rule that [of t])
    show "constKey (VD d) \<in> fst ` set t" if "valuesOf p i = Some v" "isConstVal v (VD d)" "d \<noteq> posZero" for i v d using that by (rule mem)
  qed (use F T in simp_all)
qed

subsection \<open>The whole phase\<close>

text \<open>The store after the phase: constants are no-ops, and every other value has its children moved.\<close>

definition constantsMoved :: "store \<Rightarrow> int64 \<Rightarrow> int64 list \<Rightarrow> store \<Rightarrow> bool" where
  "constantsMoved s D data s' \<longleftrightarrow>
     (\<forall>i v. s i = Some v \<longrightarrow>
        (if isConstant v then s' i = Some (replaceWithNop v)
         else \<exists>ds A. s' i = Some (v\<lparr>m_children := ds\<rparr>) \<and> list_all2 (movedChild s D data s' A) (m_children v) ds))"

text \<open>The results of the original procedure: a constant is its value, everything else is as in the new procedure.\<close>

definition constEnv :: "store \<Rightarrow> env \<Rightarrow> env" where
  "constEnv s env i = (case s i of None \<Rightarrow> env i | Some v \<Rightarrow> (case constVal v of None \<Rightarrow> env i | Some x \<Rightarrow> x))"

lemma constVal_isConstant: "constVal v = None \<longleftrightarrow> \<not> isConstant v"
  by (auto simp: constVal_def isConstant_def)

lemma constEnv_const: "s i = Some v \<Longrightarrow> isConstVal v x \<Longrightarrow> constEnv s env i = x"
  by (simp add: constEnv_def constVal_isConstVal)

lemma constEnv_other: "s i = Some v \<Longrightarrow> \<not> isConstant v \<Longrightarrow> constEnv s env i = env i"
  by (simp add: constEnv_def constVal_isConstant [symmetric])

lemma moved_eval:
  assumes "args env (v\<lparr>m_children := ds\<rparr>) = args env0 v" "env i = env0 i"
  shows "evalValue env (v\<lparr>m_children := ds\<rparr>) = evalValue env0 v" "observe env i (v\<lparr>m_children := ds\<rparr>) = observe env0 i v"
  using assms
  by (simp add: evalValue_def) (cases "m_opcode v", simp_all add: observe_def observeAccess_def assms split: list.splits)

lemma moved_args:
  assumes sol: "solution s' env" "tableLoads D data s' env" "8 * length data \<le> 2 ^ 31"
    and moved: "list_all2 (movedChild s D data s' A) (m_children v) ds"
  shows "args env (v\<lparr>m_children := ds\<rparr>) = args (constEnv s env) v"
proof -
  have "env d = constEnv s env c" if m: "movedChild s D data s' A c d" for c d
  proof (cases "s c")
    case (Some cv)
    show ?thesis
    proof (cases "isConstant cv")
      case True
      then obtain x where "isConstVal cv x" "standsFor s D data s' d x" using m Some by (auto simp: movedChild_def)
      then show ?thesis using standsFor_env [OF _ sol] constEnv_const [where s = s and i = c and v = cv] Some by simp
    qed (use m Some constEnv_other [where s = s and i = c and v = cv] in \<open>simp add: movedChild_def\<close>)
  qed (use m in \<open>simp add: movedChild_def\<close>)
  then have "list_all2 (\<lambda>c d. env d = constEnv s env c) (m_children v) ds" using moved by (auto elim: list_all2_mono)
  then show ?thesis by (auto simp: args_def list_all2_conv_all_nth intro: nth_equalityI)
qed

lemma constantsMoved_solution:
  assumes moved: "constantsMoved s D data s'" and wt: "wtStore s"
    and sol: "solution s' env" "tableLoads D data s' env" "8 * length data \<le> 2 ^ 31"
  shows "solution s (constEnv s env)"
    "s i = Some v \<Longrightarrow> \<not> isConstant v \<Longrightarrow> constEnv s env i = env i \<and> (\<exists>v'. s' i = Some v' \<and> observe env i v' = observe (constEnv s env) i v)"
proof -
  have other: "constEnv s env i = env i" "solves (constEnv s env) i v" "\<exists>v'. s' i = Some v' \<and> observe env i v' = observe (constEnv s env) i v"
    if i: "s i = Some v" "\<not> isConstant v" for i v
  proof -
    obtain ds A where ds: "s' i = Some (v\<lparr>m_children := ds\<rparr>)" "list_all2 (movedChild s D data s' A) (m_children v) ds"
      using moved i unfolding constantsMoved_def by fastforce
    show e: "constEnv s env i = env i" using i by (rule constEnv_other)
    note E = moved_eval [OF moved_args [OF sol ds(2)] e [symmetric]]
    show "solves (constEnv s env) i v" using solutionD [OF sol(1) ds(1)] E(1) e by (simp add: solves_def)
    show "\<exists>v'. s' i = Some v' \<and> observe env i v' = observe (constEnv s env) i v" using ds(1) E(2) by blast
  qed
  have "solves (constEnv s env) i v" if i: "s i = Some v" for i v
  proof (cases "isConstant v")
    case True
    then obtain x where "isConstVal v x" by (rule valueKey_constant [OF _ wtStoreD [OF wt i]])
    then show ?thesis using constEnv_const [where s = s and i = i and v = v] i isConstVal_eval isConstVal_type by (simp add: solves_def)
  qed (use other(2) [OF i] in simp)
  then show "solution s (constEnv s env)" by (simp add: solution_def)
  show "s i = Some v \<Longrightarrow> \<not> isConstant v \<Longrightarrow> constEnv s env i = env i \<and> (\<exists>v'. s' i = Some v' \<and> observe env i v' = observe (constEnv s env) i v)"
    using other by blast
qed

text \<open>The last loop.\<close>

lemma removeConstants_store:
  assumes inv: "procInv (mc_proc mc)" and dom: "set is \<subseteq> dom (valuesOf (mc_proc mc))"
  obtains p' where "foldM removeConstant is mc = Some (mc\<lparr>mc_proc := p'\<rparr>)" "procInv p'" "m_heap p' = m_heap (mc_proc mc)" "m_blocks p' = m_blocks (mc_proc mc)"
    "valuesOf p' = (\<lambda>i. if i \<in> set is then map_option replaceWithNop (valuesOf (mc_proc mc) i) else valuesOf (mc_proc mc) i)"
proof -
  let ?s = "valuesOf (mc_proc mc)"
  let ?I = "\<lambda>ys mc'. \<exists>p'. mc' = mc\<lparr>mc_proc := p'\<rparr> \<and> procInv p' \<and> m_heap p' = m_heap (mc_proc mc) \<and> m_blocks p' = m_blocks (mc_proc mc) \<and>
    valuesOf p' = (\<lambda>i. if i \<in> set ys then map_option replaceWithNop (?s i) else ?s i)"
  have "\<exists>mc'. foldM removeConstant is mc = Some mc' \<and> ?I is mc'"
  proof (rule foldM_invariant)
    show "?I [] mc" using inv by (intro exI [of _ "mc_proc mc"]) simp
    fix ys i zs mc1
    assume xs: "is = ys @ i # zs" and I: "?I ys mc1"
    obtain p1 where p1: "mc1 = mc\<lparr>mc_proc := p1\<rparr>" "procInv p1" "m_heap p1 = m_heap (mc_proc mc)" "m_blocks p1 = m_blocks (mc_proc mc)"
        "valuesOf p1 = (\<lambda>i. if i \<in> set ys then map_option replaceWithNop (?s i) else ?s i)" using I by blast
    obtain v where v: "?s i = Some v" using dom xs by auto
    let ?u = "if i \<in> set ys then replaceWithNop v else v"
    have u: "valuesOf p1 i = Some ?u" "replaceWithNop ?u = replaceWithNop v" using p1(5) v by (simp_all add: replaceWithNop_def mkValue_def)
    let ?p = "setValue i (replaceWithNop ?u) p1"
    have "valuesOf ?p = (\<lambda>j. if j \<in> set (ys @ [i]) then map_option replaceWithNop (?s j) else ?s j)"
      using valuesOf_setValue [of p1 i] u v p1(5) by (auto simp: fun_eq_iff)
    moreover have "removeConstant i mc1 = Some (mc\<lparr>mc_proc := ?p\<rparr>)" using u(1) p1(1) by (simp add: removeConstant_def)
    moreover have "procInv ?p" using procInv_setValue [OF p1(2)] u(1) by simp
    ultimately show "\<exists>mc2. removeConstant i mc1 = Some mc2 \<and> ?I (ys @ [i]) mc2" using p1(3,4) by auto
  qed
  then show thesis using that by blast
qed

definition upsilonsSetPhis :: "store \<Rightarrow> bool" where
  "upsilonsSetPhis s \<longleftrightarrow> (\<forall>i v phi. s i = Some v \<longrightarrow> m_opcode v = Upsilon \<longrightarrow> upsilonPhi v = Some phi \<longrightarrow> (\<exists>w. s phi = Some w \<and> m_opcode w = Phi))"

text \<open>The materializations that a value uses are in its own block, no later than it.\<close>

definition materializedInBlock :: "Procedure \<Rightarrow> Procedure \<Rightarrow> block_ptr \<Rightarrow> bool" where
  "materializedInBlock p p' b \<longleftrightarrow>
     (\<exists>ins. valuesIn p' b = spliced (valuesIn p b) ins \<and>
        (\<forall>j < length (valuesIn p b). \<forall>v c. valuesOf p' (valuesIn p b ! j) = Some v \<longrightarrow> c \<in> set (m_children v) \<longrightarrow> valuesOf p c = None \<longrightarrow>
           (\<exists>k \<le> j. (k, c) \<in> set ins)))"

lemma mcInv_initial:
  assumes "procInv p" "wtStore (valuesOf p)" "map snd t = [0..<length t]" "distinct (map fst t)"
    "\<And>i v d. valuesOf p i = Some v \<Longrightarrow> isConstVal v (VD d) \<Longrightarrow> d \<noteq> posZero \<Longrightarrow> constKey (VD d) \<in> fst ` set t"
  shows "mcInv (valuesOf p) (\<lambda>_. (0, {}))
    \<lparr>mc_proc = p, mc_toRemove = is, mc_constTable = t, mc_dataSection = D, mc_data = fillSection t, mc_constants = [], mc_insertionSet = []\<rparr>"
proof -
  have "inTable (valuesOf p) \<lparr>mc_proc = p, mc_toRemove = is, mc_constTable = t, mc_dataSection = D, mc_data = fillSection t, mc_constants = [], mc_insertionSet = []\<rparr>"
    using fillSection_table [OF assms(3,4)] assms(5) by (auto simp: inTable_def constKey_def)
  then show ?thesis using assms(1,2) by (auto simp: mcInv_def movedChildren_def intro!: exI [of _ "m_children _"])
qed

lemma replaceWithNop_wt: "wtValue s (replaceWithNop v)"
  by (simp add: replaceWithNop_def mkValue_def wtValue_def payloadOK_def accepts_defs validateChildren_def validateTypes_def numChildren_def isCheckMath_def)

lemma moved_child_kept:
  assumes "list_all2 (movedChild s D data s' A) cs ds" "d \<in> set ds"
  shows "s d = None \<and> d \<in> A \<or> (\<exists>w. s d = Some w \<and> \<not> isConstant w)"
proof -
  obtain c where "movedChild s D data s' A c d" using assms by (auto simp: list_all2_conv_all_nth in_set_conv_nth)
  then show ?thesis by (auto simp: movedChild_def standsFor_def split: option.splits if_splits)
qed

lemma moved_store:
  assumes inv: "mcInv s prog mc" and fin: "\<forall>i v. s i = Some v \<longrightarrow> (\<exists>A. prog i = (length (m_children v), A))"
    and R: "R = {i. \<exists>v. s i = Some v \<and> isConstant v}" and phis: "upsilonsSetPhis s"
    and s': "s' = (\<lambda>i. if i \<in> R then map_option replaceWithNop (valuesOf (mc_proc mc) i) else valuesOf (mc_proc mc) i)"
  shows "constantsMoved s (mc_dataSection mc) (mc_data mc) s'" "wtStore s'"
    "s i = Some v \<Longrightarrow> s' i = Some w \<Longrightarrow> c \<in> set (m_children w) \<Longrightarrow> s c = None \<Longrightarrow> c \<in> snd (prog i)"
proof -
  let ?s = "valuesOf (mc_proc mc)" and ?D = "mc_dataSection mc" and ?data = "mc_data mc"
  have fresh: "s' j = Some w" if "s j = None" "?s j = Some w" for j w using that by (simp add: s' R)
  have old: "\<exists>ds. ?s i = Some (v\<lparr>m_children := ds\<rparr>) \<and> list_all2 (movedChild s ?D ?data s' (snd (prog i))) (m_children v) ds" if i: "s i = Some v" for i v
  proof -
    obtain ds where ds: "?s i = Some (v\<lparr>m_children := ds\<rparr>)" "movedChildren s ?D ?data ?s (prog i) (m_children v) ds" using mcInvD(4) [OF inv i] by blast
    obtain A where A: "prog i = (length (m_children v), A)" using fin i by blast
    have "movedChildren s ?D ?data s' (length (m_children v), A) (m_children v) ds"
      by (rule movedChildren_mono [where s = ?s and A = A]) (use ds(2) A fresh in simp_all)
    then show ?thesis using ds(1) A by (intro exI [of _ ds]) (auto simp: movedChildren_def)
  qed
  show "constantsMoved s ?D ?data s'"
    unfolding constantsMoved_def
  proof (intro allI impI)
    fix i v assume i: "s i = Some v"
    obtain ds where ds: "?s i = Some (v\<lparr>m_children := ds\<rparr>)" "list_all2 (movedChild s ?D ?data s' (snd (prog i))) (m_children v) ds" using old [OF i] by blast
    show "if isConstant v then s' i = Some (replaceWithNop v)
         else \<exists>ds A. s' i = Some (v\<lparr>m_children := ds\<rparr>) \<and> list_all2 (movedChild s ?D ?data s' A) (m_children v) ds"
      using i ds by (auto simp: s' R replaceWithNop_def)
  qed
  show "c \<in> snd (prog i)" if i: "s i = Some v" "s' i = Some w" "c \<in> set (m_children w)" "s c = None" for i v w c
  proof -
    obtain ds where ds: "?s i = Some (v\<lparr>m_children := ds\<rparr>)" "list_all2 (movedChild s ?D ?data s' (snd (prog i))) (m_children v) ds" using old [OF i(1)] by blast
    have "c \<in> set ds" using i(2,3) ds(1) by (auto simp: s' replaceWithNop_def mkValue_def split: if_splits)
    then show ?thesis using moved_child_kept [OF ds(2), of c] i(4) by simp
  qed
  show "wtStore s'"
    unfolding wtStore_def
  proof (intro allI impI)
    fix i w assume w: "s' i = Some w"
    show "wtValue s' w"
    proof (cases "i \<in> R")
      case True
      then show ?thesis using w replaceWithNop_wt by (auto simp: s')
    next
      case False
      then have w1: "?s i = Some w" using w by (simp add: s')
      have kids: "c \<notin> R" if c: "c \<in> set (m_children w)" for c
      proof (cases "s i")
        case None
        then show ?thesis using mcInvD(5) [OF inv None w1] c by (auto simp: R)
      next
        case (Some v)
        then obtain ds where ds: "?s i = Some (v\<lparr>m_children := ds\<rparr>)" "list_all2 (movedChild s ?D ?data s' (snd (prog i))) (m_children v) ds" using old by blast
        then show ?thesis using moved_child_kept [OF ds(2), of c] c w1 by (auto simp: R)
      qed
      have phi: "phi \<notin> R" if u: "m_opcode w = Upsilon" "upsilonPhi w = Some phi" for phi
      proof (cases "s i")
        case None
        then show ?thesis using mcInvD(5) [OF inv None w1] u by simp
      next
        case (Some v)
        then obtain ds where "?s i = Some (v\<lparr>m_children := ds\<rparr>)" using old by blast
        then have "m_opcode v = Upsilon" "upsilonPhi v = Some phi" using u w1 by (auto simp: upsilonPhi_def)
        then obtain pv where "s phi = Some pv" "m_opcode pv = Phi" using phis Some unfolding upsilonsSetPhis_def by blast
        then show ?thesis by (simp add: R isConstant_def)
      qed
      show ?thesis by (rule wtValue_cong [OF wtStoreD [OF mcInvD(2) [OF inv] w1]]) (use kids phi in \<open>simp_all add: s'\<close>)
    qed
  qed
qed

text \<open>The phase as a whole.\<close>

theorem moveConstants_moves:
  assumes inv: "procInv p" "wtStore (valuesOf p)" and pl: "placement p" "distinct (blocksOf p)" and live: "\<And>b. b \<in> set (blocksOf p) \<Longrightarrow> block p b \<noteq> None"
    and phis: "upsilonsSetPhis (valuesOf p)" and small: "length (m_values p) \<le> 2 ^ 28"
  obtains mc where "moveConstants allocate p = Some mc" "procInv (mc_proc mc)" "wtStore (valuesOf (mc_proc mc))" "m_blocks (mc_proc mc) = m_blocks p"
    "\<And>b. b \<in> set (blocksOf p) \<Longrightarrow> materializedInBlock p (mc_proc mc) b" "constantsMoved (valuesOf p) (mc_dataSection mc) (mc_data mc) (valuesOf (mc_proc mc))"
    "8 * length (mc_data mc) \<le> 2 ^ 31"
proof -
  let ?is = "filter (\<lambda>i. isConstant (the (valuesOf p i))) (liveValues p)"
  obtain t where col: "foldM collectConstant (liveValues p)
      \<lparr>mc_proc = p, mc_toRemove = [], mc_constTable = [], mc_dataSection = 0, mc_data = [], mc_constants = [], mc_insertionSet = []\<rparr> =
    Some \<lparr>mc_proc = p, mc_toRemove = ?is, mc_constTable = t, mc_dataSection = 0, mc_data = [], mc_constants = [], mc_insertionSet = []\<rparr>"
    and t: "map snd t = [0..<length t]" "distinct (map fst t)" "length t \<le> length (liveValues p)"
      "\<And>i v d. valuesOf p i = Some v \<Longrightarrow> isConstVal v (VD d) \<Longrightarrow> d \<noteq> posZero \<Longrightarrow> constKey (VD d) \<in> fst ` set t"
    by (rule collect_collects [OF inv(2)]) blast
  let ?D = "addDataSection allocate (length t * 8)"
  let ?mc = "\<lparr>mc_proc = p, mc_toRemove = ?is, mc_constTable = t, mc_dataSection = ?D, mc_data = fillSection t, mc_constants = [], mc_insertionSet = []\<rparr>"
  have inv0: "mcInv (valuesOf p) (\<lambda>_. (0, {})) ?mc" by (rule mcInv_initial [OF inv t(1,2)]) (rule t(4))
  obtain mc prog insOf where m: "foldM moveBlock (blocksOf p) ?mc = Some mc" "mcInv (valuesOf p) prog mc" "mcFrame ?mc mc"
      "\<And>b. b \<in> set (blocksOf p) \<Longrightarrow> blockMoved p b (insOf b) prog (mc_proc mc)"
    by (rule moveBlocks_move [OF inv0 _ _ inv(2) pl live]) (simp, simp, assumption, blast)
  have frame: "mc_toRemove mc = ?is" "mc_dataSection mc = ?D" "mc_data mc = fillSection t" "m_blocks (mc_proc mc) = m_blocks p" using m(3) by (simp_all add: mcFrame_def)
  have isR: "set ?is = {i. \<exists>v. valuesOf p i = Some v \<and> isConstant v}" by (auto simp: liveValues_def valuesOf_eq split: if_splits)
  have dom: "set (mc_toRemove mc) \<subseteq> dom (valuesOf (mc_proc mc))" using dom_kept [OF m(2)] isR frame(1) by auto
  obtain p' where p': "foldM removeConstant (mc_toRemove mc) mc = Some (mc\<lparr>mc_proc := p'\<rparr>)" "procInv p'" "m_heap p' = m_heap (mc_proc mc)"
      "m_blocks p' = m_blocks (mc_proc mc)"
      "valuesOf p' = (\<lambda>i. if i \<in> set (mc_toRemove mc) then map_option replaceWithNop (valuesOf (mc_proc mc) i) else valuesOf (mc_proc mc) i)"
    by (rule removeConstants_store [OF mcInvD(1) [OF m(2)] dom])
  have fin: "\<exists>A. prog (valuesIn p b ! j) = (length (m_children v), A) \<and> (\<forall>c \<in> A. \<exists>k \<le> j. (k, c) \<in> set (insOf b))"
    if "b \<in> set (blocksOf p)" "j < length (valuesIn p b)" "valuesOf p (valuesIn p b ! j) = Some v" for b j v
    using m(4) [OF that(1)] that(2,3) unfolding blockMoved_def finishedTo_def by blast
  have place: "\<exists>b j. b \<in> set (blocksOf p) \<and> j < length (valuesIn p b) \<and> valuesIn p b ! j = i" if "valuesOf p i = Some v" for i v
  proof -
    have "i \<in> set (placedValues p)" using pl(1) that by (auto simp: placement_def)
    then show ?thesis by (auto simp: placedValues_def in_set_conv_nth)
  qed
  have finished: "\<forall>i v. valuesOf p i = Some v \<longrightarrow> (\<exists>A. prog i = (length (m_children v), A))" using place fin by blast
  have R: "set (mc_toRemove mc) = {i. \<exists>v. valuesOf p i = Some v \<and> isConstant v}" using isR frame(1) by simp
  note S = moved_store [OF m(2) finished R phis p'(5)]
  have blocks: "materializedInBlock p p' b" if b: "b \<in> set (blocksOf p)" for b
    unfolding materializedInBlock_def
  proof (intro exI [of _ "insOf b"] conjI allI impI)
    show "valuesIn p' b = spliced (valuesIn p b) (insOf b)" using m(4) [OF b] p'(3) by (simp add: blockMoved_def valuesIn_def block_def)
    fix j v c assume j: "j < length (valuesIn p b)" "valuesOf p' (valuesIn p b ! j) = Some v" "c \<in> set (m_children v)" "valuesOf p c = None"
    have "valuesIn p b ! j \<in> dom (valuesOf p)" using pl(1) b j(1) by (force simp: placement_def placedValues_def)
    then obtain v0 where v0: "valuesOf p (valuesIn p b ! j) = Some v0" by auto
    then show "\<exists>k \<le> j. (k, c) \<in> set (insOf b)" using fin [OF b j(1) v0] S(3) [OF v0 j(2-4)] by auto
  qed
  have "moveConstants allocate p = Some (mc\<lparr>mc_proc := p'\<rparr>)" using col m(1) p'(1) by (simp add: moveConstants_def)
  moreover have "length (liveValues p) \<le> length (m_values p)" unfolding liveValues_def by (metis length_filter_le length_upt minus_nat.diff_0)
  then have "8 * length (mc_data mc) \<le> 2 ^ 31" using small t(3) fillSection_length [OF t(1)] frame(3) by simp
  ultimately show thesis using that [of "mc\<lparr>mc_proc := p'\<rparr>"] p'(2,4) S(1,2) blocks frame(2-4) by simp
qed

end
