(* ===== verification/B3ConstantsExample.thy ===== *)
theory B3ConstantsExample
  imports B3Example B3MoveConstants
begin

text \<open>
  A procedure with a double and an integer constant, used in two blocks, on which the theorem about the phase
  \<open>moveConstants\<close> is exercised.
\<close>

definition three :: int64 where
  "three = 0x4008000000000000"

definition constantsProcedure :: Procedure where
  "constantsProcedure =
     addPredecessorTo 1 0
       (fold (\<lambda>(b, v) p. snd (appendNew b v p))
          [(0, ConstDoubleValue 0 three), (0, Const64Value 0 5), (0, mkValue Add Int64 0 [1, 1] NoPayload),
           (0, mkValue Store Void 0 [0, 2] (MemoryPayload 0 topRange)), (0, JumpValue 0 (1, Normal)), (1, ReturnValue 0 0)]
          (snd (addBlock 0 (snd (addBlock 0 emptyProcedure)))))"

definition movedProcedure :: Procedure where
  "movedProcedure = (case moveConstants (\<lambda>_. 4096) constantsProcedure of Some mc \<Rightarrow> mc_proc mc | None \<Rightarrow> emptyProcedure)"

lemma constantsProcedure_validates: "validateProcedure constantsProcedure"
  by code_simp

lemma constantsProcedure_constructed: "checkStore constantsProcedure (constructedOK (valuesOf constantsProcedure))"
  by code_simp

lemma constantsProcedure_blocks: "m_blocks constantsProcedure = [Some 0, Some 1]" "block constantsProcedure 0 \<noteq> None" "block constantsProcedure 1 \<noteq> None"
  by code_simp+

lemma constantsProcedure_phis: "upsilonsSetPhis (valuesOf constantsProcedure)"
proof -
  have "checkStore constantsProcedure (\<lambda>v. m_opcode v \<noteq> Upsilon)" by code_simp
  then show ?thesis using checkStoreD unfolding upsilonsSetPhis_def by blast
qed

lemma constantsProcedure_procInv: "procInv constantsProcedure"
  unfolding procInv_iff by code_simp

lemma constantsProcedure_ready:
  "procInv constantsProcedure" "wtStore (valuesOf constantsProcedure)" "placement constantsProcedure" "distinct (blocksOf constantsProcedure)"
  "\<forall>b \<in> set (blocksOf constantsProcedure). block constantsProcedure b \<noteq> None" "upsilonsSetPhis (valuesOf constantsProcedure)"
  "length (m_values constantsProcedure) \<le> 2 ^ 28"
proof -
  show "procInv constantsProcedure" by (rule constantsProcedure_procInv)
  show "wtStore (valuesOf constantsProcedure)"
    by (rule validateProcedure_wtStore [OF constantsProcedure_validates]) (rule checkStoreD [OF constantsProcedure_constructed])
  show "placement constantsProcedure" by (rule validateProcedure_placement [OF constantsProcedure_validates])
  show "distinct (blocksOf constantsProcedure)" by (simp add: blocksOf_def constantsProcedure_blocks)
  show "\<forall>b \<in> set (blocksOf constantsProcedure). block constantsProcedure b \<noteq> None" using constantsProcedure_blocks by (simp add: blocksOf_def del: not_None_eq One_nat_def)
  show "upsilonsSetPhis (valuesOf constantsProcedure)" by (rule constantsProcedure_phis)
  have "length (m_values constantsProcedure) = 6" by code_simp
  then show "length (m_values constantsProcedure) \<le> 2 ^ 28" by simp
qed

text \<open>The blocks after the phase: the double is loaded in each block, from a base address that is a constant.\<close>

lemma movedProcedure_values:
  "valuesIn movedProcedure 0 = [0, 1, 6, 2, 7, 8, 3, 4]" "valuesIn movedProcedure 1 = [9, 10, 5]"
  by code_simp+

lemma moveConstants_data: "map_option (\<lambda>mc. (mc_dataSection mc, mc_data mc)) (moveConstants (\<lambda>_. 4096) constantsProcedure) = Some (4096, [three])"
  by code_simp

definition constantsEnv :: env where
  "constantsEnv i = [VVoid, VVoid, V64 10, VVoid, VVoid, VVoid, V64 5, V64 4096, VD three, V64 4096, VD three] ! i"

definition checkEnv :: "Value option list \<Rightarrow> int64 \<Rightarrow> int64 list \<Rightarrow> env \<Rightarrow> bool" where
  "checkEnv vs D data env \<longleftrightarrow>
     list_all (\<lambda>(i, ov). case ov of
        None \<Rightarrow> True
      | Some w \<Rightarrow> solves env i w \<and>
          (m_opcode w = Load \<and> m_type w = Double \<longrightarrow>
             list_all (\<lambda>k. address (args env w) (memOffset w) = V64 (D + of_nat (8 * k)) \<longrightarrow> env i = VD (data ! k)) [0..<length data]))
       (enumerate 0 vs)"

lemma checkEnv_holds:
  assumes "checkEnv (m_values p) D data env"
  shows "solution (valuesOf p) env" "tableLoads D data (valuesOf p) env"
proof -
  have *: "solves env i w \<and> (\<forall>k < length data. m_opcode w = Load \<and> m_type w = Double \<and> address (args env w) (memOffset w) = V64 (D + of_nat (8 * k)) \<longrightarrow>
      env i = VD (data ! k))" if i: "valuesOf p i = Some w" for i w
  proof -
    have "(i, Some w) \<in> set (enumerate 0 (m_values p))" using i by (auto simp: valuesOf_eq in_set_enumerate_eq split: if_splits)
    then show ?thesis using assms unfolding checkEnv_def list_all_iff by fastforce
  qed
  show "solution (valuesOf p) env" using * by (simp add: solution_def)
  show "tableLoads D data (valuesOf p) env" using * by (simp add: tableLoads_def)
qed

lemma movedProcedure_store:
  "m_values movedProcedure =
     map Some [replaceWithNop (ConstDoubleValue 0 three), replaceWithNop (Const64Value 0 5), mkValue Add Int64 0 [6, 6] NoPayload,
       mkValue Store Void 0 [8, 2] (MemoryPayload 0 topRange), JumpValue 0 (1, Normal), ReturnValue 0 10,
       Const64Value 0 5, Const64Value 0 4096, tableLoad 0 7 0, Const64Value 0 4096, tableLoad 0 9 0]"
  by code_simp

lemma constantsEnv_checks: "checkEnv (m_values movedProcedure) 4096 [three] constantsEnv"
  unfolding movedProcedure_store checkEnv_def
  by (simp add: constantsEnv_def solves_def evalValue_def args_def mk_defs mkValue_def replaceWithNop_def tableLoad_def address_def memOffset_def ReturnValue_def JumpValue_def b3_eval)

end
