(* ===== verification/B3Folding.thy ===== *)
theory B3Folding
  imports B3ReduceEffects
begin

text \<open>
  The contracts of all folding methods of b3/B3Value.h together: the binary ones with their opcodes, the checked ones included,
  and the ones with a single operand.
\<close>

unbundle bit_operations_syntax

subsection \<open>Binary methods\<close>

definition checkFoldings :: "(opcode \<times> (Value \<Rightarrow> Value \<Rightarrow> Value option)) list" where
  "checkFoldings = [(CheckAdd, checkAddConstant), (CheckSub, checkSubConstant), (CheckMul, checkMulConstant)]"

lemma check_folding:
  assumes "(opcode, f) \<in> set checkFoldings" "f a b = Some w"
  shows "\<exists>x y z. constVal a = Some x \<and> constVal b = Some y \<and> constVal w = Some z \<and> typeOf z = typeOf x \<and>
    (\<forall>pl. evalOp opcode pl [x, y] = Exactly z) \<and> \<not> checkFails (checkOp opcode) [x, y]"
proof -
  have "check_fold opcode f"
    using assms(1) foldCheckAdd.check_fold_axioms foldCheckSub.check_fold_axioms foldCheckMul.check_fold_axioms
    by (auto simp: checkFoldings_def)
  from check_fold.folds [OF this assms(2)] obtain x y z where z: "constVal a = Some x" "constVal b = Some y" "isConstVal w z" "typeOf z = typeOf x"
    "checked (checkOp opcode) [x, y] = Exactly z" "\<not> checkFails (checkOp opcode) [x, y]" by blast
  moreover have "evalOp opcode pl [x, y] = checked (checkOp opcode) [x, y]" for pl
    using assms(1) by (auto simp: checkFoldings_def checkOp_def)
  ultimately show ?thesis using constVal_isConstVal by metis
qed

lemma binary_folding:
  assumes "(opcode, f) \<in> set (foldings @ checkFoldings)" "f a b = Some w"
  shows "\<exists>x y z. constVal a = Some x \<and> constVal b = Some y \<and> constVal w = Some z \<and> typeOf z = typeOf x \<and>
    (\<forall>pl. allows (evalOp opcode pl [x, y]) z) \<and> (isCheckMath opcode \<longrightarrow> \<not> checkFails (checkOp opcode) [x, y])"
proof (cases "(opcode, f) \<in> set foldings")
  case True
  then have "\<not> isCheckMath opcode" by (auto simp: foldings_def isCheckMath_def)
  then show ?thesis using folding_correct [OF True assms(2)] by blast
next
  case False
  then have "(opcode, f) \<in> set checkFoldings" using assms(1) by simp
  from check_folding [OF this assms(2)] show ?thesis by (metis allows.simps(1))
qed

subsection \<open>Methods with one operand\<close>

text \<open>An \<open>int32_t\<close> converted to a type.\<close>

fun intVal :: "b3type \<Rightarrow> int32 \<Rightarrow> val" where
  "intVal Int32 n = V32 n"
| "intVal Int64 n = V64 (scast n)"
| "intVal Double n = VD (doubleOfInt (sint n))"
| "intVal Void n = VVoid"

lemma constVal_mk [simp]:
  "constVal (Const32Value origin a) = Some (V32 a)" "constVal (Const64Value origin b) = Some (V64 b)" "constVal (ConstDoubleValue origin d) = Some (VD d)"
  by (simp_all add: constVal_isConstVal)

lemmas unary_eval = class_fold_defs dispatch constVal_simps math_def binary_def unary_def

lemma addConstant_int_folds:
  assumes "addConstant_int a n = Some w"
  shows "\<exists>x z. constVal a = Some x \<and> constVal w = Some z \<and> typeOf z = typeOf x \<and> (\<forall>pl. allows (evalOp Add pl [x, intVal (typeOf x) n]) z)"
  using assms by (auto simp: addConstant_int_def unary_eval split: if_splits)

lemma dmag_dneg [simp]: "dmag (dneg x) = dmag x"
proof -
  have "take_bit 63 (x XOR 2 ^ 63) = take_bit 63 x" by (rule bit_eqI) (auto simp: bit_simps)
  then have "take_bit 63 (unat (dneg x)) = take_bit 63 (unat x)" by (simp only: dneg_def flip: unsigned_take_bit_eq)
  then show ?thesis by (simp add: dmag_def take_bit_eq_mod)
qed

lemma isNaN_dneg [simp]: "isNaN (dneg x) = isNaN x"
  by (simp add: isNaN_def)

lemma dadd_dneg: "dadd x (dneg y) = dsub x y"
  by (simp add: dsub_def dadd_def)

text \<open>Adding the negated constant is subtracting the constant.\<close>

lemma negConstant_folds:
  assumes "negConstant a = Some w"
  shows "\<exists>x z. constVal a = Some x \<and> constVal w = Some z \<and> typeOf z = typeOf x \<and>
    (\<forall>y pl. typeOf y = typeOf x \<longrightarrow> evalOp Add pl [y, z] = evalOp Sub pl [y, x])"
  using assms by (auto simp: negConstant_def unary_eval dadd_dneg typeOf_cases split: if_splits)

lemma checkNegConstant_folds:
  assumes "checkNegConstant a = Some w"
  shows "\<exists>x z. constVal a = Some x \<and> constVal w = Some z \<and> typeOf z = typeOf x \<and>
    (\<forall>y pl. typeOf y = typeOf x \<longrightarrow> evalOp CheckAdd pl [y, z] = evalOp CheckSub pl [y, x] \<and>
       checkFails (+) [y, z] = checkFails (-) [y, x])"
proof -
  consider n where "constVal a = Some (V32 n)" "constVal w = Some (V32 (- n))" "n \<noteq> - n"
    | n where "constVal a = Some (V64 n)" "constVal w = Some (V64 (- n))" "n \<noteq> - n"
    using assms by (auto simp: checkNegConstant_def unary_eval split: if_splits)
  then show ?thesis by cases (simp_all add: checkSub_negated)
qed

lemma bitwiseCastConstant_folds:
  assumes "bitwiseCastConstant a = Some w"
  shows "\<exists>x z. constVal a = Some x \<and> constVal w = Some z \<and> (\<forall>pl. evalOp BitwiseCast pl [x] = Exactly z)"
  using assms by (auto simp: bitwiseCastConstant_def unary_eval split: if_splits)

end
