(* ===== verification/Spec2Isabelle.thy ===== *)
theory Spec2Isabelle
  imports WtfSort WtfMath WtfWorklist IeeeDouble B3Opcode B3Effects B3Value B3Const B3BlockUtils
    B3Procedure B3Validate B3Semantics B3ReduceStrength B3Rewrite B3ReduceSound B3ReduceRules B3ReduceArith
    B3ReduceConv B3ReduceEffects B3Process B3DeadCode B3ControlFlow Executions
    B3SimplifyCFG B3Example B3BlockInsertionSet B3LowerMacros B3Grow B3LowerSwitch
    B3SplitBlock B3LowerChillDiv B3ChillBuild B3ChillSound B3LowerShape B3LowerPhase B3MacroExample
    B3ValueKey B3MoveConstants B3ConstantsExample B3Folding B3ReduceRun
begin

text \<open>
  B3, the optimising backend of JavaScriptCore (src/JavaScriptCore/b3), and the WTF utilities it is
  built on (src/WTF/wtf).

  \<^bold>\<open>The program.\<close> A B3 \<open>Procedure\<close> owns basic blocks and values. A value is an operation with children, a
  block is a list of values that ends in a control value, and the phases of the compiler rewrite
  both in place. \<open>reduceStrength\<close> is the phase that simplifies: it visits the blocks in pre-order,
  rewrites one value at a time (\<open>process\<close>) and inserts what the rewrites create (\<open>InsertionSet\<close>),
  simplifies the control flow graph, recomputes reachability and removes dead code, until nothing
  changes. \<open>lowerMacros\<close> comes later: it replaces \<open>ChillDiv\<close> and \<open>Switch\<close> by branches, in blocks that a
  \<open>BlockInsertionSet\<close> collects and inserts at the end. The constant classes fold, the validator checks a procedure between phases, and the
  block utilities keep predecessors and compute orders with the worklists of WTF.

  \<^bold>\<open>The theories.\<close>
  \<^item> \<open>Prelude\<close>: partial list access, iteration that may crash, words, collections of simp rules.
  \<^item> \<open>Executions\<close>: executions of step functions and the locale \<open>shortcut\<close> of transformations that
    take two steps at once.
  \<^item> \<open>WtfSort\<close>: wtf/BubbleSort.h and wtf/Insertion.h on arrays with explicit indices.
  \<^item> \<open>WtfMath\<close>: wtf/MathExtras.h, wtf/CheckedArithmetic.h and wtf/TriState.h, what B3 calls of them.
  \<^item> \<open>WtfWorklist\<close>: wtf/GraphNodeWorklist.h; the locale \<open>finite_graph\<close> is its interface to clients.
  \<^item> \<open>IeeeDouble\<close>: the double arithmetic of the language on 64-bit patterns, rounding included.
  \<^item> \<open>B3Opcode\<close>, \<open>B3Effects\<close>: B3Opcode.h/.cpp, B3Type.h, B3Common.h, B3HeapRange.h, B3Effects.h/.cpp.
  \<^item> \<open>B3Value\<close>: class \<open>Value\<close> and its subclasses as one record with a payload, and B3Value.cpp.
  \<^item> \<open>B3Const\<close>: B3Const32Value.cpp, B3Const64Value.cpp, B3ConstDoubleValue.cpp and their dispatch.
  \<^item> \<open>B3BlockUtils\<close>: B3BasicBlockUtils.h, over any successor function.
  \<^item> \<open>B3Procedure\<close>: B3Procedure.h/.cpp, B3BasicBlock.h/.cpp, B3InsertionSet.cpp; the locale
    \<open>value_heap\<close> is the contract of allocation with reuse of indices.
  \<^item> \<open>B3Validate\<close>: B3Validate.cpp and the typing invariant it establishes.
  \<^item> \<open>B3Semantics\<close>: the meaning of the opcodes after the comments of B3Opcode.h, solutions of a store,
    observations, and the refinement that rewrites are proved against.
  \<^item> \<open>B3ReduceStrength\<close>: \<open>process()\<close> of B3ReduceStrength.cpp, one definition per rewrite.
  \<^item> \<open>B3Rewrite\<close>, \<open>B3ReduceSound\<close>, \<open>B3ReduceRules\<close>, \<open>B3ReduceArith\<close>, \<open>B3ReduceConv\<close>, \<open>B3ReduceEffects\<close>,
    \<open>B3Process\<close>: the rewrites are sound. The locales \<open>rewrite_rule\<close>, \<open>constant_fold\<close>, \<open>compare_fold\<close> and
    \<open>check_fold\<close> are the contracts of a handler and of the folding methods; they are interpreted on
    the folding methods of the model.
  \<^item> \<open>B3ControlFlow\<close>: orders, dominators and \<open>resetReachability\<close> on procedures.
  \<^item> \<open>B3SimplifyCFG\<close>: \<open>simplifyCFG\<close> of B3ReduceStrength.cpp and the executions it keeps.
  \<^item> \<open>B3DeadCode\<close>: \<open>killDeadCode\<close> of B3ReduceStrength.cpp against the least set of live values.
  \<^item> \<open>B3ReduceRun\<close>: \<open>run()\<close> of B3ReduceStrength.cpp, the pass over all blocks and the loop of iterations.
  \<^item> \<open>B3Folding\<close>: the contracts of all folding methods together.
  \<^item> \<open>B3BlockInsertionSet\<close>, \<open>B3SplitBlock\<close>: B3BlockInsertionSet.h/.cpp, the editing of cases in B3SwitchValue.cpp, and what
    \<open>splitForward\<close> does.
  \<^item> \<open>B3LowerMacros\<close>: B3LowerMacros.cpp, which lowers \<open>ChillDiv\<close> and \<open>Switch\<close>.
  \<^item> \<open>B3Grow\<close>: what building code in new blocks does to the store, the blocks and the predecessors.
  \<^item> \<open>B3LowerSwitch\<close>: the binary search selects the target of the switch.
  \<^item> \<open>B3LowerChillDiv\<close>, \<open>B3ChillBuild\<close>, \<open>B3ChillSound\<close>: the blocks of a lowered division, that \<open>lowerChillDiv\<close> builds
    them, and that they compute the quotient.
  \<^item> \<open>B3LowerShape\<close>, \<open>B3LowerPhase\<close>: the invariant of the phase, its loops and its result.
  \<^item> \<open>B3MacroExample\<close>: a procedure with both macros.
  \<^item> \<open>B3ValueKey\<close>: B3ValueKey.h, B3ValueKeyInlines.h and B3ValueKey.cpp with \<open>Value::key\<close>.
  \<^item> \<open>B3MoveConstants\<close>: B3MoveConstants.cpp. The allocator of data sections is a parameter, and that loads from a data section
    yield its contents is the hypothesis \<open>tableLoads\<close>: nothing writes to it after the phase.
  \<^item> \<open>B3ConstantsExample\<close>: a procedure with constants to move.
  \<^item> \<open>B3Example\<close>: small procedures on which the theorems are exercised.

  \<^bold>\<open>State and errors.\<close> A \<open>Value*\<close> is the index of the value in \<open>m_values\<close>, a \<open>BasicBlock*\<close> its position in
  the heap of blocks; freed indices are reused as in the source. A null dereference, an access out of
  range and a failed \<open>RELEASE_ASSERT\<close> are \<^term>\<open>None\<close>. Machine integers are words; doubles are bit patterns.
  The target is x86-64, the only one the source builds B3 for. Integer division traps (\<^term>\<open>None\<close>) on a zero divisor and on overflow.
  The sets of blocks that the source keys by \<open>block->index()\<close> are sets of blocks: the same as long as indices are unique, which
  \<open>Procedure\<close> maintains. \<open>std::sort\<close> of the cases of a switch is a stable sort: the same on distinct case values.

  \<^bold>\<open>What is shown.\<close> A rewrite never crashes, keeps typing and acyclic data flow, and refines: each
  solution of the rewritten values solves the original ones with the same observations (memory
  accesses, calls, exits, jumps, returns). Dead code elimination keeps exactly the live values and
  every solution. Simplifying the control flow graph keeps every execution. The validator
  establishes the typing invariant, which gives every value a result of its type; a validated procedure has a solution. The utilities are shown
  equal to reference definitions (stable sort, splicing, reachability, exact arithmetic).
  Lowering a switch or a division gives code that runs to the same block with the same result, and
  the phase \<open>lowerMacros\<close> ends with every macro lowered, so that its own assertion holds.
  Moving constants keeps the results and observations of every value that is not a constant; values with the same key
  yield the same result.

  \<^bold>\<open>Loops.\<close> Loops over blocks, values and indices are structural or come with a measure. Loops whose end
  depends on an invariant (the worklists, the pass over a block, the chase of identities, the marking
  loop) are \<open>partial_function (option)\<close>, and the theorems state that they return. The fixpoint of
  \<open>reduceStrength\<close> is \<open>reduceLoop\<close>: it is shown to return exactly when some iteration reports no change, not that one
  does, which the source does not guarantee either. The loop over the blocks inside an iteration is shown to end and to refine.
  The only fuel is in \<open>B3Example\<close>, where it is the number of values of a concrete block.

  \<^bold>\<open>Conditions.\<close> Two rewrites of the source are wrong, and the theorems exclude exactly them:
  \<open>NotEqual\<close> of a boolean with the constant one, and merging the root block into its predecessor. Both come with a
  theorem that exhibits the failure. A switch is lowered correctly when its case values are distinct
  and fit the type they are compared at; the source checks neither.

  \<^bold>\<open>Not modelled.\<close> Dumping, the parts of WTF and of the classes that only hold data for other phases,
  Air (register allocation and code generation, src/JavaScriptCore/b3/air) and the lowering of B3 to
  Air, which work on generated tables of machine instructions. Executions are followed at the level of
  terminals: inside a block the values are taken to run in order. The other subsystems of the
  repository do not interact with B3 except through the construction of procedures.
\<close>

subsection \<open>Strength reduction\<close>

text \<open>
  C1: one step of the strength reduction phase, on any value but a \<open>NotEqual\<close> of a boolean with the constant 1 (the operands
  taken through identities; \<open>miscompares\<close>), never crashes, keeps the procedure well-formed and
  well-typed with acyclic data flow, and refines it: every solution of the new values solves the old
  ones and shows the same observations. The values it adds are fresh and are recorded for insertion
  in front of the current one. On the excluded comparison the source's rewrite is wrong.
\<close>

theorem process_refines:
  assumes "phaseInv rs" "at (valuesIn (m_proc rs) (m_block rs)) (m_index rs) = Some i" "lookup rs i = Some v"
    and "\<not> miscompares (lookup rs) v"
  shows "\<exists>rs' js. process rs = Some rs' \<and> phaseInv rs' \<and> refines (lookup rs) (lookup rs') \<and>
    dom (lookup rs') = dom (lookup rs) \<union> set js \<and> set js \<inter> dom (lookup rs) = {} \<and>
    m_insertionSet rs' = m_insertionSet rs @ map (Pair (m_index rs)) js"
proof -
  have "ready (rs\<lparr>m_value := i\<rparr>)" using assms(1,3) by (simp add: phaseInv_def ready_def lookup_def cur_def)
  from process_reduces [OF assms(2) this assms(3,4)] obtain rs' js where
    "process rs = Some rs'" "reduced (rs\<lparr>m_value := i\<rparr>) rs' js" by blast
  then show ?thesis by (intro exI [of _ rs'] exI [of _ js]) (auto simp: reduced_def ready_def phaseInv_def lookup_def)
qed

theorem process_refines_witness:
  "\<exists>rs' js. process ((initialState sampleProcedure)\<lparr>m_index := 2\<rparr>) = Some rs' \<and> phaseInv rs' \<and>
    refines (valuesOf sampleProcedure) (lookup rs') \<and> m_insertionSet rs' = map (Pair 2) js"
proof -
  let ?rs = "(initialState sampleProcedure)\<lparr>m_index := 2\<rparr>"
  have "phaseInv ?rs" using phaseInv_initial by (simp add: phaseInv_def lookup_def)
  moreover have "at (valuesIn (m_proc ?rs) (m_block ?rs)) (m_index ?rs) = Some 2" by code_simp
  moreover have "lookup ?rs 2 = Some (mkValue Add Int32 0 [0, 1] NoPayload)" by code_simp
  moreover have "\<not> miscompares (lookup ?rs) (mkValue Add Int32 0 [0, 1] NoPayload)"
    by (simp add: miscompares_def comparesWithOne_def mk_defs split: option.splits)
  ultimately show ?thesis using process_refines [of ?rs 2] by (fastforce simp: lookup_def initialState_def)
qed

text \<open>
  C2: when no value it visits is a \<open>NotEqual\<close> of a boolean with the constant 1 (\<open>miscompares\<close>), the pass over one block ends, keeps every invariant including that each value is in exactly
  one block, refines the procedure, and changes the block only by putting new values in front of
  old ones.
\<close>

theorem processBlock_refines:
  assumes "phaseInv rs" "placement (m_proc rs)" "b \<in> set (blocksOf (m_proc rs))" "distinct (blocksOf (m_proc rs))"
    and "m_insertionSet rs = []"
    and sane: "\<forall>a i v. visits (rs\<lparr>m_block := b, m_index := 0\<rparr>) a \<longrightarrow>
        at (valuesIn (m_proc a) (m_block a)) (m_index a) = Some i \<longrightarrow> lookup a i = Some v \<longrightarrow> \<not> miscompares (lookup a) v"
  shows "\<exists>rs' new. processBlock b rs = Some rs' \<and> phaseInv rs' \<and> placement (m_proc rs') \<and>
    refines (lookup rs) (lookup rs') \<and> m_insertionSet rs' = [] \<and>
    valuesIn (m_proc rs') b = spliced (valuesIn (m_proc rs) b) new \<and>
    (\<forall>c. c \<noteq> b \<longrightarrow> valuesIn (m_proc rs') c = valuesIn (m_proc rs) c)"
  using processBlock_sound [OF assms(1-5)] sane by metis

theorem processBlock_refines_witness:
  "\<exists>rs'. processBlock 0 (initialState sampleProcedure) = Some rs' \<and> phaseInv rs' \<and> placement (m_proc rs') \<and>
    refines (valuesOf sampleProcedure) (lookup rs')"
proof -
  let ?rs = "initialState sampleProcedure"
  have p: "m_proc ?rs = sampleProcedure" "m_insertionSet ?rs = []" by (simp_all add: initialState_def)
  have "0 \<in> set (blocksOf (m_proc ?rs))" unfolding p by (simp add: blocksOf_def sampleProcedure_blocks)
  moreover have "\<forall>a i v. visits (?rs\<lparr>m_block := 0, m_index := 0\<rparr>) a \<longrightarrow>
      at (valuesIn (m_proc a) (m_block a)) (m_index a) = Some i \<longrightarrow> lookup a i = Some v \<longrightarrow> \<not> miscompares (lookup a) v"
    using saneRun_visits [OF _ sample_saneRun] by blast
  ultimately show ?thesis
    using processBlock_refines [OF phaseInv_initial, of 0] sampleProcedure_inv p by (auto simp: lookup_def)
qed

text \<open>
  C3: the loop of \<open>ReduceStrength::run\<close> over all blocks in pre-order ends, as long as no value it visits is a \<open>NotEqual\<close> of a boolean
  with the constant 1: it keeps the invariants and the blocks, refines the whole procedure, puts new values in front of old ones in the blocks that
  are reachable from the root, and leaves the other blocks alone.
\<close>

theorem processPass_refines:
  assumes "phaseInv rs" "placement (m_proc rs)" "distinct (blocksOf (m_proc rs))" "m_insertionSet rs = []"
    and "validateProcedure (m_proc rs)" "m_blocks (m_proc rs) = Some root # rest"
    and "\<forall>order. procBlocksInPreOrder (m_proc rs) = Some order \<longrightarrow> sanePass order rs"
  shows "\<exists>rs' ins. processPass rs = Some rs' \<and> phaseInv rs' \<and> placement (m_proc rs') \<and> refines (lookup rs) (lookup rs') \<and>
    m_insertionSet rs' = [] \<and> m_blocks (m_proc rs') = m_blocks (m_proc rs) \<and>
    (\<forall>b. valuesIn (m_proc rs') b =
       (if b \<in> reachable (m_proc rs) root then spliced (valuesIn (m_proc rs) b) (ins b) else valuesIn (m_proc rs) b))"
  by (rule processPass_refine [OF assms(1-4) validateProcedure_closed [OF assms(5)] assms(6,7)])

theorem processPass_refines_witness:
  "\<exists>rs'. processPass (initialState sampleProcedure) = Some rs' \<and> phaseInv rs' \<and> refines (valuesOf sampleProcedure) (lookup rs') \<and>
    m_blocks (m_proc rs') = m_blocks sampleProcedure"
proof -
  let ?rs = "initialState sampleProcedure"
  have p: "m_proc ?rs = sampleProcedure" "m_insertionSet ?rs = []" by (simp_all add: initialState_def)
  have "\<forall>order. procBlocksInPreOrder (m_proc ?rs) = Some order \<longrightarrow> sanePass order ?rs"
    using sample_pass(1) checkPass_sane [OF sample_pass(2)] p by simp
  then have "\<exists>rs' ins. processPass ?rs = Some rs' \<and> phaseInv rs' \<and> placement (m_proc rs') \<and> refines (lookup ?rs) (lookup rs') \<and>
      m_insertionSet rs' = [] \<and> m_blocks (m_proc rs') = m_blocks (m_proc ?rs) \<and>
      (\<forall>b. valuesIn (m_proc rs') b =
         (if b \<in> reachable (m_proc ?rs) 0 then spliced (valuesIn (m_proc ?rs) b) (ins b) else valuesIn (m_proc ?rs) b))"
    by (intro processPass_refines [OF phaseInv_initial, where rest = "[Some 1, Some 2, Some 3, Some 4]"])
      (use sampleProcedure_inv sampleProcedure_validates sampleProcedure_blocks p in simp_all)
  then show ?thesis using p by (auto simp: lookup_def)
qed

text \<open>
  C4: the rewrite of \<open>NotEqual(bool, 1)\<close> is not a refinement: on the procedure that returns
  \<open>(argument == 0) != 1\<close>, the processed values have a solution that does not solve the values of
  the source.
\<close>

theorem notEqual_one_miscompiles:
  "\<exists>rs rs' env. phaseInv rs \<and> process rs = Some rs' \<and> solution (lookup rs') env \<and> \<not> solution (lookup rs) env"
proof -
  let ?rs = "(initialState boolProcedure)\<lparr>m_index := 4\<rparr>"
  have "phaseInv (initialState boolProcedure)"
    by (rule validated_phaseInv [OF boolProcedure_validates boolProcedure_constructed boolProcedure_procInv boolProcedure_wf])
  then have "phaseInv ?rs" by (simp add: phaseInv_def lookup_def)
  moreover obtain rs' where "process ?rs = Some rs'" "checkSolution (m_proc rs') boolEnv"
    using boolProcedure_miscompiled by auto
  moreover have "\<not> checkSolution (m_proc ?rs) boolEnv" using boolProcedure_unsolved by (simp add: initialState_def)
  ultimately show ?thesis unfolding lookup_def checkSolution_solution by blast
qed

subsection \<open>Dead code elimination\<close>

text \<open>
  C5: dead code elimination ends and keeps exactly the live values: the ones with effects that must
  execute, what they use, and the upsilons of live phis, in the order they had; it reports a change
  exactly when something was dead.
\<close>

theorem killDeadCode_keeps_live:
  assumes "procInv p" "wtStore (valuesOf p)" "placement p" "distinct (blocksOf p)"
  shows "\<exists>p' ch'. killDeadCode p ch = Some (p', ch') \<and> procInv p' \<and> placement p' \<and> m_blocks p' = m_blocks p \<and>
    valuesOf p' = valuesOf p |` live (valuesOf p) \<and>
    (\<forall>b \<in> set (blocksOf p). valuesIn p' b = filter (\<lambda>i. i \<in> live (valuesOf p)) (valuesIn p b)) \<and>
    (ch' \<longleftrightarrow> ch \<or> \<not> dom (valuesOf p) \<subseteq> live (valuesOf p))"
  by (rule killDeadCode_live [OF assms])

theorem killDeadCode_keeps_live_witness:
  "\<exists>p' ch'. killDeadCode sampleProcedure False = Some (p', ch') \<and>
    valuesOf p' = valuesOf sampleProcedure |` live (valuesOf sampleProcedure)"
  using killDeadCode_keeps_live [of sampleProcedure False] sampleProcedure_inv by blast

text \<open>
  C6: dead code elimination changes nothing that can be observed: what is left is a part of the old
  store, well-typed, with every value that ends a block, may exit or writes memory, and each of its solutions extends to a solution of the whole old store.
\<close>

theorem killDeadCode_refines:
  assumes "procInv p" "wtStore (valuesOf p)" "placement p" "distinct (blocksOf p)" "wf (deps (valuesOf p))"
  shows "\<exists>p' ch'. killDeadCode p ch = Some (p', ch') \<and> valuesOf p' \<subseteq>\<^sub>m valuesOf p \<and> wtStore (valuesOf p') \<and>
    (\<forall>i v. valuesOf p i = Some v \<and> (terminal (effects v) \<or> exitsSideways (effects v) \<or> nonEmpty (writes (effects v))) \<longrightarrow>
       valuesOf p' i = Some v) \<and>
    (\<forall>env. solution (valuesOf p') env \<longrightarrow>
       (\<exists>env'. solution (valuesOf p) env' \<and> (\<forall>i \<in> dom (valuesOf p'). env' i = env i)))"
proof -
  obtain p' ch' where k: "killDeadCode p ch = Some (p', ch')" "valuesOf p' = valuesOf p |` live (valuesOf p)"
    using killDeadCode_live [OF assms(1-4)] by blast
  then have "valuesOf p' \<subseteq>\<^sub>m valuesOf p" by (auto simp: map_le_def restrict_map_def)
  moreover have "wtStore (valuesOf p')" unfolding k(2) by (rule wtStore_live [OF assms(2)])
  moreover have "valuesOf p' i = Some v" if "valuesOf p i = Some v"
    "terminal (effects v) \<or> exitsSideways (effects v) \<or> nonEmpty (writes (effects v))" for i v
    using that k(2) live.intros(1) [of "valuesOf p" i v] by (simp add: mustKeep_def mustExecute_def)
  ultimately show ?thesis using k live_solution_extends [OF assms(2,5)] by fastforce
qed

theorem killDeadCode_refines_witness:
  "\<exists>p' ch'. killDeadCode sampleProcedure False = Some (p', ch') \<and>
    (\<forall>env. solution (valuesOf p') env \<longrightarrow> (\<exists>env'. solution (valuesOf sampleProcedure) env'))"
  using killDeadCode_refines [of sampleProcedure False] sampleProcedure_inv by blast

subsection \<open>Simplification of the control flow graph\<close>

text \<open>
  C7: \<open>simplifyCFG\<close> never fails an assertion, keeps the procedure valid with complete lists of
  predecessors, leaves it as it was when it reports no change, and keeps every execution: with the
  same results of the executed values, the old and the new procedure execute the same values in the
  same order and end with the same observation, or neither ends. Nothing may jump to the root.
\<close>

theorem simplifyCFG_keeps_executions:
  assumes "cfgInv (m_proc rs) root"
  shows "\<exists>rs'. simplifyCFG validate rs = Some rs' \<and> cfgInv (m_proc rs') root \<and>
    m_blocks (m_proc rs') = m_blocks (m_proc rs) \<and> (\<not> m_changedCFG rs' \<longrightarrow> m_proc rs' = m_proc rs) \<and>
    (\<forall>E h r. finishes (stepBlock (m_proc rs') E) (root, h) r \<longleftrightarrow> finishes (stepBlock (m_proc rs) E) (root, h) r)"
  using simplifyCFG_simplifies [OF assms, of validate] unfolding simplified_def sameExecutions_def by blast

theorem simplifyCFG_keeps_executions_witness:
  "\<exists>rs'. simplifyCFG True (initialState sampleProcedure) = Some rs' \<and> cfgInv (m_proc rs') 0 \<and>
    (\<forall>E r. finishes (stepBlock (m_proc rs') E) (0, []) r \<longleftrightarrow> finishes (stepBlock sampleProcedure E) (0, []) r)"
proof -
  have "cfgInv (m_proc (initialState sampleProcedure)) 0" using sampleProcedure_cfgInv by (simp add: initialState_def)
  from simplifyCFG_keeps_executions [OF this] show ?thesis by (fastforce simp: initialState_def)
qed

text \<open>
  C8: without that condition the pass is wrong: there is a valid procedure that meets all other conditions, in which a reachable block jumps back
  to the root. The pass moves the values of the root into that block and leaves \<open>Oops\<close> in the root, so that an execution with the results of
  a solution, which returned before, is at once unreachable.
\<close>

theorem simplifyCFG_merges_root:
  "\<exists>p rs' env b h xs oops. validateProcedure p \<and> procInv p \<and> wtStore (valuesOf p) \<and> placement p \<and> distinct (blocksOf p) \<and>
    hd (m_blocks p) = Some 0 \<and> checkPredecessorValidity p \<and> (\<forall>c. distinct (predsOf p c)) \<and>
    b \<noteq> 0 \<and> b \<in> reachable p 0 \<and> successorBlocks p b = [0] \<and> solution (valuesOf p) env \<and>
    simplifyCFG True (initialState p) = Some rs' \<and> set (valuesIn p 0) \<subseteq> set (valuesIn (m_proc rs') b) \<and>
    lastValue (m_proc rs') 0 = Some oops \<and> m_opcode oops = Oops \<and>
    finishes (stepBlock p (\<lambda>_. env)) (0, []) (h, Returns xs) \<and>
    finishes (stepBlock (m_proc rs') (\<lambda>_. env)) (0, []) ([], Unreachable)"
proof -
  let ?p = loopProcedure and ?E = "\<lambda>_ :: value_ptr list. loopEnv"
  obtain rs' where rs': "simplifyCFG True (initialState ?p) = Some rs'" "valuesIn (m_proc rs') 0 = [3]" "valuesIn (m_proc rs') 1 = [2, 0, 1]"
      "lastValue (m_proc rs') 0 = Some (OopsValue 0)"
    using loopProcedure_simplified by auto
  have "stepBlock ?p ?E (0, []) = Inl (2, [0])"
    by (simp add: stepBlock_def loopProcedure_root observe_def mk_defs args_def successors_def loopEnv_def)
  moreover have "stepBlock ?p ?E (2, [0]) = Inr ([0], Returns [V64 0])"
    by (simp add: stepBlock_def loopProcedure_root observe_def mk_defs args_def follow_def loopEnv_def)
  ultimately have old: "finishes (stepBlock ?p ?E) (0, []) ([0], Returns [V64 0])"
    by (meson finishes.intros)
  have new: "finishes (stepBlock (m_proc rs') ?E) (0, []) ([], Unreachable)"
    by (rule finishes_end) (simp add: stepBlock_def rs' observe_def mk_defs follow_def)
  have preds: "distinct (predsOf ?p c)" for c
    using loopProcedure_preds(2) by (auto simp: predsOf_def block_def at_def split: option.splits) (metis nth_mem option.simps(5))
  have wt: "wtStore (valuesOf ?p)"
    by (rule validateProcedure_wtStore [OF loopProcedure_validates]) (rule checkStoreD [OF loopProcedure_constructed])
  have "hd (m_blocks ?p) = Some 0" "distinct (blocksOf ?p)" by (simp_all add: blocksOf_def loopProcedure_blocks)
  moreover have "set (valuesIn ?p 0) \<subseteq> set (valuesIn (m_proc rs') 1)" using rs'(3) loopProcedure_root(1) by simp
  moreover have "m_opcode (OopsValue 0) = Oops" by (simp add: mk_defs)
  ultimately show ?thesis
    using loopProcedure_validates loopProcedure_procInv wt validateProcedure_placement [OF loopProcedure_validates] loopProcedure_preds(1) preds
      loopProcedure_back loopProcedure_successors(2) loopEnv_solution rs'(1,4) old new
    by (intro exI [of _ ?p] exI [of _ rs'] exI [of _ loopEnv] exI [of _ 1] exI [of _ "[0]"] exI [of _ "[V64 0]"] exI [of _ "OopsValue 0"] conjI) simp_all
qed

subsection \<open>Constant folding\<close>

text \<open>
  C14: the folding methods with two constants compute what their operation means, on all three constant classes: the folded constant has the type
  of the first operand and is a result that the operation allows on the operands, and the checked ones fold only where the check passes. Integers
  divide as \<open>ChillDiv\<close> does, which \<open>Div\<close> allows too.
\<close>

theorem constant_folding_correct:
  assumes "(opcode, f) \<in> set (foldings @ checkFoldings)" "f a b = Some w"
  shows "\<exists>x y z. constVal a = Some x \<and> constVal b = Some y \<and> constVal w = Some z \<and> typeOf z = typeOf x \<and>
    (\<forall>pl. allows (evalOp opcode pl [x, y]) z) \<and> (isCheckMath opcode \<longrightarrow> \<not> checkFails (checkOp opcode) [x, y])"
  by (rule binary_folding [OF assms])

theorem constant_folding_correct_witness:
  "\<exists>z. constVal (Const32Value 0 (7 * 5)) = Some z \<and> allows (evalOp Mul NoPayload [V32 7, V32 5]) z"
proof -
  have "(Mul, mulConstant) \<in> set (foldings @ checkFoldings)" by (simp add: foldings_def)
  moreover have "mulConstant (Const32Value 0 7) (Const32Value 0 5) = Some (Const32Value 0 (7 * 5))"
    by (simp add: fold_eval mk_defs asInt32_def)
  ultimately show ?thesis using constant_folding_correct by (fastforce simp: constVal_def mk_defs asInt32_def)
qed

text \<open>
  C15: the other folding methods: adding a folded negation is subtracting the constant, also under an overflow check; \<open>addConstant\<close> with an
  \<open>int32_t\<close> adds that integer converted to the type of the constant; a bitwise cast keeps the bits.
\<close>

theorem constant_folding_unary:
  shows "(negConstant a = Some w \<longrightarrow>
      (\<exists>x z. constVal a = Some x \<and> constVal w = Some z \<and> typeOf z = typeOf x \<and>
         (\<forall>y pl. typeOf y = typeOf x \<longrightarrow> evalOp Add pl [y, z] = evalOp Sub pl [y, x]))) \<and>
    (checkNegConstant a = Some w \<longrightarrow>
      (\<exists>x z. constVal a = Some x \<and> constVal w = Some z \<and> typeOf z = typeOf x \<and>
         (\<forall>y pl. typeOf y = typeOf x \<longrightarrow> evalOp CheckAdd pl [y, z] = evalOp CheckSub pl [y, x] \<and>
            checkFails (+) [y, z] = checkFails (-) [y, x]))) \<and>
    (addConstant_int a n = Some w \<longrightarrow>
      (\<exists>x z. constVal a = Some x \<and> constVal w = Some z \<and> typeOf z = typeOf x \<and>
         (\<forall>pl. allows (evalOp Add pl [x, intVal (typeOf x) n]) z))) \<and>
    (bitwiseCastConstant a = Some w \<longrightarrow>
      (\<exists>x z. constVal a = Some x \<and> constVal w = Some z \<and> (\<forall>pl. evalOp BitwiseCast pl [x] = Exactly z)))"
  using negConstant_folds [of a w] checkNegConstant_folds [of a w] addConstant_int_folds [of a n w] bitwiseCastConstant_folds [of a w] by blast

theorem constant_folding_unary_witness:
  "\<exists>x z. constVal (Const32Value 0 9) = Some x \<and> constVal (Const32Value 0 (- 9)) = Some z \<and>
     (\<forall>y pl. typeOf y = typeOf x \<longrightarrow> evalOp Add pl [y, z] = evalOp Sub pl [y, x])"
proof -
  have "negConstant (Const32Value 0 9) = Some (Const32Value 0 (- 9))" by code_simp
  then show ?thesis using constant_folding_unary [of "Const32Value 0 9" "Const32Value 0 (- 9)"] by blast
qed

text \<open>C16: a comparison of constants that folds to true or false does so exactly as the comparison evaluates.\<close>

theorem comparison_folding_correct:
  assumes "(opcode, f) \<in> set comparisonFoldings" "f a b = triState c"
  shows "\<exists>x y. constVal a = Some x \<and> constVal b = Some y \<and> (\<forall>pl. evalOp opcode pl [x, y] = rbool c)"
  by (rule comparison_folding [OF assms])

theorem comparison_folding_correct_witness:
  "evalOp Above NoPayload [V32 (- 1), V32 5] = rbool True"
proof -
  have "(Above, aboveConstant) \<in> set comparisonFoldings" by (simp add: comparisonFoldings_def)
  moreover have "aboveConstant (Const32Value 0 (- 1)) (Const32Value 0 5) = triState True"
    by (simp add: fold_eval mk_defs asInt32_def)
  ultimately show ?thesis using comparison_folding_correct by (fastforce simp: constVal_def mk_defs asInt32_def)
qed

text \<open>
  C17: \<open>invertedCompare\<close> negates: where an inverted opcode exists, it evaluates to the negation on
  operands of the compared type. Floating point inequalities have none, because of NaN.
\<close>

theorem invertedCompare_negates:
  assumes "invertedCompareOp opcode t = Some other" "t \<noteq> Void"
    and "opcode \<in> {Above, Below, AboveEqual, BelowEqual} \<longrightarrow> isInt t" "typeOf x = t" "typeOf y = t"
  shows "\<exists>c. evalOp opcode pl [x, y] = rbool c \<and> evalOp other pl' [x, y] = rbool (\<not> c)"
  using inverted_eval [OF assms(1,2) _ assms(4,5)] assms(3) by blast

theorem invertedCompare_negates_witness:
  "\<exists>c. evalOp LessThan NoPayload [V32 3, V32 4] = rbool c \<and> evalOp GreaterEqual NoPayload [V32 3, V32 4] = rbool (\<not> c)"
  by (rule invertedCompare_negates [of LessThan Int32 GreaterEqual]) (simp_all add: invertedCompareOp_def)

subsection \<open>Validation and typing\<close>

text \<open>
  C18: evaluation is type-sound: in an environment that gives every value a result of its type, each
  well-typed value has a result, and one of its own type.
\<close>

theorem evaluation_type_sound:
  assumes "envTyped s env" "wtValue s v"
  shows "\<exists>x. typeOf x = m_type v \<and> allows (evalValue env v) x"
  using eval_inhabited [OF assms] by (auto simp: inhabited_def)

theorem evaluation_type_sound_witness:
  "\<exists>x. typeOf x = Int32 \<and> allows (evalValue (\<lambda>_. V32 5) (mkValue Add Int32 0 [0, 0] NoPayload)) x"
proof -
  let ?s = "[0 \<mapsto> Const32Value 0 5]"
  have "envTyped ?s (\<lambda>_. V32 5)" by (simp add: envTyped_def mk_defs)
  moreover have "wtValue ?s (mkValue Add Int32 0 [0, 0] NoPayload)"
    by (simp add: wtValue_def payloadOK_def accepts_defs validateChildren_def validateTypes_def validateMath_def mk_defs
        isCheckMath_def numChildren_def childType_def child_def at_def)
  ultimately show ?thesis using evaluation_type_sound by (fastforce simp: mk_defs)
qed

text \<open>
  C19: a validated procedure with acyclic data flow can be evaluated: its values have a common
  solution.
\<close>

theorem validated_has_solution:
  assumes "validateProcedure p" "\<forall>i v. valuesOf p i = Some v \<longrightarrow> constructedOK (valuesOf p) v"
    and "wf (deps (valuesOf p))"
  shows "\<exists>env. solution (valuesOf p) env"
  using solution_exists [OF validateProcedure_wtStore [OF assms(1)] assms(3)] assms(2) by blast

theorem validated_has_solution_witness: "\<exists>env. solution (valuesOf sampleProcedure) env"
proof -
  have "\<forall>i v. valuesOf sampleProcedure i = Some v \<longrightarrow> constructedOK (valuesOf sampleProcedure) v"
    using checkStoreD [OF sampleProcedure_constructed] by blast
  then show ?thesis using validated_has_solution [OF sampleProcedure_validates _ sampleProcedure_wf] by blast
qed

subsection \<open>Control flow\<close>

text \<open>
  C20: \<open>resetReachability\<close> ends; it leaves the blocks reachable from the root, each with exactly its
  reachable predecessors and its values, and deletes the other blocks with their values.
\<close>

theorem resetReachability_keeps_reachable:
  assumes "validateProcedure p" "procInv p" "m_blocks p = Some root # rest" "distinct (blocksOf p)"
    and "\<forall>b \<in> set (blocksOf p). block p b \<noteq> None"
  shows "\<exists>p'. procResetReachability p = Some p' \<and> procInv p' \<and> set (blocksOf p') = reachable p root \<and>
    (\<forall>b \<in> reachable p root. valuesIn p' b = valuesIn p b \<and> distinct (predsOf p' b) \<and>
       set (predsOf p' b) = {a \<in> reachable p root. b \<in> set (successorBlocks p a)}) \<and>
    valuesOf p' = (\<lambda>i. if \<exists>b \<in> set (blocksOf p) - reachable p root. i \<in> set (valuesIn p b) then None else valuesOf p i)"
  using procResetReachability_exact [OF validateProcedure_closed [OF assms(1)] assms(3,4,2)]
    validateProcedure_placement [OF assms(1)] assms(5) by (simp add: placement_def)

theorem resetReachability_keeps_reachable_witness:
  "\<exists>p'. procResetReachability sampleProcedure = Some p' \<and> procInv p' \<and> set (blocksOf p') = reachable sampleProcedure 0"
proof -
  have "\<forall>b \<in> set (blocksOf sampleProcedure). block sampleProcedure b \<noteq> None" by code_simp
  then show ?thesis
    using resetReachability_keeps_reachable [OF sampleProcedure_validates sampleProcedure_procInv sampleProcedure_blocks
      sampleProcedure_distinct] by blast
qed

text \<open>C21: the pre-order of the blocks ends, lists every reachable block once and nothing else.\<close>

theorem blocksInPreOrder_reachable:
  assumes "validateProcedure p" "m_blocks p = Some root # rest"
  shows "\<exists>order. procBlocksInPreOrder p = Some order \<and> distinct order \<and> set order = reachable p root"
  using preOrder_exact [OF validateProcedure_closed [OF assms(1)] assms(2)] by blast

theorem blocksInPreOrder_reachable_witness:
  "\<exists>order. procBlocksInPreOrder sampleProcedure = Some order \<and> distinct order \<and> set order = reachable sampleProcedure 0"
  by (rule blocksInPreOrder_reachable [OF sampleProcedure_validates sampleProcedure_blocks])

text \<open>C22: in the pre-order a block comes after each block that dominates it.\<close>

theorem blocksInPreOrder_dominators:
  assumes "validateProcedure p" "m_blocks p = Some root # rest" "procBlocksInPreOrder p = Some (ys @ b # zs)"
    and "dominates p root d b" "d \<noteq> b"
  shows "d \<in> set ys"
  by (rule preOrder_dominators [OF validateProcedure_closed [OF assms(1)] assms(2-5)])

theorem blocksInPreOrder_dominators_witness: "(2 :: nat) \<in> set [0, 2]"
proof -
  have "dominates sampleProcedure 0 2 3" by (rule sample_dominates)
  moreover have "procBlocksInPreOrder sampleProcedure = Some ([0, 2] @ 3 # [1])" by code_simp
  ultimately show ?thesis
    using blocksInPreOrder_dominators [OF sampleProcedure_validates sampleProcedure_blocks, of "[0, 2]" 3 "[1]" 2] by simp
qed

text \<open>
  C23: the post-order of the blocks ends and lists every reachable block once; it need not be a
  post-order of a depth-first search.
\<close>

theorem blocksInPostOrder_reachable:
  assumes "validateProcedure p" "m_blocks p = Some root # rest"
  shows "\<exists>order. procBlocksInPostOrder p = Some order \<and> distinct order \<and> set order = reachable p root"
  by (rule postOrder_exact [OF validateProcedure_closed [OF assms(1)] assms(2)])

theorem blocksInPostOrder_reachable_witness:
  "\<exists>order. procBlocksInPostOrder sampleProcedure = Some order \<and> distinct order \<and> set order = reachable sampleProcedure 0"
  by (rule blocksInPostOrder_reachable [OF sampleProcedure_validates sampleProcedure_blocks])

text \<open>
  C24: the edits of a predecessor list do to the set of predecessors what they say, and keep the list
  free of duplicates.
\<close>

theorem predecessor_edits:
  assumes "distinct ps"
  shows "set (snd (addPredecessor ps a)) = insert a (set ps) \<and> distinct (snd (addPredecessor ps a)) \<and>
    set (snd (removePredecessor ps a)) = set ps - {a} \<and> distinct (snd (removePredecessor ps a)) \<and>
    set (snd (replacePredecessor ps a b)) = insert b (set ps - {a}) \<and> distinct (snd (replacePredecessor ps a b))"
  using assms removePredecessor_set replacePredecessor_set by (metis addPredecessor_set(1,2))

theorem predecessor_edits_witness: "set (snd (removePredecessor [1, 2, 3 :: nat] 2)) = {1, 3}"
  using predecessor_edits [of "[1, 2, 3 :: nat]" 2] by auto

subsection \<open>Procedures and values\<close>

text \<open>
  C26: a new value gets an index no live value has, also when the index is taken from the free list,
  and the rest of the store and the invariant of the free list are kept.
\<close>

theorem add_allocates_fresh:
  assumes "procInv p" "add v p = (i, p')"
  shows "valuesOf p i = None \<and> valuesOf p' = (valuesOf p)(i \<mapsto> v) \<and> procInv p'"
  using add_fresh [OF assms] by blast

theorem add_allocates_fresh_witness: "procInv (snd (add (Const32Value 0 1) (deleteValue 3 sampleProcedure)))"
proof -
  have "valuesOf sampleProcedure 3 \<noteq> None" by code_simp
  then have "procInv (deleteValue 3 sampleProcedure)" by (rule procInv_deleteValue [OF sampleProcedure_procInv])
  then show ?thesis using add_allocates_fresh [OF _ surjective_pairing] by blast
qed

text \<open>C27: deleting a value that was just added gives back the store it was added to.\<close>

theorem delete_undoes_add:
  assumes "procInv p" "add v p = (i, p')"
  shows "valuesOf (deleteValue i p') = valuesOf p \<and> procInv (deleteValue i p')"
  using add_fresh [OF assms] procInv_deleteValue [of p' i] by (auto simp: valuesOf_deleteValue)

theorem delete_undoes_add_witness:
  "valuesOf (deleteValue 9 (snd (add (Const32Value 0 1) sampleProcedure))) = valuesOf sampleProcedure"
proof -
  have "add (Const32Value 0 1) sampleProcedure = (9, snd (add (Const32Value 0 1) sampleProcedure))"
    by (rule prod_eqI) (simp_all, code_simp)
  from delete_undoes_add [OF sampleProcedure_procInv this] show ?thesis by blast
qed

text \<open>
  C28: \<open>performSubstitution\<close> ends and changes only the children of the value: each is replaced by a value that is no \<open>Identity\<close>, of the same
  type and with the same result in every solution; a child that is no \<open>Identity\<close> stays.
\<close>

theorem performSubstitution_follows_identities:
  assumes "wtStore (valuesOf p)" "wf (deps (valuesOf p))" "valuesOf p i = Some v"
  shows "\<exists>p' ds. performSubstitution i p = Some p' \<and> valuesOf p' = (valuesOf p)(i \<mapsto> v\<lparr>m_children := ds\<rparr>) \<and>
    length ds = length (m_children v) \<and>
    (\<forall>k < length ds. \<exists>cv dv. valuesOf p (m_children v ! k) = Some cv \<and> valuesOf p (ds ! k) = Some dv \<and>
       m_opcode dv \<noteq> Identity \<and> m_type dv = m_type cv \<and> (m_opcode cv \<noteq> Identity \<longrightarrow> ds ! k = m_children v ! k) \<and>
       (\<forall>env. solution (valuesOf p) env \<longrightarrow> env (ds ! k) = env (m_children v ! k)))"
  using performSubstitution_substitutes [OF assms] by (auto simp: list_all2_conv_all_nth substitutes_def)

theorem performSubstitution_follows_identities_witness:
  "\<exists>p' ds dv. performSubstitution 3 chainProcedure = Some p' \<and>
    valuesOf p' 3 = Some (mkValue Add Int32 0 ds NoPayload) \<and> length ds = 2 \<and> valuesOf chainProcedure (ds ! 0) = Some dv \<and>
    m_opcode dv \<noteq> Identity \<and> ds ! 1 = 0 \<and> (\<forall>env. solution (valuesOf chainProcedure) env \<longrightarrow> env (ds ! 0) = env 2)"
proof -
  have v: "valuesOf chainProcedure 3 = Some (mkValue Add Int32 0 [2, 0] NoPayload)" "valuesOf chainProcedure 0 = Some (Const32Value 0 5)" by code_simp+
  obtain p' ds where p': "performSubstitution 3 chainProcedure = Some p'"
      "valuesOf p' = (valuesOf chainProcedure)(3 \<mapsto> (mkValue Add Int32 0 [2, 0] NoPayload)\<lparr>m_children := ds\<rparr>)" "length ds = 2"
    and ds: "\<And>k. k < 2 \<Longrightarrow> \<exists>cv dv. valuesOf chainProcedure ([2, 0] ! k) = Some cv \<and> valuesOf chainProcedure (ds ! k) = Some dv \<and>
       m_opcode dv \<noteq> Identity \<and> m_type dv = m_type cv \<and> (m_opcode cv \<noteq> Identity \<longrightarrow> ds ! k = [2, 0] ! k) \<and>
       (\<forall>env. solution (valuesOf chainProcedure) env \<longrightarrow> env (ds ! k) = env ([2, 0] ! k))"
    using performSubstitution_follows_identities [OF chainProcedure_wtStore chainProcedure_wf v(1)] by (auto simp: mkValue_def)
  obtain dv where "valuesOf chainProcedure (ds ! 0) = Some dv" "m_opcode dv \<noteq> Identity"
      "\<forall>env. solution (valuesOf chainProcedure) env \<longrightarrow> env (ds ! 0) = env 2" using ds [of 0] by auto
  moreover have "ds ! 1 = 0" using ds [of 1] v(2) by (auto simp: mk_defs)
  ultimately show ?thesis using p' by (auto simp: mkValue_def)
qed

text \<open>
  C29: effects that do not interfere commute on the heap: interference is symmetric, and without it
  the cells one of them writes are not read or written by the other, the SSA state one writes is not
  touched by the other, and control-dependent effects are not moved over exits.
\<close>

theorem interference_sound:
  assumes "\<not> interferes a b" "rangeOK (writes a)" "rangeOK (reads a)" "rangeOK (writes b)" "rangeOK (reads b)"
  shows "\<not> interferes b a \<and> cells (writes a) \<inter> (cells (reads b) \<union> cells (writes b)) = {} \<and>
    cells (writes b) \<inter> (cells (reads a) \<union> cells (writes a)) = {} \<and>
    (writesSSAState a \<longrightarrow> \<not> writesSSAState b \<and> \<not> readsSSAState b) \<and>
    (terminal a \<or> exitsSideways a \<longrightarrow> \<not> controlDependent b \<and> cells (writes b) = {})"
  using assms overlaps_iff [of "writes a" "writes b"] overlaps_iff [of "writes a" "reads b"]
    overlaps_iff [of "reads a" "writes b"] nonEmpty_iff [of "writes b"] interferes_sym [of a b]
  by (auto simp: interferes_def interferesWithTerminal_def interferesWithExitSideways_def
      interferesWithWritesSSAState_def split: if_splits)

theorem interference_sound_witness:
  "cells (mkRange 0 4) \<inter> (cells (mkRange 4 8) \<union> cells bottomRange) = {}"
proof -
  let ?a = "noEffects\<lparr>writes := mkRange 0 4\<rparr>" and ?b = "noEffects\<lparr>reads := mkRange 4 8\<rparr>"
  have "\<not> interferes ?a ?b" by code_simp
  then show ?thesis using interference_sound [of ?a ?b] by (simp add: mkRange_ok noEffects_def)
qed

text \<open>
  C40: \<open>chillDiv\<close> never reaches a division that traps, which is one by zero or with a quotient that is not representable: it returns zero for a zero divisor,
  the numerator for the least integer divided by minus one, and otherwise the truncated quotient, which is then exact.
\<close>

theorem chillDiv_total:
  "\<exists>q. chillDiv num (den :: 'a::len word) = Some q \<and> (den = 0 \<longrightarrow> q = 0) \<and>
    (den = - 1 \<and> sint num = smin TYPE('a) \<longrightarrow> q = num) \<and>
    (den \<noteq> 0 \<and> \<not> (den = - 1 \<and> sint num = smin TYPE('a)) \<longrightarrow> sint q = sint num sdiv sint den)"
proof -
  have "sint (word_of_int (sint num sdiv sint den) :: 'a word) = sint num sdiv sint den"
    if "\<not> (den = - 1 \<and> sint num = smin TYPE('a))"
    using sdiv_inSigned [OF that] unfolding sint_sbintrunc' inSigned_def
    by (intro signed_take_bit_int_eq_self) (simp_all add: smin_def smax_def)
  then show ?thesis using chillQuotient_min [of num] by (auto simp: chillQuotient_def)
qed

theorem chillDiv_total_witness: "\<exists>q. chillDiv (- 7 :: int32) 2 = Some q \<and> sint q = - 3"
proof -
  have "\<not> ((2 :: int32) = - 1 \<and> sint (- 7 :: int32) = smin TYPE(32))" "sint (- 7 :: int32) sdiv sint (2 :: int32) = - 3" by code_simp+
  then show ?thesis using chillDiv_total [of "- 7 :: int32" 2] by auto
qed

text \<open>A 64-bit integer is representable as a 32-bit one exactly when it is in range; then truncation loses nothing.\<close>

theorem isRepresentableAsInt32_range:
  "(isRepresentableAsInt32 w \<longleftrightarrow> - (2 ^ 31) \<le> sint w \<and> sint w < 2 ^ 31) \<and>
   (isRepresentableAsInt32 w \<longleftrightarrow> scast (ucast w :: int32) = w)"
proof (rule conjI [OF isRepresentableAsInt32_iff])
  show "isRepresentableAsInt32 w \<longleftrightarrow> scast (ucast w :: int32) = w" by (auto simp: isRepresentableAsInt32_def Let_def)
qed

text \<open>The printed names of the opcodes are distinct.\<close>

theorem opcodeName_unique: "opcodeName a = opcodeName b \<longleftrightarrow> a = b"
  by (rule opcodeName_inject)

subsection \<open>WTF\<close>

text \<open>
  C36: \<open>bubbleSort\<close> sorts by the key its comparison looks at, and it is stable: the result is the
  library's stable sort.
\<close>

theorem bubbleSort_is_stable_sort: "bubbleSort (\<lambda>x y. key x < key y) xs = sort_key key xs"
  by (rule bubbleSort_sort_key)

text \<open>
  C37: checked multiplication returns the product exactly when the product of the operands as
  integers is representable, and reports an overflow otherwise.
\<close>

theorem safeMultiply_checks:
  "safeMultiply (a :: 'a::len word) b =
     (if inSigned TYPE('a) (sint a * sint b) then Some (a * b) else None)"
  by (rule safeMultiply_exact)

text \<open>Checked addition returns the sum exactly when it is representable, and \<open>sumOverflows\<close> agrees with it.\<close>

theorem safeAdd_checks:
  "safeAdd (a :: 'a::len word) b = (if inSigned TYPE('a) (sint a + sint b) then Some (a + b) else None) \<and>
   (sumOverflows a b \<longleftrightarrow> safeAdd a b = None)"
  by (simp add: safeAdd_exact sumOverflows_iff)

text \<open>
  C38: checked subtraction never returns a wrong difference, and returns it whenever it is representable,
  except where the difference of a negative and a non-negative number is the least value of the type.
\<close>

theorem safeSub_checks:
  "safeSub (a :: 'a::len word) b =
     (if inSigned TYPE('a) (sint a - sint b) \<and> \<not> (sint a - sint b = smin TYPE('a) \<and> sint a < 0 \<and> 0 \<le> sint b)
      then Some (a - b) else None)"
  by (rule safeSub_exact)

text \<open>C39: a 64-bit word with one bit set is the power of two that \<open>fastLog2\<close> names.\<close>

theorem oneBit_fastLog2:
  assumes "hasOneBitSet (w :: 64 word)"
  shows "w = 2 ^ fastLog2 w \<and> fastLog2 w < 64"
proof -
  obtain k where "k < LENGTH(64)" "w = 2 ^ k" using hasOneBitSet_power [OF assms] by blast
  then show ?thesis using fastLog2_power [of k] by simp
qed

theorem oneBit_fastLog2_witness: "(4096 :: 64 word) = 2 ^ fastLog2 4096"
proof -
  have "hasOneBitSet (4096 :: 64 word)" by code_simp
  from oneBit_fastLog2 [OF this] show ?thesis by blast
qed

subsection \<open>B3\<close>

text \<open>
  C30: executing an insertion set keeps the values of the block in their order and puts each
  inserted value in front of the value at its index, in the order of insertion.
\<close>

theorem insertion_set_splices:
  assumes "block p b \<noteq> None" "\<forall>(i, v) \<in> set ins. i \<le> length (valuesIn p b)"
  shows "valuesIn (executeInsertionSet ins b p) b = spliced (valuesIn p b) ins"
  by (rule executeInsertionSet_values [OF assms])

theorem insertion_set_splices_witness:
  "valuesIn (executeInsertionSet [(1, 7), (0, 8), (1, 9)] 0
     (appendValue 0 4 (appendValue 0 3 (snd (addBlock 0 emptyProcedure))))) 0 = [8, 3, 7, 9, 4]"
proof -
  let ?p = "appendValue 0 4 (appendValue 0 3 (snd (addBlock 0 emptyProcedure)))"
  have v: "block ?p 0 \<noteq> None" "valuesIn ?p 0 = [3, 4]"
    by (simp_all add: appendValue_def updateBlock_def setBlock_def addBlock_def emptyProcedure_def block_def
        valuesIn_def at_def mkBasicBlock_def)
  show ?thesis
    using insertion_set_splices [of ?p 0 "[(1, 7), (0, 8), (1, 9)]"] v
    by (simp add: spliced_def upt_rec)
qed

subsection \<open>Lowering macros\<close>

text \<open>
  C9: The phase \<open>lowerMacros\<close> ends on every procedure that is ready for it (\<open>loweringReady\<close>): well-typed, with a root, every value in one block, blocks
  that pass the validator, are all owned, have owned predecessors and an index below the number of blocks, and switches with distinct case values
  that fit the type of the operand. On these none of its assertions fails, with
  and without validation, where the second run must find nothing to do. The blocks of the result are
  closed under successors, each ends in a control value, and no \<open>ChillDiv\<close> and no \<open>Switch\<close> is left in them.
\<close>

theorem lowerMacros_removes_macros:
  assumes "loweringReady p"
  shows "\<exists>ch p'. lowerMacros validate p = Some (ch, p') \<and> procInv p' \<and> closedCFG p' \<and>
    (\<forall>b \<in> set (blocksOf p'). endsInTerminal p' b \<and>
       (\<forall>i \<in> set (valuesIn p' b). \<exists>v. valuesOf p' i = Some v \<and> m_opcode v \<noteq> ChillDiv \<and> m_opcode v \<noteq> Switch))"
proof -
  obtain ch p' where "lowerMacros validate p = Some (ch, p')" "lowered p'" using lowerMacros_lowers [OF assms] by blast
  then show ?thesis unfolding lowered_def isLowered_def by blast
qed

theorem lowerMacros_removes_macros_witness:
  "\<exists>ch p'. lowerMacros True macroProcedure = Some (ch, p') \<and> closedCFG p' \<and>
    (\<forall>b \<in> set (blocksOf p'). \<forall>i \<in> set (valuesIn p' b). \<exists>v. valuesOf p' i = Some v \<and> m_opcode v \<noteq> ChillDiv \<and> m_opcode v \<noteq> Switch)"
  using lowerMacros_removes_macros [OF macroProcedure_ready, of True] by blast

text \<open>
  C33: A procedure with nothing to lower goes through the phase unchanged, and the phase says so.
\<close>

theorem lowerMacros_idle:
  assumes "\<forall>b \<in> set (blocksOf p). \<forall>i \<in> set (valuesIn p b). \<exists>v. valuesOf p i = Some v \<and> m_opcode v \<noteq> ChillDiv \<and> m_opcode v \<noteq> Switch"
  shows "lowerMacros validate p = Some (False, p)"
proof -
  have "lowerMacrosImpl p = Some (False, p)" by (rule lowerMacrosImpl_idle) (use assms in \<open>auto simp: isLowered_def\<close>)
  then show ?thesis by (simp add: lowerMacros_def)
qed

theorem lowerMacros_idle_witness: "lowerMacros True boolProcedure = Some (False, boolProcedure)"
proof -
  have "blocksOf boolProcedure = [0]" "valuesIn boolProcedure 0 = [0, 1, 2, 3, 4, 5]" by code_simp+
  then show ?thesis
    by (intro lowerMacros_idle) (simp add: valuesOf_eq boolProcedure_values(1) boolValues_def mk_defs)
qed

text \<open>
  C10: The lowering of a switch whose case values are distinct and fit the type of its operand (\<open>lowerableSwitch\<close>; the source does not check it) is the switch: from the block that held it, and whatever the values of the
  operands, the binary search of branches that takes its place goes to the block that the switch selects,
  through values without effect. Every other value stays as it is, every assignment of values extends to the new
  ones, and none of those is a macro.
\<close>

theorem lowerSwitch_selects:
  assumes "procInv (lm_proc lm)" "wtStore (valuesOf (lm_proc lm))" "block (lm_proc lm) (lm_block lm) \<noteq> None"
    "valuesOf (lm_proc lm) (lm_value lm) = Some v" "lowerableSwitch (valuesOf (lm_proc lm)) v"
  shows "\<exists>lm'. lowerSwitch v lm = Some lm' \<and> procInv (lm_proc lm') \<and> wtStore (valuesOf (lm_proc lm')) \<and>
    (\<forall>j w. valuesOf (lm_proc lm) j = Some w \<longrightarrow> valuesOf (lm_proc lm') j = (if j = lm_value lm then None else Some w)) \<and>
    (\<forall>j w. valuesOf (lm_proc lm) j = None \<longrightarrow> valuesOf (lm_proc lm') j = Some w \<longrightarrow> isLowered w) \<and>
    (\<forall>env. solution (valuesOf (lm_proc lm)) env \<longrightarrow>
       (\<exists>env'. solution (valuesOf (lm_proc lm')) env' \<and> (\<forall>j \<in> dom (valuesOf (lm_proc lm)). env' j = env j))) \<and>
    (\<forall>env h. solution (valuesOf (lm_proc lm')) env \<longrightarrow>
       (\<exists>target is. observe env (lm_value lm) v = Goto target \<and>
          runsTo (lm_proc lm') env (lm_block lm, h) (target, h @ butlast (valuesIn (lm_proc lm) (lm_block lm)) @ is) \<and>
          silent (lm_proc lm') env is))"
proof -
  obtain lm2 q where q: "lowerSwitch v lm = Some (lm2\<lparr>lm_proc := q, lm_changed := True\<rparr>)" and
      "switchLowered (lm_value lm) v (lm_block lm) (lm_proc lm) q"
    by (rule lowerSwitch_lowers [OF assms])
  then show ?thesis by (intro exI [of _ "lm2\<lparr>lm_proc := q, lm_changed := True\<rparr>"]) (simp add: switchLowered_def)
qed

theorem lowerSwitch_selects_witness:
  "\<exists>lm'. lowerSwitch (the (valuesOf macroProcedure 3)) (macroState 3) = Some lm' \<and>
    (\<forall>env. solution (valuesOf (lm_proc lm')) env \<longrightarrow>
       (\<exists>target is. observe env 3 (the (valuesOf macroProcedure 3)) = Goto target \<and>
          runsTo (lm_proc lm') env (0, []) (target, [0, 1, 2] @ is) \<and> silent (lm_proc lm') env is))"
proof -
  let ?v = "the (valuesOf macroProcedure 3)"
  have h: "procInv (lm_proc (macroState 3))" "wtStore (valuesOf (lm_proc (macroState 3)))" "block (lm_proc (macroState 3)) (lm_block (macroState 3)) \<noteq> None"
    "valuesOf (lm_proc (macroState 3)) (lm_value (macroState 3)) = Some ?v" "lowerableSwitch (valuesOf (lm_proc (macroState 3))) ?v"
    using macroProcedure_inv(1,2,7) macroProcedure_live(1) macroProcedure_values(3) by (simp_all add: switchesLowerable_def mk_defs)
  obtain lm' where r: "lowerSwitch ?v (macroState 3) = Some lm'"
    "\<And>env h. solution (valuesOf (lm_proc lm')) env \<Longrightarrow>
       \<exists>target is. observe env 3 ?v = Goto target \<and> runsTo (lm_proc lm') env (0, h) (target, h @ butlast [0, 1, 2, 3] @ is) \<and> silent (lm_proc lm') env is"
    using lowerSwitch_selects [OF h] unfolding macroState_simps macroProcedure_values(1) by blast
  have "\<exists>target is. observe env 3 ?v = Goto target \<and> runsTo (lm_proc lm') env (0, []) (target, [0, 1, 2] @ is) \<and> silent (lm_proc lm') env is"
    if "solution (valuesOf (lm_proc lm')) env" for env
    using r(2) [OF that, of "[]"] by simp
  then show ?thesis using r(1) by blast
qed

text \<open>
  C11: The lowering of a division by \<open>ChillDiv\<close> is the division: it splits the block in front of the value, and from the
  new block the control flow comes back to the rest of the old one with the phi set to
  exactly the quotient that \<open>ChillDiv\<close> gives, also for a denominator \<open>0\<close> or \<open>-1\<close>. The value becomes the
  identity on the phi, the predecessors of the old block go to the new one, and the new values are no macros.
\<close>

theorem lowerChillDiv_divides:
  assumes "procInv (lm_proc lm)" "wtStore (valuesOf (lm_proc lm))" "block (lm_proc lm) (lm_block lm) \<noteq> None"
    "at (valuesIn (lm_proc lm) (lm_block lm)) (lm_index lm) = Some (lm_value lm)"
    "valuesOf (lm_proc lm) (lm_value lm) = Some v" "m_opcode v = ChillDiv"
    "\<forall>c \<in> set (predsOf (lm_proc lm) (lm_block lm)). endsInTerminal (lm_proc lm) c" "\<forall>q \<in> set (lm_insertionSet lm). fst q \<le> lm_index lm"
  shows "\<exists>lm' phi. lowerChillDiv v lm = Some lm' \<and> procInv (lm_proc lm') \<and> wtStore (valuesOf (lm_proc lm')) \<and>
    valuesOf (lm_proc lm') (lm_value lm) = Some (mkValue Identity (m_type v) (m_origin v) [phi] NoPayload) \<and>
    valuesIn (lm_proc lm') (lm_block lm) = drop (lm_index lm) (valuesIn (lm_proc lm) (lm_block lm)) \<and>
    (\<forall>j w. j \<noteq> lm_value lm \<longrightarrow> valuesOf (lm_proc lm) j = Some w \<longrightarrow> valuesOf (lm_proc lm') j =
       redirected (lm_block lm) (length (m_heap (lm_proc lm))) (retargeted (lm_proc lm) (lm_block lm)) (valuesOf (lm_proc lm)) j) \<and>
    (\<forall>j w. valuesOf (lm_proc lm) j = None \<longrightarrow> valuesOf (lm_proc lm') j = Some w \<longrightarrow> isLowered w) \<and>
    (\<forall>env. solution (valuesOf (lm_proc lm)) env \<longrightarrow>
       (\<exists>env'. solution (valuesOf (lm_proc lm')) env' \<and> (\<forall>j \<in> dom (valuesOf (lm_proc lm)). env' j = env j))) \<and>
    (\<forall>env h. solution (valuesOf (lm_proc lm')) env \<longrightarrow>
       (\<exists>is x. runsTo (lm_proc lm') env (length (m_heap (lm_proc lm)), h)
            (lm_block lm, h @ spliced (take (lm_index lm) (valuesIn (lm_proc lm) (lm_block lm))) (lm_insertionSet lm) @ is) \<and>
          observed (lm_proc lm') env is = [SetPhi (Some phi) [x]] \<and> evalValue env v = Exactly x))"
proof -
  obtain bb where bb: "block (lm_proc lm) (lm_block lm) = Some bb" using assms(3) by blast
  obtain q phi where q: "lowerChillDiv v lm = Some (lm\<lparr>lm_proc := q, lm_blockInsertions := lm_blockInsertions lm @
        map (\<lambda>n. (bb_index bb, n)) [length (m_heap (lm_proc lm))..<length (m_heap (lm_proc lm)) + 6],
        lm_insertionSet := [(0, phi)], lm_index := 0, lm_changed := True\<rparr>)"
      "chillLowered (lm_value lm) v (lm_block lm) (lm_index lm) (lm_insertionSet lm) phi (lm_proc lm) q"
    by (rule lowerChillDiv_lowers [OF assms(1,2) bb assms(4-8)])
  show ?thesis by (rule exI, rule exI [of _ phi], rule conjI [OF q(1)]) (use q(2) in \<open>simp add: chillLowered_def Let_def\<close>)
qed

theorem lowerChillDiv_divides_witness:
  "\<exists>lm' phi. lowerChillDiv (mkValue ChillDiv Int64 0 [0, 1] NoPayload) (macroState 2) = Some lm' \<and>
    valuesIn (lm_proc lm') 0 = [2, 3] \<and> valuesOf (lm_proc lm') 2 = Some (mkValue Identity Int64 0 [phi] NoPayload) \<and>
    (\<forall>env. solution (valuesOf (lm_proc lm')) env \<longrightarrow>
       (\<exists>is x. runsTo (lm_proc lm') env (4, []) (0, [0, 1] @ is) \<and> observed (lm_proc lm') env is = [SetPhi (Some phi) [x]] \<and>
          evalValue env (mkValue ChillDiv Int64 0 [0, 1] NoPayload) = Exactly x))"
proof -
  let ?v = "mkValue ChillDiv Int64 0 [0, 1] NoPayload"
  have h: "procInv (lm_proc (macroState 2))" "wtStore (valuesOf (lm_proc (macroState 2)))" "block (lm_proc (macroState 2)) (lm_block (macroState 2)) \<noteq> None"
    "at (valuesIn (lm_proc (macroState 2)) (lm_block (macroState 2))) (lm_index (macroState 2)) = Some (lm_value (macroState 2))"
    "valuesOf (lm_proc (macroState 2)) (lm_value (macroState 2)) = Some ?v" "m_opcode ?v = ChillDiv"
    "\<forall>c \<in> set (predsOf (lm_proc (macroState 2)) (lm_block (macroState 2))). endsInTerminal (lm_proc (macroState 2)) c"
    "\<forall>q \<in> set (lm_insertionSet (macroState 2)). fst q \<le> lm_index (macroState 2)"
    using macroProcedure_inv macroProcedure_live(1) macroProcedure_values by (simp_all add: at_def mk_defs)
  obtain lm' phi where r: "lowerChillDiv ?v (macroState 2) = Some lm'" "valuesIn (lm_proc lm') 0 = drop 2 [0, 1, 2, 3]"
      "valuesOf (lm_proc lm') 2 = Some (mkValue Identity (m_type ?v) (m_origin ?v) [phi] NoPayload)"
      "\<And>env h. solution (valuesOf (lm_proc lm')) env \<Longrightarrow>
         \<exists>is x. runsTo (lm_proc lm') env (length (m_heap macroProcedure), h) (0, h @ spliced (take 2 [0, 1, 2, 3]) [] @ is) \<and>
           observed (lm_proc lm') env is = [SetPhi (Some phi) [x]] \<and> evalValue env ?v = Exactly x"
    using lowerChillDiv_divides [OF h] unfolding macroState_simps macroProcedure_values(1) by (elim exE conjE) (rule that; (assumption | blast))
  have "\<exists>is x. runsTo (lm_proc lm') env (4, []) (0, [0, 1] @ is) \<and> observed (lm_proc lm') env is = [SetPhi (Some phi) [x]] \<and> evalValue env ?v = Exactly x"
    if "solution (valuesOf (lm_proc lm')) env" for env
    using r(4) [OF that, of "[]"] macroProcedure_live(3) by simp
  then show ?thesis using r(1-3) by (simp add: mk_defs)
qed

text \<open>
  C31: \<open>splitForward\<close> splits a block in front of a value: the new block gets the values before it, with the pending insertions executed,
  and a jump to the old block, which keeps the rest. The new block takes over the predecessors, whose control
  values now go to it, the old one has the new one as its only predecessor, and no other block changes.
\<close>

theorem splitForward_splits:
  assumes "procInv p" "block p b = Some bb" "at (valuesIn p b) k = Some i" "valuesOf p i \<noteq> None"
    "\<forall>c \<in> set (predsOf p b). endsInTerminal p c" "\<forall>q \<in> set ins. fst q \<le> k"
  shows "\<exists>p' j org. splitForward b k ins PNaN (p, bs) = Some (length (m_heap p), p', bs @ [(bb_index bb, length (m_heap p))]) \<and>
    procInv p' \<and> m_blocks p' = m_blocks p \<and> valuesOf p j = None \<and>
    valuesOf p' = (redirected b (length (m_heap p)) ((\<lambda>c. last (valuesIn p c)) ` set (predsOf p b)) (valuesOf p))(j \<mapsto> JumpValue org (b, Normal)) \<and>
    valuesIn p' (length (m_heap p)) = spliced (take k (valuesIn p b)) ins @ [j] \<and> valuesIn p' b = drop k (valuesIn p b) \<and>
    predsOf p' (length (m_heap p)) = predsOf p b \<and> predsOf p' b = [length (m_heap p)] \<and>
    (\<forall>c. c \<noteq> b \<longrightarrow> c \<noteq> length (m_heap p) \<longrightarrow> block p' c = block p c)"
proof -
  obtain p' j where "splitForward b k ins PNaN (p, bs) = Some (length (m_heap p), p', bs @ [(bb_index bb, length (m_heap p))])"
      "splitResult b k ins (length (m_heap p)) j p p'"
    by (rule splitForward_spec [OF assms])
  then show ?thesis unfolding splitResult_def by blast
qed

theorem splitForward_splits_witness:
  "\<exists>p' j. splitForward 0 2 [(1, 9)] PNaN (macroProcedure, []) = Some (4, p', [(0, 4)]) \<and>
    valuesIn p' 4 = [0, 9, 1, j] \<and> valuesIn p' 0 = [2, 3] \<and> predsOf p' 0 = [4]"
proof -
  obtain bb where bb: "block macroProcedure 0 = Some bb" "bb_index bb = 0" using macroProcedure_live(2) by auto
  have h: "at (valuesIn macroProcedure 0) 2 = Some 2" "valuesOf macroProcedure 2 \<noteq> None"
    "\<forall>c \<in> set (predsOf macroProcedure 0). endsInTerminal macroProcedure c" "\<forall>q \<in> set [(1, 9)]. fst q \<le> (2 :: nat)"
    using macroProcedure_values by (simp_all add: at_def)
  show ?thesis
    using splitForward_splits [OF macroProcedure_inv(1) bb(1) h, of "[]"] bb(2) macroProcedure_values(1,4) macroProcedure_live(3)
    by (auto simp: spliced_def upt_rec)
qed

text \<open>
  C32: Executing a block insertion set splices the new blocks in front of the blocks at their indices, in the order of
  insertion, drops null entries, numbers every block by its position and changes nothing else.
\<close>

theorem block_insertions_renumber:
  assumes "insertions \<noteq> []" "\<forall>(i, b) \<in> set insertions. i \<le> length (m_blocks p)" "distinct (blocksOf p @ map snd insertions)"
  shows "\<exists>p'. executeBlockInsertions (p, insertions) = (True, p') \<and> m_blocks p' = splicedBlocks p insertions \<and> valuesOf p' = valuesOf p \<and>
    (\<forall>i b. i < length (m_blocks p') \<longrightarrow> m_blocks p' ! i = Some b \<longrightarrow> block p' b = map_option (bb_index_update (\<lambda>_. i)) (block p b)) \<and>
    (\<forall>b. Some b \<notin> set (m_blocks p') \<longrightarrow> block p' b = block p b)"
proof -
  let ?p = "p\<lparr>m_blocks := splicedBlocks p insertions\<rparr>"
  note S = splicedBlocks_owns [of insertions p]
  have at: "\<forall>x \<in> set insertions. fst x \<le> length (m_blocks p)" using assms(2) by auto
  have "distinct (map the (splicedBlocks p insertions))" using assms(3) mset_eq_imp_distinct_iff [OF S(1) [OF at, folded mset_append]] by simp
  then have ok: "distinct (m_blocks ?p)" "None \<notin> set (m_blocks ?p)" using S(2) [OF at] by (simp_all add: distinct_map)
  note R = renumber_blocks [OF ok]
  have "block (renumber ?p) b = map_option (bb_index_update (\<lambda>_. i)) (block p b)"
    if "i < length (splicedBlocks p insertions)" "splicedBlocks p insertions ! i = Some b" for i b
    using R(5) [of i] that by (simp add: block_def)
  moreover have "block (renumber ?p) b = block p b" if "Some b \<notin> set (splicedBlocks p insertions)" for b
    using R(6) [of b] that by (simp add: block_def)
  moreover have "valuesOf ?p = valuesOf p" by (simp add: valuesOf_def fun_eq_iff)
  ultimately show ?thesis using executeBlockInsertions_renumber [OF assms(1,2)] R(1,2) by simp
qed

theorem block_insertions_renumber_witness:
  "\<exists>p'. executeBlockInsertions (sampleProcedure, [(2, 6), (0, 5), (2, 7)]) = (True, p') \<and>
    m_blocks p' = [Some 5, Some 0, Some 1, Some 6, Some 7, Some 2, Some 3, Some 4] \<and> map_option bb_index (block p' 3) = Some 6"
proof -
  let ?ins = "[(2, 6), (0, 5), (2, 7)]" and ?bs = "[Some 5, Some 0, Some 1, Some 6, Some 7, Some 2, Some 3, Some 4] :: block_ptr option list"
  have h: "?ins \<noteq> []" "\<forall>(i, b) \<in> set ?ins. i \<le> length (m_blocks sampleProcedure)" "distinct (blocksOf sampleProcedure @ map snd ?ins)"
    by (simp_all add: blocksOf_def sampleProcedure_blocks)
  have s: "splicedBlocks sampleProcedure ?ins = ?bs"
    by (simp add: splicedBlocks_def sampleProcedure_blocks spliced_def upt_rec)
  obtain p' where p': "executeBlockInsertions (sampleProcedure, ?ins) = (True, p')" "m_blocks p' = ?bs"
      "\<And>i b. i < length (m_blocks p') \<Longrightarrow> m_blocks p' ! i = Some b \<Longrightarrow> block p' b = map_option (bb_index_update (\<lambda>_. i)) (block sampleProcedure b)"
    using block_insertions_renumber [OF h] unfolding s by blast
  have "block sampleProcedure 3 \<noteq> None" by code_simp
  then have "map_option bb_index (block p' 3) = Some 6" using p'(3) [of 6 3] p'(2) by auto
  then show ?thesis using p'(1,2) by blast
qed

text \<open>
  C34: \<open>appendCase\<close> adds one case after the others and keeps the fall-through: the new switch goes where the
  old one goes, and to the target of the new case where the old one falls through on its value.
\<close>

theorem appendCase_adds:
  assumes "length ss = Suc (length vs)"
  shows "\<exists>ss' vs'. appendCase (c, t) (ss, vs) = (ss', vs') \<and> length ss' = Suc (length vs') \<and> last ss' = last ss \<and>
    zip vs' ss' = zip vs ss @ [(c, t)] \<and>
    (\<forall>x. switchTarget x ss' vs' =
       (if (\<forall>v \<in> set vs. \<not> caseMatches x v) \<and> caseMatches x c then Some (fst t) else switchTarget x ss vs))"
proof -
  obtain ts f where ss: "ss = ts @ [f]" "length ts = length vs" using assms by (cases ss rule: rev_cases) simp_all
  have "switchTarget x (ts @ [t, f]) (vs @ [c]) =
      (if (\<forall>v \<in> set vs. \<not> caseMatches x v) \<and> caseMatches x c then Some (fst t) else switchTarget x (ts @ [f]) vs)" for x
    using ss(2) by (induction ts vs rule: list_induct2) simp_all
  moreover have "appendCase (c, t) (ss, vs) = (ts @ [t, f], vs @ [c])" by (simp add: appendCase_def ss(1))
  ultimately show ?thesis using ss by (simp add: zip_append2)
qed

theorem appendCase_adds_witness:
  "\<exists>ss' vs'. appendCase (9, (4, Normal)) ([(1, Normal), (2, Normal), (3, Rare)], [7, 5]) = (ss', vs') \<and> last ss' = (3, Rare) \<and>
    zip vs' ss' = [(7, (1, Normal)), (5, (2, Normal)), (9, (4, Normal))]"
  using appendCase_adds [of "[(1, Normal), (2, Normal), (3, Rare)]" "[7, 5]" 9 "(4, Normal)"] by fastforce

text \<open>
  C35: \<open>removeCase\<close> is wrong for every case but the last: it moves the fall-through into the gap, so that the
  last case then goes to the fall-through block, and the block of the last case becomes the fall-through.
\<close>

theorem removeCase_moves_fallThrough:
  assumes "length ss = Suc (length vs)" "Suc index < length vs"
  shows "\<exists>ss' vs'. removeCase index (ss, vs) = Some ((vs ! index, ss ! index), ss', vs') \<and>
    zip vs' ss' ! index = (last vs, last ss) \<and> last ss' = ss ! (length vs - 1)"
proof -
  have vs: "vs \<noteq> []" and i: "index < length vs" "index < length ss" using assms by auto
  let ?ss = "butlast (ss[index := last ss])" and ?vs = "butlast (vs[index := last vs])"
  have "removeCase index (ss, vs) = Some ((vs ! index, ss ! index), ?ss, ?vs)" using i by (simp add: removeCase_def at_def)
  moreover have "zip ?vs ?ss ! index = (last vs, last ss)" using assms by (simp add: nth_butlast)
  moreover have "last ?ss = ss ! (length vs - 1)"
  proof -
    have ne: "?ss \<noteq> []" "length ?ss = length vs" using assms(1) vs by (auto simp flip: length_greater_0_conv)
    then have "last ?ss = ?ss ! (length vs - 1)" by (simp add: last_conv_nth)
    also have "\<dots> = ss ! (length vs - 1)" using assms vs by (simp add: nth_butlast)
    finally show ?thesis .
  qed
  ultimately show ?thesis by blast
qed

theorem removeCase_moves_fallThrough_witness:
  "\<exists>ss' vs'. removeCase 0 ([(1, Normal), (2, Normal), (3, Rare)], [7, 5]) = Some ((7, (1, Normal)), ss', vs') \<and>
    zip vs' ss' ! 0 = (5, (3, Rare)) \<and> last ss' = (2, Normal)"
  using removeCase_moves_fallThrough [of "[(1, Normal), (2, Normal), (3, Rare)]" "[7, 5]" 0] by simp

subsection \<open>Value keys and the motion of constants\<close>

text \<open>
  C12: on a valid procedure \<open>moveConstants\<close> never fails and leaves a valid procedure with the same blocks, in which the old
  constants are no-ops and every materialization a value uses is in the block of that value, no later than it. Where the loads from the
  data section yield its contents, every solution of the new procedure comes from one of the old procedure with the same results
  and observations of all values but the constants.
\<close>

theorem moveConstants_refines:
  assumes "procInv p" "wtStore (valuesOf p)" "placement p" "distinct (blocksOf p)" "\<forall>b \<in> set (blocksOf p). block p b \<noteq> None"
    "upsilonsSetPhis (valuesOf p)" "length (m_values p) \<le> 2 ^ 28"
  shows "\<exists>mc. moveConstants allocate p = Some mc \<and> procInv (mc_proc mc) \<and> wtStore (valuesOf (mc_proc mc)) \<and> m_blocks (mc_proc mc) = m_blocks p \<and>
    (\<forall>b \<in> set (blocksOf p). materializedInBlock p (mc_proc mc) b) \<and>
    (\<forall>i v. valuesOf p i = Some v \<and> isConstant v \<longrightarrow> valuesOf (mc_proc mc) i = Some (replaceWithNop v)) \<and>
    (\<forall>env. solution (valuesOf (mc_proc mc)) env \<and> tableLoads (mc_dataSection mc) (mc_data mc) (valuesOf (mc_proc mc)) env \<longrightarrow>
       (\<exists>env0. solution (valuesOf p) env0 \<and>
          (\<forall>i v. valuesOf p i = Some v \<and> \<not> isConstant v \<longrightarrow>
             env0 i = env i \<and> (\<exists>v'. valuesOf (mc_proc mc) i = Some v' \<and> observe env i v' = observe env0 i v))))"
proof -
  have live: "block p b \<noteq> None" if "b \<in> set (blocksOf p)" for b using assms(5) that by blast
  obtain mc where mc: "moveConstants allocate p = Some mc" "procInv (mc_proc mc)" "wtStore (valuesOf (mc_proc mc))" "m_blocks (mc_proc mc) = m_blocks p"
      "\<And>b. b \<in> set (blocksOf p) \<Longrightarrow> materializedInBlock p (mc_proc mc) b"
      "constantsMoved (valuesOf p) (mc_dataSection mc) (mc_data mc) (valuesOf (mc_proc mc))" "8 * length (mc_data mc) \<le> 2 ^ 31"
    by (rule moveConstants_moves [OF assms(1-4) live assms(6,7), of allocate]) blast+
  have "valuesOf (mc_proc mc) i = Some (replaceWithNop v)" if "valuesOf p i = Some v" "isConstant v" for i v
    using mc(6) that unfolding constantsMoved_def by fastforce
  moreover have "\<exists>env0. solution (valuesOf p) env0 \<and>
      (\<forall>i v. valuesOf p i = Some v \<and> \<not> isConstant v \<longrightarrow>
         env0 i = env i \<and> (\<exists>v'. valuesOf (mc_proc mc) i = Some v' \<and> observe env i v' = observe env0 i v))"
    if "solution (valuesOf (mc_proc mc)) env" "tableLoads (mc_dataSection mc) (mc_data mc) (valuesOf (mc_proc mc)) env" for env
    using constantsMoved_solution [OF mc(6) assms(2) that mc(7)] by blast
  ultimately show ?thesis using mc(1-5) by (intro exI [of _ mc]) simp
qed

theorem moveConstants_refines_witness:
  "\<exists>env0. solution (valuesOf constantsProcedure) env0 \<and> env0 2 = constantsEnv 2 \<and>
     (\<exists>v'. valuesOf movedProcedure 5 = Some v' \<and>
        observe constantsEnv 5 v' = observe env0 5 (ReturnValue 0 0))"
proof -
  obtain mc where mc: "moveConstants (\<lambda>_. 4096) constantsProcedure = Some mc"
    and sound: "\<And>env. solution (valuesOf (mc_proc mc)) env \<Longrightarrow> tableLoads (mc_dataSection mc) (mc_data mc) (valuesOf (mc_proc mc)) env \<Longrightarrow>
       \<exists>env0. solution (valuesOf constantsProcedure) env0 \<and>
          (\<forall>i v. valuesOf constantsProcedure i = Some v \<and> \<not> isConstant v \<longrightarrow>
             env0 i = env i \<and> (\<exists>v'. valuesOf (mc_proc mc) i = Some v' \<and> observe env i v' = observe env0 i v))"
    using moveConstants_refines [OF constantsProcedure_ready, of "\<lambda>_. 4096"] by blast
  have "mc_proc mc = movedProcedure" "mc_dataSection mc = 4096" "mc_data mc = [three]"
    using mc moveConstants_data by (simp_all add: movedProcedure_def)
  then obtain env0 where env0: "solution (valuesOf constantsProcedure) env0"
      "\<And>i v. valuesOf constantsProcedure i = Some v \<Longrightarrow> \<not> isConstant v \<Longrightarrow>
         env0 i = constantsEnv i \<and> (\<exists>v'. valuesOf movedProcedure i = Some v' \<and> observe constantsEnv i v' = observe env0 i v)"
    using sound [of constantsEnv] checkEnv_holds [OF constantsEnv_checks] by auto
  moreover have "valuesOf constantsProcedure 2 = Some (mkValue Add Int64 0 [1, 1] NoPayload)" "\<not> isConstant (mkValue Add Int64 0 [1, 1] NoPayload)"
      "valuesOf constantsProcedure 5 = Some (ReturnValue 0 0)" "\<not> isConstant (ReturnValue 0 0)"
    by code_simp+
  ultimately show ?thesis by blast
qed

text \<open>
  C13: values of a well-typed store with the same key that is not empty have the same opcode and type and yield the same result, as long as
  the indices of their children fit in 32 bits.
\<close>

theorem valueKey_determines:
  assumes "wtValue s v" "valueKey v = Some k" "wtValue s w" "valueKey w = Some k" "k \<noteq> emptyKey"
    "\<forall>c \<in> set (m_children v) \<union> set (m_children w). c < 2 ^ 32"
  shows "m_opcode w = m_opcode v \<and> m_type w = m_type v \<and> evalValue env w = evalValue env v"
  using key_determines [OF assms] by simp

theorem valueKey_determines_witness:
  "evalValue (\<lambda>_. V64 4) (mkValue Sub Int64 7 [1, 0] NoPayload) = evalValue (\<lambda>_. V64 4) (mkValue Sub Int64 0 [1, 0] NoPayload) \<and>
   valueKey (mkValue Sub Int64 0 [1, 0] NoPayload) \<noteq> valueKey (mkValue Sub Int64 0 [0, 1] NoPayload)"
proof -
  let ?s = "[0 \<mapsto> Const64Value 0 1, 1 \<mapsto> Const64Value 0 2] :: store"
  have "wtValue ?s (mkValue Sub Int64 0 [1, 0] NoPayload)" "wtValue ?s (mkValue Sub Int64 7 [1, 0] NoPayload)"
    "valueKey (mkValue Sub Int64 0 [1, 0] NoPayload) = Some (indexKey Sub Int64 [1, 0])"
    "valueKey (mkValue Sub Int64 7 [1, 0] NoPayload) = Some (indexKey Sub Int64 [1, 0])" "indexKey Sub Int64 [1, 0] \<noteq> emptyKey"
    "valueKey (mkValue Sub Int64 0 [1, 0] NoPayload) \<noteq> valueKey (mkValue Sub Int64 0 [0, 1] NoPayload)"
    by code_simp+
  then show ?thesis
    using valueKey_determines [of ?s "mkValue Sub Int64 0 [1, 0] NoPayload" "indexKey Sub Int64 [1, 0]" "mkValue Sub Int64 7 [1, 0] NoPayload" "\<lambda>_. V64 4"]
    by (simp add: mkValue_def)
qed

text \<open>
  C25: the key of a constant or of the frame pointer can be materialized, into a value of the same type and result that has the
  same key. The materialization of a binary operation does not depend on the children its key holds.
\<close>

theorem key_materializes:
  assumes "wtValue s v" "isConstant v \<or> m_opcode v = FramePointer"
  shows "(\<exists>k w. valueKey v = Some k \<and> canMaterialize k \<and> materializedValue k p origin = Some w \<and> valueKey w = Some k \<and>
      m_type w = m_type v \<and> evalValue env w = evalValue env v) \<and>
    (opcode \<in> set binaryKeyOps \<longrightarrow>
      materializedValue (indexKey opcode type [a, b]) p origin = materializedValue (indexKey opcode type [c, d]) p origin)"
  using materialize_leaf [OF assms] materialize_ignores_children by blast

theorem key_materializes_witness:
  "(\<exists>k w. valueKey (ConstDoubleValue 0 three) = Some k \<and> materializedValue k sampleProcedure 3 = Some w \<and> valueKey w = Some k) \<and>
   materializedValue (indexKey Sub Int64 [2, 3]) sampleProcedure 3 = materializedValue (indexKey Sub Int64 [3, 2]) sampleProcedure 3"
proof -
  have "wtValue (\<lambda>_. None) (ConstDoubleValue 0 three)" "isConstant (ConstDoubleValue 0 three) \<or> m_opcode (ConstDoubleValue 0 three) = FramePointer"
      "Sub \<in> set binaryKeyOps"
    by code_simp+
  then show ?thesis
    using key_materializes [of "\<lambda>_. None" "ConstDoubleValue 0 three" sampleProcedure 3 "\<lambda>_. VVoid" Sub Int64 2 3 3 2] by blast
qed

end
